(* ===== verification/Prelude.thy ===== *)
theory Prelude imports
  Main
  "HOL-Library.Word"
begin

text \<open>
  Shared vocabulary of the development: the machine integers of the C++ sources, the signed
  32-bit integers as a linear order, the byte-level view of packed little-endian structs,
  the standard library's ordered maps as sorted association lists, and the two result shapes
  used by all components (a sum for exceptions, an option of a sum where a loop may not end).
\<close>

unbundle bit_operations_syntax

section \<open>Machine integers\<close>

type_synonym u8 = "8 word"
type_synonym u16 = "16 word"
type_synonym u32 = "32 word"
type_synonym u64 = "64 word"

text \<open>
  \<open>int32_t\<close>: 32 bits that are compared as two's complement.  A conversion between
  \<open>int32_t\<close> and \<open>uint32_t\<close> keeps the bits, so it is the constructor or the selector.
\<close>

datatype i32 = I32 (i32_bits: u32)

definition i32_val :: "i32 \<Rightarrow> int" where
  "i32_val x = sint (i32_bits x)"

lemma i32_val_I32 [simp]: "i32_val (I32 w) = sint w"
  by (simp add: i32_val_def)

lemma i32_val_inject: "i32_val x = i32_val y \<longleftrightarrow> x = y"
  by (cases x; cases y) (auto simp: i32_val_def intro: signed_word_eqI)

instantiation i32 :: linorder
begin

definition less_eq_i32 :: "i32 \<Rightarrow> i32 \<Rightarrow> bool" where
  "x \<le> y \<longleftrightarrow> i32_val x \<le> i32_val y"

definition less_i32 :: "i32 \<Rightarrow> i32 \<Rightarrow> bool" where
  "x < y \<longleftrightarrow> i32_val x < i32_val y"

instance
  by standard (auto simp: less_eq_i32_def less_i32_def i32_val_inject)

end

text \<open>A signed 32-bit result of arithmetic on values, wrapped to 32 bits.\<close>

definition i32_of_int :: "int \<Rightarrow> i32" where
  "i32_of_int n = I32 (word_of_int n)"

lemma i32_of_int_val [simp]: "i32_of_int (i32_val x) = x"
  by (cases x) (simp add: i32_of_int_def)

lemma i32_val_of_int:
  "- (2 ^ 31) \<le> n \<Longrightarrow> n < 2 ^ 31 \<Longrightarrow> i32_val (i32_of_int n) = n"
  by (simp add: i32_of_int_def sint_sbintrunc' signed_take_bit_int_eq_self)

section \<open>Packed little-endian structs as bytes\<close>

text \<open>
  The wire structs are declared \<open>packed\<close> and copied byte for byte, so a struct is the
  concatenation of its fields, each with its least significant byte first.
\<close>

fun le_bytes :: "nat \<Rightarrow> 'a::len word \<Rightarrow> u8 list" where
  "le_bytes 0 w = []"
| "le_bytes (Suc n) w = ucast w # le_bytes n (drop_bit 8 w)"

fun le_word :: "u8 list \<Rightarrow> 'a::len word" where
  "le_word [] = 0"
| "le_word (b # bs) = ucast b OR push_bit 8 (le_word bs)"

text \<open>\<open>field off n buf\<close> is the field of \<open>n\<close> bytes at offset \<open>off\<close> of a buffer.\<close>

definition field :: "nat \<Rightarrow> nat \<Rightarrow> u8 list \<Rightarrow> 'a::len word" where
  "field off n buf = le_word (take n (drop off buf))"

lemma length_le_bytes [simp]: "length (le_bytes n w) = n"
  by (induction n arbitrary: w) auto

lemma le_word_le_bytes_take: "le_word (le_bytes n w) = (take_bit (8 * n) w :: 'a::len word)"
proof (induction n arbitrary: w)
  case 0
  show ?case by simp
next
  case (Suc n)
  have "ucast (ucast w :: u8) OR push_bit 8 (take_bit (8 * n) (drop_bit 8 w))
      = (take_bit (8 * Suc n) w :: 'a word)"
    by (rule bit_word_eqI)
      (auto simp: bit_simps not_le)
  with Suc show ?case by simp
qed

lemma le_word_le_bytes [simp]:
  "le_word (le_bytes 8 w) = (w :: u64)"
  "le_word (le_bytes 4 d) = (d :: u32)"
  "le_word (le_bytes 2 h) = (h :: u16)"
  "le_word (le_bytes 1 b) = (b :: u8)"
  by (simp_all add: le_word_le_bytes_take take_bit_word_eq_self del: le_bytes.simps)

lemma le_word_singleton [simp]: "le_word [b] = (b :: u8)"
  by simp

lemma field_append_head [simp]:
  "length xs = n \<Longrightarrow> field 0 n (xs @ ys) = le_word xs"
  by (simp add: field_def)

lemma field_append_skip:
  "length xs \<le> off \<Longrightarrow> field off n (xs @ ys) = field (off - length xs) n ys"
  by (simp add: field_def)

lemma field_Cons_skip: "0 < off \<Longrightarrow> field off n (b # bs) = field (off - 1) n bs"
  by (cases off) (simp_all add: field_def)

lemma field_Cons_head [simp]: "field 0 (Suc 0) (b # bs) = (b :: u8)"
  by (simp add: field_def)

lemmas field_lookup = field_append_skip field_Cons_skip

section \<open>Ordered maps of the standard library\<close>

text \<open>
  A \<open>std::map\<close> is the list of its entries in iteration order.  \<open>omap_insert\<close> is
  \<open>insert\<close>, which keeps an entry that is already there, \<open>omap_update\<close> writes through an
  iterator or a reference to an entry, and \<open>omap_erase\<close> is \<open>erase\<close>; \<open>map_of\<close> is \<open>find\<close>.
\<close>

fun omap_insert :: "('k \<Rightarrow> 'k \<Rightarrow> bool) \<Rightarrow> 'k \<Rightarrow> 'v \<Rightarrow> ('k \<times> 'v) list \<Rightarrow> ('k \<times> 'v) list" where
  "omap_insert before k v [] = [(k, v)]"
| "omap_insert before k v ((k', v') # m) =
     (if k = k' then (k', v') # m
      else if before k k' then (k, v) # (k', v') # m
      else (k', v') # omap_insert before k v m)"

definition omap_update :: "'k \<Rightarrow> ('v \<Rightarrow> 'v) \<Rightarrow> ('k \<times> 'v) list \<Rightarrow> ('k \<times> 'v) list" where
  "omap_update k f m = map (\<lambda>(k', v). (k', if k' = k then f v else v)) m"

definition omap_erase :: "'k \<Rightarrow> ('k \<times> 'v) list \<Rightarrow> ('k \<times> 'v) list" where
  "omap_erase k m = filter (\<lambda>e. fst e \<noteq> k) m"

definition ordered_map :: "('k \<Rightarrow> 'k \<Rightarrow> bool) \<Rightarrow> ('k \<times> 'v) list \<Rightarrow> bool" where
  "ordered_map before m \<longleftrightarrow> sorted_wrt before (map fst m)"

lemma omap_update_simps [simp]:
  "omap_update k f [] = []"
  "omap_update k f ((k', v) # m) = (k', if k' = k then f v else v) # omap_update k f m"
  by (simp_all add: omap_update_def)

lemma omap_erase_simps [simp]:
  "omap_erase k [] = []"
  "omap_erase k ((k', v) # m) = (if k' = k then omap_erase k m else (k', v) # omap_erase k m)"
  by (simp_all add: omap_erase_def)

lemma map_fst_omap_update [simp]: "map fst (omap_update k f m) = map fst m"
  by (induction m) auto

lemma map_of_omap_update: "map_of (omap_update k f m) k' =
    (if k' = k then map_option f (map_of m k) else map_of m k')"
  by (induction m) auto

lemma map_of_omap_erase: "map_of (omap_erase k m) = (map_of m)(k := None)"
  by (induction m) (auto simp: fun_eq_iff)

lemma omap_update_absent: "k \<notin> fst ` set m \<Longrightarrow> omap_update k f m = m"
  by (induction m) (auto simp: image_iff)

lemma omap_erase_absent: "k \<notin> fst ` set m \<Longrightarrow> omap_erase k m = m"
  by (induction m) (auto simp: image_iff)

lemma ordered_map_simps [simp]:
  "ordered_map before []"
  "ordered_map before ((k, v) # m) \<longleftrightarrow> (\<forall>e \<in> set m. before k (fst e)) \<and> ordered_map before m"
  by (auto simp: ordered_map_def)

lemma ordered_map_append: "ordered_map before (m @ m') \<longleftrightarrow>
    ordered_map before m \<and> ordered_map before m' \<and>
    (\<forall>e \<in> set m. \<forall>e' \<in> set m'. before (fst e) (fst e'))"
  by (auto simp: ordered_map_def sorted_wrt_append)

lemma ordered_map_update [simp]:
  "ordered_map before (omap_update k f m) \<longleftrightarrow> ordered_map before m"
  by (simp add: ordered_map_def)

lemma ordered_map_erase: "ordered_map before m \<Longrightarrow> ordered_map before (omap_erase k m)"
  by (induction m) (auto simp: omap_erase_def)

text \<open>
  The comparator of a \<open>std::map\<close> is a strict total order; everything the components need
  of insertion follows from these three laws.
\<close>

locale key_order =
  fixes before :: "'k \<Rightarrow> 'k \<Rightarrow> bool"
  assumes irreflexive: "\<not> before k k"
    and transitive: "before k k' \<Longrightarrow> before k' k'' \<Longrightarrow> before k k''"
    and total: "k \<noteq> k' \<Longrightarrow> before k k' \<or> before k' k"
begin

lemma ordered_fst_distinct: "ordered_map before m \<Longrightarrow> distinct (map fst m)"
  by (induction m) (use irreflexive in force)+

lemma set_omap_insert:
  "e \<in> set (omap_insert before k v m) \<Longrightarrow> e = (k, v) \<or> e \<in> set m"
  by (induction m) (auto split: if_splits)

lemma ordered_insert:
  "ordered_map before m \<Longrightarrow> ordered_map before (omap_insert before k v m)"
proof (induction m)
  case (Cons e m)
  then show ?case
    using total [of k "fst e"] by (cases e) (auto dest!: set_omap_insert intro: transitive)
qed simp

lemma map_of_insert: "map_of m k = None \<Longrightarrow>
    map_of (omap_insert before k v m) = (map_of m)(k \<mapsto> v)"
  by (induction m) (auto simp: fun_eq_iff split: if_splits)

lemma insert_present: "ordered_map before m \<Longrightarrow> map_of m k = Some w \<Longrightarrow>
    omap_insert before k v m = m"
proof (induction m)
  case (Cons e m)
  obtain k' v' where e: "e = (k', v')" by (cases e)
  show ?case
  proof (cases "k = k'")
    case False
    with Cons.prems e have "map_of m k = Some w" by simp
    moreover from this Cons.prems e have "before k' k"
      by (fastforce dest: map_of_SomeD)
    ultimately show ?thesis
      using Cons e False irreflexive transitive by auto
  qed (simp add: e)
qed simp

lemma insert_split: "ordered_map before m \<Longrightarrow> map_of m k = None \<Longrightarrow>
    \<exists>m1 m2. m = m1 @ m2 \<and> omap_insert before k v m = m1 @ (k, v) # m2 \<and>
      (\<forall>e \<in> set m1. before (fst e) k) \<and> (\<forall>e \<in> set m2. before k (fst e))"
proof (induction m)
  case (Cons e m)
  obtain k' v' where e: "e = (k', v')" by (cases e)
  show ?case
  proof (cases "before k k'")
    case True
    with Cons.prems e show ?thesis
      by (intro exI [of _ "[]"] exI [of _ "e # m"]) (auto split: if_splits intro: transitive)
  next
    case False
    with Cons.prems e have "before k' k" using total [of k k'] by (auto split: if_splits)
    moreover from Cons e obtain m1 m2 where "m = m1 @ m2"
      "omap_insert before k v m = m1 @ (k, v) # m2"
      "\<forall>e \<in> set m1. before (fst e) k" "\<forall>e \<in> set m2. before k (fst e)"
      by (auto split: if_splits)
    ultimately show ?thesis using False Cons.prems e
      by (intro exI [of _ "e # m1"] exI [of _ m2]) (auto split: if_splits)
  qed
qed auto

lemma insert_at: "\<forall>e \<in> set m1. before (fst e) k \<Longrightarrow> \<forall>e \<in> set m2. before k (fst e) \<Longrightarrow>
    omap_insert before k v (m1 @ m2) = m1 @ (k, v) # m2"
proof (induction m1)
  case Nil
  then show ?case using irreflexive by (cases m2) auto
next
  case (Cons e m1)
  obtain k' v' where e: "e = (k', v')" by (cases e)
  with Cons.prems(1) have "before k' k" by simp
  then have "k \<noteq> k'" "\<not> before k k'" using irreflexive transitive by blast+
  with Cons e show ?case by simp
qed

end

text \<open>\<open>std::less\<close> and \<open>std::greater\<close> are such comparators.\<close>

interpretation ascending: key_order "(<) :: 'a::linorder \<Rightarrow> 'a \<Rightarrow> bool"
  by unfold_locales auto

interpretation descending: key_order "(>) :: 'a::linorder \<Rightarrow> 'a \<Rightarrow> bool"
  by unfold_locales auto

end
