(* ===== verification/System.thy ===== *)
theory System imports
  Prelude
begin

text \<open>
  What the program sees of the operating system: the clock of \<open>utils.cpp\<close>, and the calls on
  sockets.  The system's answers are functions of an environment, numbered by the calls made so
  far, and the calls themselves are recorded in the order in which they are made.
\<close>

type_synonym sock = int

datatype sys_call =
    SendCall sock "u8 list"
  | WriteCall sock "u8 list"
  | ShutdownCall sock
  | CloseCall sock
  | SendtoCall sock "u8 list"

text \<open>
  The answer to \<open>send\<close> or \<open>write\<close>: a number of bytes taken, \<open>EAGAIN\<close> or \<open>EWOULDBLOCK\<close>,
  \<open>ENOTSOCK\<close>, or another error.
\<close>

datatype send_answer = Taken nat | WouldBlock | NotSocket | SendError

record system =
  s_clock_reads :: nat
  s_calls :: "sys_call list"

text \<open>
  \<open>env_indeterminate\<close> gives the value of a field that the program sends without having set it,
  \<open>env_random\<close> the draws of a random generator, and \<open>env_shuffle\<close> the order in which an
  \<open>unordered_map\<close> of so many entries is iterated, as a list of the entries' numbers.
\<close>

record env =
  env_monotonic :: "nat \<Rightarrow> nat \<times> nat"
  env_send :: "sys_call list \<Rightarrow> sys_call \<Rightarrow> send_answer"
  env_random :: "nat \<Rightarrow> u64"
  env_indeterminate :: "nat \<Rightarrow> u64"
  env_shuffle :: "nat \<Rightarrow> nat list"

definition no_calls :: system where
  "no_calls = \<lparr>s_clock_reads = 0, s_calls = []\<rparr>"

text \<open>A system that takes every byte; the witnesses of the properties use it.\<close>

fun taken_bytes :: "sys_call \<Rightarrow> nat" where
  "taken_bytes (SendCall fd b) = length b"
| "taken_bytes (WriteCall fd b) = length b"
| "taken_bytes (SendtoCall fd b) = length b"
| "taken_bytes _ = 0"

definition calm_env :: env where
  "calm_env = \<lparr>env_monotonic = (\<lambda>n. (0, n)), env_send = (\<lambda>_ c. Taken (taken_bytes c)),
     env_random = of_nat, env_indeterminate = (\<lambda>_. 0),
     env_shuffle = (\<lambda>n. [0..<n])\<rparr>"

definition sys_do :: "sys_call \<Rightarrow> system \<Rightarrow> system" where
  "sys_do c s = s\<lparr>s_calls := s_calls s @ [c]\<rparr>"

definition shutdown_close :: "sock \<Rightarrow> system \<Rightarrow> system" where
  "shutdown_close fd s = sys_do (CloseCall fd) (sys_do (ShutdownCall fd) s)"

text \<open>The datagrams handed to \<open>sendto\<close> on one socket.\<close>

fun datagram_of :: "sock \<Rightarrow> sys_call \<Rightarrow> u8 list option" where
  "datagram_of fd (SendtoCall fd' b) = (if fd' = fd then Some b else None)"
| "datagram_of fd _ = None"

definition datagrams :: "sock \<Rightarrow> system \<Rightarrow> u8 list list" where
  "datagrams fd s = List.map_filter (datagram_of fd) (s_calls s)"

lemma datagrams_do [simp]: "datagrams fd (sys_do c s) =
    datagrams fd s @ (case datagram_of fd c of None \<Rightarrow> [] | Some b \<Rightarrow> [b])"
  by (simp add: datagrams_def sys_do_def map_filter_def split: option.split)

definition iterate :: "env \<Rightarrow> 'a list \<Rightarrow> 'a list" where
  "iterate e xs = map (\<lambda>k. xs ! k) (env_shuffle e (length xs))"

text \<open>The standard only promises that an iteration meets every entry once.\<close>

definition fair_iteration :: "env \<Rightarrow> bool" where
  "fair_iteration e \<longleftrightarrow> (\<forall>n. distinct (env_shuffle e n) \<and> set (env_shuffle e n) = {..<n})"

lemma set_iterate: "fair_iteration e \<Longrightarrow> set (iterate e xs) = set xs"
  unfolding fair_iteration_def iterate_def
  by (auto simp: in_set_conv_nth)

lemma calm_fair: "fair_iteration calm_env"
  by (auto simp: fair_iteration_def calm_env_def)

section \<open>The clock\<close>

text \<open>
  \<open>ts.tv_sec * 1e9 + ts.tv_nsec\<close> is computed in \<open>double\<close>.  Numbers below \<open>2^53\<close> are exact; a
  larger one is rounded to 53 significant bits, to the nearest, ties to even.
\<close>

fun spare_bits :: "nat \<Rightarrow> nat" where
  "spare_bits n = (if n < 2 ^ 53 then 0 else Suc (spare_bits (n div 2)))"

declare spare_bits.simps [simp del]

definition round_double :: "nat \<Rightarrow> nat" where
  "round_double n =
    (let e = spare_bits n;
         q = n div 2 ^ e;
         r = n mod 2 ^ e
     in if e = 0 then n
        else if 2 * r > 2 ^ e \<or> 2 * r = 2 ^ e \<and> odd q then (q + 1) * 2 ^ e else q * 2 ^ e)"

definition nanoseconds :: "nat \<Rightarrow> nat \<Rightarrow> u64" where
  "nanoseconds sec nsec = of_nat (round_double (round_double (sec * 10 ^ 9) + nsec))"

definition nanotime :: "env \<Rightarrow> system \<Rightarrow> u64 \<times> system" where
  "nanotime e s = (let (sec, nsec) = env_monotonic e (s_clock_reads s)
     in (nanoseconds sec nsec, s\<lparr>s_clock_reads := s_clock_reads s + 1\<rparr>))"

text \<open>The value of one reading, and the values read so far.\<close>

definition clock :: "env \<Rightarrow> nat \<Rightarrow> u64" where
  "clock e n = nanoseconds (fst (env_monotonic e n)) (snd (env_monotonic e n))"

definition clocked :: "env \<Rightarrow> system \<Rightarrow> u64 \<Rightarrow> bool" where
  "clocked e s i \<longleftrightarrow> (\<exists>n < s_clock_reads s. clock e n = i)"

definition distinct_times :: "env \<Rightarrow> system \<Rightarrow> bool" where
  "distinct_times e s \<longleftrightarrow> inj_on (clock e) {..<s_clock_reads s}"

lemma nanotime_clock: "nanotime e s =
    (clock e (s_clock_reads s), s\<lparr>s_clock_reads := s_clock_reads s + 1\<rparr>)"
  by (simp add: nanotime_def clock_def split: prod.split)

lemma clocked_mono: "clocked e s i \<Longrightarrow> s_clock_reads s \<le> s_clock_reads s' \<Longrightarrow> clocked e s' i"
  unfolding clocked_def using order_less_le_trans by blast

lemma clocked_read:
  assumes "nanotime e s = (t, s')"
  shows "clocked e s' t" and "clocked e s i \<Longrightarrow> clocked e s' i"
    and "distinct_times e s' \<Longrightarrow> \<not> clocked e s t"
proof -
  have t: "t = clock e (s_clock_reads s)" and s': "s_clock_reads s' = Suc (s_clock_reads s)"
    using assms by (auto simp: nanotime_clock)
  then show "clocked e s' t" by (auto simp: clocked_def)
  show "clocked e s i \<Longrightarrow> clocked e s' i" by (erule clocked_mono) (simp add: s')
  show "distinct_times e s' \<Longrightarrow> \<not> clocked e s t"
    by (auto simp: t s' clocked_def distinct_times_def dest: inj_onD)
qed

lemma distinct_times_mono:
  "distinct_times e s' \<Longrightarrow> s_clock_reads s \<le> s_clock_reads s' \<Longrightarrow> distinct_times e s"
  unfolding distinct_times_def by (erule inj_on_subset) auto

lemma reads_do [simp]:
  "s_clock_reads (sys_do c s) = s_clock_reads s"
  "s_clock_reads (shutdown_close fd s) = s_clock_reads s"
  by (simp_all add: sys_do_def shutdown_close_def)

text \<open>For the first hundred days of uptime the clock is exact.\<close>

lemma round_double_small [simp]: "n < 2 ^ 53 \<Longrightarrow> round_double n = n"
  by (simp add: round_double_def spare_bits.simps)

lemma nanoseconds_exact:
  assumes "sec * 10 ^ 9 + nsec < 2 ^ 53"
  shows "nanoseconds sec nsec = of_nat (sec * 10 ^ 9 + nsec)"
proof -
  have "sec * 10 ^ 9 < 2 ^ 53" using assms by simp
  then have "round_double (sec * 10 ^ 9) = sec * 10 ^ 9" by (rule round_double_small)
  then show ?thesis unfolding nanoseconds_def using assms by simp
qed

section \<open>Writing a whole message to a socket\<close>

text \<open>
  The loop of \<open>ClientHandler::write_msg\<close>.  While the socket would block it tries again, without
  looking at the clock; after every part that was taken it gives up when ten milliseconds are over,
  even if that part was the last one.
\<close>

definition SEND_TIMEOUT :: u64 where "SEND_TIMEOUT = 10000000"

definition send_or_write :: "env \<Rightarrow> sock \<Rightarrow> u8 list \<Rightarrow> system \<Rightarrow> send_answer \<times> system" where
  "send_or_write e fd bytes s =
    (let c = SendCall fd bytes; a = env_send e (s_calls s) c; s = sys_do c s
     in if a = NotSocket
        then (let c = WriteCall fd bytes in (env_send e (s_calls s) c, sys_do c s))
        else (a, s))"

partial_function (option) send_all ::
  "env \<Rightarrow> sock \<Rightarrow> u8 list \<Rightarrow> u64 \<Rightarrow> system \<Rightarrow> (bool \<times> system) option" where
  "send_all e fd bytes start s =
    (if bytes = [] then Some (True, s)
     else
       (case send_or_write e fd bytes s of
          (WouldBlock, s) \<Rightarrow> send_all e fd bytes start s
        | (NotSocket, s) \<Rightarrow> Some (False, s)
        | (SendError, s) \<Rightarrow> Some (False, s)
        | (Taken n, s) \<Rightarrow>
            (let (now, s) = nanotime e s
             in if now - start > SEND_TIMEOUT then Some (False, s)
                else send_all e fd (drop n bytes) start s)))"

lemma send_all_reads: "send_all e fd bytes start s = Some (ok, s') \<Longrightarrow> s_clock_reads s \<le> s_clock_reads s'"
proof -
  assume run: "send_all e fd bytes start s = Some (ok, s')"
  have "s_clock_reads s \<le> s_clock_reads (snd (ok, s'))"
  proof (rule send_all.raw_induct [of "\<lambda>e fd bytes start s r. s_clock_reads s \<le> s_clock_reads (snd r)",
      OF _ run], goal_cases)
    case (1 loop e fd bytes start s r)
    obtain a s1 where sw: "send_or_write e fd bytes s = (a, s1)" by fastforce
    then have "s_clock_reads s1 = s_clock_reads s"
      by (auto simp: send_or_write_def Let_def split: if_splits)
    moreover have "loop e fd b start s2 = Some r \<Longrightarrow> s_clock_reads s2 \<le> s_clock_reads (snd r)" for b s2
      using 1(1) .
    ultimately show ?case using 1(2) sw
      by (auto simp: Let_def nanotime_clock split: if_splits send_answer.splits) fastforce+
  qed
  then show ?thesis by simp
qed

text \<open>
  A network that takes every message at once, and a clock of which no two readings in a row, among
  its first \<open>N\<close>, are more than the timeout apart.
\<close>

definition prompt :: "env \<Rightarrow> nat \<Rightarrow> bool" where
  "prompt e N \<longleftrightarrow> (\<forall>cs c. env_send e cs c = Taken (taken_bytes c)) \<and>
     (\<forall>n. Suc n < N \<longrightarrow> clock e (Suc n) - clock e n \<le> SEND_TIMEOUT)"

lemma send_all_prompt:
  assumes "prompt e N" "start = clock e k" "s_clock_reads s = Suc k" "Suc k < N"
  shows "\<exists>s'. send_all e fd bytes start s = Some (True, s') \<and>
    s_calls s' = s_calls s @ (if bytes = [] then [] else [SendCall fd bytes]) \<and> s_clock_reads s' \<le> Suc (Suc k)"
proof (cases "bytes = []")
  case True
  then show ?thesis using assms(3) by (subst send_all.simps) simp
next
  case False
  have sw: "send_or_write e fd bytes s = (Taken (length bytes), sys_do (SendCall fd bytes) s)"
    using assms(1) by (simp add: send_or_write_def prompt_def)
  let ?s1 = "(sys_do (SendCall fd bytes) s)\<lparr>s_clock_reads := Suc (Suc k)\<rparr>"
  have now: "nanotime e (sys_do (SendCall fd bytes) s) = (clock e (Suc k), ?s1)"
    using assms(3) by (simp add: nanotime_clock)
  have "\<not> clock e (Suc k) - start > SEND_TIMEOUT"
    using assms(1,2,4) unfolding prompt_def by (simp add: not_less)
  moreover have "send_all e fd [] start ?s1 = Some (True, ?s1)" by (subst send_all.simps) simp
  moreover have "s_calls ?s1 = s_calls s @ [SendCall fd bytes]" by (simp add: sys_do_def)
  ultimately show ?thesis using False sw now
    by (subst send_all.simps) simp
qed

text \<open>A clock that counts is such a clock, for as long as it is exact.\<close>

lemma calm_clock: "n < 2 ^ 53 \<Longrightarrow> clock calm_env n = of_nat n"
  by (simp add: clock_def calm_env_def nanoseconds_def)

lemma calm_prompt: "prompt calm_env (2 ^ 53)"
proof -
  have "clock calm_env (Suc n) - clock calm_env n \<le> SEND_TIMEOUT" if "Suc n < 2 ^ 53" for n
    using that by (simp add: calm_clock SEND_TIMEOUT_def)
  then show ?thesis by (simp add: prompt_def calm_env_def)
qed

end
