(* ===== verification/Md_Protocol.thy ===== *)
theory Md_Protocol imports
  Prelude
begin

text \<open>
  \<open>market_data/md_protocol.H\<close>: the market data messages and their packed layout.  A message is
  its 23-byte header followed by the fields of its struct; the byte order is little-endian.
\<close>

section \<open>Enumerations\<close>

text \<open>
  \<open>enum class SIDE: uint8_t\<close>.  A side read from the wire can hold any byte; the bytes without
  an enumerator are \<open>SideByte\<close>.
\<close>

datatype side = BUY | SELL | SideByte u8

definition side_of_byte :: "u8 \<Rightarrow> side" where
  "side_of_byte b = (if b = 1 then BUY else if b = 2 then SELL else SideByte b)"

fun side_byte :: "side \<Rightarrow> u8" where
  "side_byte BUY = 1"
| "side_byte SELL = 2"
| "side_byte (SideByte b) = b"

lemma side_byte_of_byte [simp]: "side_byte (side_of_byte b) = b"
  by (simp add: side_of_byte_def)

lemma side_of_byte_byte [simp]:
  "side_of_byte (side_byte s) = s \<longleftrightarrow> s \<notin> {SideByte 1, SideByte 2}"
  by (cases s) (auto simp: side_of_byte_def)

lemma side_of_byte_1_2 [simp]: "side_of_byte 1 = BUY" "side_of_byte 2 = SELL"
  by (simp_all add: side_of_byte_def)

lemma side_of_byte_not_named [simp]:
  "side_of_byte b \<noteq> SideByte 1" "side_of_byte b \<noteq> SideByte 2"
  by (auto simp: side_of_byte_def)

text \<open>\<open>enum class MSG_TYPE: uint8_t\<close>.\<close>

datatype md_msg_type =
  MD_HEARTBEAT | MD_NEW_ORDER | MD_DELETE_ORDER | MD_MODIFY_ORDER
  | MD_TRADE | MD_TRADE_SUMMARY | MD_SNAPSHOT_INFO

fun md_type_code :: "md_msg_type \<Rightarrow> u8" where
  "md_type_code MD_HEARTBEAT = 0"
| "md_type_code MD_NEW_ORDER = 1"
| "md_type_code MD_DELETE_ORDER = 2"
| "md_type_code MD_MODIFY_ORDER = 3"
| "md_type_code MD_TRADE = 4"
| "md_type_code MD_TRADE_SUMMARY = 5"
| "md_type_code MD_SNAPSHOT_INFO = 6"

definition md_type_of_code :: "u8 \<Rightarrow> md_msg_type option" where
  "md_type_of_code b =
     (if b = 0 then Some MD_HEARTBEAT else if b = 1 then Some MD_NEW_ORDER
      else if b = 2 then Some MD_DELETE_ORDER else if b = 3 then Some MD_MODIFY_ORDER
      else if b = 4 then Some MD_TRADE else if b = 5 then Some MD_TRADE_SUMMARY
      else if b = 6 then Some MD_SNAPSHOT_INFO else None)"

lemma md_type_of_code_code [simp]: "md_type_of_code (md_type_code t) = Some t"
  by (cases t) (simp_all add: md_type_of_code_def)

section \<open>Magic numbers\<close>

text \<open>The eight characters of the string, read as one little-endian 64-bit number.\<close>

definition magic_of :: "string \<Rightarrow> u64" where
  "magic_of s = le_word (map of_char s)"

definition MAGIC_NUMBER :: u64 where
  "MAGIC_NUMBER = magic_of ''GOIRISH!''"

definition SNAPSHOT_MAGIC_NUMBER :: u64 where
  "SNAPSHOT_MAGIC_NUMBER = magic_of ''SNAPSHOT''"

lemma magic_numbers_differ: "MAGIC_NUMBER \<noteq> SNAPSHOT_MAGIC_NUMBER"
  by (simp add: MAGIC_NUMBER_def SNAPSHOT_MAGIC_NUMBER_def magic_of_def)

section \<open>Messages\<close>

text \<open>One constructor for each message struct, with its fields after the header.\<close>

datatype md_msg =
    Heartbeat
  | NewOrder (no_order_id: u64) (no_symbol: u32) (no_side: side) (no_quantity: u32)
      (no_price: i32) (no_flags: u8)
  | DeleteOrder (do_order_id: u64)
  | ModifyOrder (mo_order_id: u64) (mo_side: side) (mo_quantity: u32) (mo_price: i32)
  | Trade (tr_order_id: u64) (tr_quantity: u32) (tr_price: i32)
  | TradeSummary (ts_symbol: u32) (ts_aggressor_side: side) (ts_total_quantity: u32)
      (ts_last_price: i32)
  | SnapshotInfo (si_symbol: u32) (si_bid_count: u32) (si_ask_count: u32)
      (si_last_md_seq_num: u32)

fun md_type_of :: "md_msg \<Rightarrow> md_msg_type" where
  "md_type_of Heartbeat = MD_HEARTBEAT"
| "md_type_of (NewOrder i y s q p f) = MD_NEW_ORDER"
| "md_type_of (DeleteOrder i) = MD_DELETE_ORDER"
| "md_type_of (ModifyOrder i s q p) = MD_MODIFY_ORDER"
| "md_type_of (Trade i q p) = MD_TRADE"
| "md_type_of (TradeSummary y s q p) = MD_TRADE_SUMMARY"
| "md_type_of (SnapshotInfo y b a n) = MD_SNAPSHOT_INFO"

text \<open>\<open>sizeof\<close> of each struct; the header has 8 + 2 + 4 + 8 + 1 bytes.\<close>

definition md_header_size :: nat where
  "md_header_size = 23"

fun md_sizeof :: "md_msg_type \<Rightarrow> nat" where
  "md_sizeof MD_HEARTBEAT = 23"
| "md_sizeof MD_NEW_ORDER = 45"
| "md_sizeof MD_DELETE_ORDER = 31"
| "md_sizeof MD_MODIFY_ORDER = 40"
| "md_sizeof MD_TRADE = 39"
| "md_sizeof MD_TRADE_SUMMARY = 36"
| "md_sizeof MD_SNAPSHOT_INFO = 39"

definition MAX_MSG_SIZE :: nat where
  "MAX_MSG_SIZE = max (md_sizeof MD_NEW_ORDER) (max (md_sizeof MD_DELETE_ORDER)
     (max (md_sizeof MD_MODIFY_ORDER) (max (md_sizeof MD_TRADE)
     (max (md_sizeof MD_TRADE_SUMMARY) (md_sizeof MD_SNAPSHOT_INFO)))))"

lemma md_sizeof_bounds: "23 \<le> md_sizeof t" "md_sizeof t \<le> 45"
  by (cases t; simp)+

lemma md_sizeof_le_MAX: "md_sizeof t \<le> MAX_MSG_SIZE"
  by (cases t) (simp_all add: MAX_MSG_SIZE_def)

section \<open>Layout\<close>

text \<open>\<open>struct md_header\<close>.\<close>

record md_header =
  mh_magic_number :: u64
  mh_length :: u16
  mh_seq_num :: u32
  mh_timestamp :: u64
  mh_msg_type :: u8

definition encode_md_header :: "md_header \<Rightarrow> u8 list" where
  "encode_md_header h = le_bytes 8 (mh_magic_number h) @ le_bytes 2 (mh_length h)
     @ le_bytes 4 (mh_seq_num h) @ le_bytes 8 (mh_timestamp h) @ [mh_msg_type h]"

definition md_header_at :: "u8 list \<Rightarrow> md_header" where
  "md_header_at buf = \<lparr>mh_magic_number = field 0 8 buf, mh_length = field 8 2 buf,
     mh_seq_num = field 10 4 buf, mh_timestamp = field 14 8 buf, mh_msg_type = field 22 1 buf\<rparr>"

fun encode_md_body :: "md_msg \<Rightarrow> u8 list" where
  "encode_md_body Heartbeat = []"
| "encode_md_body (NewOrder i y s q p f) = le_bytes 8 i @ le_bytes 4 y @ [side_byte s]
     @ le_bytes 4 q @ le_bytes 4 (i32_bits p) @ [f]"
| "encode_md_body (DeleteOrder i) = le_bytes 8 i"
| "encode_md_body (ModifyOrder i s q p) = le_bytes 8 i @ [side_byte s] @ le_bytes 4 q
     @ le_bytes 4 (i32_bits p)"
| "encode_md_body (Trade i q p) = le_bytes 8 i @ le_bytes 4 q @ le_bytes 4 (i32_bits p)"
| "encode_md_body (TradeSummary y s q p) = le_bytes 4 y @ [side_byte s] @ le_bytes 4 q
     @ le_bytes 4 (i32_bits p)"
| "encode_md_body (SnapshotInfo y b a n) = le_bytes 4 y @ le_bytes 4 b @ le_bytes 4 a
     @ le_bytes 4 n"

text \<open>\<open>reinterpret_cast\<close> of a buffer to the struct of a message type.\<close>

fun md_msg_at :: "md_msg_type \<Rightarrow> u8 list \<Rightarrow> md_msg" where
  "md_msg_at MD_HEARTBEAT buf = Heartbeat"
| "md_msg_at MD_NEW_ORDER buf = NewOrder (field 23 8 buf) (field 31 4 buf)
     (side_of_byte (field 35 1 buf)) (field 36 4 buf) (I32 (field 40 4 buf)) (field 44 1 buf)"
| "md_msg_at MD_DELETE_ORDER buf = DeleteOrder (field 23 8 buf)"
| "md_msg_at MD_MODIFY_ORDER buf = ModifyOrder (field 23 8 buf)
     (side_of_byte (field 31 1 buf)) (field 32 4 buf) (I32 (field 36 4 buf))"
| "md_msg_at MD_TRADE buf = Trade (field 23 8 buf) (field 31 4 buf) (I32 (field 35 4 buf))"
| "md_msg_at MD_TRADE_SUMMARY buf = TradeSummary (field 23 4 buf)
     (side_of_byte (field 27 1 buf)) (field 28 4 buf) (I32 (field 32 4 buf))"
| "md_msg_at MD_SNAPSHOT_INFO buf = SnapshotInfo (field 23 4 buf) (field 27 4 buf)
     (field 31 4 buf) (field 35 4 buf)"

text \<open>A whole message with the header fields that \<open>write_msg\<close> fills in.\<close>

definition encode_md :: "u64 \<Rightarrow> u32 \<Rightarrow> u64 \<Rightarrow> md_msg \<Rightarrow> u8 list" where
  "encode_md magic seq ts m =
     encode_md_header \<lparr>mh_magic_number = magic, mh_length = of_nat (md_sizeof (md_type_of m)),
       mh_seq_num = seq, mh_timestamp = ts, mh_msg_type = md_type_code (md_type_of m)\<rparr>
     @ encode_md_body m"

text \<open>A message whose side, if it has one, is written the way the decoder reads it.\<close>

fun md_msg_canonical :: "md_msg \<Rightarrow> bool" where
  "md_msg_canonical (NewOrder i y s q p f) = (s \<notin> {SideByte 1, SideByte 2})"
| "md_msg_canonical (ModifyOrder i s q p) = (s \<notin> {SideByte 1, SideByte 2})"
| "md_msg_canonical (TradeSummary y s q p) = (s \<notin> {SideByte 1, SideByte 2})"
| "md_msg_canonical m = True"

lemma length_encode_md_header [simp]: "length (encode_md_header h) = 23"
  by (simp add: encode_md_header_def)

lemma length_encode_md_body: "23 + length (encode_md_body m) = md_sizeof (md_type_of m)"
  by (cases m) simp_all

lemma length_encode_md [simp]: "length (encode_md g n t m) = md_sizeof (md_type_of m)"
  by (simp add: encode_md_def length_encode_md_body)

lemma encode_md_nonempty [simp]: "encode_md g n t m \<noteq> []"
proof
  assume "encode_md g n t m = []"
  then have "length (encode_md g n t m) = 0" by simp
  then show False using md_sizeof_bounds(1) [of "md_type_of m"] by simp
qed

lemma md_header_at_encode [simp]: "md_header_at (encode_md_header h @ rest) = h"
  by (simp add: md_header_at_def encode_md_header_def field_lookup del: le_bytes.simps)

lemma field_past_header:
  "23 \<le> off \<Longrightarrow> field off n (encode_md_header h @ bs) = field (off - 23) n bs"
  by (simp add: field_append_skip)

lemma i32_bits_I32 [simp]: "I32 (i32_bits p) = p"
  by simp

lemma md_msg_at_encode:
  "md_msg_canonical m \<Longrightarrow> md_msg_at (md_type_of m) (encode_md_header h @ encode_md_body m @ rest) = m"
  by (cases m)
    (simp_all add: field_past_header field_lookup del: le_bytes.simps)

lemma md_header_at_encode_md: "md_header_at (encode_md g n t m @ rest) =
    \<lparr>mh_magic_number = g, mh_length = of_nat (md_sizeof (md_type_of m)), mh_seq_num = n,
     mh_timestamp = t, mh_msg_type = md_type_code (md_type_of m)\<rparr>"
  by (simp add: encode_md_def)

lemma md_msg_at_encode_md:
  "md_msg_canonical m \<Longrightarrow> md_msg_at (md_type_of m) (encode_md g n t m @ rest) = m"
  by (simp add: encode_md_def md_msg_at_encode)

end
