(* ===== verification/Order_Ladder.thy ===== *)
theory Order_Ladder imports
  Md_Protocol
begin

text \<open>
  \<open>matching_engine/order_ladder.H\<close>, pointer for pointer.  Orders live in a heap that maps
  addresses to \<open>Order\<close> objects, a null pointer is \<open>None\<close>, and the objects come from the
  order pool's blocks.  The calls on the template's subscriber are appended, in the order in
  which they are made, to the field \<open>l_calls\<close>.  An exception carries the state at the throw.
\<close>

section \<open>Data\<close>

type_synonym addr = nat

text \<open>\<open>oe::ORDER_FLAGS::IOC\<close> and \<open>oe::FILL_FLAGS\<close>, as the bytes that the ladder tests and sends.\<close>

definition IOC :: u8 where "IOC = 1"
definition PARTIAL_FILL :: u8 where "PARTIAL_FILL = 1"
definition CLOSED :: u8 where "CLOSED = 2"

definition is_ioc :: "u8 \<Rightarrow> bool" where
  "is_ioc flags \<longleftrightarrow> flags AND IOC \<noteq> 0"

record order =
  o_order_id :: u64
  o_timestamp :: u64
  o_quantity :: u32
  o_filled_quantity :: u32
  o_price :: i32
  o_side :: side
  o_flags :: u8
  o_next :: "addr option"
  o_prev :: "addr option"

record price_level =
  pl_head :: "addr option"
  pl_tail :: "addr option"

text \<open>
  Block \<open>b\<close> of the pool holds the objects at the addresses from
  \<open>b * ORDER_POOL_BLOCK_SIZE\<close>; the free list is a vector, used at its back.
\<close>

record order_pool =
  p_blocks :: nat
  p_free_list :: "addr list"

datatype call =
    OnNewOrder u64 u32 side u32 i32 u8
  | OnModifyOrder u64 u32 side u32 i32
  | OnDeleteOrder u64 bool
  | OnCancelReject u64
  | OnTrade u64 u32 i32
  | OnFill u64 u32 side u32 i32 u8 bool

record ladder =
  l_heap :: "addr \<Rightarrow> order"
  l_orders :: "u64 \<rightharpoonup> addr"
  l_buy_levels :: "(i32 \<times> price_level) list"
  l_sell_levels :: "(i32 \<times> price_level) list"
  l_pool :: order_pool
  l_symbol :: u32
  l_calls :: "call list"

datatype ladder_error =
    FilledExceedsQuantity
  | OrderAlreadyExists
  | ImpossibleQuantity
  | LevelTailNull i32
  | LevelMissing i32 u64
  | LevelNotEmpty i32 u32

type_synonym 'a throws = "(ladder_error \<times> ladder) + 'a"

text \<open>Which of the two price level maps a template instance works on.\<close>

datatype book_side = BuyLevels | SellLevels

fun before :: "book_side \<Rightarrow> i32 \<Rightarrow> i32 \<Rightarrow> bool" where
  "before BuyLevels = (>)"
| "before SellLevels = (<)"

fun levels :: "book_side \<Rightarrow> ladder \<Rightarrow> (i32 \<times> price_level) list" where
  "levels BuyLevels L = l_buy_levels L"
| "levels SellLevels L = l_sell_levels L"

fun set_levels :: "book_side \<Rightarrow> (i32 \<times> price_level) list \<Rightarrow> ladder \<Rightarrow> ladder" where
  "set_levels BuyLevels m L = L\<lparr>l_buy_levels := m\<rparr>"
| "set_levels SellLevels m L = L\<lparr>l_sell_levels := m\<rparr>"

definition call :: "call \<Rightarrow> ladder \<Rightarrow> ladder" where
  "call c L = L\<lparr>l_calls := l_calls L @ [c]\<rparr>"

definition upd_order :: "addr \<Rightarrow> (order \<Rightarrow> order) \<Rightarrow> ladder \<Rightarrow> ladder" where
  "upd_order a f L = L\<lparr>l_heap := (l_heap L)(a := f (l_heap L a))\<rparr>"

section \<open>Order pool\<close>

definition ORDER_POOL_BLOCK_SIZE :: nat where
  "ORDER_POOL_BLOCK_SIZE = 4096"

definition add_block :: "order_pool \<Rightarrow> order_pool" where
  "add_block p = p\<lparr>p_blocks := p_blocks p + 1,
     p_free_list := p_free_list p
       @ map (\<lambda>i. p_blocks p * ORDER_POOL_BLOCK_SIZE + i) [0..<ORDER_POOL_BLOCK_SIZE]\<rparr>"

definition allocate :: "order_pool \<Rightarrow> addr \<times> order_pool" where
  "allocate p0 = (let p = (if p_free_list p0 = [] then add_block p0 else p0)
     in (last (p_free_list p), p\<lparr>p_free_list := butlast (p_free_list p)\<rparr>))"

definition deallocate :: "addr option \<Rightarrow> ladder \<Rightarrow> ladder" where
  "deallocate ptr L = (case ptr of None \<Rightarrow> L
     | Some a \<Rightarrow>
        (let L = upd_order a (\<lambda>x. x\<lparr>o_next := None, o_prev := None\<rparr>) L
         in L\<lparr>l_pool := (l_pool L)\<lparr>p_free_list := p_free_list (l_pool L) @ [a]\<rparr>\<rparr>))"

text \<open>\<open>OrderLadder(subscriber, symbol)\<close>.\<close>

definition null_order :: order where
  "null_order = \<lparr>o_order_id = 0, o_timestamp = 0, o_quantity = 0, o_filled_quantity = 0,
     o_price = I32 0, o_side = SideByte 0, o_flags = 0, o_next = None, o_prev = None\<rparr>"

definition empty_ladder :: "u32 \<Rightarrow> ladder" where
  "empty_ladder symb = \<lparr>l_heap = (\<lambda>_. null_order), l_orders = Map.empty, l_buy_levels = [],
     l_sell_levels = [], l_pool = \<lparr>p_blocks = 0, p_free_list = []\<rparr>, l_symbol = symb,
     l_calls = []\<rparr>"

section \<open>Deleting an order from its price level\<close>

definition handle_delete_order :: "book_side \<Rightarrow> u64 \<Rightarrow> ladder \<Rightarrow> ladder throws" where
  "handle_delete_order bs order_id L =
    (case l_orders L order_id of
       None \<Rightarrow> Inr (call (OnCancelReject order_id) L)
     | Some a \<Rightarrow>
        (case map_of (levels bs L) (o_price (l_heap L a)) of
           None \<Rightarrow> Inl (LevelMissing (o_price (l_heap L a)) order_id, L)
         | Some _ \<Rightarrow>
            let ord = l_heap L a;
                L = set_levels bs (omap_update (o_price ord)
                      (\<lambda>pl. if pl_head pl = Some a then pl\<lparr>pl_head := o_next ord\<rparr> else pl)
                      (levels bs L)) L;
                L = set_levels bs (omap_update (o_price ord)
                      (\<lambda>pl. if pl_tail pl = Some a then pl\<lparr>pl_tail := o_prev ord\<rparr> else pl)
                      (levels bs L)) L;
                L = (case o_prev (l_heap L a) of None \<Rightarrow> L
                     | Some b \<Rightarrow> upd_order b (\<lambda>x. x\<lparr>o_next := o_next (l_heap L a)\<rparr>) L);
                L = (case o_next (l_heap L a) of None \<Rightarrow> L
                     | Some b \<Rightarrow> upd_order b (\<lambda>x. x\<lparr>o_prev := o_prev (l_heap L a)\<rparr>) L);
                L = L\<lparr>l_orders := (l_orders L)(order_id := None)\<rparr>
            in Inr (deallocate (Some a) L)))"

definition erase_if_empty :: "book_side \<Rightarrow> i32 \<Rightarrow> ladder \<Rightarrow> ladder" where
  "erase_if_empty bs price L = (case map_of (levels bs L) price of
      Some pl \<Rightarrow> if pl_head pl = None then set_levels bs (omap_erase price (levels bs L)) L else L
    | None \<Rightarrow> L)"

definition levels_of_side :: "side \<Rightarrow> book_side" where
  "levels_of_side s = (if s = BUY then BuyLevels else SellLevels)"

definition opposite_of_side :: "side \<Rightarrow> book_side" where
  "opposite_of_side s = (if s = BUY then SellLevels else BuyLevels)"

definition delete_order :: "bool \<Rightarrow> u64 \<Rightarrow> ladder \<Rightarrow> ladder throws" where
  "delete_order notify order_id L =
    (case l_orders L order_id of
       None \<Rightarrow> Inr (call (OnCancelReject order_id) L)
     | Some a \<Rightarrow>
        let price = o_price (l_heap L a);
            bs = levels_of_side (o_side (l_heap L a))
        in (case handle_delete_order bs order_id L of
              Inl e \<Rightarrow> Inl e
            | Inr L \<Rightarrow>
               let L = erase_if_empty bs price L
               in Inr (if notify then call (OnDeleteOrder order_id True) L else L)))"

section \<open>Matching\<close>

text \<open>
  The inner loop of \<open>match\<close> walks one price level.  Besides the remaining quantity it returns
  whether the function returned from inside the loop.
\<close>

partial_function (option) match_level ::
  "u64 \<Rightarrow> side \<Rightarrow> book_side \<Rightarrow> addr option \<Rightarrow> u32 \<Rightarrow> ladder \<Rightarrow> (u32 \<times> bool \<times> ladder) throws option" where
  "match_level incoming_id sd bs cur quantity L =
    (case cur of
       None \<Rightarrow> Some (Inr (quantity, False, L))
     | Some a \<Rightarrow>
        (if quantity = 0 then Some (Inr (quantity, False, L))
         else if o_quantity (l_heap L a) \<le> quantity then
           let ord = l_heap L a;
               L = call (OnTrade (o_order_id ord) (o_quantity ord) (o_price ord)) L;
               L = call (OnFill (o_order_id ord) (l_symbol L) (o_side ord) (o_quantity ord)
                     (o_price ord) CLOSED False) L;
               quantity = quantity - o_quantity ord;
               L = call (OnFill incoming_id (l_symbol L) sd (o_quantity ord) (o_price ord)
                     (if quantity > 0 then PARTIAL_FILL else CLOSED) True) L
           in (case handle_delete_order bs (o_order_id ord) L of
                 Inl e \<Rightarrow> Some (Inl e)
               | Inr L' \<Rightarrow> match_level incoming_id sd bs (o_next ord) quantity L')
         else
           let ord = l_heap L a;
               L = call (OnTrade (o_order_id ord) quantity (o_price ord)) L;
               L = call (OnFill (o_order_id ord) (l_symbol L) (o_side ord) quantity
                     (o_price ord) PARTIAL_FILL False) L;
               L = call (OnFill incoming_id (l_symbol L) sd quantity (o_price ord) CLOSED True) L;
               L = upd_order a (\<lambda>x. x\<lparr>o_filled_quantity := o_filled_quantity x + quantity\<rparr>) L;
               L = upd_order a (\<lambda>x. x\<lparr>o_quantity := o_quantity x - quantity\<rparr>) L
           in Some (Inr (0, True, L))))"

definition crosses :: "side \<Rightarrow> i32 \<Rightarrow> i32 \<Rightarrow> bool" where
  "crosses sd price level_price \<longleftrightarrow>
     \<not> (sd = BUY \<and> level_price > price \<or> sd = SELL \<and> level_price < price)"

text \<open>
  The outer loop.  Its iterator starts at \<open>begin()\<close> and moves only by erasing the element it
  is at, so it always stands at the first remaining level.
\<close>

partial_function (option) match_orders ::
  "u64 \<Rightarrow> side \<Rightarrow> u32 \<Rightarrow> i32 \<Rightarrow> book_side \<Rightarrow> ladder \<Rightarrow> (u32 \<times> ladder) throws option" where
  "match_orders incoming_id sd quantity price bs L =
    (case levels bs L of
       [] \<Rightarrow> Some (Inr (quantity, L))
     | (level_price, pl) # _ \<Rightarrow>
        (if quantity = 0 \<or> \<not> crosses sd price level_price then Some (Inr (quantity, L))
         else
          (case match_level incoming_id sd bs (pl_head pl) quantity L of
             None \<Rightarrow> None
           | Some (Inl e) \<Rightarrow> Some (Inl e)
           | Some (Inr (quantity', returned, L')) \<Rightarrow>
              (if returned then Some (Inr (quantity', L'))
               else if map_option pl_head (map_of (levels bs L') level_price) = Some None then
                 match_orders incoming_id sd quantity' price bs
                   (set_levels bs (omap_erase level_price (levels bs L')) L')
               else if quantity' > 0 then Some (Inl (LevelNotEmpty level_price quantity', L'))
               else match_orders incoming_id sd quantity' price bs L'))))"

section \<open>New orders and modifications\<close>

definition insert_order ::
  "u64 \<Rightarrow> side \<Rightarrow> u32 \<Rightarrow> u32 \<Rightarrow> i32 \<Rightarrow> u8 \<Rightarrow> book_side \<Rightarrow> ladder \<Rightarrow> ladder throws" where
  "insert_order order_id sd quantity filled price flags bs L =
    (let (a, pool) = allocate (l_pool L);
         L = L\<lparr>l_pool := pool\<rparr>;
         L = upd_order a (\<lambda>_. \<lparr>o_order_id = order_id, o_timestamp = 0, o_quantity = quantity,
               o_filled_quantity = filled, o_price = price, o_side = sd, o_flags = flags,
               o_next = None, o_prev = None\<rparr>) L
     in case map_of (levels bs L) price of
          None \<Rightarrow>
            let L = set_levels bs (omap_insert (before bs) price
                      \<lparr>pl_head = Some a, pl_tail = Some a\<rparr> (levels bs L)) L
            in Inr (L\<lparr>l_orders := (l_orders L)(order_id \<mapsto> a)\<rparr>)
        | Some pl \<Rightarrow>
           (case pl_tail pl of
              None \<Rightarrow> Inl (LevelTailNull price, L)
            | Some t \<Rightarrow>
               let L = upd_order t (\<lambda>x. x\<lparr>o_next := Some a\<rparr>) L;
                   L = upd_order a (\<lambda>x. x\<lparr>o_prev := Some t\<rparr>) L;
                   L = set_levels bs (omap_update price (\<lambda>l. l\<lparr>pl_tail := Some a\<rparr>) (levels bs L)) L
               in Inr (L\<lparr>l_orders := (l_orders L)(order_id \<mapsto> a)\<rparr>)))"

text \<open>\<open>quantity\<close> is a reference parameter: its final value is returned with the state.\<close>

definition handle_new_order ::
  "u64 \<Rightarrow> side \<Rightarrow> u32 \<Rightarrow> i32 \<Rightarrow> u8 \<Rightarrow> book_side \<Rightarrow> bool \<Rightarrow> u32 \<Rightarrow> ladder
   \<Rightarrow> (u32 \<times> ladder) throws option" where
  "handle_new_order order_id sd quantity price flags bs notify filled_quantity L =
    (if quantity > filled_quantity then
      (let prematch_quantity = quantity - filled_quantity
       in case match_orders order_id sd prematch_quantity price (opposite_of_side sd) L of
            None \<Rightarrow> None
          | Some (Inl e) \<Rightarrow> Some (Inl e)
          | Some (Inr (quantity, L)) \<Rightarrow> Some (
             let L = (if notify \<and> \<not> is_ioc flags
                      then call (OnNewOrder order_id (l_symbol L) sd quantity price flags) L else L)
             in if quantity > 0 \<and> is_ioc flags then
                  Inr (quantity, if notify then call (OnDeleteOrder order_id False) L else L)
                else if quantity = 0 then Inr (quantity, L)
                else if l_orders L order_id \<noteq> None then Inl (OrderAlreadyExists, L)
                else if quantity > prematch_quantity then Inl (ImpossibleQuantity, L)
                else (case insert_order order_id sd quantity (prematch_quantity - quantity) price
                             flags bs L of
                        Inl e \<Rightarrow> Inl e
                      | Inr L \<Rightarrow> Inr (quantity, L))))
     else Some (Inl (FilledExceedsQuantity, L)))"

definition new_order ::
  "u64 \<Rightarrow> side \<Rightarrow> u32 \<Rightarrow> i32 \<Rightarrow> u8 \<Rightarrow> ladder \<Rightarrow> ladder throws option" where
  "new_order order_id sd quantity price flags L =
     map_option (map_sum id snd)
       (handle_new_order order_id sd quantity price flags (levels_of_side sd) True 0 L)"

definition modify_order ::
  "u64 \<Rightarrow> side \<Rightarrow> u32 \<Rightarrow> i32 \<Rightarrow> ladder \<Rightarrow> ladder throws option" where
  "modify_order order_id sd quantity price L =
    (case l_orders L order_id of
       None \<Rightarrow> Some (Inr (call (OnCancelReject order_id) L))
     | Some a \<Rightarrow>
        let ord = l_heap L a
        in if o_filled_quantity ord \<ge> quantity then Some (delete_order True order_id L)
           else if o_price ord = price \<and> o_side ord = sd then
             (let L = upd_order a (\<lambda>x. x\<lparr>o_quantity := quantity\<rparr>) L
              in Some (Inr (call (OnModifyOrder order_id (l_symbol L) sd
                   (quantity - o_filled_quantity (l_heap L a)) price) L)))
           else
             (case delete_order False order_id L of
                Inl e \<Rightarrow> Some (Inl e)
              | Inr L \<Rightarrow>
                 (case handle_new_order order_id sd quantity price (o_flags ord)
                         (levels_of_side sd) False (o_filled_quantity ord) L of
                    None \<Rightarrow> None
                  | Some (Inl e) \<Rightarrow> Some (Inl e)
                  | Some (Inr (quantity, L)) \<Rightarrow> Some (Inr
                     (if quantity > 0
                      then call (OnModifyOrder order_id (l_symbol L) sd quantity price) L
                      else call (OnDeleteOrder order_id True) L)))))"

end
