(* ===== verification/Ladder_Spec.thy ===== *)
theory Ladder_Spec imports
  Order_Ladder
begin

text \<open>
  What an order ladder promises: a book with price-time priority.  Each side is a list of price
  levels, best first, and a level is the queue of its resting orders, oldest first.  No pointers,
  no pool, no index: the theory of the refinement relates this book to the code's structures.
\<close>

section \<open>The book\<close>

record resting =
  r_order_id :: u64
  r_quantity :: u32
  r_filled :: u32
  r_side :: side
  r_flags :: u8

type_synonym book_levels = "(i32 \<times> resting list) list"

type_synonym book = "book_side \<Rightarrow> book_levels"

definition resting_ids :: "book_levels \<Rightarrow> u64 list" where
  "resting_ids m = concat (map (\<lambda>(p, rs). map r_order_id rs) m)"

definition book_ids :: "book \<Rightarrow> u64 set" where
  "book_ids B = set (resting_ids (B BuyLevels)) \<union> set (resting_ids (B SellLevels))"

section \<open>Matching\<close>

definition full_fill_calls :: "u64 \<Rightarrow> side \<Rightarrow> u32 \<Rightarrow> i32 \<Rightarrow> resting \<Rightarrow> u32 \<Rightarrow> call list" where
  "full_fill_calls iid sd y p r left =
    [OnTrade (r_order_id r) (r_quantity r) p,
     OnFill (r_order_id r) y (r_side r) (r_quantity r) p CLOSED False,
     OnFill iid y sd (r_quantity r) p (if left > 0 then PARTIAL_FILL else CLOSED) True]"

definition partial_fill_calls :: "u64 \<Rightarrow> side \<Rightarrow> u32 \<Rightarrow> i32 \<Rightarrow> resting \<Rightarrow> u32 \<Rightarrow> call list" where
  "partial_fill_calls iid sd y p r q =
    [OnTrade (r_order_id r) q p,
     OnFill (r_order_id r) y (r_side r) q p PARTIAL_FILL False,
     OnFill iid y sd q p CLOSED True]"

definition reduce :: "u32 \<Rightarrow> resting \<Rightarrow> resting" where
  "reduce q r = r\<lparr>r_quantity := r_quantity r - q, r_filled := r_filled r + q\<rparr>"

text \<open>One level: the queue is served from its front until the quantity is used up.\<close>

fun fill_level ::
  "u64 \<Rightarrow> side \<Rightarrow> u32 \<Rightarrow> i32 \<Rightarrow> u32 \<Rightarrow> resting list \<Rightarrow> u32 \<times> resting list \<times> call list" where
  "fill_level iid sd y p q [] = (q, [], [])"
| "fill_level iid sd y p q (r # rs) =
    (if q = 0 then (0, r # rs, [])
     else if r_quantity r \<le> q then
       (let (q', rs', cs) = fill_level iid sd y p (q - r_quantity r) rs
        in (q', rs', full_fill_calls iid sd y p r (q - r_quantity r) @ cs))
     else (0, reduce q r # rs, partial_fill_calls iid sd y p r q))"

text \<open>One side: levels are served from the best on, as long as the limit price allows.\<close>

fun fill_book ::
  "u64 \<Rightarrow> side \<Rightarrow> u32 \<Rightarrow> i32 \<Rightarrow> u32 \<Rightarrow> book_levels \<Rightarrow> u32 \<times> book_levels \<times> call list" where
  "fill_book iid sd y price q [] = (q, [], [])"
| "fill_book iid sd y price q ((p, rs) # m) =
    (if q = 0 \<or> \<not> crosses sd price p then (q, (p, rs) # m, [])
     else
       (let (q1, rs', cs) = fill_level iid sd y p q rs
        in if rs' = [] then
             (let (q2, m', cs') = fill_book iid sd y price q1 m in (q2, m', cs @ cs'))
           else (q1, (p, rs') # m, cs)))"

section \<open>Operations\<close>

definition book_insert :: "book_side \<Rightarrow> i32 \<Rightarrow> resting \<Rightarrow> book_levels \<Rightarrow> book_levels" where
  "book_insert bs p r m = (case map_of m p of
      None \<Rightarrow> omap_insert (before bs) p [r] m
    | Some _ \<Rightarrow> omap_update p (\<lambda>rs. rs @ [r]) m)"

definition book_remove :: "u64 \<Rightarrow> book_levels \<Rightarrow> book_levels" where
  "book_remove i m = filter (\<lambda>e. snd e \<noteq> [])
     (map (\<lambda>(p, rs). (p, filter (\<lambda>r. r_order_id r \<noteq> i) rs)) m)"

definition book_modify :: "u64 \<Rightarrow> (resting \<Rightarrow> resting) \<Rightarrow> book_levels \<Rightarrow> book_levels" where
  "book_modify i f m =
     map (\<lambda>(p, rs). (p, map (\<lambda>r. if r_order_id r = i then f r else r) rs)) m"

fun book_find :: "u64 \<Rightarrow> book_levels \<Rightarrow> (i32 \<times> resting) option" where
  "book_find i [] = None"
| "book_find i ((p, rs) # m) = (case find (\<lambda>r. r_order_id r = i) rs of
      Some r \<Rightarrow> Some (p, r) | None \<Rightarrow> book_find i m)"

definition find_order :: "u64 \<Rightarrow> book \<Rightarrow> (i32 \<times> resting) option" where
  "find_order i B = (case book_find i (B BuyLevels) of
      Some e \<Rightarrow> Some e | None \<Rightarrow> book_find i (B SellLevels))"

text \<open>
  Entering an order: match it against the other side, then either rest what is left or, for an
  immediate-or-cancel order, drop it.  The result is the quantity left, the book and the calls.
\<close>

definition enter_order ::
  "u64 \<Rightarrow> side \<Rightarrow> u32 \<Rightarrow> u32 \<Rightarrow> i32 \<Rightarrow> u8 \<Rightarrow> bool \<Rightarrow> book \<Rightarrow> u32 \<times> book \<times> call list" where
  "enter_order i sd y q price flags notify B =
    (let opp = opposite_of_side sd;
         own = levels_of_side sd;
         (left, m, cs) = fill_book i sd y price q (B opp);
         B1 = B(opp := m);
         ack = (if notify \<and> \<not> is_ioc flags then [OnNewOrder i y sd left price flags] else []);
         drop = (if notify \<and> is_ioc flags \<and> left > 0 then [OnDeleteOrder i False] else []);
         rest = \<lparr>r_order_id = i, r_quantity = left, r_filled = q - left, r_side = sd,
                 r_flags = flags\<rparr>
     in (left,
         if left = 0 \<or> is_ioc flags then B1
         else B1(own := book_insert own price rest (B1 own)),
         cs @ ack @ drop))"

definition spec_new_order ::
  "u64 \<Rightarrow> side \<Rightarrow> u32 \<Rightarrow> u32 \<Rightarrow> i32 \<Rightarrow> u8 \<Rightarrow> book \<Rightarrow> book \<times> call list" where
  "spec_new_order i sd y q price flags B = snd (enter_order i sd y q price flags True B)"

definition remove_order :: "u64 \<Rightarrow> book \<Rightarrow> book" where
  "remove_order i B = (\<lambda>bs. book_remove i (B bs))"

definition spec_delete_order :: "u64 \<Rightarrow> book \<Rightarrow> book \<times> call list" where
  "spec_delete_order i B = (case find_order i B of
      None \<Rightarrow> (B, [OnCancelReject i])
    | Some _ \<Rightarrow> (remove_order i B, [OnDeleteOrder i True]))"

text \<open>
  What a modification is meant to do.  The new quantity counts what was filled before, so an order
  that rests afterwards rests with the new quantity less its fills, as the test
  \<open>FilledQuantityNotAccumulated\<close> says, and it keeps the count of all its fills.
\<close>

definition intended_modify_order ::
  "u64 \<Rightarrow> side \<Rightarrow> u32 \<Rightarrow> u32 \<Rightarrow> i32 \<Rightarrow> book \<Rightarrow> book \<times> call list" where
  "intended_modify_order i sd y q price B = (case find_order i B of
      None \<Rightarrow> (B, [OnCancelReject i])
    | Some (p, r) \<Rightarrow>
        if q \<le> r_filled r then (remove_order i B, [OnDeleteOrder i True])
        else if p = price \<and> r_side r = sd then
          (\<lambda>bs. book_modify i (\<lambda>r. r\<lparr>r_quantity := q - r_filled r\<rparr>) (B bs),
           [OnModifyOrder i y sd (q - r_filled r) price])
        else
          (let (left, B', cs) = enter_order i sd y (q - r_filled r) price (r_flags r) False
                                  (remove_order i B)
           in (\<lambda>bs. book_modify i (\<lambda>x. x\<lparr>r_filled := q - left\<rparr>) (B' bs),
               cs @ [if left > 0 then OnModifyOrder i y sd left price else OnDeleteOrder i True])))"

text \<open>
  What the code does to the book: in place, the order gets the whole new quantity; moved, its fills
  are counted anew.
\<close>

definition coded_modify_order ::
  "u64 \<Rightarrow> side \<Rightarrow> u32 \<Rightarrow> u32 \<Rightarrow> i32 \<Rightarrow> book \<Rightarrow> book \<times> call list" where
  "coded_modify_order i sd y q price B = (case find_order i B of
      None \<Rightarrow> (B, [OnCancelReject i])
    | Some (p, r) \<Rightarrow>
        if q \<le> r_filled r then (remove_order i B, [OnDeleteOrder i True])
        else if p = price \<and> r_side r = sd then
          (\<lambda>bs. book_modify i (\<lambda>r. r\<lparr>r_quantity := q\<rparr>) (B bs),
           [OnModifyOrder i y sd (q - r_filled r) price])
        else
          (let (left, B', cs) = enter_order i sd y (q - r_filled r) price (r_flags r) False
                                  (remove_order i B)
           in (B', cs @ [if left > 0 then OnModifyOrder i y sd left price
                         else OnDeleteOrder i True])))"

section \<open>Well-formed books\<close>

definition resting_ok :: "book_side \<Rightarrow> resting \<Rightarrow> bool" where
  "resting_ok bs r \<longleftrightarrow> r_quantity r \<noteq> 0 \<and> levels_of_side (r_side r) = bs \<and> \<not> is_ioc (r_flags r)"

definition levels_ok :: "book_side \<Rightarrow> book_levels \<Rightarrow> bool" where
  "levels_ok bs m \<longleftrightarrow> ordered_map (before bs) m \<and>
     (\<forall>(p, rs) \<in> set m. rs \<noteq> [] \<and> (\<forall>r \<in> set rs. resting_ok bs r))"

definition book_ok :: "book \<Rightarrow> bool" where
  "book_ok B \<longleftrightarrow> (\<forall>bs. levels_ok bs (B bs)) \<and>
     distinct (resting_ids (B BuyLevels) @ resting_ids (B SellLevels))"

text \<open>The best prices of a well-formed book do not cross.\<close>

definition uncrossed :: "book \<Rightarrow> bool" where
  "uncrossed B \<longleftrightarrow> (\<forall>(p, rs) \<in> set (B BuyLevels). \<forall>(p', rs') \<in> set (B SellLevels). p < p')"

fun trades_of :: "call list \<Rightarrow> (u64 \<times> u32 \<times> i32) list" where
  "trades_of [] = []"
| "trades_of (OnTrade i q p # cs) = (i, q, p) # trades_of cs"
| "trades_of (c # cs) = trades_of cs"

definition traded :: "call list \<Rightarrow> nat" where
  "traded cs = sum_list (map (\<lambda>(i, q, p). unat q) (trades_of cs))"

definition depth :: "book_levels \<Rightarrow> nat" where
  "depth m = sum_list (map (\<lambda>(p, rs). sum_list (map (\<lambda>r. unat (r_quantity r)) rs)) m)"

section \<open>Facts about matching\<close>

lemma trades_of_append [simp]: "trades_of (cs @ cs') = trades_of cs @ trades_of cs'"
  by (induction cs rule: trades_of.induct) auto

lemma traded_append [simp]: "traded (cs @ cs') = traded cs + traded cs'"
  by (simp add: traded_def)

lemma trades_of_fill_calls [simp]:
  "trades_of (full_fill_calls iid sd y p r left) = [(r_order_id r, r_quantity r, p)]"
  "trades_of (partial_fill_calls iid sd y p r q) = [(r_order_id r, q, p)]"
  by (simp_all add: full_fill_calls_def partial_fill_calls_def)

lemma traded_fill_calls [simp]:
  "traded (full_fill_calls iid sd y p r left) = unat (r_quantity r)"
  "traded (partial_fill_calls iid sd y p r q) = unat q"
  "traded [] = 0"
  by (simp_all add: traded_def)

lemma reduce_simps [simp]:
  "r_order_id (reduce q r) = r_order_id r" "r_side (reduce q r) = r_side r"
  "r_flags (reduce q r) = r_flags r" "r_quantity (reduce q r) = r_quantity r - q"
  by (simp_all add: reduce_def)

lemma unat_diff_le: "b \<le> a \<Longrightarrow> unat (a - b) = unat a - unat (b :: 'a::len word)"
  by (simp add: unat_sub)

lemma word_diff_le: "b \<le> a \<Longrightarrow> a - b \<le> (a :: 'a::len word)"
  by (simp add: word_le_nat_alt unat_diff_le)

text \<open>
  The shape of a level after it was served: some front orders are gone, and of the next one a
  positive part smaller than its quantity may have been taken.
\<close>

definition served :: "resting list \<Rightarrow> resting list \<Rightarrow> bool" where
  "served rs rs' \<longleftrightarrow> (\<exists>n. rs' = drop n rs \<or>
     (\<exists>k. n < length rs \<and> 0 < k \<and> k < r_quantity (rs ! n) \<and>
        rs' = reduce k (rs ! n) # drop (Suc n) rs))"

lemma served_refl [simp]: "served rs rs"
  unfolding served_def by (rule exI [of _ 0]) simp

lemma served_Cons: "served rs rs' \<Longrightarrow> served (r # rs) rs'"
  unfolding served_def by (elim exE, rule_tac x = "Suc n" in exI) auto

lemma fill_level_served: "fill_level iid sd y p q rs = (q', rs', cs) \<Longrightarrow> served rs rs'"
proof (induction rs arbitrary: q q' rs' cs)
  case (Cons r rs)
  show ?case
  proof (cases "q = 0 \<or> r_quantity r \<le> q")
    case True
    with Cons show ?thesis by (auto split: prod.splits if_splits intro: served_Cons)
  next
    case False
    with Cons.prems have "rs' = reduce q r # rs" by simp
    moreover from False have "0 < q" "q < r_quantity r" by (auto simp: word_neq_0_conv)
    ultimately show ?thesis unfolding served_def
      by (intro exI [of _ 0] disjI2 exI [of _ q]) simp
  qed
qed simp

lemma served_ids:
  assumes "served rs rs'"
  obtains n where "map r_order_id rs' = drop n (map r_order_id rs)"
proof -
  from assms obtain n where "rs' = drop n rs \<or>
      (\<exists>k. n < length rs \<and> rs' = reduce k (rs ! n) # drop (Suc n) rs)"
    unfolding served_def by blast
  then have "map r_order_id rs' = drop n (map r_order_id rs)"
    by (auto simp: drop_map Cons_nth_drop_Suc [symmetric])
  then show thesis by (rule that)
qed

lemma served_resting_ok:
  assumes "served rs rs'" "\<forall>r \<in> set rs. resting_ok bs r"
  shows "\<forall>r \<in> set rs'. resting_ok bs r"
proof -
  from assms(1) obtain n where n: "rs' = drop n rs \<or> (\<exists>k. n < length rs \<and>
      k < r_quantity (rs ! n) \<and> rs' = reduce k (rs ! n) # drop (Suc n) rs)"
    unfolding served_def by blast
  have "resting_ok bs (reduce k r)" if "resting_ok bs r" "k < r_quantity r" for k r
    using that by (auto simp: resting_ok_def)
  moreover have "set (drop j rs) \<subseteq> set rs" for j by (rule set_drop_subset)
  ultimately show ?thesis using n assms(2) by (force simp: subset_iff)
qed

lemma fill_level_left: "fill_level iid sd y p q rs = (q', rs', cs) \<Longrightarrow> q' = 0 \<or> rs' = []"
  by (induction rs arbitrary: q q' rs' cs) (auto split: prod.splits if_splits)

lemma fill_level_traded: "fill_level iid sd y p q rs = (q', rs', cs) \<Longrightarrow>
    unat q = unat q' + traded cs"
proof (induction rs arbitrary: q q' rs' cs)
  case (Cons r rs)
  show ?case
  proof (cases "q \<noteq> 0 \<and> r_quantity r \<le> q")
    case True
    with Cons.prems obtain cs' where
      step: "fill_level iid sd y p (q - r_quantity r) rs = (q', rs', cs')"
      and cs: "cs = full_fill_calls iid sd y p r (q - r_quantity r) @ cs'"
      by (auto split: prod.splits)
    from True have "unat (r_quantity r) \<le> unat q" by (simp add: word_le_nat_alt)
    with Cons.IH [OF step] True cs show ?thesis by (simp add: unat_diff_le)
  next
    case False
    with Cons.prems show ?thesis by (auto split: if_splits)
  qed
qed simp

lemma fill_level_depth: "fill_level iid sd y p q rs = (q', rs', cs) \<Longrightarrow>
    sum_list (map (\<lambda>r. unat (r_quantity r)) rs)
      = sum_list (map (\<lambda>r. unat (r_quantity r)) rs') + traded cs"
proof (induction rs arbitrary: q q' rs' cs)
  case (Cons r rs)
  show ?case
  proof (cases "q \<noteq> 0 \<and> \<not> r_quantity r \<le> q")
    case True
    then have "unat q \<le> unat (r_quantity r)" "q \<le> r_quantity r"
      by (auto simp: word_le_nat_alt)
    with True Cons.prems show ?thesis by (auto simp: unat_diff_le)
  next
    case False
    with Cons show ?thesis by (auto split: prod.splits if_splits)
  qed
qed simp

lemma fill_level_prices: "fill_level iid sd y p q rs = (q', rs', cs) \<Longrightarrow>
    \<forall>(i, k, p') \<in> set (trades_of cs). p' = p"
  by (induction rs arbitrary: q q' rs' cs) (fastforce split: prod.splits if_splits)+

section \<open>Facts about whole sides\<close>

lemma fill_book_traded: "fill_book iid sd y price q m = (q', m', cs) \<Longrightarrow>
    unat q = unat q' + traded cs"
proof (induction m arbitrary: q q' m' cs)
  case (Cons e m)
  then show ?case
    by (cases e) (fastforce split: prod.splits if_splits dest: fill_level_traded)
qed simp

lemma fill_book_depth: "fill_book iid sd y price q m = (q', m', cs) \<Longrightarrow>
    depth m = depth m' + traded cs"
proof (induction m arbitrary: q q' m' cs)
  case (Cons e m)
  then show ?case
    by (cases e) (fastforce simp: depth_def split: prod.splits if_splits dest: fill_level_depth)
qed simp

text \<open>
  The levels that remain: a suffix of the levels, the first of which may have been served.
\<close>

definition served_book :: "book_levels \<Rightarrow> book_levels \<Rightarrow> bool" where
  "served_book m m' \<longleftrightarrow> (\<exists>m1. m = m1 @ m') \<or>
     (\<exists>m1 p rs rs' m2. m = m1 @ (p, rs) # m2 \<and> m' = (p, rs') # m2 \<and> served rs rs' \<and> rs' \<noteq> [])"

lemma served_book_Cons: "served_book m m' \<Longrightarrow> served_book (e # m) m'"
  unfolding served_book_def by (metis append_Cons)

lemma fill_book_served: "fill_book iid sd y price q m = (q', m', cs) \<Longrightarrow> served_book m m'"
proof (induction m arbitrary: q q' m' cs)
  case (Cons e m)
  obtain p rs where e: "e = (p, rs)" by (cases e)
  show ?case
  proof (cases "q = 0 \<or> \<not> crosses sd price p")
    case True
    with Cons.prems e show ?thesis by (auto simp: served_book_def)
  next
    case False
    obtain q1 rs' cs1 where fl: "fill_level iid sd y p q rs = (q1, rs', cs1)"
      by (cases "fill_level iid sd y p q rs")
    show ?thesis
    proof (cases "rs' = []")
      case True
      with Cons False e fl show ?thesis by (auto split: prod.splits intro: served_book_Cons)
    next
      case ne: False
      with Cons.prems False e fl have "m' = (p, rs') # m" by auto
      with ne fill_level_served [OF fl] e show ?thesis
        unfolding served_book_def by blast
    qed
  qed
qed (simp add: served_book_def)

lemma levels_ok_served:
  assumes "served_book m m'" "levels_ok bs m"
  shows "levels_ok bs m'"
  using assms served_resting_ok
  by (fastforce simp: levels_ok_def served_book_def ordered_map_append)

lemma served_book_prices: "served_book m m' \<Longrightarrow> fst ` set m' \<subseteq> fst ` set m"
  by (force simp: served_book_def)

lemma resting_ids_simps [simp]:
  "resting_ids [] = []"
  "resting_ids ((p, rs) # m) = map r_order_id rs @ resting_ids m"
  "resting_ids (m @ m') = resting_ids m @ resting_ids m'"
  by (simp_all add: resting_ids_def)

lemma served_book_ids:
  assumes "served_book m m'"
  obtains n where "resting_ids m' = drop n (resting_ids m)"
proof -
  from assms consider m1 where "m = m1 @ m'"
    | m1 p rs rs' m2 where "m = m1 @ (p, rs) # m2" "m' = (p, rs') # m2" "served rs rs'" "rs' \<noteq> []"
    unfolding served_book_def by blast
  then show thesis
  proof cases
    case 1
    show thesis by (rule that [of "length (resting_ids m1)"]) (simp add: 1)
  next
    case 2
    from \<open>served rs rs'\<close> obtain n where n: "map r_order_id rs' = drop n (map r_order_id rs)"
      by (rule served_ids)
    with \<open>rs' \<noteq> []\<close> have "n < length rs" by (metis drop_all length_map map_is_Nil_conv not_le)
    with 2 n show thesis
      by (intro that [of "length (resting_ids m1) + n"]) simp
  qed
qed

text \<open>If quantity is left, every remaining level is beyond the limit price.\<close>

lemma not_crosses_beyond:
  assumes "\<not> crosses sd price p" "before (opposite_of_side sd) p p'"
  shows "\<not> crosses sd price p'"
  using assms by (auto simp: crosses_def opposite_of_side_def split: if_splits)

lemma fill_book_left:
  assumes "fill_book iid sd y price q m = (q', m', cs)" "q' \<noteq> 0"
    "ordered_map (before (opposite_of_side sd)) m"
  shows "\<forall>e \<in> set m'. \<not> crosses sd price (fst e)"
  using assms
proof (induction m arbitrary: q m' cs)
  case (Cons e m)
  obtain p rs where e: "e = (p, rs)" by (cases e)
  obtain q1 rs' cs1 where fl: "fill_level iid sd y p q rs = (q1, rs', cs1)"
    by (cases "fill_level iid sd y p q rs")
  show ?case
  proof (cases "q = 0 \<or> \<not> crosses sd price p")
    case True
    with Cons.prems e show ?thesis using not_crosses_beyond by fastforce
  next
    case False
    with Cons.prems e fl fill_level_left [OF fl] have "rs' = []" by (auto split: if_splits)
    with Cons False e fl show ?thesis by (auto split: prod.splits)
  qed
qed simp

text \<open>No order trades at a price worse than its limit.\<close>

lemma fill_book_prices: "fill_book iid sd y price q m = (q', m', cs) \<Longrightarrow>
    \<forall>(i, k, p) \<in> set (trades_of cs). crosses sd price p"
proof (induction m arbitrary: q q' m' cs)
  case (Cons e m)
  then show ?case
    by (cases e) (fastforce split: prod.splits if_splits dest: fill_level_prices)
qed simp

end
