(* ===== verification/Ladder_Book.thy ===== *)
theory Ladder_Book imports
  Ladder_Spec
begin

text \<open>
  Facts about the operations of the price-time book: where an order is inserted, removed or
  modified, that every operation keeps a book well formed, and that books stay uncrossed.
\<close>

section \<open>Looking up, removing and modifying one order\<close>

lemma book_find_append: "book_find i (m @ m') =
    (case book_find i m of None \<Rightarrow> book_find i m' | Some e \<Rightarrow> Some e)"
  by (induction m) (auto split: option.split)

lemma book_find_None: "book_find i m = None \<longleftrightarrow> i \<notin> set (resting_ids m)"
proof (induction m)
  case (Cons e m)
  obtain p rs where e: "e = (p, rs)" by (cases e)
  have "find (\<lambda>r. r_order_id r = i) rs = None \<longleftrightarrow> i \<notin> r_order_id ` set rs"
    by (auto simp: find_None_iff)
  with Cons.IH e show ?case by (cases "find (\<lambda>r. r_order_id r = i) rs") auto
qed simp

lemma find_order_None: "find_order i B = None \<longleftrightarrow> i \<notin> book_ids B"
  using book_find_None [of i "B BuyLevels"] book_find_None [of i "B SellLevels"]
  by (auto simp: find_order_def book_ids_def split: option.splits)

lemma find_at: "\<forall>r \<in> set rs1. r_order_id r \<noteq> i \<Longrightarrow> r_order_id r = i \<Longrightarrow>
    find (\<lambda>r. r_order_id r = i) (rs1 @ r # rs2) = Some r"
  by (induction rs1) auto

lemma book_find_at:
  assumes "i \<notin> set (resting_ids m1)" "i \<notin> r_order_id ` set rs1" "r_order_id r = i"
  shows "book_find i (m1 @ (p, rs1 @ r # rs2) # m2) = Some (p, r)"
proof -
  have "book_find i m1 = None" using assms by (simp add: book_find_None)
  moreover have "find (\<lambda>r. r_order_id r = i) (rs1 @ r # rs2) = Some r"
    by (rule find_at) (use assms in \<open>auto simp: image_iff\<close>)
  ultimately show ?thesis by (simp add: book_find_append)
qed

text \<open>Conversely, what is found stands somewhere.\<close>

lemma book_find_SomeE:
  assumes "book_find i m = Some (p, r)"
  obtains m1 rs1 rs2 m2 where "m = m1 @ (p, rs1 @ r # rs2) # m2" "r_order_id r = i"
  using assms
proof (induction m arbitrary: thesis)
  case (Cons e m)
  obtain p' rs where e: "e = (p', rs)" by (cases e)
  show ?case
  proof (cases "find (\<lambda>r. r_order_id r = i) rs")
    case None
    with Cons.prems e have "book_find i m = Some (p, r)" by simp
    then obtain m1 rs1 rs2 m2 where "m = m1 @ (p, rs1 @ r # rs2) # m2" "r_order_id r = i"
      by (rule Cons.IH [rotated])
    with Cons.prems(1) [of "e # m1"] show ?thesis by simp
  next
    case (Some r')
    with Cons.prems e have "p' = p" "r' = r" by auto
    moreover from Some obtain rs1 rs2 where "rs = rs1 @ r' # rs2" "r_order_id r' = i"
      by (auto simp: find_Some_iff) (metis id_take_nth_drop)
    ultimately show ?thesis using Cons.prems(1) [of "[]"] e by simp
  qed
qed simp

lemma book_remove_append [simp]: "book_remove i (m @ m') = book_remove i m @ book_remove i m'"
  by (simp add: book_remove_def)

lemma book_remove_Nil [simp]: "book_remove i [] = []"
  by (simp add: book_remove_def)

lemma filter_absent: "i \<notin> r_order_id ` set rs \<Longrightarrow> filter (\<lambda>r. r_order_id r \<noteq> i) rs = rs"
  by (rule filter_True) auto

lemma book_remove_absent:
  "i \<notin> set (resting_ids m) \<Longrightarrow> \<forall>e \<in> set m. snd e \<noteq> [] \<Longrightarrow> book_remove i m = m"
  by (induction m) (auto simp: book_remove_def filter_absent)

lemma book_remove_at:
  assumes "i \<notin> set (resting_ids m1)" "i \<notin> set (resting_ids m2)"
    "i \<notin> r_order_id ` set (rs1 @ rs2)" "r_order_id r = i"
    "\<forall>e \<in> set (m1 @ m2). snd e \<noteq> []"
  shows "book_remove i (m1 @ (p, rs1 @ r # rs2) # m2)
    = m1 @ (if rs1 @ rs2 = [] then [] else [(p, rs1 @ rs2)]) @ m2"
proof -
  have "filter (\<lambda>r. r_order_id r \<noteq> i) (rs1 @ rs2) = rs1 @ rs2"
    by (rule filter_absent) (use assms in simp)
  then have "book_remove i [(p, rs1 @ r # rs2)] = (if rs1 @ rs2 = [] then [] else [(p, rs1 @ rs2)])"
    using assms(4) by (simp add: book_remove_def)
  moreover have "book_remove i m1 = m1" "book_remove i m2 = m2"
    by (rule book_remove_absent; use assms in auto)+
  moreover have "book_remove i (m1 @ [(p, rs1 @ r # rs2)] @ m2)
      = book_remove i m1 @ book_remove i [(p, rs1 @ r # rs2)] @ book_remove i m2"
    by (simp only: book_remove_append)
  ultimately show ?thesis by simp
qed

lemma book_modify_append [simp]: "book_modify i f (m @ m') = book_modify i f m @ book_modify i f m'"
  by (simp add: book_modify_def)

lemma modify_absent:
  "i \<notin> r_order_id ` set rs \<Longrightarrow> map (\<lambda>r. if r_order_id r = i then f r else r) rs = rs"
  by (rule map_idI) auto

lemma book_modify_absent: "i \<notin> set (resting_ids m) \<Longrightarrow> book_modify i f m = m"
proof (induction m)
  case (Cons e m)
  then show ?case by (cases e) (simp add: book_modify_def modify_absent)
qed (simp add: book_modify_def)

lemma book_modify_at:
  assumes "i \<notin> set (resting_ids m1)" "i \<notin> set (resting_ids m2)"
    "i \<notin> r_order_id ` set (rs1 @ rs2)" "r_order_id r = i"
  shows "book_modify i f (m1 @ (p, rs1 @ r # rs2) # m2) = m1 @ (p, rs1 @ f r # rs2) # m2"
proof -
  have "i \<notin> r_order_id ` set rs1" "i \<notin> r_order_id ` set rs2" using assms(3) by auto
  then have "book_modify i f [(p, rs1 @ r # rs2)] = [(p, rs1 @ f r # rs2)]"
    using assms(4) by (simp add: book_modify_def modify_absent)
  moreover have "book_modify i f (m1 @ [(p, rs1 @ r # rs2)] @ m2)
      = book_modify i f m1 @ book_modify i f [(p, rs1 @ r # rs2)] @ book_modify i f m2"
    by (simp only: book_modify_append)
  ultimately show ?thesis using assms by (simp add: book_modify_absent)
qed

section \<open>Operations keep a book well formed\<close>

lemma book_order_laws: "key_order (before bs)"
  by (cases bs) (simp_all add: ascending.key_order_axioms descending.key_order_axioms)

interpretation book_order: key_order "before bs" for bs
  by (rule book_order_laws)

lemma levels_ok_append [simp]: "levels_ok bs (m @ m') \<longleftrightarrow> levels_ok bs m \<and> levels_ok bs m' \<and>
    (\<forall>e \<in> set m. \<forall>e' \<in> set m'. before bs (fst e) (fst e'))"
  unfolding levels_ok_def ordered_map_append set_append ball_Un by blast

lemma levels_ok_Cons [simp]: "levels_ok bs ((p, rs) # m) \<longleftrightarrow> rs \<noteq> [] \<and>
    (\<forall>r \<in> set rs. resting_ok bs r) \<and> (\<forall>e \<in> set m. before bs p (fst e)) \<and> levels_ok bs m"
  by (auto simp: levels_ok_def)

lemma levels_ok_Nil [simp]: "levels_ok bs []"
  by (simp add: levels_ok_def)

lemma levels_ok_nonempty: "levels_ok bs m \<Longrightarrow> \<forall>e \<in> set m. snd e \<noteq> []"
  by (auto simp: levels_ok_def)

lemma book_insert_split:
  assumes "levels_ok bs m"
  obtains m1 rs m2 where "book_insert bs p r m = m1 @ (p, rs @ [r]) # m2"
    "m = m1 @ (p, rs) # m2 \<or> rs = [] \<and> m = m1 @ m2 \<and>
      (\<forall>e \<in> set m1. before bs (fst e) p) \<and> (\<forall>e \<in> set m2. before bs p (fst e))"
proof (cases "map_of m p")
  case None
  have "ordered_map (before bs) m" using assms by (simp add: levels_ok_def)
  from book_order.insert_split [OF this None, of "[r]"] None that [of _ "[]"] show thesis
    by (auto simp: book_insert_def)
next
  case (Some rs)
  then obtain m1 m2 where m: "m = m1 @ (p, rs) # m2" by (metis map_of_SomeD split_list)
  have "ordered_map (before bs) m" using assms by (simp add: levels_ok_def)
  from book_order.ordered_fst_distinct [OF this] have "p \<notin> fst ` set m1" "p \<notin> fst ` set m2"
    by (auto simp: m image_iff)
  then have "omap_update p (\<lambda>rs. rs @ [r]) m = m1 @ (p, rs @ [r]) # m2"
    using omap_update_absent [of p m1] omap_update_absent [of p m2] by (simp add: m omap_update_def)
  with Some m show thesis by (intro that [of m1 rs m2]) (auto simp: book_insert_def)
qed

lemma levels_ok_insert:
  assumes "levels_ok bs m" "resting_ok bs r"
  shows "levels_ok bs (book_insert bs p r m)"
proof -
  obtain m1 rs m2 where ins: "book_insert bs p r m = m1 @ (p, rs @ [r]) # m2"
    and m: "m = m1 @ (p, rs) # m2 \<or> rs = [] \<and> m = m1 @ m2 \<and>
      (\<forall>e \<in> set m1. before bs (fst e) p) \<and> (\<forall>e \<in> set m2. before bs p (fst e))"
    by (rule book_insert_split [OF assms(1)])
  show ?thesis unfolding ins using m
  proof (elim disjE)
    assume "m = m1 @ (p, rs) # m2"
    with assms show "levels_ok bs (m1 @ (p, rs @ [r]) # m2)" by (simp add: ball_Un)
  next
    assume "rs = [] \<and> m = m1 @ m2 \<and>
      (\<forall>e \<in> set m1. before bs (fst e) p) \<and> (\<forall>e \<in> set m2. before bs p (fst e))"
    with assms show "levels_ok bs (m1 @ (p, rs @ [r]) # m2)" by simp
  qed
qed

lemma resting_ids_book_insert:
  assumes "levels_ok bs m"
  obtains xs ys where "resting_ids m = xs @ ys"
    "resting_ids (book_insert bs p r m) = xs @ r_order_id r # ys"
proof -
  obtain m1 rs m2 where ins: "book_insert bs p r m = m1 @ (p, rs @ [r]) # m2"
    and m: "m = m1 @ (p, rs) # m2 \<or> rs = [] \<and> m = m1 @ m2 \<and>
      (\<forall>e \<in> set m1. before bs (fst e) p) \<and> (\<forall>e \<in> set m2. before bs p (fst e))"
    by (rule book_insert_split [OF assms(1)])
  show thesis
    by (rule that [of "resting_ids m1 @ map r_order_id rs" "resting_ids m2"])
      (use ins m in auto)
qed

lemma all_book_sides: "(\<forall>bs. P bs) \<longleftrightarrow> P BuyLevels \<and> P SellLevels"
  by (metis book_side.exhaust)

lemma UN_book_sides: "(\<Union>bs. f bs) = f BuyLevels \<union> f SellLevels"
proof -
  have "x \<in> (\<Union>bs. f bs) \<longleftrightarrow> (\<exists>bs. x \<in> f bs)" for x by simp
  then show ?thesis using all_book_sides [of "\<lambda>bs. _ \<notin> f bs"] by blast
qed

lemma distinct_book_ids: "distinct (resting_ids (B BuyLevels) @ resting_ids (B SellLevels)) \<longleftrightarrow>
    (\<forall>bs. distinct (resting_ids (B bs))) \<and>
    (\<forall>bs bs'. bs \<noteq> bs' \<longrightarrow> set (resting_ids (B bs)) \<inter> set (resting_ids (B bs')) = {})"
  unfolding all_book_sides by auto

lemma book_ids_eq: "book_ids B = (\<Union>bs. set (resting_ids (B bs)))"
  by (simp add: book_ids_def UN_book_sides)

lemma book_ok_levels: "book_ok B \<Longrightarrow> levels_ok bs (B bs)"
  by (simp add: book_ok_def)

lemma book_ok_ids:
  assumes "book_ok B"
  shows "distinct (resting_ids (B bs))"
    and "bs' \<noteq> bs \<Longrightarrow> set (resting_ids (B bs)) \<inter> set (resting_ids (B bs')) = {}"
  using assms unfolding book_ok_def distinct_book_ids by blast+

text \<open>Replacing one side by levels whose ids are a part of the old ones.\<close>

lemma book_ok_upd:
  assumes "book_ok B" "levels_ok bs m" "distinct (resting_ids m)"
    "set (resting_ids m) \<inter> set (resting_ids (B bs')) = {}" "bs' \<noteq> bs"
  shows "book_ok (B(bs := m))"
  using assms by (cases bs; cases bs') (auto simp: book_ok_def)

lemma book_ok_sub:
  assumes ok: "book_ok B" and m: "levels_ok bs m" and ids: "distinct (resting_ids m)"
    "set (resting_ids m) \<subseteq> set (resting_ids (B bs))"
  shows "book_ok (B(bs := m))"
proof -
  obtain bs' where "bs' \<noteq> bs" by (cases bs) auto
  moreover have "set (resting_ids (B bs)) \<inter> set (resting_ids (B bs')) = {}"
    using ok \<open>bs' \<noteq> bs\<close> by (rule book_ok_ids)
  ultimately show ?thesis using ok m ids by (intro book_ok_upd) auto
qed

lemma book_ok_served:
  assumes "book_ok B" "served_book (B bs) m"
  shows "book_ok (B(bs := m))"
proof -
  from assms(2) obtain n where n: "resting_ids m = drop n (resting_ids (B bs))"
    by (rule served_book_ids)
  have "distinct (resting_ids (B bs))" using assms(1) by (rule book_ok_ids)
  with n have "distinct (resting_ids m)" "set (resting_ids m) \<subseteq> set (resting_ids (B bs))"
    by (simp_all add: set_drop_subset)
  with levels_ok_served [OF assms(2) book_ok_levels [OF assms(1)]] assms(1) show ?thesis
    by (auto intro: book_ok_sub)
qed

lemma book_ids_served: "served_book (B bs) m \<Longrightarrow> book_ids (B(bs := m)) \<subseteq> book_ids B"
  by (erule served_book_ids) (fastforce simp: book_ids_eq dest: in_set_dropD split: if_splits)

lemma book_ok_insert:
  assumes ok: "book_ok B" and r: "resting_ok bs r" "r_order_id r \<notin> book_ids B"
  shows "book_ok (B(bs := book_insert bs p r (B bs)))"
proof -
  obtain bs' where bs': "bs' \<noteq> bs" by (cases bs) auto
  obtain xs ys where ids: "resting_ids (B bs) = xs @ ys"
    "resting_ids (book_insert bs p r (B bs)) = xs @ r_order_id r # ys"
    by (rule resting_ids_book_insert [OF book_ok_levels [OF ok]])
  have "distinct (resting_ids (B bs))" "set (resting_ids (B bs)) \<inter> set (resting_ids (B bs')) = {}"
    using ok bs' by (auto intro: book_ok_ids dest: book_ok_ids(2))
  moreover have "r_order_id r \<notin> set (resting_ids (B bs))" "r_order_id r \<notin> set (resting_ids (B bs'))"
    using r(2) by (auto simp: book_ids_eq)
  ultimately have "distinct (resting_ids (book_insert bs p r (B bs)))"
    "set (resting_ids (book_insert bs p r (B bs))) \<inter> set (resting_ids (B bs')) = {}"
    unfolding ids by auto
  with levels_ok_insert [OF book_ok_levels [OF ok] r(1)] show ?thesis
    using bs' by (intro book_ok_upd [OF ok])
qed

lemma sides_differ [simp]:
  "opposite_of_side sd \<noteq> levels_of_side sd" "levels_of_side sd \<noteq> opposite_of_side sd"
  by (simp_all add: opposite_of_side_def levels_of_side_def)

lemma book_ok_enter:
  assumes ok: "book_ok B" and i: "i \<notin> book_ids B"
    and run: "enter_order i sd y q price flags notify B = (left, B', cs)"
  shows "book_ok B'"
proof -
  let ?opp = "opposite_of_side sd"
  obtain left' m cs' where fb: "fill_book i sd y price q (B ?opp) = (left', m, cs')"
    by (metis prod_cases3)
  from fill_book_served [OF fb] have sb: "served_book (B ?opp) m" .
  from ok sb have ok1: "book_ok (B(?opp := m))" by (rule book_ok_served)
  moreover have "i \<notin> book_ids (B(?opp := m))" using book_ids_served [where B = B, OF sb] i by blast
  ultimately show ?thesis
    using run fb book_ok_insert [OF ok1, of "levels_of_side sd"]
    by (auto simp: enter_order_def Let_def resting_ok_def split: if_splits)
qed

end
