(* ===== verification/Ladder_Refine.thy ===== *)
theory Ladder_Refine imports
  Ladder_Book
begin

text \<open>
  The pointer structures of the order ladder represent a price-time book.  A shape names, for
  each side and level, the addresses of the level's orders; the representation invariant says
  that the levels' pointers, the doubly linked lists, the order index and the pool agree with it.
  Every operation of the ladder is shown to perform the book's operation.
\<close>

section \<open>Doubly linked lists in the heap\<close>

fun first_or :: "addr list \<Rightarrow> addr option \<Rightarrow> addr option" where
  "first_or [] x = x"
| "first_or (a # as) x = Some a"

definition last_or :: "addr list \<Rightarrow> addr option \<Rightarrow> addr option" where
  "last_or as x = (if as = [] then x else Some (last as))"

lemma last_or_simps [simp]:
  "last_or [] x = x" "last_or (as @ [a]) x = Some a"
  by (simp_all add: last_or_def)

lemma last_or_Cons [simp]: "last_or (a # as) x = last_or as (Some a)"
  by (simp add: last_or_def)

lemma last_or_append [simp]: "last_or (as @ bs) x = last_or bs (last_or as x)"
  by (simp add: last_or_def)

lemma first_or_append [simp]: "first_or (as @ bs) x = first_or as (first_or bs x)"
  by (cases as) auto

lemma first_or_None [simp]: "first_or as None = None \<longleftrightarrow> as = []"
  by (cases as) auto

text \<open>\<open>linked h pv as nx\<close>: the cells \<open>as\<close> form a doubly linked segment between \<open>pv\<close> and \<open>nx\<close>.\<close>

fun linked :: "(addr \<Rightarrow> order) \<Rightarrow> addr option \<Rightarrow> addr list \<Rightarrow> addr option \<Rightarrow> bool" where
  "linked h pv [] nx = True"
| "linked h pv (a # as) nx \<longleftrightarrow>
     o_prev (h a) = pv \<and> o_next (h a) = first_or as nx \<and> linked h (Some a) as nx"

lemma linked_append [simp]: "linked h pv (as @ bs) nx \<longleftrightarrow>
    linked h pv as (first_or bs nx) \<and> linked h (last_or as pv) bs nx"
  by (induction as arbitrary: pv) auto

lemma linked_cong:
  "\<forall>a \<in> set as. o_prev (h' a) = o_prev (h a) \<and> o_next (h' a) = o_next (h a) \<Longrightarrow>
   linked h' pv as nx = linked h pv as nx"
  by (induction as arbitrary: pv) auto

definition unlink :: "addr \<Rightarrow> (addr \<Rightarrow> order) \<Rightarrow> addr \<Rightarrow> order" where
  "unlink a h =
    (let h1 = (case o_prev (h a) of None \<Rightarrow> h
               | Some b \<Rightarrow> h(b := (h b)\<lparr>o_next := o_next (h a)\<rparr>));
         h2 = (case o_next (h1 a) of None \<Rightarrow> h1
               | Some b \<Rightarrow> h1(b := (h1 b)\<lparr>o_prev := o_prev (h1 a)\<rparr>))
     in h2(a := (h2 a)\<lparr>o_next := None, o_prev := None\<rparr>))"

definition abs_order :: "order \<Rightarrow> resting" where
  "abs_order x = \<lparr>r_order_id = o_order_id x, r_quantity = o_quantity x,
     r_filled = o_filled_quantity x, r_side = o_side x, r_flags = o_flags x\<rparr>"

lemma abs_order_simps [simp]:
  "abs_order (x\<lparr>o_next := n\<rparr>) = abs_order x" "abs_order (x\<lparr>o_prev := p\<rparr>) = abs_order x"
  "r_order_id (abs_order x) = o_order_id x" "r_quantity (abs_order x) = o_quantity x"
  "r_filled (abs_order x) = o_filled_quantity x" "r_side (abs_order x) = o_side x"
  "r_flags (abs_order x) = o_flags x"
  by (simp_all add: abs_order_def)

lemma unlink_data [simp]:
  "abs_order (unlink a h b) = abs_order (h b)" "o_price (unlink a h b) = o_price (h b)"
  "o_order_id (unlink a h b) = o_order_id (h b)"
  by (auto simp: unlink_def Let_def split: option.splits)

lemma unlink_frame: "linked h pv (xs @ a # ys) nx \<Longrightarrow> b \<noteq> a \<Longrightarrow>
    Some b \<noteq> last_or xs pv \<Longrightarrow> Some b \<noteq> first_or ys nx \<Longrightarrow> unlink a h b = h b"
  by (auto simp: unlink_def Let_def split: option.splits)

lemma linked_unlink:
  assumes "linked h None (xs @ a # ys) None" "distinct (xs @ a # ys)"
  shows "linked (unlink a h) None (xs @ ys) None"
proof (cases xs rule: rev_cases; cases ys)
  assume "xs = []" "ys = []"
  then show ?thesis by simp
next
  fix c ys' assume eq: "xs = []" "ys = c # ys'"
  have "linked (unlink a h) (Some c) ys' None = linked h (Some c) ys' None"
    by (rule linked_cong) (use assms eq in \<open>auto simp: unlink_def Let_def\<close>)
  then show ?thesis using assms eq by (auto simp: unlink_def Let_def)
next
  fix xs' b assume eq: "xs = xs' @ [b]" "ys = []"
  have "linked (unlink a h) None xs' (Some b) = linked h None xs' (Some b)"
    by (rule linked_cong) (use assms eq in \<open>auto simp: unlink_def Let_def\<close>)
  then show ?thesis using assms eq by (auto simp: unlink_def Let_def)
next
  fix xs' b c ys' assume eq: "xs = xs' @ [b]" "ys = c # ys'"
  have "linked (unlink a h) None xs' (Some b) = linked h None xs' (Some b)"
    "linked (unlink a h) (Some c) ys' None = linked h (Some c) ys' None"
    by (rule linked_cong; use assms eq in \<open>auto simp: unlink_def Let_def\<close>)+
  then show ?thesis using assms eq by (auto simp: unlink_def Let_def)
qed

section \<open>Levels\<close>

type_synonym shape_levels = "(i32 \<times> addr list) list"

type_synonym shape = "book_side \<Rightarrow> shape_levels"

definition addrs :: "shape_levels \<Rightarrow> addr list" where
  "addrs m = concat (map snd m)"

lemma addrs_simps [simp]:
  "addrs [] = []" "addrs ((p, as) # m) = as @ addrs m" "addrs (m @ m') = addrs m @ addrs m'"
  by (simp_all add: addrs_def)

definition level_rep :: "(addr \<Rightarrow> order) \<Rightarrow> i32 \<Rightarrow> price_level \<Rightarrow> addr list \<Rightarrow> bool" where
  "level_rep h p pl as \<longleftrightarrow> pl_head pl = first_or as None \<and> pl_tail pl = last_or as None \<and>
     linked h None as None \<and> (\<forall>a \<in> set as. o_price (h a) = p)"

definition levels_rep :: "(addr \<Rightarrow> order) \<Rightarrow> (i32 \<times> price_level) list \<Rightarrow> shape_levels \<Rightarrow> bool" where
  "levels_rep h m s \<longleftrightarrow> list_all2 (\<lambda>(p, pl) (p', as). p = p' \<and> level_rep h p pl as) m s"

lemma level_rep_cong:
  "\<forall>a \<in> set as. o_prev (h' a) = o_prev (h a) \<and> o_next (h' a) = o_next (h a)
     \<and> o_price (h' a) = o_price (h a) \<Longrightarrow> level_rep h' p pl as = level_rep h p pl as"
  using linked_cong [of as h' h] by (auto simp: level_rep_def)

lemma levels_rep_cong:
  assumes "\<forall>a \<in> set (addrs s). o_prev (h' a) = o_prev (h a) \<and> o_next (h' a) = o_next (h a)
     \<and> o_price (h' a) = o_price (h a)"
  shows "levels_rep h' m s = levels_rep h m s"
  using assms unfolding levels_rep_def
proof (induction s arbitrary: m)
  case (Cons e s)
  obtain p as where e: "e = (p, as)" by (cases e)
  from Cons.prems e have "level_rep h' p pl as = level_rep h p pl as" for pl
    by (intro level_rep_cong) auto
  with Cons e show ?case by (auto simp: list_all2_Cons2)
qed auto

lemma levels_rep_simps [simp]:
  "levels_rep h [] []"
  "levels_rep h ((p, pl) # m) ((p', as) # s) \<longleftrightarrow> p = p' \<and> level_rep h p pl as \<and> levels_rep h m s"
  by (auto simp: levels_rep_def)

lemma levels_rep_split:
  assumes "levels_rep h m (s1 @ (p, as) # s2)"
  obtains m1 pl m2 where "m = m1 @ (p, pl) # m2" "levels_rep h m1 s1" "level_rep h p pl as"
    "levels_rep h m2 s2"
  using assms by (force simp: levels_rep_def list_all2_append2 list_all2_Cons2)

lemma levels_rep_append: "levels_rep h m1 s1 \<Longrightarrow> levels_rep h m2 s2 \<Longrightarrow>
    levels_rep h (m1 @ m2) (s1 @ s2)"
  by (auto simp: levels_rep_def intro: list_all2_appendI)

lemma levels_rep_keys: "levels_rep h m s \<Longrightarrow> map fst m = map fst s"
  unfolding levels_rep_def by (induction rule: list_all2_induct) auto

lemma levels_rep_Nil [simp]: "levels_rep h [] s \<longleftrightarrow> s = []" "levels_rep h m [] \<longleftrightarrow> m = []"
  by (auto simp: levels_rep_def)

lemma omap_at [simp]:
  assumes "k \<notin> fst ` set m1" "k \<notin> fst ` set m2"
  shows "map_of (m1 @ (k, v) # m2) k = Some v"
    and "omap_update k f (m1 @ (k, v) # m2) = m1 @ (k, f v) # m2"
    and "omap_erase k (m1 @ (k, v) # m2) = m1 @ m2"
proof -
  show "map_of (m1 @ (k, v) # m2) k = Some v"
    using assms by (induction m1) auto
  show "omap_update k f (m1 @ (k, v) # m2) = m1 @ (k, f v) # m2"
    using assms omap_update_absent [of k m1 f] omap_update_absent [of k m2 f]
    by (simp add: omap_update_def)
  show "omap_erase k (m1 @ (k, v) # m2) = m1 @ m2"
    using assms omap_erase_absent [of k m1] omap_erase_absent [of k m2]
    by (simp add: omap_erase_def)
qed

section \<open>The state updates of the ladder\<close>

lemma levels_set_levels [simp]:
  "levels bs' (set_levels bs m L) = (if bs' = bs then m else levels bs' L)"
  by (cases bs; cases bs') simp_all

lemma set_levels_fields [simp]:
  "l_heap (set_levels bs m L) = l_heap L" "l_orders (set_levels bs m L) = l_orders L"
  "l_pool (set_levels bs m L) = l_pool L" "l_symbol (set_levels bs m L) = l_symbol L"
  "l_calls (set_levels bs m L) = l_calls L"
  by (cases bs; simp)+

lemma call_fields [simp]:
  "l_heap (call c L) = l_heap L" "l_orders (call c L) = l_orders L" "l_pool (call c L) = l_pool L"
  "l_symbol (call c L) = l_symbol L" "l_calls (call c L) = l_calls L @ [c]"
  "levels bs (call c L) = levels bs L"
  by (cases bs; simp add: call_def)+

lemma upd_order_fields [simp]:
  "l_heap (upd_order a f L) = (l_heap L)(a := f (l_heap L a))"
  "l_orders (upd_order a f L) = l_orders L" "l_pool (upd_order a f L) = l_pool L"
  "l_symbol (upd_order a f L) = l_symbol L" "l_calls (upd_order a f L) = l_calls L"
  "levels bs (upd_order a f L) = levels bs L"
  by (cases bs; simp add: upd_order_def)+

lemma ladder_update_fields [simp]:
  "levels bs (L\<lparr>l_heap := h\<rparr>) = levels bs L" "levels bs (L\<lparr>l_orders := i\<rparr>) = levels bs L"
  "levels bs (L\<lparr>l_pool := p\<rparr>) = levels bs L" "levels bs (L\<lparr>l_calls := c\<rparr>) = levels bs L"
  by (cases bs; simp)+

lemma omap_update_update [simp]:
  "omap_update k f (omap_update k g m) = omap_update k (f \<circ> g) m"
  by (induction m) auto

section \<open>The representation invariant\<close>

definition all_addrs :: "shape \<Rightarrow> addr list" where
  "all_addrs S = addrs (S BuyLevels) @ addrs (S SellLevels)"

definition index_ok :: "(u64 \<rightharpoonup> addr) \<Rightarrow> (addr \<Rightarrow> order) \<Rightarrow> addr set \<Rightarrow> bool" where
  "index_ok ix h A \<longleftrightarrow> (\<forall>i a. ix i = Some a \<longleftrightarrow> a \<in> A \<and> o_order_id (h a) = i)"

definition pool_ok :: "order_pool \<Rightarrow> addr set \<Rightarrow> bool" where
  "pool_ok p A \<longleftrightarrow> distinct (p_free_list p) \<and> set (p_free_list p) \<inter> A = {} \<and>
     (\<forall>a \<in> set (p_free_list p) \<union> A. a < p_blocks p * ORDER_POOL_BLOCK_SIZE)"

definition shape_ok :: "ladder \<Rightarrow> shape \<Rightarrow> bool" where
  "shape_ok L S \<longleftrightarrow> (\<forall>bs. levels_rep (l_heap L) (levels bs L) (S bs)) \<and>
     (\<forall>bs. ordered_map (before bs) (S bs)) \<and> distinct (all_addrs S) \<and>
     index_ok (l_orders L) (l_heap L) (set (all_addrs S)) \<and>
     pool_ok (l_pool L) (set (all_addrs S))"

definition abs_levels :: "(addr \<Rightarrow> order) \<Rightarrow> shape_levels \<Rightarrow> book_levels" where
  "abs_levels h s = map (\<lambda>(p, as). (p, map (\<lambda>a. abs_order (h a)) as)) s"

definition abs_book :: "(addr \<Rightarrow> order) \<Rightarrow> shape \<Rightarrow> book" where
  "abs_book h S = (\<lambda>bs. abs_levels h (S bs))"

definition represents :: "ladder \<Rightarrow> book \<Rightarrow> bool" where
  "represents L B \<longleftrightarrow> (\<exists>S. shape_ok L S \<and> B = abs_book (l_heap L) S)"

lemma abs_levels_simps [simp]:
  "abs_levels h [] = []"
  "abs_levels h ((p, as) # s) = (p, map (\<lambda>a. abs_order (h a)) as) # abs_levels h s"
  "abs_levels h (s1 @ s2) = abs_levels h s1 @ abs_levels h s2"
  by (simp_all add: abs_levels_def)

lemma abs_levels_cong: "\<forall>a \<in> set (addrs s). abs_order (h' a) = abs_order (h a) \<Longrightarrow>
    abs_levels h' s = abs_levels h s"
  by (induction s) auto

lemma map_fst_abs_levels [simp]: "map fst (abs_levels h s) = map fst s"
  by (induction s) auto

lemma shape_ok_empty: "shape_ok (empty_ladder y) (\<lambda>_. [])"
proof -
  have "levels_rep h (levels bs (empty_ladder y)) []" for h bs
    by (cases bs) (simp_all add: empty_ladder_def)
  then show ?thesis
    by (simp add: shape_ok_def all_addrs_def index_ok_def pool_ok_def empty_ladder_def)
qed

lemma represents_empty: "represents (empty_ladder y) (\<lambda>_. [])"
  unfolding represents_def abs_book_def using shape_ok_empty by fastforce

lemma shape_split_keys:
  assumes "shape_ok L S" "S bs = s1 @ (p, as) # s2"
  shows "p \<notin> fst ` set s1" "p \<notin> fst ` set s2"
proof -
  have "ordered_map (before bs) (s1 @ (p, as) # s2)"
    using assms by (metis shape_ok_def)
  from book_order.ordered_fst_distinct [OF this]
  show "p \<notin> fst ` set s1" "p \<notin> fst ` set s2" by (auto simp: image_iff)
qed

text \<open>The addresses of two sides, and of two parts of a side, are disjoint.\<close>

lemma set_all_addrs: "set (all_addrs S) = (\<Union>bs. set (addrs (S bs)))"
proof -
  have "x \<in> set (all_addrs S) \<longleftrightarrow> (\<exists>bs. x \<in> set (addrs (S bs)))" for x
    unfolding all_addrs_def by (metis Un_iff book_side.exhaust set_append)
  then show ?thesis by auto
qed

lemma all_addrs_other_side:
  "distinct (all_addrs S) \<Longrightarrow> bs' \<noteq> bs \<Longrightarrow> set (addrs (S bs')) \<inter> set (addrs (S bs)) = {}"
  by (cases bs; cases bs') (auto simp: all_addrs_def)

lemma distinct_all_addrs: "distinct (all_addrs S) \<longleftrightarrow> (\<forall>bs. distinct (addrs (S bs))) \<and>
    (\<forall>bs bs'. bs \<noteq> bs' \<longrightarrow> set (addrs (S bs)) \<inter> set (addrs (S bs')) = {})"
  by (auto simp: all_addrs_def) (metis book_side.exhaust disjoint_iff)+

section \<open>Deletion\<close>

definition drop_ends :: "addr \<Rightarrow> order \<Rightarrow> price_level \<Rightarrow> price_level" where
  "drop_ends a x pl =
     \<lparr>pl_head = (if pl_head pl = Some a then o_next x else pl_head pl),
      pl_tail = (if pl_tail pl = Some a then o_prev x else pl_tail pl)\<rparr>"

lemma handle_delete_order_eq:
  assumes "l_orders L i = Some a" "map_of (levels bs L) (o_price (l_heap L a)) = Some pl"
  obtains L' where "handle_delete_order bs i L = Inr L'"
    "l_heap L' = unlink a (l_heap L)" "l_orders L' = (l_orders L)(i := None)"
    "levels bs L' = omap_update (o_price (l_heap L a)) (drop_ends a (l_heap L a)) (levels bs L)"
    "\<forall>bs'. bs' \<noteq> bs \<longrightarrow> levels bs' L' = levels bs' L"
    "p_free_list (l_pool L') = p_free_list (l_pool L) @ [a]"
    "p_blocks (l_pool L') = p_blocks (l_pool L)"
    "l_symbol L' = l_symbol L" "l_calls L' = l_calls L"
proof (rule that)
  let ?L' = "(set_levels bs (omap_update (o_price (l_heap L a)) (drop_ends a (l_heap L a))
      (levels bs L)) L)\<lparr>l_heap := unlink a (l_heap L), l_orders := (l_orders L)(i := None),
      l_pool := (l_pool L)\<lparr>p_free_list := p_free_list (l_pool L) @ [a]\<rparr>\<rparr>"
  have ends: "(\<lambda>pl. if pl_tail pl = Some a then pl\<lparr>pl_tail := o_prev x\<rparr> else pl) \<circ>
      (\<lambda>pl. if pl_head pl = Some a then pl\<lparr>pl_head := o_next x\<rparr> else pl) = drop_ends a x" for x
    by (auto simp: drop_ends_def fun_eq_iff)
  show "handle_delete_order bs i L = Inr ?L'"
    using assms
    by (cases bs) (auto simp: handle_delete_order_def Let_def ends unlink_def deallocate_def
        upd_order_def split: option.splits)
qed auto

lemma index_ok_delete:
  assumes "index_ok ix h A" "a \<in> A" "\<forall>b. o_order_id (h' b) = o_order_id (h b)"
  shows "index_ok (ix(o_order_id (h a) := None)) h' (A - {a})"
  unfolding index_ok_def
proof (intro allI)
  fix i b
  show "(ix(o_order_id (h a) := None)) i = Some b \<longleftrightarrow> b \<in> A - {a} \<and> o_order_id (h' b) = i"
  proof (cases "i = o_order_id (h a)")
    case True
    from assms(1,2) have "ix (o_order_id (h a)) = Some a" by (simp add: index_ok_def)
    then have "b = a" if "b \<in> A" "o_order_id (h b) = o_order_id (h a)"
      using assms(1) that unfolding index_ok_def by (metis option.inject)
    with True assms(3) show ?thesis by auto
  next
    case False
    with assms show ?thesis by (auto simp: index_ok_def)
  qed
qed

lemma shape_ok_order_at:
  assumes "shape_ok L S" "a \<in> set (addrs (S bs))"
  shows "l_orders L (o_order_id (l_heap L a)) = Some a"
  using assms by (auto simp: shape_ok_def index_ok_def set_all_addrs)

lemma delete_shape:
  assumes ok: "shape_ok L S" and S: "S bs = s1 @ (p, xs @ a # ys) # s2"
  obtains L' where "handle_delete_order bs (o_order_id (l_heap L a)) L = Inr L'"
    "shape_ok L' (S(bs := s1 @ (p, xs @ ys) # s2))"
    "\<forall>b. abs_order (l_heap L' b) = abs_order (l_heap L b)"
    "l_symbol L' = l_symbol L" "l_calls L' = l_calls L"
proof -
  let ?h = "l_heap L" and ?S' = "S(bs := s1 @ (p, xs @ ys) # s2)"
  from ok have rep: "levels_rep ?h (levels bs' L) (S bs')"
    and ord: "ordered_map (before bs') (S bs')" for bs' by (auto simp: shape_ok_def)
  from ok have dist: "distinct (all_addrs S)" by (simp add: shape_ok_def)
  then have distbs: "distinct (addrs (S bs))" by (simp add: distinct_all_addrs)
  have mem: "a \<in> set (addrs (S bs))" by (simp add: S)
  then have ix: "l_orders L (o_order_id (?h a)) = Some a"
    using ok by (rule shape_ok_order_at [rotated])
  from rep [of bs] S obtain m1 pl m2 where m: "levels bs L = m1 @ (p, pl) # m2"
    "levels_rep ?h m1 s1" "level_rep ?h p pl (xs @ a # ys)" "levels_rep ?h m2 s2"
    by (auto elim: levels_rep_split)
  have price: "o_price (?h a) = p" using m(3) by (simp add: level_rep_def)
  have keys: "p \<notin> fst ` set m1" "p \<notin> fst ` set m2"
    using shape_split_keys [OF ok S] levels_rep_keys [OF m(2)] levels_rep_keys [OF m(4)]
    by (metis list.set_map)+
  have "map_of (levels bs L) (o_price (?h a)) = Some pl"
    unfolding m(1) price by (rule omap_at(1) [OF keys])
  with ix obtain L' where del: "handle_delete_order bs (o_order_id (?h a)) L = Inr L'"
    and h': "l_heap L' = unlink a ?h" and o': "l_orders L' = (l_orders L)(o_order_id (?h a) := None)"
    and lv: "levels bs L' = omap_update (o_price (?h a)) (drop_ends a (?h a)) (levels bs L)"
    and lv': "\<forall>bs'. bs' \<noteq> bs \<longrightarrow> levels bs' L' = levels bs' L"
    and pool: "p_free_list (l_pool L') = p_free_list (l_pool L) @ [a]"
      "p_blocks (l_pool L') = p_blocks (l_pool L)"
    and rest: "l_symbol L' = l_symbol L" "l_calls L' = l_calls L"
    by (rule handle_delete_order_eq)
  have link: "linked ?h None (xs @ a # ys) None" using m(3) by (simp add: level_rep_def)
  have dxs: "distinct (xs @ a # ys)" using distbs S by auto
  have frame: "unlink a ?h b = ?h b" if "b \<notin> set (xs @ a # ys)" for b
  proof (rule unlink_frame [OF link])
    show "b \<noteq> a" using that by auto
    show "Some b \<noteq> last_or xs None" using that by (auto simp: last_or_def split: if_splits)
    show "Some b \<noteq> first_or ys None" using that by (cases ys) auto
  qed
  have lrep: "level_rep (unlink a ?h) p (drop_ends a (?h a) pl) (xs @ ys)"
  proof -
    have "first_or (xs @ ys) None = (if pl_head pl = Some a then o_next (?h a) else pl_head pl)"
      using m(3) dxs by (cases xs) (auto simp: level_rep_def)
    moreover have "last_or (xs @ ys) None = (if pl_tail pl = Some a then o_prev (?h a) else pl_tail pl)"
      using m(3) dxs by (cases ys rule: rev_cases) (auto simp: level_rep_def)
    ultimately show ?thesis
      using m(3) linked_unlink [OF link dxs]
      by (simp add: level_rep_def drop_ends_def del: first_or_append last_or_append linked_append)
  qed
  have part: "levels_rep (unlink a ?h) m s" if "levels_rep ?h m s"
    "set (addrs s) \<inter> set (xs @ a # ys) = {}" for m s
    using that frame by (subst levels_rep_cong [where h = ?h]) (auto simp: disjoint_iff)
  have reps: "levels_rep (l_heap L') (levels bs' L') (?S' bs')" for bs'
  proof (cases "bs' = bs")
    case True
    have "set (addrs s1) \<inter> set (xs @ a # ys) = {}" "set (addrs s2) \<inter> set (xs @ a # ys) = {}"
      using distbs S by auto
    then show ?thesis using True lrep part m h' lv price keys by (auto intro: levels_rep_append)
  next
    case False
    then have "set (addrs (S bs')) \<inter> set (xs @ a # ys) = {}"
      using all_addrs_other_side [OF dist False] S by auto
    then show ?thesis using False part [OF rep] h' lv' by simp
  qed
  have ords: "ordered_map (before bs') (?S' bs')" for bs'
    using ord [of bs'] ord [of bs] S by (auto simp: ordered_map_append)
  have addrs': "set (all_addrs ?S') = set (all_addrs S) - {a}" "distinct (all_addrs ?S')"
    using dist S by (cases bs; auto simp: all_addrs_def)+
  have memall: "a \<in> set (all_addrs S)" using mem by (auto simp: set_all_addrs)
  have ixs: "index_ok (l_orders L') (l_heap L') (set (all_addrs ?S'))"
    unfolding o' h' addrs' by (rule index_ok_delete) (use ok memall in \<open>auto simp: shape_ok_def\<close>)
  have pools: "pool_ok (l_pool L') (set (all_addrs ?S'))"
    using ok memall unfolding shape_ok_def pool_ok_def pool addrs' by auto
  show thesis
    by (rule that [OF del]) (use reps ords addrs' ixs pools h' rest in \<open>auto simp: shape_ok_def\<close>)
qed

text \<open>Calls, and updates of the data fields of an order, keep the shape.\<close>

lemma shape_ok_call [simp]: "shape_ok (call c L) S = shape_ok L S"
  by (simp add: shape_ok_def)

lemma shape_ok_upd_data:
  assumes "\<And>x. o_next (f x) = o_next x" "\<And>x. o_prev (f x) = o_prev x"
    "\<And>x. o_price (f x) = o_price x" "\<And>x. o_order_id (f x) = o_order_id x"
  shows "shape_ok (upd_order a f L) S = shape_ok L S"
proof -
  have "levels_rep ((l_heap L)(a := f (l_heap L a))) m s = levels_rep (l_heap L) m s" for m s
    by (rule levels_rep_cong) (simp add: assms)
  moreover have "index_ok ix ((l_heap L)(a := f (l_heap L a))) A = index_ok ix (l_heap L) A" for ix A
    unfolding index_ok_def by (metis assms(4) fun_upd_apply)
  ultimately show ?thesis by (simp add: shape_ok_def)
qed

lemma erase_shape:
  assumes ok: "shape_ok L S" and S: "S bs = s1 @ (p, []) # s2"
  shows "shape_ok (set_levels bs (omap_erase p (levels bs L)) L) (S(bs := s1 @ s2))"
proof -
  have rep: "levels_rep (l_heap L) (levels bs' L) (S bs')"
    and ord: "ordered_map (before bs') (S bs')" for bs'
    using ok by (auto simp: shape_ok_def)
  from rep [of bs] S obtain m1 pl m2 where m: "levels bs L = m1 @ (p, pl) # m2"
    "levels_rep (l_heap L) m1 s1" "levels_rep (l_heap L) m2 s2"
    by (auto elim: levels_rep_split)
  have "p \<notin> fst ` set m1" "p \<notin> fst ` set m2"
    using shape_split_keys [OF ok S] levels_rep_keys [OF m(2)] levels_rep_keys [OF m(3)]
    by (metis list.set_map)+
  then have "omap_erase p (levels bs L) = m1 @ m2" by (simp add: m(1))
  moreover have "set (all_addrs (S(bs := s1 @ s2))) = set (all_addrs S)"
    "distinct (all_addrs (S(bs := s1 @ s2)))"
    using ok S by (cases bs; auto simp: all_addrs_def shape_ok_def)+
  moreover have "ordered_map (before bs) (s1 @ s2)"
    using ord [of bs] S by (auto simp: ordered_map_append)
  ultimately show ?thesis
    using ok rep ord m by (auto simp: shape_ok_def intro: levels_rep_append)
qed

lemma shape_level_head:
  assumes ok: "shape_ok L S" and S: "S bs = s1 @ (p, as) # s2"
  obtains pl where "map_of (levels bs L) p = Some pl" "level_rep (l_heap L) p pl as"
proof -
  have "levels_rep (l_heap L) (levels bs L) (S bs)" using ok by (simp add: shape_ok_def)
  with S obtain m1 pl m2 where m: "levels bs L = m1 @ (p, pl) # m2"
    "levels_rep (l_heap L) m1 s1" "level_rep (l_heap L) p pl as" "levels_rep (l_heap L) m2 s2"
    by (auto elim: levels_rep_split)
  have "p \<notin> fst ` set m1" "p \<notin> fst ` set m2"
    using shape_split_keys [OF ok S] levels_rep_keys [OF m(2)] levels_rep_keys [OF m(4)]
    by (metis list.set_map)+
  then have "map_of (levels bs L) p = Some pl" unfolding m(1) by (rule omap_at(1))
  with m(3) show thesis by (rule that [rotated])
qed

section \<open>Matching serves the book\<close>

text \<open>
  The inner loop on a level with the orders \<open>as\<close> returns what \<open>fill_level\<close> computes.  The
  statement says that the loop ends: the result is \<open>Some\<close>.
\<close>

definition level_result ::
  "ladder \<Rightarrow> shape \<Rightarrow> book_side \<Rightarrow> shape_levels \<Rightarrow> i32 \<Rightarrow> addr list \<Rightarrow> shape_levels
   \<Rightarrow> u32 \<times> resting list \<times> call list \<Rightarrow> (u32 \<times> bool \<times> ladder) throws option \<Rightarrow> bool" where
  "level_result L S bs s1 p as s2 spec res \<longleftrightarrow>
    (case spec of (q', rs', cs) \<Rightarrow>
      \<exists>L' as' ret. res = Some (Inr (q', ret, L')) \<and> shape_ok L' (S(bs := s1 @ (p, as') # s2)) \<and>
        map (\<lambda>a. abs_order (l_heap L' a)) as' = rs' \<and>
        (\<forall>b. b \<notin> set as \<longrightarrow> abs_order (l_heap L' b) = abs_order (l_heap L b)) \<and>
        l_symbol L' = l_symbol L \<and> l_calls L' = l_calls L @ cs \<and> (ret \<longrightarrow> as' \<noteq> []))"

lemma level_resultI:
  assumes "res = Some (Inr (q', ret, L'))" "shape_ok L' (S(bs := s1 @ (p, as') # s2))"
    "spec = (q', map (\<lambda>a. abs_order (l_heap L' a)) as', cs)"
    "\<And>b. b \<notin> set as \<Longrightarrow> abs_order (l_heap L' b) = abs_order (l_heap L b)"
    "l_symbol L' = l_symbol L" "l_calls L' = l_calls L @ cs" "ret \<Longrightarrow> as' \<noteq> []"
  shows "level_result L S bs s1 p as s2 spec res"
  using assms unfolding level_result_def by (simp, blast)

lemma level_result_stop:
  assumes "shape_ok L S" "S bs = s1 @ (p, as) # s2"
  shows "level_result L S bs s1 p as s2 (q, map (\<lambda>a. abs_order (l_heap L a)) as, [])
    (Some (Inr (q, False, L)))"
  by (rule level_resultI [where as' = as and cs = "[]" and ret = False and L' = L and q' = q])
    (use assms in \<open>auto simp: fun_upd_idem\<close>)

lemma level_result_partial:
  assumes ok: "shape_ok L S" and S: "S bs = s1 @ (p, a # as) # s2"
    and q: "\<not> o_quantity (l_heap L a) \<le> q" "q \<noteq> 0"
  shows "level_result L S bs s1 p (a # as) s2
    (fill_level iid sd (l_symbol L) p q (map (\<lambda>a. abs_order (l_heap L a)) (a # as)))
    (match_level iid sd bs (Some a) q L)"
proof -
  let ?f = "\<lambda>x. x\<lparr>o_filled_quantity := o_filled_quantity x + q\<rparr>"
  let ?g = "\<lambda>x. x\<lparr>o_quantity := o_quantity x - q\<rparr>"
  let ?L = "call (OnFill iid (l_symbol L) sd q p CLOSED True)
      (call (OnFill (o_order_id (l_heap L a)) (l_symbol L) (o_side (l_heap L a)) q p
         PARTIAL_FILL False) (call (OnTrade (o_order_id (l_heap L a)) q p) L))"
  let ?L' = "upd_order a ?g (upd_order a ?f ?L)"
  from ok S obtain pl where "level_rep (l_heap L) p pl (a # as)" by (rule shape_level_head)
  then have price: "o_price (l_heap L a) = p" by (simp add: level_rep_def)
  have "a \<notin> set as" using ok S by (auto simp: shape_ok_def distinct_all_addrs dest: spec [of _ bs])
  then have data: "map (\<lambda>a. abs_order (l_heap ?L' a)) (a # as)
      = reduce q (abs_order (l_heap L a)) # map (\<lambda>a. abs_order (l_heap L a)) as"
    by (auto simp: abs_order_def reduce_def)
  show ?thesis
  proof (rule level_resultI [where as' = "a # as" and ret = True and L' = ?L' and q' = 0])
    show "match_level iid sd bs (Some a) q L = Some (Inr (0, True, ?L'))"
      using q price by (simp add: match_level.simps Let_def)
    show "shape_ok ?L' (S(bs := s1 @ (p, a # as) # s2))"
      using ok S by (simp add: shape_ok_upd_data fun_upd_idem)
    show "fill_level iid sd (l_symbol L) p q (map (\<lambda>a. abs_order (l_heap L a)) (a # as))
        = (0, map (\<lambda>a. abs_order (l_heap ?L' a)) (a # as),
           partial_fill_calls iid sd (l_symbol L) p (abs_order (l_heap L a)) q)"
      unfolding data using q by simp
  qed (auto simp: partial_fill_calls_def)
qed

lemma match_level_step:
  assumes ok: "shape_ok L S" and S: "S bs = s1 @ (p, a # as) # s2"
    and q: "o_quantity (l_heap L a) \<le> q" "q \<noteq> 0"
  obtains L' where "match_level iid sd bs (Some a) q L
      = match_level iid sd bs (first_or as None) (q - o_quantity (l_heap L a)) L'"
    "shape_ok L' (S(bs := s1 @ (p, as) # s2))"
    "\<forall>b. abs_order (l_heap L' b) = abs_order (l_heap L b)" "l_symbol L' = l_symbol L"
    "l_calls L' = l_calls L @ full_fill_calls iid sd (l_symbol L) p (abs_order (l_heap L a))
       (q - o_quantity (l_heap L a))"
proof -
  let ?x = "l_heap L a"
  let ?q = "q - o_quantity ?x"
  let ?L = "call (OnFill iid (l_symbol L) sd (o_quantity ?x) p
        (if ?q > 0 then PARTIAL_FILL else CLOSED) True)
      (call (OnFill (o_order_id ?x) (l_symbol L) (o_side ?x) (o_quantity ?x) p CLOSED False)
        (call (OnTrade (o_order_id ?x) (o_quantity ?x) p) L))"
  from ok S obtain pl where "level_rep (l_heap L) p pl (a # as)" by (rule shape_level_head)
  then have price: "o_price ?x = p" and nxt: "o_next ?x = first_or as None"
    by (auto simp: level_rep_def)
  have "shape_ok ?L S" using ok by simp
  moreover have "S bs = s1 @ (p, [] @ a # as) # s2" using S by simp
  ultimately obtain L' where L': "handle_delete_order bs (o_order_id (l_heap ?L a)) ?L = Inr L'"
    "shape_ok L' (S(bs := s1 @ (p, [] @ as) # s2))"
    "\<forall>b. abs_order (l_heap L' b) = abs_order (l_heap ?L b)"
    "l_symbol L' = l_symbol ?L" "l_calls L' = l_calls ?L"
    by (rule delete_shape)
  have "match_level iid sd bs (Some a) q L = match_level iid sd bs (first_or as None) ?q L'"
    using q price nxt L'(1) by (subst match_level.simps) (simp add: Let_def)
  with L' show thesis by (intro that) (simp_all add: full_fill_calls_def)
qed

lemma match_level_sim:
  assumes "shape_ok L S" "S bs = s1 @ (p, as) # s2"
  shows "level_result L S bs s1 p as s2
    (fill_level iid sd (l_symbol L) p q (map (\<lambda>a. abs_order (l_heap L a)) as))
    (match_level iid sd bs (first_or as None) q L)"
  using assms
proof (induction as arbitrary: L S q)
  case Nil
  then show ?case using level_result_stop [OF Nil] by (simp add: match_level.simps)
next
  case (Cons a as)
  consider "q = 0" | "q \<noteq> 0" "\<not> o_quantity (l_heap L a) \<le> q" | "q \<noteq> 0" "o_quantity (l_heap L a) \<le> q"
    by blast
  then show ?case
  proof cases
    case 1
    then show ?thesis using level_result_stop [OF Cons.prems, of 0] by (simp add: match_level.simps)
  next
    case 2
    then show ?thesis using level_result_partial [OF Cons.prems] by simp
  next
    case 3
    let ?q = "q - o_quantity (l_heap L a)" and ?S' = "S(bs := s1 @ (p, as) # s2)"
    from Cons.prems 3(2,1) obtain L' where L': "match_level iid sd bs (Some a) q L
        = match_level iid sd bs (first_or as None) ?q L'"
      "shape_ok L' ?S'" "\<forall>b. abs_order (l_heap L' b) = abs_order (l_heap L b)"
      "l_symbol L' = l_symbol L"
      "l_calls L' = l_calls L @ full_fill_calls iid sd (l_symbol L) p (abs_order (l_heap L a)) ?q"
      by (rule match_level_step)
    obtain q' rs' cs where spec: "fill_level iid sd (l_symbol L) p ?q
        (map (\<lambda>a. abs_order (l_heap L a)) as) = (q', rs', cs)" by (metis prod_cases3)
    have "?S' bs = s1 @ (p, as) # s2" by simp
    from Cons.IH [OF L'(2) this, of ?q]
    have "level_result L' ?S' bs s1 p as s2 (q', rs', cs)
        (match_level iid sd bs (first_or as None) ?q L')"
      using L'(3,4) spec by (simp del: fun_upd_apply fun_upd_upd)
    then obtain L'' as' ret where L'':
      "match_level iid sd bs (first_or as None) ?q L' = Some (Inr (q', ret, L''))"
      "shape_ok L'' (?S'(bs := s1 @ (p, as') # s2))"
      "map (\<lambda>a. abs_order (l_heap L'' a)) as' = rs'"
      "\<forall>b. b \<notin> set as \<longrightarrow> abs_order (l_heap L'' b) = abs_order (l_heap L' b)"
      "l_symbol L'' = l_symbol L'" "l_calls L'' = l_calls L' @ cs" "ret \<longrightarrow> as' \<noteq> []"
      unfolding level_result_def by auto
    show ?thesis
      by (rule level_resultI [where as' = as' and ret = ret and L' = L'' and q' = q'])
        (use 3 L' L'' spec in \<open>auto simp: Let_def\<close>)
  qed
qed

definition orders_result ::
  "ladder \<Rightarrow> shape \<Rightarrow> book_side \<Rightarrow> u32 \<times> book_levels \<times> call list \<Rightarrow> (u32 \<times> ladder) throws option \<Rightarrow> bool" where
  "orders_result L S bs spec res \<longleftrightarrow>
    (case spec of (q', m', cs) \<Rightarrow>
      \<exists>L' s'. res = Some (Inr (q', L')) \<and> shape_ok L' (S(bs := s')) \<and>
        abs_levels (l_heap L') s' = m' \<and>
        (\<forall>b. b \<notin> set (addrs (S bs)) \<longrightarrow> abs_order (l_heap L' b) = abs_order (l_heap L b)) \<and>
        l_symbol L' = l_symbol L \<and> l_calls L' = l_calls L @ cs)"

lemma orders_resultI:
  assumes "res = Some (Inr (q', L'))" "shape_ok L' (S(bs := s'))"
    "spec = (q', abs_levels (l_heap L') s', cs)"
    "\<And>b. b \<notin> set (addrs (S bs)) \<Longrightarrow> abs_order (l_heap L' b) = abs_order (l_heap L b)"
    "l_symbol L' = l_symbol L" "l_calls L' = l_calls L @ cs"
  shows "orders_result L S bs spec res"
  using assms unfolding orders_result_def by (simp, blast)

text \<open>A level list is empty in the ladder exactly when it is empty in the shape.\<close>

lemma shape_levels_Cons:
  assumes "shape_ok L S" "S bs = (p, as) # s"
  obtains pl m where "levels bs L = (p, pl) # m" "level_rep (l_heap L) p pl as"
proof -
  have "levels_rep (l_heap L) (levels bs L) ((p, as) # s)"
    using assms by (metis shape_ok_def)
  then show thesis using that by (auto simp: levels_rep_def list_all2_Cons2)
qed

lemma shape_levels_Nil: "shape_ok L S \<Longrightarrow> S bs = [] \<Longrightarrow> levels bs L = []"
  unfolding shape_ok_def by (metis levels_rep_Nil(2))

lemma orders_result_stop:
  assumes "shape_ok L S"
  shows "orders_result L S bs (q, abs_levels (l_heap L) (S bs), []) (Some (Inr (q, L)))"
  by (rule orders_resultI [where s' = "S bs"]) (use assms in auto)

lemma match_orders_zero: "match_orders iid sd 0 price bs L = Some (Inr (0, L))"
  by (subst match_orders.simps) (simp split: list.split prod.split)

lemma match_orders_sim:
  assumes "shape_ok L S" "S bs = s"
  shows "orders_result L S bs (fill_book iid sd (l_symbol L) price q (abs_levels (l_heap L) s))
    (match_orders iid sd q price bs L)"
  using assms
proof (induction s arbitrary: L S q)
  case Nil
  then have "levels bs L = []" by (rule shape_levels_Nil)
  then show ?case using Nil orders_result_stop [OF Nil(1), of bs q]
    by (subst match_orders.simps) simp
next
  case (Cons e s)
  obtain p as where e: "e = (p, as)" by (cases e)
  with Cons.prems have S: "S bs = [] @ (p, as) # s" by simp
  from Cons.prems e obtain pl m where lv: "levels bs L = (p, pl) # m"
    and pl: "level_rep (l_heap L) p pl as" by (auto elim: shape_levels_Cons)
  show ?case
  proof (cases "q = 0 \<or> \<not> crosses sd price p")
    case True
    then show ?thesis using Cons.prems e lv orders_result_stop [OF Cons.prems(1), of bs q]
      by (subst match_orders.simps) simp
  next
    case False
    let ?rs = "map (\<lambda>a. abs_order (l_heap L a)) as"
    obtain q1 rs1 cs1 where spec: "fill_level iid sd (l_symbol L) p q ?rs = (q1, rs1, cs1)"
      by (metis prod_cases3)
    from match_level_sim [OF Cons.prems(1) S, of iid sd q] spec obtain L1 as1 ret where L1:
      "match_level iid sd bs (first_or as None) q L = Some (Inr (q1, ret, L1))"
      "shape_ok L1 (S(bs := (p, as1) # s))" "map (\<lambda>a. abs_order (l_heap L1 a)) as1 = rs1"
      "\<forall>b. b \<notin> set as \<longrightarrow> abs_order (l_heap L1 b) = abs_order (l_heap L b)"
      "l_symbol L1 = l_symbol L" "l_calls L1 = l_calls L @ cs1" "ret \<longrightarrow> as1 \<noteq> []"
      unfolding level_result_def by auto
    let ?S1 = "S(bs := (p, as1) # s)"
    have S1: "?S1 bs = [] @ (p, as1) # s" by simp
    from L1(2) S1 obtain pl1 where pl1: "map_of (levels bs L1) p = Some pl1"
      "level_rep (l_heap L1) p pl1 as1" by (rule shape_level_head)
    have s_same: "abs_levels (l_heap L1) s = abs_levels (l_heap L) s"
    proof (rule abs_levels_cong)
      have "distinct (addrs (S bs))" using Cons.prems(1) by (metis shape_ok_def distinct_all_addrs)
      then show "\<forall>a \<in> set (addrs s). abs_order (l_heap L1 a) = abs_order (l_heap L a)"
        using L1(4) S by auto
    qed
    have unfold: "match_orders iid sd q price bs L =
      (if ret then Some (Inr (q1, L1))
       else if as1 = [] then match_orders iid sd q1 price bs
              (set_levels bs (omap_erase p (levels bs L1)) L1)
       else if q1 > 0 then Some (Inl (LevelNotEmpty p q1, L1))
       else match_orders iid sd q1 price bs L1)"
      using False lv pl pl1 L1(1)
      by (subst match_orders.simps) (auto simp: level_rep_def split: list.splits)
    show ?thesis
    proof (cases "as1 = []")
      case True
      let ?L2 = "set_levels bs (omap_erase p (levels bs L1)) L1" and ?S2 = "S(bs := s)"
      have "shape_ok ?L2 (?S1(bs := [] @ s))"
        by (rule erase_shape [OF L1(2)]) (simp add: True)
      then have ok2: "shape_ok ?L2 ?S2" by simp
      obtain q2 m2 cs2 where spec2: "fill_book iid sd (l_symbol L) price q1
          (abs_levels (l_heap L) s) = (q2, m2, cs2)" by (metis prod_cases3)
      have "?S2 bs = s" by simp
      from Cons.IH [OF ok2 this, of q1]
      have "orders_result ?L2 ?S2 bs (q2, m2, cs2) (match_orders iid sd q1 price bs ?L2)"
        using L1(5) s_same spec2 by (simp del: fun_upd_apply)
      then obtain L3 s3 where L3: "match_orders iid sd q1 price bs ?L2 = Some (Inr (q2, L3))"
        "shape_ok L3 (S(bs := s3))" "abs_levels (l_heap L3) s3 = m2"
        "\<forall>b. b \<notin> set (addrs s) \<longrightarrow> abs_order (l_heap L3 b) = abs_order (l_heap L1 b)"
        "l_symbol L3 = l_symbol L1" "l_calls L3 = l_calls L1 @ cs2"
        unfolding orders_result_def by auto
      show ?thesis
        by (rule orders_resultI [where L' = L3 and s' = s3 and q' = q2 and cs = "cs1 @ cs2"])
          (use False e S True L1 L3 spec spec2 unfold in \<open>auto simp: Let_def\<close>)
    next
      case ne: False
      then have "q1 = 0" using fill_level_left [OF spec] L1(3) by auto
      have stop: "match_orders iid sd q price bs L = Some (Inr (q1, L1))"
      proof (cases ret)
        case False
        with unfold ne \<open>q1 = 0\<close> show ?thesis by (simp add: match_orders_zero)
      qed (simp add: unfold)
      show ?thesis
        by (rule orders_resultI [where L' = L1 and s' = "(p, as1) # s" and q' = q1 and cs = cs1])
          (use False e S ne L1 stop spec s_same in \<open>auto simp: Let_def\<close>)
    qed
  qed
qed

end
