(* ===== verification/Ladder_Ops.thy ===== *)
theory Ladder_Ops imports
  Ladder_Refine
begin

text \<open>
  The order pool hands out fresh objects, and \<open>insertOrder\<close> links a new object in where the
  price-time book queues the new order.
\<close>

section \<open>The order pool hands out fresh objects\<close>

lemma pool_ok_add_block:
  assumes "pool_ok p A" "p_free_list p = []"
  shows "pool_ok (add_block p) A" "p_free_list (add_block p) \<noteq> []"
proof -
  have pos: "0 < ORDER_POOL_BLOCK_SIZE" by (simp add: ORDER_POOL_BLOCK_SIZE_def)
  have "distinct (map (\<lambda>i. b * n + i) [0..<n])" for b n :: nat
    by (simp add: distinct_map inj_on_def)
  then show "pool_ok (add_block p) A"
    using assms unfolding pool_ok_def add_block_def
    by (fastforce simp: disjoint_iff dest: bspec)
  show "p_free_list (add_block p) \<noteq> []" using pos by (simp add: add_block_def)
qed

lemma pool_ok_pop:
  assumes "pool_ok p A" "p_free_list p = fl @ [a]"
  shows "a \<notin> A" "pool_ok (p\<lparr>p_free_list := fl\<rparr>) (insert a A)"
  using assms by (auto simp: pool_ok_def)

lemma allocate_fresh:
  assumes "pool_ok p A"
  obtains a p' where "allocate p = (a, p')" "a \<notin> A" "pool_ok p' (insert a A)"
proof -
  define p1 where "p1 = (if p_free_list p = [] then add_block p else p)"
  have p1: "pool_ok p1 A" "p_free_list p1 \<noteq> []"
    using assms pool_ok_add_block [OF assms] by (auto simp: p1_def)
  then have split: "p_free_list p1 = butlast (p_free_list p1) @ [last (p_free_list p1)]" by simp
  have "allocate p = (last (p_free_list p1), p1\<lparr>p_free_list := butlast (p_free_list p1)\<rparr>)"
    by (simp add: allocate_def p1_def Let_def)
  then show thesis using pool_ok_pop [OF p1(1) split] by (rule that)
qed

section \<open>Inserting an order\<close>

lemma index_ok_insert:
  assumes "index_ok ix h A" "ix i = None" "a \<notin> A" "o_order_id (h' a) = i"
    "\<And>b. b \<in> A \<Longrightarrow> o_order_id (h' b) = o_order_id (h b)"
  shows "index_ok (ix(i \<mapsto> a)) h' (insert a A)"
  unfolding index_ok_def
proof (intro allI)
  fix j b
  have index: "ix j = Some b \<longleftrightarrow> b \<in> A \<and> o_order_id (h b) = j" for j b
    using assms(1) by (simp add: index_ok_def)
  have "o_order_id (h b) \<noteq> i" if "b \<in> A" for b
    using assms(1,2) that unfolding index_ok_def by (metis option.distinct(1))
  then show "(ix(i \<mapsto> a)) j = Some b \<longleftrightarrow> b \<in> insert a A \<and> o_order_id (h' b) = j"
    using assms index [of j b] index [of j a]
    by (cases "j = i"; cases "b = a"; cases "b \<in> A") auto
qed

definition new_cell :: "u64 \<Rightarrow> side \<Rightarrow> u32 \<Rightarrow> u32 \<Rightarrow> i32 \<Rightarrow> u8 \<Rightarrow> order" where
  "new_cell i sd q filled price flags = \<lparr>o_order_id = i, o_timestamp = 0, o_quantity = q,
     o_filled_quantity = filled, o_price = price, o_side = sd, o_flags = flags,
     o_next = None, o_prev = None\<rparr>"

lemma new_cell_simps [simp]:
  "o_order_id (new_cell i sd q filled price flags) = i"
  "o_price (new_cell i sd q filled price flags) = price"
  "o_next (new_cell i sd q filled price flags) = None"
  "o_prev (new_cell i sd q filled price flags) = None"
  "abs_order (new_cell i sd q filled price flags)
     = \<lparr>r_order_id = i, r_quantity = q, r_filled = filled, r_side = sd, r_flags = flags\<rparr>"
  by (simp_all add: new_cell_def abs_order_def)

text \<open>The two outcomes of a shape: a new level, or a longer queue.\<close>

lemma shape_add_level:
  assumes ok: "shape_ok L S" and S: "S bs = s1 @ s2" and keys: "\<forall>e \<in> set s1. before bs (fst e) p"
    "\<forall>e \<in> set s2. before bs p (fst e)" and lv: "levels bs L = m1 @ m2" "length m1 = length s1"
    and a: "a \<notin> set (all_addrs S)" "pool_ok pl (insert a (set (all_addrs S)))"
    and x: "o_price x = p" "o_next x = None" "o_prev x = None" "l_orders L (o_order_id x) = None"
  shows "shape_ok (set_levels bs (m1 @ (p, \<lparr>pl_head = Some a, pl_tail = Some a\<rparr>) # m2)
      (L\<lparr>l_heap := (l_heap L)(a := x), l_orders := (l_orders L)(o_order_id x \<mapsto> a), l_pool := pl\<rparr>))
    (S(bs := s1 @ (p, [a]) # s2))" (is "shape_ok ?L ?S")
proof -
  let ?h = "(l_heap L)(a := x)"
  from ok have rep: "levels_rep (l_heap L) (levels b L) (S b)"
    and ord: "ordered_map (before b) (S b)" for b by (auto simp: shape_ok_def)
  have fresh: "a \<notin> set (addrs (S b))" for b using a(1) by (simp add: set_all_addrs)
  then have rep': "levels_rep ?h (levels b L) (S b)" for b
    using rep [of b] by (subst levels_rep_cong [where h = "l_heap L"]) auto
  have "levels_rep ?h (m1 @ m2) (s1 @ s2)" using rep' [of bs] S lv by simp
  then have parts: "levels_rep ?h m1 s1" "levels_rep ?h m2 s2"
    using lv(2) by (auto simp: levels_rep_def list_all2_append)
  have "level_rep ?h p \<lparr>pl_head = Some a, pl_tail = Some a\<rparr> [a]"
    using x by (simp add: level_rep_def)
  then have "levels_rep (l_heap ?L) (levels b ?L) (?S b)" for b
    using rep' [of b] parts by (auto intro: levels_rep_append)
  moreover have "ordered_map (before b) (?S b)" for b
    using ord [of b] ord [of bs] S keys by (auto simp: ordered_map_append)
  moreover have addrs': "set (all_addrs ?S) = insert a (set (all_addrs S))" "distinct (all_addrs ?S)"
    using ok S a(1) by (cases bs; auto simp: all_addrs_def shape_ok_def)+
  moreover have "index_ok (l_orders ?L) (l_heap ?L) (set (all_addrs ?S))"
    unfolding addrs' set_levels_fields
    using ok a(1) x(4) by (auto simp: shape_ok_def intro!: index_ok_insert)
  ultimately show ?thesis using a(2) by (auto simp: shape_ok_def)
qed

lemma linked_snoc_cell:
  assumes "linked h None (xs @ [t]) None" "distinct (xs @ [t])" "a \<notin> set (xs @ [t])"
    "h' a = x\<lparr>o_next := None, o_prev := Some t\<rparr>" "h' t = (h t)\<lparr>o_next := Some a\<rparr>"
    "\<And>b. b \<noteq> a \<Longrightarrow> b \<noteq> t \<Longrightarrow> h' b = h b"
  shows "linked h' None (xs @ [t, a]) None"
proof -
  have "linked h' None xs (Some t) = linked h None xs (Some t)"
  proof (rule linked_cong, rule ballI)
    fix b assume "b \<in> set xs"
    with assms(2,3) have "b \<noteq> a" "b \<noteq> t" by auto
    then have "h' b = h b" by (rule assms(6))
    then show "o_prev (h' b) = o_prev (h b) \<and> o_next (h' b) = o_next (h b)" by simp
  qed
  then show ?thesis using assms by simp
qed

lemma shape_extend_level:
  assumes ok: "shape_ok L S" and S: "S bs = s1 @ (p, xs @ [t]) # s2"
    and a: "a \<notin> set (all_addrs S)" "pool_ok pl (insert a (set (all_addrs S)))"
    and x: "o_price x = p" "o_next x = None" "o_prev x = None" "l_orders L (o_order_id x) = None"
    and L': "l_heap L' = (l_heap L)(a := x\<lparr>o_prev := Some t\<rparr>,
        t := (l_heap L t)\<lparr>o_next := Some a\<rparr>)"
      "l_orders L' = (l_orders L)(o_order_id x \<mapsto> a)" "l_pool L' = pl"
      "levels bs L' = omap_update p (\<lambda>l. l\<lparr>pl_tail := Some a\<rparr>) (levels bs L)"
      "\<And>b. b \<noteq> bs \<Longrightarrow> levels b L' = levels b L"
  shows "shape_ok L' (S(bs := s1 @ (p, xs @ [t, a]) # s2))" (is "shape_ok L' ?S")
proof -
  let ?h = "l_heap L'"
  from ok have rep: "levels_rep (l_heap L) (levels b L) (S b)"
    and ord: "ordered_map (before b) (S b)" and dist: "distinct (all_addrs S)" for b
    by (auto simp: shape_ok_def)
  have dbs: "distinct (addrs (S bs))" using dist by (simp add: distinct_all_addrs)
  have t: "t \<in> set (addrs (S bs))" using S by simp
  then have ta: "t \<noteq> a" using a(1) by (auto simp: set_all_addrs)
  from rep [of bs] S obtain m1 l m2 where m: "levels bs L = m1 @ (p, l) # m2"
    "levels_rep (l_heap L) m1 s1" "level_rep (l_heap L) p l (xs @ [t])" "levels_rep (l_heap L) m2 s2"
    by (auto elim: levels_rep_split)
  have keys: "p \<notin> fst ` set m1" "p \<notin> fst ` set m2"
    using shape_split_keys [OF ok S] levels_rep_keys [OF m(2)] levels_rep_keys [OF m(4)]
    by (metis list.set_map)+
  have frame: "levels_rep ?h m s = levels_rep (l_heap L) m s"
    if "a \<notin> set (addrs s)" "t \<notin> set (addrs s)" for m s
    by (rule levels_rep_cong) (use that L'(1) in auto)
  have dxt: "distinct (xs @ [t])" using dbs S by simp
  have "a \<notin> set (addrs (S bs))" using a(1) by (simp add: set_all_addrs)
  then have axt: "a \<notin> set (xs @ [t])" using S by auto
  have "linked (l_heap L) None (xs @ [t]) None" using m(3) by (simp add: level_rep_def)
  from linked_snoc_cell [OF this dxt axt, of ?h x]
  have "linked ?h None (xs @ [t, a]) None"
    using L'(1) ta x(2) by (auto simp: fun_upd_def)
  moreover have "\<forall>b \<in> set (xs @ [t, a]). o_price (?h b) = p"
    using m(3) L'(1) x ta by (auto simp: level_rep_def)
  ultimately have lrep: "level_rep ?h p (l\<lparr>pl_tail := Some a\<rparr>) (xs @ [t, a])"
    using m(3) by (cases xs) (auto simp: level_rep_def)
  have reps: "levels_rep ?h (levels b L') (?S b)" for b
  proof (cases "b = bs")
    case True
    have "a \<notin> set (addrs (S bs))" using a(1) by (simp add: set_all_addrs)
    then have "a \<notin> set (addrs s1)" "a \<notin> set (addrs s2)" "t \<notin> set (addrs s1)" "t \<notin> set (addrs s2)"
      using dbs S by auto
    then have "levels_rep ?h m1 s1" "levels_rep ?h m2 s2" using m frame by auto
    then show ?thesis using True L'(4) lrep keys by (auto simp: m(1) intro: levels_rep_append)
  next
    case False
    then have "t \<notin> set (addrs (S b))" using all_addrs_other_side [OF dist False] t by auto
    moreover have "a \<notin> set (addrs (S b))" using a(1) by (simp add: set_all_addrs)
    ultimately show ?thesis using False frame rep [of b] L'(5) by simp
  qed
  have ords: "ordered_map (before b) (?S b)" for b
    using ord [of b] ord [of bs] S by (auto simp: ordered_map_append)
  have addrs': "set (all_addrs ?S) = insert a (set (all_addrs S))" "distinct (all_addrs ?S)"
    using dist S a(1) by (cases bs; auto simp: all_addrs_def)+
  have "index_ok (l_orders L') ?h (set (all_addrs ?S))"
    unfolding addrs' L'(2)
    by (rule index_ok_insert [where h = "l_heap L"]) (use ok a(1) x(4) L'(1) ta in \<open>auto simp: shape_ok_def\<close>)
  with reps ords addrs' a(2) L'(3) show ?thesis by (auto simp: shape_ok_def)
qed

text \<open>The new order is queued in the book where the code links it in.\<close>

lemma insert_new_level:
  assumes ok: "shape_ok L S" and i: "l_orders L i = None" and no: "map_of (levels bs L) p = None"
  obtains L' S' where "insert_order i sd q filled p flags bs L = Inr L'" "shape_ok L' S'"
    "abs_book (l_heap L') S' = (abs_book (l_heap L) S)(bs :=
       book_insert bs p (abs_order (new_cell i sd q filled p flags)) (abs_levels (l_heap L) (S bs)))"
    "l_symbol L' = l_symbol L" "l_calls L' = l_calls L"
proof -
  let ?x = "new_cell i sd q filled p flags"
  have rep: "levels_rep (l_heap L) (levels bs L) (S bs)" using ok by (simp add: shape_ok_def)
  then have keys: "map fst (levels bs L) = map fst (S bs)" by (rule levels_rep_keys)
  have ord: "ordered_map (before bs) (levels bs L)"
    using ok keys by (simp add: ordered_map_def shape_ok_def)
  obtain a pl where a: "allocate (l_pool L) = (a, pl)" "a \<notin> set (all_addrs S)"
    "pool_ok pl (insert a (set (all_addrs S)))"
    using ok by (auto simp: shape_ok_def elim: allocate_fresh)
  let ?pl = "\<lparr>pl_head = Some a, pl_tail = Some a\<rparr>"
  from book_order.insert_split [OF ord no, of ?pl] obtain m1 m2 where m: "levels bs L = m1 @ m2"
    "omap_insert (before bs) p ?pl (levels bs L) = m1 @ (p, ?pl) # m2"
    "\<forall>e \<in> set m1. before bs (fst e) p" "\<forall>e \<in> set m2. before bs p (fst e)" by blast
  define s1 where "s1 = take (length m1) (S bs)"
  define s2 where "s2 = drop (length m1) (S bs)"
  have S: "S bs = s1 @ s2" by (simp add: s1_def s2_def)
  have len: "length m1 = length s1"
    using arg_cong [OF keys, of length] m(1) by (simp add: s1_def)
  then have "map fst s1 = map fst m1" "map fst s2 = map fst m2" using keys m(1) S by auto
  then have "fst ` set s1 = fst ` set m1" "fst ` set s2 = fst ` set m2" by (metis list.set_map)+
  then have sk: "\<forall>e \<in> set s1. before bs (fst e) p" "\<forall>e \<in> set s2. before bs p (fst e)"
    using m(3,4) by (metis image_iff)+
  let ?L' = "set_levels bs (m1 @ (p, ?pl) # m2) (L\<lparr>l_heap := (l_heap L)(a := ?x),
      l_orders := (l_orders L)(o_order_id ?x \<mapsto> a), l_pool := pl\<rparr>)"
  have run: "insert_order i sd q filled p flags bs L = Inr ?L'"
    using a(1) no m(2)
    by (cases bs) (auto simp: insert_order_def Let_def upd_order_def new_cell_def)
  have ok': "shape_ok ?L' (S(bs := s1 @ (p, [a]) # s2))"
    by (rule shape_add_level [OF ok S sk m(1) len a(2,3)]) (use i in auto)
  have fresh: "a \<notin> set (addrs (S b))" for b using a(2) by (simp add: set_all_addrs)
  have same: "abs_levels ((l_heap L)(a := ?x)) s = abs_levels (l_heap L) s"
    if "a \<notin> set (addrs s)" for s
    by (rule abs_levels_cong) (use that in auto)
  have "book_insert bs p r (abs_levels (l_heap L) (S bs))
      = abs_levels (l_heap L) s1 @ (p, [r]) # abs_levels (l_heap L) s2" for r
  proof -
    have none: "map_of (abs_levels (l_heap L) (S bs)) p = None"
      using no keys by (metis map_fst_abs_levels map_of_eq_None_iff list.set_map)
    have "fst ` set (abs_levels (l_heap L) s) = fst ` set s" for s
      by (metis list.set_map map_fst_abs_levels)
    then have "\<forall>e \<in> set (abs_levels (l_heap L) s1). before bs (fst e) p"
      "\<forall>e \<in> set (abs_levels (l_heap L) s2). before bs p (fst e)"
      using sk by (metis image_iff)+
    from book_order.insert_at [OF this, of "[r]"] show ?thesis
      unfolding book_insert_def none option.case by (simp add: S)
  qed
  moreover have "a \<notin> set (addrs s1)" "a \<notin> set (addrs s2)" using fresh [of bs] S by auto
  ultimately have "abs_book (l_heap ?L') (S(bs := s1 @ (p, [a]) # s2)) = (abs_book (l_heap L) S)(bs :=
      book_insert bs p (abs_order ?x) (abs_levels (l_heap L) (S bs)))"
    using fresh same by (auto simp: abs_book_def fun_eq_iff)
  with run ok' show thesis by (rule that) simp_all
qed

lemma insert_old_level:
  assumes ok: "shape_ok L S" and i: "l_orders L i = None" and S: "S bs = s1 @ (p, xs @ [t]) # s2"
  obtains L' S' where "insert_order i sd q filled p flags bs L = Inr L'" "shape_ok L' S'"
    "abs_book (l_heap L') S' = (abs_book (l_heap L) S)(bs :=
       book_insert bs p (abs_order (new_cell i sd q filled p flags)) (abs_levels (l_heap L) (S bs)))"
    "l_symbol L' = l_symbol L" "l_calls L' = l_calls L"
proof -
  let ?x = "new_cell i sd q filled p flags"
  obtain a pl where a: "allocate (l_pool L) = (a, pl)" "a \<notin> set (all_addrs S)"
    "pool_ok pl (insert a (set (all_addrs S)))"
    using ok by (auto simp: shape_ok_def elim: allocate_fresh)
  have fresh: "a \<notin> set (addrs (S b))" for b using a(2) by (simp add: set_all_addrs)
  then have ta: "t \<noteq> a" using S [symmetric] by (metis (no_types, lifting) UnCI addrs_simps(2,3)
      list.set_intros(1) set_append)
  from ok S obtain l where l: "map_of (levels bs L) p = Some l"
    "level_rep (l_heap L) p l (xs @ [t])" by (rule shape_level_head)
  then have tail: "pl_tail l = Some t" by (simp add: level_rep_def)
  let ?L' = "set_levels bs (omap_update p (\<lambda>l. l\<lparr>pl_tail := Some a\<rparr>) (levels bs L))
      (L\<lparr>l_heap := (l_heap L)(a := ?x\<lparr>o_prev := Some t\<rparr>, t := (l_heap L t)\<lparr>o_next := Some a\<rparr>),
      l_orders := (l_orders L)(o_order_id ?x \<mapsto> a), l_pool := pl\<rparr>)"
  have run: "insert_order i sd q filled p flags bs L = Inr ?L'"
    using a(1) l(1) tail ta
    by (cases bs) (auto simp: insert_order_def Let_def upd_order_def new_cell_def fun_upd_twist)
  have ok': "shape_ok ?L' (S(bs := s1 @ (p, xs @ [t, a]) # s2))"
    by (rule shape_extend_level [OF ok S a(2,3), of ?x]) (use i in auto)
  have same: "abs_levels (l_heap ?L') s = abs_levels (l_heap L) s" if "a \<notin> set (addrs s)" for s
    by (rule abs_levels_cong) (use that in auto)
  let ?rs = "map (\<lambda>a. abs_order (l_heap L a)) (xs @ [t])"
  have "fst ` set (abs_levels (l_heap L) s) = fst ` set s" for s
    by (metis list.set_map map_fst_abs_levels)
  then have keys: "p \<notin> fst ` set (abs_levels (l_heap L) s1)" "p \<notin> fst ` set (abs_levels (l_heap L) s2)"
    using shape_split_keys [OF ok S] by auto
  have abs: "abs_levels (l_heap L) (S bs)
      = abs_levels (l_heap L) s1 @ (p, ?rs) # abs_levels (l_heap L) s2" by (simp add: S)
  have ins: "book_insert bs p r (abs_levels (l_heap L) (S bs))
      = abs_levels (l_heap L) s1 @ (p, ?rs @ [r]) # abs_levels (l_heap L) s2" for r
    unfolding book_insert_def abs omap_at(1) [OF keys] option.case omap_at(2) [OF keys] by simp
  have "a \<notin> set xs" "a \<notin> set (addrs s1)" "a \<notin> set (addrs s2)" using fresh [of bs] S by auto
  then have "abs_book (l_heap ?L') (S(bs := s1 @ (p, xs @ [t, a]) # s2)) = (abs_book (l_heap L) S)(bs :=
      book_insert bs p (abs_order ?x) (abs_levels (l_heap L) (S bs)))"
    using fresh same ta unfolding ins by (auto simp: abs_book_def fun_eq_iff)
  with run ok' show thesis by (rule that) simp_all
qed

lemma insert_order_sim:
  assumes ok: "shape_ok L S" and i: "l_orders L i = None" and ne: "\<forall>(p, as) \<in> set (S bs). as \<noteq> []"
  obtains L' S' where "insert_order i sd q filled p flags bs L = Inr L'" "shape_ok L' S'"
    "abs_book (l_heap L') S' = (abs_book (l_heap L) S)(bs :=
       book_insert bs p (abs_order (new_cell i sd q filled p flags)) (abs_levels (l_heap L) (S bs)))"
    "l_symbol L' = l_symbol L" "l_calls L' = l_calls L"
proof (cases "map_of (levels bs L) p")
  case None
  show thesis by (rule insert_new_level [OF ok i None]) (rule that)
next
  case (Some l)
  have "map fst (levels bs L) = map fst (S bs)"
    using ok by (auto simp: shape_ok_def intro: levels_rep_keys)
  then have "p \<in> fst ` set (S bs)" using Some by (metis list.set_map map_of_eq_None_iff option.distinct(1))
  then obtain as where "(p, as) \<in> set (S bs)" by auto
  moreover from this ne obtain xs t where "as = xs @ [t]" by (cases as rule: rev_cases) auto
  ultimately obtain s1 s2 where S: "S bs = s1 @ (p, xs @ [t]) # s2" by (metis split_list)
  show thesis by (rule insert_old_level [OF ok i S]) (rule that)
qed

end
