(* ===== verification/Ladder_Sim.thy ===== *)
theory Ladder_Sim imports
  Ladder_Ops
begin

text \<open>
  The public operations \<open>new_order\<close>, \<open>delete_order\<close> and \<open>modify_order\<close> perform the operations of
  the price-time book: they end without an exception, make the specified calls on the
  subscriber in the specified order, and leave a ladder that represents the specified book.
\<close>

definition refines :: "ladder \<Rightarrow> book \<times> call list \<Rightarrow> ladder throws option \<Rightarrow> bool" where
  "refines L spec res \<longleftrightarrow> (\<exists>L'. res = Some (Inr L') \<and> represents L' (fst spec) \<and>
     l_calls L' = l_calls L @ snd spec \<and> l_symbol L' = l_symbol L)"

section \<open>The index and the book\<close>

lemma resting_ids_abs_levels: "resting_ids (abs_levels h s) = map (\<lambda>a. o_order_id (h a)) (addrs s)"
  by (induction s) auto

lemma book_ids_abs: "book_ids (abs_book h S) = (\<lambda>a. o_order_id (h a)) ` set (all_addrs S)"
  by (auto simp: book_ids_def abs_book_def resting_ids_abs_levels all_addrs_def)

lemma index_None: "shape_ok L S \<Longrightarrow> l_orders L i = None \<longleftrightarrow> i \<notin> book_ids (abs_book (l_heap L) S)"
  unfolding book_ids_abs shape_ok_def index_ok_def
  by (metis (no_types, lifting) image_iff not_None_eq)

lemma index_SomeE:
  assumes ok: "shape_ok L S" and i: "l_orders L i = Some a"
  obtains bs s1 p xs ys s2 where "S bs = s1 @ (p, xs @ a # ys) # s2" "o_order_id (l_heap L a) = i"
proof -
  from ok i have "a \<in> set (all_addrs S)" and id: "o_order_id (l_heap L a) = i"
    by (auto simp: shape_ok_def index_ok_def)
  then obtain bs where "a \<in> set (addrs (S bs))" by (auto simp: set_all_addrs)
  then obtain p as where "(p, as) \<in> set (S bs)" "a \<in> set as" by (auto simp: addrs_def)
  then obtain s1 s2 xs ys where "S bs = s1 @ (p, xs @ a # ys) # s2" by (metis split_list)
  then show thesis using id by (rule that)
qed

text \<open>The order is the only one of its id, so the book's operations act where the ladder's do.\<close>

lemma id_unique:
  assumes ok: "shape_ok L S" and S: "S bs = s1 @ (p, xs @ a # ys) # s2"
    and b: "b \<in> set (addrs s1) \<union> set (addrs s2) \<union> set xs \<union> set ys \<or>
      (b \<in> set (addrs (S bs')) \<and> bs' \<noteq> bs)"
  shows "o_order_id (l_heap L b) \<noteq> o_order_id (l_heap L a)"
proof
  assume eq: "o_order_id (l_heap L b) = o_order_id (l_heap L a)"
  have dist: "distinct (all_addrs S)" using ok by (simp add: shape_ok_def)
  then have "distinct (addrs (S bs))" by (metis distinct_all_addrs)
  then have "b \<noteq> a" using b S all_addrs_other_side [OF dist, of bs' bs] by auto
  moreover have "\<exists>bs. b \<in> set (addrs (S bs))" "a \<in> set (addrs (S bs))"
    using b S by (auto intro: exI [of _ bs])
  then have "l_orders L (o_order_id (l_heap L b)) = Some b"
    "l_orders L (o_order_id (l_heap L a)) = Some a"
    using ok by (auto dest: shape_ok_order_at)
  ultimately show False using eq by simp
qed

lemma abs_at:
  assumes ok: "shape_ok L S" and S: "S bs = s1 @ (p, xs @ a # ys) # s2"
  defines "i \<equiv> o_order_id (l_heap L a)" and "f \<equiv> \<lambda>a. abs_order (l_heap L a)"
  shows "i \<notin> set (resting_ids (abs_levels (l_heap L) s1))"
    and "i \<notin> set (resting_ids (abs_levels (l_heap L) s2))"
    and "i \<notin> r_order_id ` set (map f xs @ map f ys)"
    and "bs' \<noteq> bs \<Longrightarrow> i \<notin> set (resting_ids (abs_book (l_heap L) S bs'))"
    and "abs_book (l_heap L) S bs = abs_levels (l_heap L) s1 @
      (p, map f xs @ f a # map f ys) # abs_levels (l_heap L) s2"
  using id_unique [OF ok S]
  by (force simp: i_def f_def resting_ids_abs_levels abs_book_def S)+

lemma find_order_at:
  assumes ok: "shape_ok L S" and S: "S bs = s1 @ (p, xs @ a # ys) # s2"
  shows "find_order (o_order_id (l_heap L a)) (abs_book (l_heap L) S)
    = Some (p, abs_order (l_heap L a))"
proof -
  note at = abs_at [OF ok S]
  have "book_find (o_order_id (l_heap L a)) (abs_book (l_heap L) S bs)
      = Some (p, abs_order (l_heap L a))"
    unfolding at(5) by (rule book_find_at) (use at in \<open>auto simp: image_iff\<close>)
  moreover have "book_find (o_order_id (l_heap L a)) (abs_book (l_heap L) S bs') = None"
    if "bs' \<noteq> bs" for bs' using at(4) [OF that] by (simp add: book_find_None)
  ultimately show ?thesis by (cases bs) (simp_all add: find_order_def)
qed

section \<open>Deletion\<close>

lemma abs_book_cong:
  "\<forall>b \<in> set (all_addrs S). abs_order (h' b) = abs_order (h b) \<Longrightarrow> abs_book h' S = abs_book h S"
  by (auto simp: abs_book_def fun_eq_iff set_all_addrs intro!: abs_levels_cong)

lemma delete_order_sim:
  assumes ok: "shape_ok L S" and S: "S bs = s1 @ (p, xs @ a # ys) # s2"
    and B: "B = abs_book (l_heap L) S" "book_ok B" and i: "i = o_order_id (l_heap L a)"
  shows "refines L (remove_order i B, if notify then [OnDeleteOrder i True] else [])
    (Some (delete_order notify i L))"
proof -
  let ?h = "l_heap L"
  note at = abs_at [OF ok S]
  have ix: "l_orders L i = Some a" using ok S i by (auto intro: shape_ok_order_at [where bs = bs])
  have "resting_ok bs (abs_order (?h a))"
    using book_ok_levels [OF B(2), of bs] at(5) B(1) by simp
  then have bs: "levels_of_side (o_side (?h a)) = bs" by (simp add: resting_ok_def)
  have "o_price (?h a) = p"
    using shape_level_head [OF ok S] by (auto simp: level_rep_def)
  then have price: "o_price (?h a) = p" .
  obtain L1 where L1: "handle_delete_order bs i L = Inr L1"
    "shape_ok L1 (S(bs := s1 @ (p, xs @ ys) # s2))"
    "\<forall>b. abs_order (l_heap L1 b) = abs_order (?h b)" "l_symbol L1 = l_symbol L" "l_calls L1 = l_calls L"
    unfolding i by (rule delete_shape [OF ok S])
  let ?S1 = "S(bs := s1 @ (p, xs @ ys) # s2)"
  let ?lv = "if xs @ ys = [] then s1 @ s2 else s1 @ (p, xs @ ys) # s2"
  have S1: "?S1 bs = s1 @ (p, xs @ ys) # s2" by simp
  obtain pl where pl: "map_of (levels bs L1) p = Some pl" "level_rep (l_heap L1) p pl (xs @ ys)"
    by (rule shape_level_head [OF L1(2) S1])
  have erased: "shape_ok (erase_if_empty bs p L1) (S(bs := ?lv))"
  proof (cases "xs @ ys = []")
    case True
    then have "shape_ok (set_levels bs (omap_erase p (levels bs L1)) L1) (?S1(bs := s1 @ s2))"
      by (intro erase_shape [OF L1(2)]) simp
    with True pl show ?thesis by (simp add: erase_if_empty_def level_rep_def)
  next
    case False
    with pl have "pl_head pl \<noteq> None" by (auto simp: level_rep_def simp del: first_or_append)
    with pl False L1(2) show ?thesis by (auto simp: erase_if_empty_def)
  qed
  have fields: "l_heap (erase_if_empty bs p L1) = l_heap L1" "l_calls (erase_if_empty bs p L1) = l_calls L1"
    "l_symbol (erase_if_empty bs p L1) = l_symbol L1"
    by (auto simp: erase_if_empty_def split: option.splits)
  have "abs_levels (l_heap L1) s = abs_levels ?h s" for s by (rule abs_levels_cong) (simp add: L1(3))
  then have absL1: "abs_book (l_heap L1) S' = abs_book ?h S'" for S' by (simp add: abs_book_def)
  have ne: "\<forall>e \<in> set (abs_levels ?h s1 @ abs_levels ?h s2). snd e \<noteq> []"
    using book_ok_levels [OF B(2), of bs] at(5) B(1) by (auto simp: levels_ok_def)
  have "book_remove i (B b) = abs_book ?h (S(bs := ?lv)) b" for b
  proof (cases "b = bs")
    case True
    show ?thesis unfolding True B(1) at(5) i
      by (subst book_remove_at) (use at ne in \<open>auto simp: abs_book_def\<close>)
  next
    case False
    then have "i \<notin> set (resting_ids (B b))" using at(4) i B(1) by simp
    with False show ?thesis using book_ok_levels [OF B(2), of b] B(1)
      by (simp add: book_remove_absent levels_ok_nonempty abs_book_def)
  qed
  then have "remove_order i B = abs_book (l_heap L1) (S(bs := ?lv))"
    by (simp add: remove_order_def absL1)
  then have "represents (erase_if_empty bs p L1) (remove_order i B)"
    unfolding represents_def fields using erased by blast
  moreover have "represents (call c L') B' = represents L' B'" for c L' B'
    by (simp add: represents_def)
  ultimately show ?thesis
    using ix bs price L1 fields by (simp add: refines_def delete_order_def Let_def)
qed

section \<open>Entering an order\<close>

lemma represents_call [simp]: "represents (call c L) B = represents L B"
  by (simp add: represents_def)

lemma abs_book_matched:
  assumes ok: "shape_ok L S"
    and same: "\<forall>b. b \<notin> set (addrs (S bs)) \<longrightarrow> abs_order (l_heap L' b) = abs_order (l_heap L b)"
  shows "abs_book (l_heap L') (S(bs := s)) = (abs_book (l_heap L) S)(bs := abs_levels (l_heap L') s)"
proof
  fix bs'
  have "distinct (all_addrs S)" using ok by (simp add: shape_ok_def)
  then have "abs_levels (l_heap L') (S bs') = abs_levels (l_heap L) (S bs')" if "bs' \<noteq> bs"
    using all_addrs_other_side [OF _ that] same by (intro abs_levels_cong) blast
  then show "abs_book (l_heap L') (S(bs := s)) bs'
      = ((abs_book (l_heap L) S)(bs := abs_levels (l_heap L') s)) bs'"
    by (simp add: abs_book_def)
qed

lemma shape_nonempty:
  assumes "book_ok (abs_book h S)"
  shows "\<forall>(p, as) \<in> set (S bs). as \<noteq> []"
proof -
  have "\<forall>e \<in> set (abs_levels h (S bs)). snd e \<noteq> []"
    using book_ok_levels [OF assms, of bs] by (simp add: abs_book_def levels_ok_nonempty)
  then show ?thesis by (auto simp: abs_levels_def)
qed

lemma fill_book_left_le: "fill_book i sd y price q m = (left, m', cs) \<Longrightarrow> left \<le> q"
  using fill_book_traded [of i sd y price q m left m' cs] by (simp add: word_le_nat_alt)

lemma enter_sim:
  assumes ok: "shape_ok L S" and B: "B = abs_book (l_heap L) S" "book_ok B"
    and i: "i \<notin> book_ids B" and q: "filled < q"
    and run: "enter_order i sd (l_symbol L) (q - filled) price flags notify B = (left, B', cs)"
  obtains L' where
    "handle_new_order i sd q price flags (levels_of_side sd) notify filled L = Some (Inr (left, L'))"
    "represents L' B'" "l_calls L' = l_calls L @ cs" "l_symbol L' = l_symbol L"
proof -
  let ?opp = "opposite_of_side sd" and ?own = "levels_of_side sd"
  obtain m cs1 where fb: "fill_book i sd (l_symbol L) price (q - filled) (B ?opp) = (left, m, cs1)"
    using run by (auto simp: enter_order_def Let_def split: prod.splits)
  have "abs_levels (l_heap L) (S ?opp) = B ?opp" by (simp add: B(1) abs_book_def)
  with match_orders_sim [OF ok refl, where bs = ?opp and iid = i and sd = sd and price = price and q = "q - filled"] fb
  obtain L1 s1 where L1: "match_orders i sd (q - filled) price ?opp L = Some (Inr (left, L1))"
    "shape_ok L1 (S(?opp := s1))" "abs_levels (l_heap L1) s1 = m"
    "\<forall>b. b \<notin> set (addrs (S ?opp)) \<longrightarrow> abs_order (l_heap L1 b) = abs_order (l_heap L b)"
    "l_symbol L1 = l_symbol L" "l_calls L1 = l_calls L @ cs1"
    by (auto simp: orders_result_def)
  let ?S1 = "S(?opp := s1)"
  have B1: "abs_book (l_heap L1) ?S1 = B(?opp := m)"
    using abs_book_matched [OF ok L1(4)] L1(3) B(1) by simp
  have sb: "served_book (B ?opp) m" using fb by (rule fill_book_served)
  then have iB1: "i \<notin> book_ids (B(?opp := m))" using book_ids_served [where B = B, OF sb] i by blast
  define L2 where "L2 = (if notify \<and> \<not> is_ioc flags
    then call (OnNewOrder i (l_symbol L) sd left price flags) L1 else L1)"
  have L2: "shape_ok L2 ?S1" "l_heap L2 = l_heap L1" "l_symbol L2 = l_symbol L"
    "l_orders L2 = l_orders L1"
    "l_calls L2 = l_calls L @ cs1 @ (if notify \<and> \<not> is_ioc flags
       then [OnNewOrder i (l_symbol L) sd left price flags] else [])"
    using L1 by (simp_all add: L2_def)
  have rep2: "represents L2 (B(?opp := m))"
    unfolding represents_def using L2(1,2) B1 by metis
  have "l_orders L2 i = None" using index_None [OF L2(1), of i] iB1 L2(2) B1 by simp
  then have fresh: "l_orders L2 i = None" "l_orders L1 i = None" using L2(4) by simp_all
  have step: "handle_new_order i sd q price flags ?own notify filled L = Some (
      if left > 0 \<and> is_ioc flags then Inr (left, if notify then call (OnDeleteOrder i False) L2 else L2)
      else if left = 0 then Inr (left, L2)
      else (case insert_order i sd left (q - filled - left) price flags ?own L2 of
              Inl e \<Rightarrow> Inl e | Inr L \<Rightarrow> Inr (left, L)))"
    using L1(1,5) q fill_book_left_le [OF fb, unfolded not_less [symmetric]] fresh
    by (simp add: handle_new_order_def Let_def L2_def)
  show thesis
  proof (cases "left = 0 \<or> is_ioc flags")
    case True
    let ?L' = "if left > 0 \<and> is_ioc flags \<and> notify then call (OnDeleteOrder i False) L2 else L2"
    show thesis
    proof (rule that)
      show "handle_new_order i sd q price flags ?own notify filled L = Some (Inr (left, ?L'))"
        using step True by (auto simp: word_gt_0)
      show "represents ?L' B'" "l_calls ?L' = l_calls L @ cs" "l_symbol ?L' = l_symbol L"
        using run fb rep2 L2 True by (auto simp: enter_order_def Let_def word_gt_0)
    qed
  next
    case False
    have ne: "\<forall>(p, as) \<in> set (?S1 ?own). as \<noteq> []"
      using shape_nonempty [of "l_heap L" S ?own] B by simp
    obtain L' S' where L':
      "insert_order i sd left (q - filled - left) price flags ?own L2 = Inr L'" "shape_ok L' S'"
      "abs_book (l_heap L') S' = (abs_book (l_heap L2) ?S1)(?own := book_insert ?own price
         (abs_order (new_cell i sd left (q - filled - left) price flags)) (abs_levels (l_heap L2) (?S1 ?own)))"
      "l_symbol L' = l_symbol L2" "l_calls L' = l_calls L2"
      by (rule insert_order_sim [OF L2(1) fresh(1) ne])
    have "abs_levels (l_heap L2) (?S1 ?own) = (B(?opp := m)) ?own"
      using B1 L2(2) by (metis abs_book_def)
    with L'(3) B1 L2(2) have B2: "abs_book (l_heap L') S' = (B(?opp := m))(?own := book_insert ?own price
        \<lparr>r_order_id = i, r_quantity = left, r_filled = q - filled - left, r_side = sd,
         r_flags = flags\<rparr> ((B(?opp := m)) ?own))" by simp
    show thesis
    proof (rule that)
      show "handle_new_order i sd q price flags ?own notify filled L = Some (Inr (left, L'))"
        using step False L'(1) by simp
      show "represents L' B'"
        using run fb False L'(2) B2 unfolding represents_def
        by (auto simp: enter_order_def Let_def)
      show "l_calls L' = l_calls L @ cs" "l_symbol L' = l_symbol L"
        using run fb False L'(4,5) L2 by (auto simp: enter_order_def Let_def)
    qed
  qed
qed

lemma not_in_removed: "i \<notin> book_ids (remove_order i B)"
  by (auto simp: book_ids_eq remove_order_def book_remove_def resting_ids_def)

lemma representsE:
  assumes "represents L B"
  obtains S where "shape_ok L S" "B = abs_book (l_heap L) S"
  using assms by (auto simp: represents_def)

lemma new_order_sim:
  assumes "represents L B" "book_ok B" "i \<notin> book_ids B" "0 < q"
  shows "refines L (spec_new_order i sd (l_symbol L) q price flags B)
    (new_order i sd q price flags L)"
proof -
  obtain S where S: "shape_ok L S" "B = abs_book (l_heap L) S" using assms(1) by (rule representsE)
  obtain left B' cs where spec:
    "enter_order i sd (l_symbol L) (q - 0) price flags True B = (left, B', cs)" by (metis prod_cases3)
  obtain L' where
    "handle_new_order i sd q price flags (levels_of_side sd) True 0 L = Some (Inr (left, L'))"
    "represents L' B'" "l_calls L' = l_calls L @ cs" "l_symbol L' = l_symbol L"
    by (rule enter_sim [OF S assms(2,3,4) spec])
  with spec show ?thesis by (simp add: refines_def new_order_def spec_new_order_def)
qed

lemma delete_sim:
  assumes "represents L B" "book_ok B"
  shows "refines L (spec_delete_order i B) (Some (delete_order True i L))"
proof -
  obtain S where S: "shape_ok L S" "B = abs_book (l_heap L) S" using assms(1) by (rule representsE)
  show ?thesis
  proof (cases "l_orders L i")
    case None
    then have "find_order i B = None" using index_None S by (simp add: find_order_None)
    with None assms(1) show ?thesis by (simp add: refines_def spec_delete_order_def delete_order_def)
  next
    case (Some a)
    from index_SomeE [OF S(1) Some] obtain bs s1 p xs ys s2 where
      at: "S bs = s1 @ (p, xs @ a # ys) # s2" "o_order_id (l_heap L a) = i" by blast
    have "find_order i B = Some (p, abs_order (l_heap L a))"
      using find_order_at [OF S(1) at(1)] at(2) S(2) by simp
    with delete_order_sim [OF S(1) at(1) S(2) assms(2) at(2) [symmetric], of True]
    show ?thesis by (simp add: spec_delete_order_def)
  qed
qed

lemma book_ok_remove:
  assumes "book_ok B"
  shows "book_ok (remove_order i B)"
proof -
  have m: "levels_ok bs (book_remove i m)" if "levels_ok bs m" for bs m
    using that by (auto simp: levels_ok_def book_remove_def ordered_map_def sorted_wrt_map
        split_def intro!: sorted_wrt_filter)
  have ids: "resting_ids (book_remove i m) = filter (\<lambda>j. j \<noteq> i) (resting_ids m)" for m
    by (induction m) (auto simp: book_remove_def filter_map o_def)
  show ?thesis using assms m unfolding book_ok_def remove_order_def ids by auto
qed

lemma find_order_level:
  assumes "represents L B" "l_orders L i = Some a" "book_ok B"
  obtains p where "find_order i B = Some (p, abs_order (l_heap L a))" "o_price (l_heap L a) = p"
    "refines L (remove_order i B, if notify then [OnDeleteOrder i True] else [])
      (Some (delete_order notify i L))"
proof -
  obtain S where S: "shape_ok L S" "B = abs_book (l_heap L) S" using assms(1) by (rule representsE)
  from index_SomeE [OF S(1) assms(2)] obtain bs s1 p xs ys s2 where
    at: "S bs = s1 @ (p, xs @ a # ys) # s2" "o_order_id (l_heap L a) = i" by blast
  have "find_order i B = Some (p, abs_order (l_heap L a))"
    using find_order_at [OF S(1) at(1)] at(2) S(2) by simp
  moreover have "o_price (l_heap L a) = p"
    using shape_level_head [OF S(1) at(1)] by (auto simp: level_rep_def)
  ultimately show thesis
    using delete_order_sim [OF S(1) at(1) S(2) assms(3) at(2) [symmetric]] by (rule that)
qed

lemma modify_in_place:
  assumes ok: "represents L B" and a: "l_orders L i = Some a"
  shows "represents (upd_order a (\<lambda>x. x\<lparr>o_quantity := q\<rparr>) L)
    (\<lambda>bs. book_modify i (\<lambda>r. r\<lparr>r_quantity := q\<rparr>) (B bs))"
proof -
  let ?f = "\<lambda>x. x\<lparr>o_quantity := q\<rparr>" and ?g = "\<lambda>r. r\<lparr>r_quantity := q\<rparr>"
  obtain S where S: "shape_ok L S" "B = abs_book (l_heap L) S" using ok by (rule representsE)
  from index_SomeE [OF S(1) a] obtain bs s1 p xs ys s2 where
    at: "S bs = s1 @ (p, xs @ a # ys) # s2" and id: "o_order_id (l_heap L a) = i" by blast
  note ab = abs_at [OF S(1) at, unfolded id]
  let ?h = "(l_heap L)(a := ?f (l_heap L a))"
  have "shape_ok (upd_order a ?f L) S" using S(1) by (simp add: shape_ok_upd_data)
  moreover have "book_modify i ?g (B b) = abs_levels ?h (S b)" for b
  proof (cases "b = bs")
    case True
    have a_only: "a \<notin> set (addrs s1)" "a \<notin> set (addrs s2)" "a \<notin> set xs" "a \<notin> set ys"
      using id_unique [OF S(1) at] by blast+
    then have "abs_levels ?h s1 = abs_levels (l_heap L) s1" "abs_levels ?h s2 = abs_levels (l_heap L) s2"
      by (auto intro!: abs_levels_cong)
    moreover have "abs_order (?f x) = ?g (abs_order x)" for x by (simp add: abs_order_def)
    moreover have "book_modify i ?g (B bs) = abs_levels (l_heap L) s1 @
        (p, map (\<lambda>a. abs_order (l_heap L a)) xs @ ?g (abs_order (l_heap L a)) #
          map (\<lambda>a. abs_order (l_heap L a)) ys) # abs_levels (l_heap L) s2"
      unfolding S(2) ab(5) by (rule book_modify_at) (use ab id in auto)
    ultimately show ?thesis using a_only unfolding True at by (auto simp del: fun_upd_apply simp: fun_upd_def)
  next
    case False
    then have "a \<notin> set (addrs (S b))" using id_unique [OF S(1) at, of a b] by blast
    then have "abs_levels ?h (S b) = B b" unfolding S(2) abs_book_def by (auto intro!: abs_levels_cong)
    moreover have "i \<notin> set (resting_ids (B b))" using ab(4) [OF False] S(2) by simp
    ultimately show ?thesis by (simp add: book_modify_absent)
  qed
  ultimately show ?thesis unfolding represents_def abs_book_def by (intro exI [of _ S]) auto
qed

lemma modify_sim:
  assumes B: "represents L B" "book_ok B"
  shows "refines L (coded_modify_order i sd (l_symbol L) q price B) (modify_order i sd q price L)"
proof (cases "l_orders L i")
  case None
  obtain S where "shape_ok L S" "B = abs_book (l_heap L) S" using B(1) by (rule representsE)
  with None have "find_order i B = None" using index_None by (simp add: find_order_None)
  with None B(1) show ?thesis by (simp add: refines_def coded_modify_order_def modify_order_def)
next
  case (Some a)
  let ?x = "l_heap L a"
  obtain p where f: "find_order i B = Some (p, abs_order ?x)" "o_price ?x = p"
    and del: "refines L (remove_order i B, [OnDeleteOrder i True]) (Some (delete_order True i L))"
    by (rule find_order_level [OF B(1) Some B(2), of True]) simp
  have del0: "refines L (remove_order i B, []) (Some (delete_order False i L))"
    by (rule find_order_level [OF B(1) Some B(2), of False]) simp
  consider "q \<le> o_filled_quantity ?x" | "\<not> q \<le> o_filled_quantity ?x" "p = price \<and> o_side ?x = sd"
    | "\<not> q \<le> o_filled_quantity ?x" "\<not> (p = price \<and> o_side ?x = sd)" by blast
  then show ?thesis
  proof cases
    case 1
    with del f Some show ?thesis by (simp add: coded_modify_order_def modify_order_def Let_def)
  next
    case 2
    with f Some modify_in_place [OF B(1) Some, of q] show ?thesis
      by (simp add: coded_modify_order_def modify_order_def Let_def refines_def)
  next
    case 3
    obtain L1 where L1: "delete_order False i L = Inr L1" "represents L1 (remove_order i B)"
      "l_calls L1 = l_calls L" "l_symbol L1 = l_symbol L"
      using del0 by (auto simp: refines_def)
    obtain S where S: "shape_ok L1 S" "remove_order i B = abs_book (l_heap L1) S"
      using L1(2) by (rule representsE)
    obtain left B' cs where spec: "enter_order i sd (l_symbol L1) (q - o_filled_quantity ?x) price
        (o_flags ?x) False (remove_order i B) = (left, B', cs)" by (metis prod_cases3)
    have "o_filled_quantity ?x < q" using 3(1) by simp
    then obtain L' where "handle_new_order i sd q price (o_flags ?x) (levels_of_side sd) False
        (o_filled_quantity ?x) L1 = Some (Inr (left, L'))"
      "represents L' B'" "l_calls L' = l_calls L1 @ cs" "l_symbol L' = l_symbol L1"
      by (rule enter_sim [OF S book_ok_remove [OF B(2)] not_in_removed _ spec])
    with 3 f Some L1 spec show ?thesis
      by (auto simp: coded_modify_order_def modify_order_def Let_def refines_def)
  qed
qed

end
