(* ===== verification/Ladder_Props.thy ===== *)
theory Ladder_Props imports
  Ladder_Sim
begin

text \<open>
  The properties of the order ladder, stated over the operations of the code and over every
  ladder they can reach.  The proofs are short: the refinement turns an operation into the
  operation of a book, and the facts about books do the rest.
\<close>

section \<open>Reachable ladders\<close>

inductive ladder_reach :: "u32 \<Rightarrow> ladder \<Rightarrow> bool" for y where
  reach_empty: "ladder_reach y (empty_ladder y)"
| reach_new: "ladder_reach y L \<Longrightarrow> l_orders L i = None \<Longrightarrow> 0 < q \<Longrightarrow>
    new_order i sd q price flags L = Some (Inr L') \<Longrightarrow> ladder_reach y L'"
| reach_delete: "ladder_reach y L \<Longrightarrow> delete_order True i L = Inr L' \<Longrightarrow> ladder_reach y L'"
| reach_modify: "ladder_reach y L \<Longrightarrow> modify_order i sd q price L = Some (Inr L') \<Longrightarrow>
    ladder_reach y L'"

section \<open>Books stay well formed and uncrossed\<close>

lemma book_ok_empty: "book_ok (\<lambda>_. [])"
  by (simp add: book_ok_def)

lemma book_ok_new: "book_ok B \<Longrightarrow> i \<notin> book_ids B \<Longrightarrow>
    book_ok (fst (spec_new_order i sd y q price flags B))"
  unfolding spec_new_order_def
  by (metis book_ok_enter prod.collapse)

lemma book_ok_delete: "book_ok B \<Longrightarrow> book_ok (fst (spec_delete_order i B))"
  by (auto simp: spec_delete_order_def book_ok_remove split: option.split)

lemma resting_ids_modify: "(\<And>r. r_order_id (f r) = r_order_id r) \<Longrightarrow>
    resting_ids (book_modify i f m) = resting_ids m"
  by (induction m) (auto simp: book_modify_def)

lemma book_ok_modified:
  assumes "book_ok B" "\<And>r. r_order_id (f r) = r_order_id r" "\<And>bs r. resting_ok bs r \<Longrightarrow> resting_ok bs (f r)"
  shows "book_ok (\<lambda>bs. book_modify i f (B bs))"
proof -
  have "map fst (book_modify i f m) = map fst m" for m by (simp add: book_modify_def split_def o_def)
  moreover have "\<forall>(p, rs) \<in> set (book_modify i f m). rs \<noteq> [] \<and> (\<forall>r \<in> set rs. resting_ok bs r)"
    if "levels_ok bs m" for bs m
    using that assms(3) by (fastforce simp: levels_ok_def book_modify_def)
  ultimately have "levels_ok bs (book_modify i f m)" if "levels_ok bs m" for bs m
    using that by (simp add: levels_ok_def ordered_map_def)
  then show ?thesis using assms(1) resting_ids_modify [of f, OF assms(2)] by (simp add: book_ok_def)
qed

lemma book_ok_modify:
  assumes "book_ok B"
  shows "book_ok (fst (coded_modify_order i sd y q price B))"
proof (cases "find_order i B")
  case (Some e)
  obtain p r where e: "e = (p, r)" by (cases e)
  obtain left B' cs where enter: "enter_order i sd y (q - r_filled r) price (r_flags r) False
      (remove_order i B) = (left, B', cs)" by (metis prod_cases3)
  have "book_ok B'" by (rule book_ok_enter [OF book_ok_remove [OF assms] not_in_removed enter])
  moreover have "book_ok (\<lambda>bs. book_modify i (\<lambda>r. r\<lparr>r_quantity := q\<rparr>) (B bs))" if "q \<noteq> 0"
    using that by (intro book_ok_modified [OF assms]) (auto simp: resting_ok_def)
  moreover have "q \<noteq> 0" if "\<not> q \<le> r_filled r" using that by auto
  ultimately show ?thesis
    using Some e enter assms by (auto simp: coded_modify_order_def book_ok_remove)
qed (simp add: coded_modify_order_def assms)

definition beyond :: "book_side \<Rightarrow> i32 \<Rightarrow> i32 \<Rightarrow> bool" where
  "beyond bs p p' = (case bs of BuyLevels \<Rightarrow> p < p' | SellLevels \<Rightarrow> p' < p)"

lemma uncrossed_prices: "uncrossed B \<longleftrightarrow>
    (\<forall>p \<in> fst ` set (B BuyLevels). \<forall>p' \<in> fst ` set (B SellLevels). p < p')"
  by (simp add: uncrossed_def split_def)

lemma uncrossed_iff: "bs' \<noteq> bs \<Longrightarrow> uncrossed B \<longleftrightarrow>
    (\<forall>p \<in> fst ` set (B bs). \<forall>p' \<in> fst ` set (B bs'). beyond bs p p')"
  unfolding uncrossed_prices by (cases bs; cases bs') (simp_all add: beyond_def, blast)

lemma uncrossed_sub:
  assumes "uncrossed B" "\<And>bs. fst ` set (B' bs) \<subseteq> fst ` set (B bs)"
  shows "uncrossed B'"
  unfolding uncrossed_prices
proof (intro ballI)
  fix p p' assume "p \<in> fst ` set (B' BuyLevels)" "p' \<in> fst ` set (B' SellLevels)"
  then have "p \<in> fst ` set (B BuyLevels)" "p' \<in> fst ` set (B SellLevels)"
    using assms(2) by (blast dest: subsetD)+
  with assms(1) show "p < p'" unfolding uncrossed_prices by blast
qed

lemma book_insert_prices: "fst ` set (book_insert bs p r m) \<subseteq> insert p (fst ` set m)"
  by (auto simp: book_insert_def omap_update_def dest!: book_order.set_omap_insert split: option.splits)

lemma beyond_limit: "\<not> crosses sd price p \<Longrightarrow> beyond (levels_of_side sd) price p"
  by (auto simp: crosses_def beyond_def levels_of_side_def)

lemma uncrossed_enter:
  assumes un: "uncrossed B" and ok: "book_ok B"
    and run: "enter_order i sd y q price flags notify B = (left, B', cs)"
  shows "uncrossed B'"
proof -
  let ?opp = "opposite_of_side sd" and ?own = "levels_of_side sd"
  obtain m cs1 where fb: "fill_book i sd y price q (B ?opp) = (left, m, cs1)"
    using run by (auto simp: enter_order_def Let_def split: prod.splits)
  let ?B1 = "B(?opp := m)"
  have un1: "uncrossed ?B1"
    by (rule uncrossed_sub [OF un]) (use served_book_prices [OF fill_book_served [OF fb]] in auto)
  show ?thesis
  proof (cases "left = 0 \<or> is_ioc flags")
    case True
    then show ?thesis using run fb un1 by (auto simp: enter_order_def Let_def)
  next
    case False
    have "ordered_map (before ?opp) (B ?opp)"
      using book_ok_levels [OF ok, of ?opp] by (simp add: levels_ok_def)
    with fill_book_left [OF fb] False
    have far: "\<forall>p' \<in> fst ` set m. beyond ?own price p'" by (auto intro: beyond_limit)
    obtain r where B': "B' = ?B1(?own := book_insert ?own price r (B ?own))"
      using run fb False by (auto simp: enter_order_def Let_def)
    show ?thesis unfolding uncrossed_iff [OF sides_differ(1) [of sd]]
    proof (intro ballI)
      fix p p' assume p: "p \<in> fst ` set (B' ?own)" and p': "p' \<in> fst ` set (B' ?opp)"
      from p' B' have p'm: "p' \<in> fst ` set m" by simp
      from p B' book_insert_prices [of ?own price r "B ?own"]
      have "p = price \<or> p \<in> fst ` set (?B1 ?own)" by auto
      then show "beyond ?own p p'"
        using far p'm un1 by (auto simp: uncrossed_iff [OF sides_differ(1) [of sd]])
    qed
  qed
qed

lemma uncrossed_new: "uncrossed B \<Longrightarrow> book_ok B \<Longrightarrow>
    uncrossed (fst (spec_new_order i sd y q price flags B))"
  unfolding spec_new_order_def by (metis uncrossed_enter prod.collapse)

lemma uncrossed_remove: "uncrossed B \<Longrightarrow> uncrossed (remove_order i B)"
  by (erule uncrossed_sub) (force simp: remove_order_def book_remove_def)

lemma uncrossed_modify:
  assumes "uncrossed B" "book_ok B"
  shows "uncrossed (fst (coded_modify_order i sd y q price B))"
proof (cases "find_order i B")
  case (Some e)
  obtain p r where e: "e = (p, r)" by (cases e)
  obtain left B' cs where enter: "enter_order i sd y (q - r_filled r) price (r_flags r) False
      (remove_order i B) = (left, B', cs)" by (metis prod_cases3)
  have "uncrossed B'"
    by (rule uncrossed_enter [OF uncrossed_remove [OF assms(1)] book_ok_remove [OF assms(2)] enter])
  moreover have "uncrossed (\<lambda>bs. book_modify i f (B bs))" for f
    by (rule uncrossed_sub [OF assms(1)]) (force simp: book_modify_def)
  ultimately show ?thesis
    using Some e enter assms by (auto simp: coded_modify_order_def uncrossed_remove)
qed (simp add: coded_modify_order_def assms)

section \<open>Every reachable ladder represents a book\<close>

lemma represents_index: "represents L B \<Longrightarrow> l_orders L i = None \<longleftrightarrow> i \<notin> book_ids B"
  using index_None by (auto simp: represents_def)

lemma reach_book: "ladder_reach y L \<Longrightarrow>
    \<exists>B. represents L B \<and> book_ok B \<and> uncrossed B \<and> l_symbol L = y"
proof (induction rule: ladder_reach.induct)
  case reach_empty
  show ?case using represents_empty [of y] book_ok_empty
    by (intro exI [of _ "\<lambda>_. []"]) (simp add: uncrossed_def empty_ladder_def)
next
  case (reach_new L i q sd price flags L')
  then obtain B where B: "represents L B" "book_ok B" "uncrossed B" "l_symbol L = y" by blast
  then have "i \<notin> book_ids B" using reach_new(2) represents_index by blast
  with new_order_sim [OF B(1,2), of i q sd price flags] reach_new(3,4) B
  show ?case by (intro exI [of _ "fst (spec_new_order i sd y q price flags B)"])
    (simp add: refines_def book_ok_new uncrossed_new)
next
  case (reach_delete L i L')
  then obtain B where B: "represents L B" "book_ok B" "uncrossed B" "l_symbol L = y" by blast
  have "uncrossed (fst (spec_delete_order i B))"
    using B(3) by (auto simp: spec_delete_order_def uncrossed_remove split: option.split)
  with delete_sim [OF B(1,2), of i] reach_delete(2) B
  show ?case by (intro exI [of _ "fst (spec_delete_order i B)"])
    (simp add: refines_def book_ok_delete)
next
  case (reach_modify L i sd q price L')
  then obtain B where B: "represents L B" "book_ok B" "uncrossed B" "l_symbol L = y" by blast
  with modify_sim [OF B(1,2), of i sd q price] reach_modify(2)
  show ?case by (intro exI [of _ "fst (coded_modify_order i sd y q price B)"])
    (simp add: refines_def book_ok_modify uncrossed_modify)
qed

section \<open>What an entered order leaves behind\<close>

lemma find_order_inserted:
  assumes ok: "book_ok B" and i: "r_order_id r \<notin> book_ids B"
  shows "find_order (r_order_id r) (B(bs := book_insert bs p r (B bs))) = Some (p, r)"
proof -
  let ?i = "r_order_id r"
  have no: "?i \<notin> set (resting_ids (B b))" for b using i by (auto simp: book_ids_eq)
  obtain m1 rs m2 where ins: "book_insert bs p r (B bs) = m1 @ (p, rs @ [r]) # m2"
    and m: "B bs = m1 @ (p, rs) # m2 \<or> rs = [] \<and> B bs = m1 @ m2 \<and>
      (\<forall>e \<in> set m1. before bs (fst e) p) \<and> (\<forall>e \<in> set m2. before bs p (fst e))"
    by (rule book_insert_split [OF book_ok_levels [OF ok]])
  have "?i \<notin> set (resting_ids m1)" "?i \<notin> r_order_id ` set rs" using m no [of bs] by auto
  then have "book_find ?i (book_insert bs p r (B bs)) = Some (p, r)"
    unfolding ins by (rule book_find_at) simp
  moreover have "book_find ?i (B b) = None" for b using no by (simp add: book_find_None)
  ultimately show ?thesis by (cases bs) (simp_all add: find_order_def)
qed

lemma trades_of_other [simp]:
  "traded [OnNewOrder i y sd q p fl] = 0" "traded [OnDeleteOrder i b] = 0"
  "traded [OnModifyOrder i y sd q p] = 0"
  by (simp_all add: traded_def)

lemma enter_leaves:
  assumes ok: "book_ok B" and i: "i \<notin> book_ids B"
    and run: "enter_order i sd y q price flags notify B = (left, B', cs)"
  shows "find_order i B' = (if left = 0 \<or> is_ioc flags then None
      else Some (price, \<lparr>r_order_id = i, r_quantity = left, r_filled = q - left, r_side = sd,
        r_flags = flags\<rparr>))"
    and "unat q = unat left + traded cs"
    and "depth (B (opposite_of_side sd)) = depth (B' (opposite_of_side sd)) + traded cs"
proof -
  let ?opp = "opposite_of_side sd" and ?own = "levels_of_side sd"
  obtain m cs1 where fb: "fill_book i sd y price q (B ?opp) = (left, m, cs1)"
    using run by (auto simp: enter_order_def Let_def split: prod.splits)
  let ?B1 = "B(?opp := m)"
  have sb: "served_book (B ?opp) m" using fb by (rule fill_book_served)
  have ok1: "book_ok ?B1" using ok sb by (rule book_ok_served)
  have i1: "i \<notin> book_ids ?B1" using book_ids_served [where B = B, OF sb] i by blast
  have cs: "traded cs = traded cs1" using run fb by (auto simp: enter_order_def Let_def)
  then show "unat q = unat left + traded cs" using fill_book_traded [OF fb] by simp
  show "depth (B ?opp) = depth (B' ?opp) + traded cs"
    using fill_book_depth [OF fb] run fb cs by (auto simp: enter_order_def Let_def)
  show "find_order i B' = (if left = 0 \<or> is_ioc flags then None
      else Some (price, \<lparr>r_order_id = i, r_quantity = left, r_filled = q - left, r_side = sd,
        r_flags = flags\<rparr>))"
    using run fb i1 find_order_inserted [OF ok1, of "\<lparr>r_order_id = i, r_quantity = left,
        r_filled = q - left, r_side = sd, r_flags = flags\<rparr>" ?own price]
    by (auto simp: enter_order_def Let_def find_order_None)
qed

lemma trades_of_enter:
  assumes "enter_order i sd y q price flags notify B = (left, B', cs)"
  obtains m cs1 where "fill_book i sd y price q (B (opposite_of_side sd)) = (left, m, cs1)"
    "trades_of cs = trades_of cs1"
  using assms by (auto simp: enter_order_def Let_def split: prod.splits)

text \<open>The order a ladder holds under an id, as the index and the heap give it.\<close>

definition order_at :: "ladder \<Rightarrow> u64 \<Rightarrow> order option" where
  "order_at L i = map_option (l_heap L) (l_orders L i)"

definition resting_quantity :: "ladder \<Rightarrow> u64 \<Rightarrow> nat" where
  "resting_quantity L i = (case order_at L i of None \<Rightarrow> 0 | Some x \<Rightarrow> unat (o_quantity x))"

lemma order_at_represents:
  assumes "represents L B" "book_ok B"
  shows "find_order i B = map_option (\<lambda>x. (o_price x, abs_order x)) (order_at L i)"
proof (cases "l_orders L i")
  case None
  then have "i \<notin> book_ids B" using represents_index [OF assms(1)] by blast
  then show ?thesis using None by (simp add: order_at_def find_order_None [THEN iffD2])
next
  case (Some a)
  then show ?thesis by (rule find_order_level [OF assms(1) _ assms(2), of i a True])
    (simp add: order_at_def Some)
qed

lemma order_at_SomeE:
  assumes "represents L B" "book_ok B" "find_order i B = Some (p, r)"
  obtains x where "order_at L i = Some x" "o_price x = p" "abs_order x = r"
  using order_at_represents [OF assms(1,2), of i] assms(3) by (cases "order_at L i") auto

text \<open>What follows of a new order on a reachable ladder, in one rule.\<close>

lemma new_order_reachE:
  assumes "ladder_reach y L" "l_orders L i = None" "0 < q"
  obtains L' B B' left cs where "new_order i sd q price flags L = Some (Inr L')"
    "represents L B" "book_ok B" "i \<notin> book_ids B" "represents L' B'" "book_ok B'"
    "enter_order i sd y q price flags True B = (left, B', cs)" "l_calls L' = l_calls L @ cs"
proof -
  obtain B where B: "represents L B" "book_ok B" "uncrossed B" "l_symbol L = y"
    using reach_book [OF assms(1)] by blast
  then have i: "i \<notin> book_ids B" using assms(2) represents_index by blast
  obtain left B' cs where run: "enter_order i sd y q price flags True B = (left, B', cs)"
    by (metis prod_cases3)
  from new_order_sim [OF B(1,2) i assms(3), of sd price flags] run B(4)
  obtain L' where "new_order i sd q price flags L = Some (Inr L')" "represents L' B'"
    "l_calls L' = l_calls L @ cs" by (auto simp: refines_def spec_new_order_def)
  with B i run book_ok_enter [OF B(2) i run] show thesis by (intro that)
qed

lemma fill_level_order: "fill_level iid sd y p q rs = (q', rs', cs) \<Longrightarrow>
    \<exists>n \<le> length rs. map fst (trades_of cs) = take n (map r_order_id rs) \<and> (rs' = [] \<longrightarrow> n = length rs)"
proof (induction rs arbitrary: q q' rs' cs)
  case (Cons r rs)
  show ?case
  proof (cases "q \<noteq> 0 \<and> r_quantity r \<le> q")
    case True
    with Cons.prems obtain cs' where cs: "cs = full_fill_calls iid sd y p r (q - r_quantity r) @ cs'"
      "fill_level iid sd y p (q - r_quantity r) rs = (q', rs', cs')" by (auto split: prod.splits)
    from Cons.IH [OF cs(2)] obtain n where "n \<le> length rs"
      "map fst (trades_of cs') = take n (map r_order_id rs)" "rs' = [] \<longrightarrow> n = length rs" by blast
    with cs show ?thesis by (intro exI [of _ "Suc n"]) auto
  next
    case False
    show ?thesis
    proof (cases "q = 0")
      case True
      with Cons.prems show ?thesis by (intro exI [of _ 0]) auto
    next
      case F: False
      with False Cons.prems show ?thesis by (intro exI [of _ 1]) auto
    qed
  qed
qed simp

lemma fill_book_order: "fill_book iid sd y price q m = (q', m', cs) \<Longrightarrow>
    \<exists>n. map fst (trades_of cs) = take n (resting_ids m)"
proof (induction m arbitrary: q q' m' cs)
  case (Cons e m)
  obtain p rs where e: "e = (p, rs)" by (cases e)
  obtain q1 rs' cs1 where fl: "fill_level iid sd y p q rs = (q1, rs', cs1)" by (metis prod_cases3)
  obtain n where n: "n \<le> length rs" "map fst (trades_of cs1) = take n (map r_order_id rs)"
    "rs' = [] \<longrightarrow> n = length rs" using fill_level_order [OF fl] by blast
  show ?case
  proof (cases "q = 0 \<or> \<not> crosses sd price p")
    case True
    with Cons.prems e show ?thesis by (intro exI [of _ 0]) auto
  next
    case F: False
    show ?thesis
    proof (cases "rs' = []")
      case True
      obtain q2 m2 cs2 where fb: "fill_book iid sd y price q1 m = (q2, m2, cs2)" by (metis prod_cases3)
      with Cons.IH obtain k where "map fst (trades_of cs2) = take k (resting_ids m)" by blast
      with F True Cons.prems e fl fb n show ?thesis by (intro exI [of _ "length rs + k"]) auto
    next
      case False
      with F Cons.prems e fl n show ?thesis by (intro exI [of _ n]) auto
    qed
  qed
qed simp

section \<open>Properties of the order ladder\<close>

text \<open>A ladder that holds one sell order, reached from the empty one; the witnesses use it.\<close>

definition one_sell :: "ladder option" where
  "one_sell = (case new_order 7 SELL 10 (I32 100) 0 (empty_ladder 1) of
     Some (Inr L) \<Rightarrow> Some L | _ \<Rightarrow> None)"

definition one_sell_book :: book where
  "one_sell_book = (\<lambda>bs. if bs = SellLevels then [(I32 100, [\<lparr>r_order_id = 7, r_quantity = 10,
     r_filled = 0, r_side = SELL, r_flags = 0\<rparr>])] else [])"

lemma one_sellE:
  obtains L where "one_sell = Some L" "ladder_reach 1 L" "represents L one_sell_book"
    "book_ok one_sell_book" "l_symbol L = 1"
proof -
  let ?spec = "spec_new_order 7 SELL 1 10 (I32 100) 0 (\<lambda>_. [])"
  have B: "fst ?spec = one_sell_book"
    by (auto simp: spec_new_order_def enter_order_def Let_def opposite_of_side_def fun_eq_iff
        levels_of_side_def book_insert_def one_sell_book_def is_ioc_def)
  have sim: "refines (empty_ladder 1) ?spec (new_order 7 SELL 10 (I32 100) 0 (empty_ladder 1))"
    using new_order_sim [OF represents_empty [of 1] book_ok_empty, of 7 10 SELL "I32 100" 0]
    by (simp add: book_ids_def empty_ladder_def)
  then obtain L where L: "new_order 7 SELL 10 (I32 100) 0 (empty_ladder 1) = Some (Inr L)"
    "represents L one_sell_book" "l_symbol L = 1"
    unfolding refines_def B by (auto simp: empty_ladder_def)
  have "ladder_reach 1 L"
    by (rule reach_new [OF reach_empty _ _ L(1)]) (simp_all add: empty_ladder_def)
  moreover have "book_ok one_sell_book"
    using book_ok_new [OF book_ok_empty, of 7 SELL 1 10 "I32 100" 0] B by (simp add: book_ids_def)
  ultimately show thesis using L by (intro that [of L]) (simp_all add: one_sell_def)
qed

lemma one_sell_ids: "book_ids one_sell_book = {7}"
  by (simp add: book_ids_def one_sell_book_def)

definition two_sided :: "ladder option" where
  "two_sided = (case one_sell of None \<Rightarrow> None
     | Some L \<Rightarrow> (case new_order 8 BUY 4 (I32 99) 0 L of Some (Inr L) \<Rightarrow> Some L | _ \<Rightarrow> None))"

definition two_sided_book :: book where
  "two_sided_book = (\<lambda>bs. if bs = SellLevels then [(I32 100, [\<lparr>r_order_id = 7, r_quantity = 10,
     r_filled = 0, r_side = SELL, r_flags = 0\<rparr>])] else [(I32 99, [\<lparr>r_order_id = 8,
     r_quantity = 4, r_filled = 0, r_side = BUY, r_flags = 0\<rparr>])])"

lemma book_side_not_sell: "bs \<noteq> SellLevels \<longleftrightarrow> bs = BuyLevels"
  by (cases bs) auto

lemma two_sidedE:
  obtains L where "two_sided = Some L" "ladder_reach 1 L" "represents L two_sided_book"
    "book_ok two_sided_book" "l_symbol L = 1"
proof -
  obtain L where L: "one_sell = Some L" "ladder_reach 1 L" "represents L one_sell_book"
    "book_ok one_sell_book" "l_symbol L = 1" by (rule one_sellE)
  let ?spec = "spec_new_order 8 BUY 1 4 (I32 99) 0 one_sell_book"
  have B: "fst ?spec = two_sided_book"
    by (auto simp: spec_new_order_def enter_order_def Let_def opposite_of_side_def fun_eq_iff
        levels_of_side_def book_insert_def one_sell_book_def two_sided_book_def is_ioc_def crosses_def
        less_i32_def book_side_not_sell)
  have i: "8 \<notin> book_ids one_sell_book" by (simp add: one_sell_ids)
  from new_order_sim [OF L(3,4) i, of 4 BUY "I32 99" 0] L(5) B
  obtain L' where L': "new_order 8 BUY 4 (I32 99) 0 L = Some (Inr L')"
    "represents L' two_sided_book" "l_symbol L' = 1" by (auto simp: refines_def)
  have "l_orders L 8 = None" using represents_index [OF L(3)] i by simp
  then have "ladder_reach 1 L'" by (rule reach_new [OF L(2) _ _ L'(1)]) simp
  moreover have "book_ok two_sided_book"
    using book_ok_new [OF L(4) i, of BUY 1 4 "I32 99" 0] B by simp
  moreover have "two_sided = Some L'"
    unfolding two_sided_def L(1) option.case L'(1) sum.case ..
  ultimately show thesis using L' by (intro that [of L'])
qed

text \<open>A buy order for four, at a better price, that trades with the one sell order.\<close>

definition hit_book :: book where
  "hit_book = (\<lambda>bs. if bs = SellLevels then [(I32 100, [\<lparr>r_order_id = 7, r_quantity = 6,
     r_filled = 4, r_side = SELL, r_flags = 0\<rparr>])] else [])"

lemma one_sell_hitE:
  obtains L L' cs where "one_sell = Some L" "ladder_reach 1 L" "l_orders L 8 = None"
    "new_order 8 BUY 4 (I32 101) 0 L = Some (Inr L')" "l_calls L' = l_calls L @ cs"
    "(7, 4, I32 100) \<in> set (trades_of cs)" "ladder_reach 1 L'" "represents L' hit_book"
    "book_ok hit_book" "l_symbol L' = 1"
proof -
  obtain L where L: "one_sell = Some L" "ladder_reach 1 L" "represents L one_sell_book"
    "book_ok one_sell_book" "l_symbol L = 1" by (rule one_sellE)
  let ?spec = "spec_new_order 8 BUY 1 4 (I32 101) 0 one_sell_book"
  have fb: "fill_book 8 BUY 1 (I32 101) 4 (one_sell_book SellLevels) = (0, hit_book SellLevels,
      partial_fill_calls 8 BUY 1 (I32 100) \<lparr>r_order_id = 7, r_quantity = 10, r_filled = 0,
        r_side = SELL, r_flags = 0\<rparr> 4)"
    by (simp add: one_sell_book_def hit_book_def crosses_def less_i32_def reduce_def)
  then have B: "fst ?spec = hit_book" "(7, 4, I32 100) \<in> set (trades_of (snd ?spec))"
    by (auto simp: spec_new_order_def enter_order_def opposite_of_side_def fun_eq_iff
        one_sell_book_def hit_book_def)
  have i: "8 \<notin> book_ids one_sell_book" by (simp add: one_sell_ids)
  from new_order_sim [OF L(3,4) i, of 4 BUY "I32 101" 0] L(5) B(1)
  obtain L' where L': "new_order 8 BUY 4 (I32 101) 0 L = Some (Inr L')"
    "represents L' hit_book" "l_calls L' = l_calls L @ snd ?spec" "l_symbol L' = 1"
    by (auto simp: refines_def)
  have fresh: "l_orders L 8 = None" using represents_index [OF L(3)] i by simp
  then have "ladder_reach 1 L'" by (rule reach_new [OF L(2) _ _ L'(1)]) simp
  moreover have "book_ok hit_book"
    using book_ok_new [OF L(4) i, of BUY 1 4 "I32 101" 0] B(1) by simp
  ultimately show thesis using L(1,2) L' B(2) fresh by (intro that [of L L' "snd ?spec"])
qed

lemma represents_prices: "represents L B \<Longrightarrow> fst ` set (levels bs L) = fst ` set (B bs)"
  unfolding represents_def shape_ok_def abs_book_def
  by (metis levels_rep_keys list.set_map map_fst_abs_levels)

text \<open>C1: on a ladder that represents a well-formed book, \<open>new_order\<close> with a fresh id ends
  without an exception, makes exactly the calls of the price-time book and leaves a ladder that
  represents the book after the order.\<close>

theorem new_order_implements_book:
  assumes "represents L B" "book_ok B" "i \<notin> book_ids B" "0 < q"
  shows "refines L (spec_new_order i sd (l_symbol L) q price flags B)
    (new_order i sd q price flags L)"
  using assms by (rule new_order_sim)

theorem new_order_implements_book_witness:
  "\<exists>L. one_sell = Some L \<and> refines L (spec_new_order 8 BUY 1 4 (I32 100) 0 one_sell_book)
    (new_order 8 BUY 4 (I32 100) 0 L)"
proof -
  obtain L where L: "one_sell = Some L" "represents L one_sell_book" "book_ok one_sell_book"
    "l_symbol L = 1" by (rule one_sellE)
  with new_order_implements_book [OF L(2,3), of 8 4 BUY "I32 100" 0] show ?thesis
    by (intro exI [of _ L]) (simp add: one_sell_ids)
qed

text \<open>C3: \<open>delete_order\<close> ends without an exception; it removes the order from its level, drops
  the level with its last order and reports the deletion, or rejects an unknown id.\<close>

theorem delete_order_implements_book:
  assumes "represents L B" "book_ok B"
  shows "refines L (spec_delete_order i B) (Some (delete_order True i L))"
  using assms by (rule delete_sim)

theorem delete_order_implements_book_witness:
  "\<exists>L. one_sell = Some L \<and> refines L (spec_delete_order 7 one_sell_book)
    (Some (delete_order True 7 L))"
proof -
  obtain L where L: "one_sell = Some L" "represents L one_sell_book" "book_ok one_sell_book"
    by (rule one_sellE)
  with delete_order_implements_book [OF L(2,3), of 7] show ?thesis by blast
qed

text \<open>
  How the code's book differs from the one intended after a modification of order \<open>i\<close> in book \<open>B\<close>:
  in place, the order rests with as much too much as was filled before; moved, it has forgotten these
  fills.
\<close>

definition miscounted :: "u64 \<Rightarrow> side \<Rightarrow> i32 \<Rightarrow> book \<Rightarrow> book \<Rightarrow> book" where
  "miscounted i sd price B B' = (case find_order i B of
      None \<Rightarrow> B'
    | Some (p, r) \<Rightarrow>
        if p = price \<and> r_side r = sd
        then (\<lambda>bs. book_modify i (\<lambda>x. x\<lparr>r_quantity := r_quantity x + r_filled r\<rparr>) (B' bs))
        else (\<lambda>bs. book_modify i (\<lambda>x. x\<lparr>r_filled := r_filled x - r_filled r\<rparr>) (B' bs)))"

lemma book_modify_twice:
  assumes "\<And>r. r_order_id (g r) = r_order_id r"
  shows "book_modify i f (book_modify i g m) = book_modify i (\<lambda>r. f (g r)) m"
  using assms by (induction m) (auto simp: book_modify_def)

lemma book_modify_cong:
  assumes "\<And>p rs r. (p, rs) \<in> set m \<Longrightarrow> r \<in> set rs \<Longrightarrow> r_order_id r = i \<Longrightarrow> f r = g r"
  shows "book_modify i f m = book_modify i g m"
  unfolding book_modify_def using assms by (auto intro!: map_cong)

lemma book_modify_same: "book_modify i (\<lambda>r. r) m = m"
  by (induction m) (auto simp: book_modify_def)

lemma miscounted_unfilled:
  "find_order i B = Some (p, r) \<Longrightarrow> r_filled r = 0 \<Longrightarrow> miscounted i sd price B B' = B'"
  by (simp add: miscounted_def book_modify_same)

lemma member_id: "(p, rs) \<in> set m \<Longrightarrow> x \<in> set rs \<Longrightarrow> r_order_id x \<in> set (resting_ids m)"
  by (induction m) (auto simp: resting_ids_def)

lemma find_order_same:
  assumes ok: "book_ok B" and f: "find_order i B = Some (p, r)"
    and x: "(p', rs) \<in> set (B bs)" "x \<in> set rs" "r_order_id x = i"
  shows "x = r"
proof -
  obtain m1 m2 where m: "B bs = m1 @ (p', rs) # m2" using x(1) by (meson split_list)
  obtain rs1 rs2 where rs: "rs = rs1 @ x # rs2" using x(2) by (meson split_list)
  have dist: "distinct (resting_ids (B bs))" and disj: "bs' \<noteq> bs \<Longrightarrow> set (resting_ids (B bs')) \<inter> set (resting_ids (B bs)) = {}" for bs'
    using ok distinct_book_ids [of B] unfolding book_ok_def by blast+
  have found: "book_find i (B bs) = Some (p', x)"
    unfolding m rs by (rule book_find_at) (use dist x(3) in \<open>auto simp: m rs\<close>)
  have "i \<in> set (resting_ids (B bs))" using member_id [OF x(1,2)] x(3) by simp
  then have "book_find i (B bs') = None" if "bs' \<noteq> bs" for bs'
    using disj [OF that] by (auto simp: book_find_None)
  then have "find_order i B = Some (p', x)" using found by (cases bs) (simp_all add: find_order_def)
  with f show ?thesis by simp
qed

lemma entered_fills:
  assumes ok: "book_ok B" "i \<notin> book_ids B" and run: "enter_order i sd y q price flags False B = (left, B', cs)"
    and x: "(p, rs) \<in> set (B' bs)" "x \<in> set rs" "r_order_id x = i"
  shows "r_filled x = q - left"
proof -
  let ?opp = "opposite_of_side sd" and ?own = "levels_of_side sd"
  obtain m cs1 where fb: "fill_book i sd y price q (B ?opp) = (left, m, cs1)"
    using run by (auto simp: enter_order_def Let_def split: prod.splits)
  let ?B1 = "B(?opp := m)"
  let ?r = "\<lparr>r_order_id = i, r_quantity = left, r_filled = q - left, r_side = sd, r_flags = flags\<rparr>"
  have sb: "served_book (B ?opp) m" using fb by (rule fill_book_served)
  have ok1: "book_ok ?B1" "i \<notin> book_ids ?B1" using book_ok_served [OF ok(1) sb] book_ids_served [where B = B, OF sb] ok(2) by blast+
  have "B' = (if left = 0 \<or> is_ioc flags then ?B1 else ?B1(?own := book_insert ?own price ?r (?B1 ?own)))"
    using run fb by (auto simp: enter_order_def Let_def)
  moreover have "B' \<noteq> ?B1"
  proof
    assume "B' = ?B1"
    then have "i \<in> set (resting_ids (?B1 bs))" using member_id [OF x(1,2)] x(3) by simp
    then have "i \<in> book_ids ?B1" unfolding book_ids_eq by blast
    with ok1(2) show False ..
  qed
  ultimately have B': "B' = ?B1(?own := book_insert ?own price ?r (?B1 ?own))" by (simp split: if_splits)
  have "find_order (r_order_id ?r) B' = Some (price, ?r)"
    unfolding B' by (rule find_order_inserted [OF ok1(1)]) (use ok1(2) in simp)
  with find_order_same [OF book_ok_enter [OF ok run] _ x] show ?thesis by auto
qed

lemma coded_as_intended:
  assumes ok: "book_ok B"
  shows "coded_modify_order i sd y q price B = (miscounted i sd price B (fst (intended_modify_order i sd y q price B)),
    snd (intended_modify_order i sd y q price B))"
proof (cases "find_order i B")
  case None
  then show ?thesis by (simp add: coded_modify_order_def intended_modify_order_def miscounted_def)
next
  case (Some e)
  obtain p r where e: "e = (p, r)" by (cases e)
  consider "q \<le> r_filled r" | "\<not> q \<le> r_filled r" "p = price \<and> r_side r = sd"
    | "\<not> q \<le> r_filled r" "\<not> (p = price \<and> r_side r = sd)" by blast
  then show ?thesis
  proof cases
    case 1
    have "book_modify i f (remove_order i B bs) = remove_order i B bs" for f bs
      using not_in_removed [of i B] by (intro book_modify_absent) (auto simp: book_ids_eq)
    with 1 show ?thesis by (simp add: coded_modify_order_def intended_modify_order_def miscounted_def Some e)
  next
    case 2
    have "book_modify i (\<lambda>x. x\<lparr>r_quantity := q\<rparr>) (B bs)
      = book_modify i (\<lambda>x. x\<lparr>r_quantity := q - r_filled x + r_filled r\<rparr>) (B bs)" for bs
      by (rule book_modify_cong) (use find_order_same [OF ok Some [unfolded e]] in auto)
    with 2 show ?thesis by (simp add: coded_modify_order_def intended_modify_order_def miscounted_def Some e book_modify_twice)
  next
    case 3
    obtain left B' cs where enter: "enter_order i sd y (q - r_filled r) price (r_flags r) False (remove_order i B)
        = (left, B', cs)" by (metis prod_cases3)
    have "book_modify i (\<lambda>x. x\<lparr>r_filled := q - left - r_filled r\<rparr>) (B' bs) = book_modify i (\<lambda>x. x) (B' bs)" for bs
    proof (rule book_modify_cong)
      fix p rs x
      assume "(p, rs) \<in> set (B' bs)" "x \<in> set rs" "r_order_id x = i"
      from entered_fills [OF book_ok_remove [OF ok] not_in_removed enter this]
      show "x\<lparr>r_filled := q - left - r_filled r\<rparr> = x" by (cases x) (simp add: algebra_simps)
    qed
    note same = this
    have run: "coded_modify_order i sd y q price B
        = (B', cs @ [if left > 0 then OnModifyOrder i y sd left price else OnDeleteOrder i True])"
      "intended_modify_order i sd y q price B = (\<lambda>bs. book_modify i (\<lambda>x. x\<lparr>r_filled := q - left\<rparr>) (B' bs),
        cs @ [if left > 0 then OnModifyOrder i y sd left price else OnDeleteOrder i True])"
      unfolding coded_modify_order_def intended_modify_order_def Some e option.case prod.case
        if_not_P [OF 3(1)] if_not_P [OF 3(2)] enter Let_def by (rule refl)+
    have "miscounted i sd price B X = (\<lambda>bs. book_modify i (\<lambda>x. x\<lparr>r_filled := r_filled x - r_filled r\<rparr>) (X bs))" for X
      unfolding miscounted_def Some e option.case prod.case if_not_P [OF 3(2)] by (rule refl)
    then show ?thesis unfolding run by (simp add: book_modify_twice same book_modify_same)
  qed
qed

text \<open>C2: \<open>modify_order\<close> ends without an exception and makes exactly the calls that a modification is
  meant to make: an order whose new quantity was filled already is deleted; at an unchanged price
  and side it stays in its place; otherwise it is removed and what is left of it enters as a new
  order.  The book it leaves is the intended one for an order that has not been filled, and for one
  filled in part it is the intended one but for this order: at an unchanged price and side the
  order rests with its fills added to the quantity announced, and otherwise it has forgotten them.\<close>

theorem modify_order_implements_book:
  assumes "represents L B" "book_ok B"
    and "intended_modify_order i sd (l_symbol L) q price B = (B', cs)"
  shows "refines L (miscounted i sd price B B', cs) (modify_order i sd q price L) \<and>
    ((\<forall>p r. find_order i B = Some (p, r) \<longrightarrow> r_filled r = 0) \<longrightarrow>
      refines L (B', cs) (modify_order i sd q price L))"
proof -
  have sim: "refines L (miscounted i sd price B B', cs) (modify_order i sd q price L)"
    using modify_sim [OF assms(1,2)] coded_as_intended [OF assms(2), of i sd "l_symbol L" q price] assms(3)
    by (metis fst_conv snd_conv)
  have "miscounted i sd price B B' = B'" if "\<forall>p r. find_order i B = Some (p, r) \<longrightarrow> r_filled r = 0"
    using that by (cases "find_order i B") (auto simp: miscounted_def book_modify_same)
  with sim show ?thesis by auto
qed

text \<open>
  An order of which 4 are sold and 6 are left is modified to 10, in place: 6 are announced, and the
  intended book has 6 at rest.
\<close>

theorem modify_order_implements_book_witness:
  "\<exists>L. ladder_reach 1 L \<and> represents L hit_book \<and>
    refines L (miscounted 7 SELL (I32 100) hit_book hit_book, [OnModifyOrder 7 1 SELL 6 (I32 100)])
      (modify_order 7 SELL 10 (I32 100) L) \<and>
    miscounted 7 SELL (I32 100) hit_book hit_book SellLevels
      = [(I32 100, [\<lparr>r_order_id = 7, r_quantity = 10, r_filled = 4, r_side = SELL, r_flags = 0\<rparr>])]"
proof -
  obtain L where L: "ladder_reach 1 L" "represents L hit_book" "book_ok hit_book" "l_symbol L = 1"
    by (rule one_sell_hitE)
  have at: "find_order 7 hit_book = Some (I32 100, \<lparr>r_order_id = 7, r_quantity = 6, r_filled = 4,
      r_side = SELL, r_flags = 0\<rparr>)" by (simp add: find_order_def hit_book_def)
  have same: "(\<lambda>bs. book_modify 7 (\<lambda>r. r\<lparr>r_quantity := 10 - r_filled r\<rparr>) (hit_book bs)) = hit_book"
    by (simp add: book_modify_def hit_book_def fun_eq_iff)
  have "intended_modify_order 7 SELL (l_symbol L) 10 (I32 100) hit_book
      = (hit_book, [OnModifyOrder 7 1 SELL 6 (I32 100)])"
    by (simp add: intended_modify_order_def at L(4) same)
  note run = modify_order_implements_book [OF L(2,3) this]
  have "miscounted 7 SELL (I32 100) hit_book hit_book SellLevels
      = book_modify 7 (\<lambda>x. x\<lparr>r_quantity := r_quantity x + 4\<rparr>) (hit_book SellLevels)"
    by (simp add: miscounted_def at)
  also have "\<dots> = [(I32 100, [\<lparr>r_order_id = 7, r_quantity = 10, r_filled = 4, r_side = SELL, r_flags = 0\<rparr>])]"
    by (simp add: book_modify_def hit_book_def)
  finally show ?thesis using run L(1,2) by blast
qed

text \<open>C8: whatever sequence of operations a ladder has served, the next one returns: no loop
  runs on, and none of the exceptions of the file is thrown, by a deletion or a modification whatever its
  arguments, and by a new order whose id does not rest in the ladder and whose quantity is positive.
  (With an id that rests, a new order throws after it has traded.)\<close>

theorem reachable_operations_return:
  assumes "ladder_reach y L" "l_orders L i = None" "0 < q"
  shows "(\<exists>L'. new_order i sd q price flags L = Some (Inr L')) \<and>
    (\<exists>L'. delete_order True j L = Inr L') \<and>
    (\<exists>L'. modify_order j sd' q' price' L = Some (Inr L'))"
proof -
  obtain B where B: "represents L B" "book_ok B" using reach_book [OF assms(1)] by blast
  from assms(2) have "i \<notin> book_ids B" using represents_index [OF B(1)] by blast
  with new_order_sim [OF B] delete_sim [OF B] modify_sim [OF B] assms(3) show ?thesis
    unfolding refines_def by (metis option.inject)
qed

theorem reachable_operations_return_witness:
  "\<exists>L. one_sell = Some L \<and> (\<exists>L'. new_order 8 BUY 25 (I32 100) 0 L = Some (Inr L')) \<and>
    (\<exists>L'. delete_order True 7 L = Inr L') \<and>
    (\<exists>L'. modify_order 7 BUY 3 (I32 99) L = Some (Inr L'))"
proof -
  obtain L where L: "one_sell = Some L" "ladder_reach 1 L" "represents L one_sell_book"
    by (rule one_sellE)
  then have "l_orders L 8 = None" using represents_index one_sell_ids by simp
  with L(1) reachable_operations_return [OF L(2), of 8 25 BUY "I32 100" 0 7 BUY 3 "I32 99"]
  show ?thesis by (intro exI [of _ L]) simp
qed

text \<open>C4: in every reachable ladder each price of the buy levels is below each price of the
  sell levels, so a crossed book never rests.  This holds for every byte a client may send as
  the side.\<close>

theorem reachable_uncrossed:
  assumes "ladder_reach y L" "p \<in> fst ` set (l_buy_levels L)" "p' \<in> fst ` set (l_sell_levels L)"
  shows "p < p'"
proof -
  obtain B where B: "represents L B" "uncrossed B" using reach_book [OF assms(1)] by blast
  have "p \<in> fst ` set (B BuyLevels)" "p' \<in> fst ` set (B SellLevels)"
    using assms(2,3) represents_prices [OF B(1), of BuyLevels] represents_prices [OF B(1), of SellLevels]
    by simp_all
  with B(2) show ?thesis unfolding uncrossed_prices by blast
qed

theorem reachable_uncrossed_witness:
  "\<exists>L. two_sided = Some L \<and> I32 99 \<in> fst ` set (l_buy_levels L) \<and>
     I32 100 \<in> fst ` set (l_sell_levels L) \<and> I32 99 < I32 100"
proof -
  obtain L where L: "two_sided = Some L" "ladder_reach 1 L" "represents L two_sided_book"
    by (rule two_sidedE)
  have "I32 99 \<in> fst ` set (l_buy_levels L)" "I32 100 \<in> fst ` set (l_sell_levels L)"
    using represents_prices [OF L(3), of BuyLevels] represents_prices [OF L(3), of SellLevels]
    by (simp_all add: two_sided_book_def)
  with L(1) reachable_uncrossed [OF L(2)] show ?thesis by blast
qed

text \<open>C5: no quantity is lost or made: what a new order asks for is what it trades plus what
  rests under its id afterwards.\<close>

theorem new_order_conserves_quantity:
  assumes "ladder_reach y L" "l_orders L i = None" "0 < q" "\<not> is_ioc flags"
  shows "\<exists>L' cs. new_order i sd q price flags L = Some (Inr L') \<and> l_calls L' = l_calls L @ cs \<and>
    unat q = traded cs + resting_quantity L' i"
proof -
  obtain L' B B' left cs where run: "new_order i sd q price flags L = Some (Inr L')"
    "represents L B" "book_ok B" "i \<notin> book_ids B" "represents L' B'" "book_ok B'"
    "enter_order i sd y q price flags True B = (left, B', cs)" "l_calls L' = l_calls L @ cs"
    by (rule new_order_reachE [OF assms(1-3)])
  have "resting_quantity L' i = unat left"
    using order_at_represents [OF run(5,6), of i] enter_leaves(1) [OF run(3,4,7)] assms(4)
    by (cases "left = 0") (auto simp: resting_quantity_def abs_order_def split: option.split)
  with run enter_leaves(2) [OF run(3,4,7)] show ?thesis by auto
qed

theorem new_order_conserves_quantity_witness:
  "\<exists>L L' cs. one_sell = Some L \<and> new_order 8 BUY 25 (I32 100) 0 L = Some (Inr L') \<and>
    l_calls L' = l_calls L @ cs \<and> 25 = traded cs + resting_quantity L' 8"
proof -
  obtain L where L: "one_sell = Some L" "ladder_reach 1 L" "represents L one_sell_book"
    by (rule one_sellE)
  then have "l_orders L 8 = None" using represents_index one_sell_ids by simp
  with new_order_conserves_quantity [OF L(2), of 8 25 0 BUY "I32 100"] L(1)
  show ?thesis by (auto simp: is_ioc_def)
qed

text \<open>C7: an order never trades beyond its limit: a buy order at no more than its price, a sell
  order at no less.\<close>

theorem new_order_respects_limit:
  assumes "ladder_reach y L" "l_orders L i = None" "0 < q"
    "new_order i sd q price flags L = Some (Inr L')" "l_calls L' = l_calls L @ cs"
    "(j, k, p) \<in> set (trades_of cs)"
  shows "(sd = BUY \<longrightarrow> p \<le> price) \<and> (sd = SELL \<longrightarrow> price \<le> p)"
proof -
  obtain L'' B B' left cs' where run: "new_order i sd q price flags L = Some (Inr L'')"
    "represents L B" "book_ok B" "i \<notin> book_ids B" "represents L'' B'" "book_ok B'"
    "enter_order i sd y q price flags True B = (left, B', cs')" "l_calls L'' = l_calls L @ cs'"
    by (rule new_order_reachE [OF assms(1-3)])
  obtain m cs1 where "fill_book i sd y price q (B (opposite_of_side sd)) = (left, m, cs1)"
    "trades_of cs' = trades_of cs1" by (rule trades_of_enter [OF run(7)])
  with assms run(1,8) fill_book_prices have "crosses sd price p" by fastforce
  then show ?thesis by (auto simp: crosses_def not_less)
qed

theorem new_order_respects_limit_witness:
  "\<exists>L L' cs. one_sell = Some L \<and> new_order 8 BUY 4 (I32 101) 0 L = Some (Inr L') \<and>
    l_calls L' = l_calls L @ cs \<and> (7, 4, I32 100) \<in> set (trades_of cs) \<and> I32 100 \<le> I32 101"
proof -
  obtain L L' cs where L: "one_sell = Some L" "ladder_reach 1 L" "l_orders L 8 = None"
    "new_order 8 BUY 4 (I32 101) 0 L = Some (Inr L')" "l_calls L' = l_calls L @ cs"
    "(7, 4, I32 100) \<in> set (trades_of cs)" by (rule one_sell_hitE)
  from new_order_respects_limit [OF L(2,3) _ L(4-6)] have "I32 100 \<le> I32 101" by simp
  with L show ?thesis by blast
qed

text \<open>C6: price-time priority: the orders that a new order trades with, in the order of the
  trades, are the first ones of the opposite side's queue.\<close>

theorem new_order_price_time_priority:
  assumes "represents L B" "book_ok B" "i \<notin> book_ids B" "0 < q"
  shows "\<exists>L' cs n. new_order i sd q price flags L = Some (Inr L') \<and> l_calls L' = l_calls L @ cs \<and>
    map fst (trades_of cs) = take n (resting_ids (B (opposite_of_side sd)))"
proof -
  obtain left B' cs where run: "enter_order i sd (l_symbol L) q price flags True B = (left, B', cs)"
    by (metis prod_cases3)
  obtain m cs1 where "fill_book i sd (l_symbol L) price q (B (opposite_of_side sd)) = (left, m, cs1)"
    "trades_of cs = trades_of cs1" by (rule trades_of_enter [OF run])
  with fill_book_order new_order_sim [OF assms, of sd price flags] run show ?thesis
    by (fastforce simp: refines_def spec_new_order_def)
qed

theorem new_order_price_time_priority_witness:
  "\<exists>L L' cs n. one_sell = Some L \<and> new_order 8 BUY 25 (I32 100) 0 L = Some (Inr L') \<and>
    l_calls L' = l_calls L @ cs \<and> map fst (trades_of cs) = take n [7]"
proof -
  obtain L where L: "one_sell = Some L" "represents L one_sell_book" "book_ok one_sell_book"
    by (rule one_sellE)
  have "resting_ids (one_sell_book (opposite_of_side BUY)) = [7]"
    by (simp add: one_sell_book_def opposite_of_side_def)
  with L(1) new_order_price_time_priority [OF L(2,3), of 8 25 BUY "I32 100" 0]
  show ?thesis by (simp add: one_sell_ids) blast
qed

text \<open>C10: an immediate-or-cancel order never rests: whatever of it does not trade at once is
  dropped.\<close>

theorem ioc_never_rests:
  assumes "ladder_reach y L" "l_orders L i = None" "0 < q" "is_ioc flags"
  shows "\<exists>L'. new_order i sd q price flags L = Some (Inr L') \<and> order_at L' i = None"
proof -
  obtain L' B B' left cs where run: "new_order i sd q price flags L = Some (Inr L')"
    "represents L B" "book_ok B" "i \<notin> book_ids B" "represents L' B'" "book_ok B'"
    "enter_order i sd y q price flags True B = (left, B', cs)" "l_calls L' = l_calls L @ cs"
    by (rule new_order_reachE [OF assms(1-3)])
  from order_at_represents [OF run(5,6), of i] enter_leaves(1) [OF run(3,4,7)] assms(4)
  show ?thesis using run(1) by simp
qed

theorem ioc_never_rests_witness:
  "\<exists>L L'. one_sell = Some L \<and> new_order 8 BUY 25 (I32 100) IOC L = Some (Inr L') \<and>
    order_at L' 8 = None"
proof -
  obtain L where L: "one_sell = Some L" "ladder_reach 1 L" "represents L one_sell_book"
    by (rule one_sellE)
  then have "l_orders L 8 = None" using represents_index one_sell_ids by simp
  with ioc_never_rests [OF L(2), of 8 25 IOC BUY "I32 100"] L(1)
  show ?thesis by (simp add: is_ioc_def IOC_def) blast
qed

text \<open>A modification in place leaves more at rest than it reports.  The subscriber is told
  the new quantity less what was filled before, but the order keeps the whole new quantity, so
  it can be filled beyond it.\<close>

theorem modify_in_place_rests_too_much:
  assumes "order_at L i = Some x" "o_filled_quantity x < q" "o_price x = price" "o_side x = sd"
  shows "\<exists>L' r. modify_order i sd q price L = Some (Inr L') \<and>
    l_calls L' = l_calls L @ [OnModifyOrder i (l_symbol L) sd r price] \<and>
    resting_quantity L' i = unat r + unat (o_filled_quantity x)"
proof -
  obtain a where a: "l_orders L i = Some a" "x = l_heap L a"
    using assms(1) by (auto simp: order_at_def)
  have "unat (o_filled_quantity x) \<le> unat q" using assms(2) by (simp add: word_less_nat_alt)
  then have "unat q = unat (q - o_filled_quantity x) + unat (o_filled_quantity x)"
    using assms(2) by (simp add: unat_diff_le)
  moreover have "\<not> q \<le> o_filled_quantity x" using assms(2) by simp
  ultimately show ?thesis using a assms(3,4)
    by (simp add: modify_order_def Let_def resting_quantity_def order_at_def)
qed

lemma hit_orderE:
  assumes "represents L hit_book" "book_ok hit_book"
  obtains x where "order_at L 7 = Some x" "o_filled_quantity x = 4" "o_price x = I32 100" "o_side x = SELL"
proof -
  have "find_order 7 hit_book = Some (I32 100, \<lparr>r_order_id = 7, r_quantity = 6, r_filled = 4,
      r_side = SELL, r_flags = 0\<rparr>)" by (simp add: find_order_def hit_book_def)
  with assms obtain x where "order_at L 7 = Some x"
    "o_price x = I32 100" "abs_order x = \<lparr>r_order_id = 7, r_quantity = 6, r_filled = 4,
      r_side = SELL, r_flags = 0\<rparr>" by (rule order_at_SomeE)
  then show thesis by (intro that [of x]) (simp_all add: abs_order_def)
qed

theorem modify_in_place_rests_too_much_witness:
  "\<exists>L x L' r. ladder_reach 1 L \<and> order_at L 7 = Some x \<and> o_filled_quantity x = 4 \<and>
    modify_order 7 SELL 10 (I32 100) L = Some (Inr L') \<and>
    l_calls L' = l_calls L @ [OnModifyOrder 7 (l_symbol L) SELL r (I32 100)] \<and>
    resting_quantity L' 7 = unat r + 4"
proof -
  obtain L where L: "ladder_reach 1 L" "represents L hit_book" "book_ok hit_book"
    by (rule one_sell_hitE)
  obtain x where x: "order_at L 7 = Some x" "o_filled_quantity x = 4" "o_price x = I32 100"
    "o_side x = SELL" by (rule hit_orderE [OF L(2,3)])
  from modify_in_place_rests_too_much [OF x(1) _ x(3,4), of 10] x L(1) show ?thesis by auto
qed

text \<open>An order whose side byte is neither buy nor sell trades with the buy levels whatever
  their price: it takes as much as it wants or as much as there is.\<close>

theorem invalid_side_ignores_limit:
  assumes "represents L B" "book_ok B" "i \<notin> book_ids B" "0 < q" "sd \<noteq> BUY" "sd \<noteq> SELL"
  shows "\<exists>L' cs. new_order i sd q price flags L = Some (Inr L') \<and> l_calls L' = l_calls L @ cs \<and>
    traded cs = min (unat q) (depth (B BuyLevels))"
proof -
  have opp: "opposite_of_side sd = BuyLevels" using assms(5) by (simp add: opposite_of_side_def)
  obtain left B' cs where run: "enter_order i sd (l_symbol L) q price flags True B = (left, B', cs)"
    by (metis prod_cases3)
  obtain m cs1 where fb: "fill_book i sd (l_symbol L) price q (B BuyLevels) = (left, m, cs1)"
    "trades_of cs = trades_of cs1" using trades_of_enter [OF run] opp by metis
  have "ordered_map (before (opposite_of_side sd)) (B BuyLevels)"
    using book_ok_levels [OF assms(2), of BuyLevels] opp by (simp add: levels_ok_def)
  with fill_book_left [OF fb(1)] assms(5,6) have "left \<noteq> 0 \<Longrightarrow> m = []"
    by (cases m) (auto simp: crosses_def)
  then have "traded cs = min (unat q) (depth (B BuyLevels))"
    using fill_book_traded [OF fb(1)] fill_book_depth [OF fb(1)] fb(2)
    by (cases "left = 0") (auto simp: traded_def depth_def)
  with new_order_sim [OF assms(1-4), of sd price flags] run show ?thesis
    by (auto simp: refines_def spec_new_order_def)
qed

lemma two_sided_ids: "book_ids two_sided_book = {7, 8}"
  by (auto simp: book_ids_def two_sided_book_def)

theorem invalid_side_ignores_limit_witness:
  "\<exists>L L' cs. two_sided = Some L \<and>
    new_order 9 (SideByte 3) 4 (I32 1000) 0 L = Some (Inr L') \<and> l_calls L' = l_calls L @ cs \<and>
    traded cs = 4"
proof -
  obtain L where L: "two_sided = Some L" "represents L two_sided_book" "book_ok two_sided_book"
    by (rule two_sidedE)
  from invalid_side_ignores_limit [OF L(2,3), of 9 4 "SideByte 3" "I32 1000" 0] L(1)
  have "\<exists>L' cs. new_order 9 (SideByte 3) 4 (I32 1000) 0 L = Some (Inr L') \<and>
      l_calls L' = l_calls L @ cs \<and> traded cs = min 4 (depth (two_sided_book BuyLevels))"
    by (simp add: two_sided_ids)
  moreover have "depth (two_sided_book BuyLevels) = 4" by (simp add: two_sided_book_def depth_def)
  ultimately show ?thesis using L(1) by auto
qed

text \<open>A modification that moves an order to another price or side forgets what was filled
  before: the order that rests afterwards counts only the fills of the modification itself.\<close>

theorem reprice_forgets_fills:
  assumes "ladder_reach y L" "order_at L i = Some x" "o_filled_quantity x < q"
    "\<not> (o_price x = price \<and> o_side x = sd)" "modify_order i sd q price L = Some (Inr L')"
    "l_calls L' = l_calls L @ cs" "order_at L' i = Some x'"
  shows "unat (o_filled_quantity x') = traded cs"
proof -
  obtain B where B: "represents L B" "book_ok B" using reach_book [OF assms(1)] by blast
  let ?B0 = "remove_order i B"
  obtain left B' cs' where run: "enter_order i sd (l_symbol L) (q - o_filled_quantity x) price
      (o_flags x) False ?B0 = (left, B', cs')" by (metis prod_cases3)
  have spec: "coded_modify_order i sd (l_symbol L) q price B = (B', cs' @ [if left > 0
      then OnModifyOrder i (l_symbol L) sd left price else OnDeleteOrder i True])"
    using order_at_represents [OF B, of i] assms(2-4) run
    by (auto simp: coded_modify_order_def)
  have B0: "book_ok ?B0" using B(2) by (rule book_ok_remove)
  have "book_ok B'" using book_ok_enter [OF B0 not_in_removed run] .
  moreover have "represents L' B'" "cs = cs' @ [if left > 0
      then OnModifyOrder i (l_symbol L) sd left price else OnDeleteOrder i True]"
    using modify_sim [OF B, of i sd q price] assms(5,6) spec by (auto simp: refines_def)
  ultimately have "find_order i B' = Some (o_price x', abs_order x')" "traded cs = traded cs'"
    using order_at_represents [of L' B' i] assms(7) by auto
  with enter_leaves(1,2) [OF B0 not_in_removed run] show ?thesis
    by (auto simp: abs_order_def unat_diff_le word_le_nat_alt split: if_splits)
qed

theorem reprice_forgets_fills_witness:
  "\<exists>L x L' cs x'. ladder_reach 1 L \<and> order_at L 7 = Some x \<and> o_filled_quantity x = 4 \<and>
    modify_order 7 SELL 10 (I32 105) L = Some (Inr L') \<and> l_calls L' = l_calls L @ cs \<and>
    order_at L' 7 = Some x' \<and> unat (o_filled_quantity x') = traded cs"
proof -
  obtain L where L: "ladder_reach 1 L" "represents L hit_book" "book_ok hit_book" "l_symbol L = 1"
    by (rule one_sell_hitE)
  obtain x where x: "order_at L 7 = Some x" "o_filled_quantity x = 4" "o_price x = I32 100"
    "o_side x = SELL" by (rule hit_orderE [OF L(2,3)])
  let ?spec = "coded_modify_order 7 SELL 1 10 (I32 105) hit_book"
  have find: "find_order 7 (fst ?spec) = Some (I32 105, \<lparr>r_order_id = 7, r_quantity = 6,
      r_filled = 0, r_side = SELL, r_flags = 0\<rparr>)"
    by (simp add: coded_modify_order_def find_order_def hit_book_def remove_order_def book_remove_def
        enter_order_def opposite_of_side_def levels_of_side_def is_ioc_def book_insert_def Let_def)
  obtain L' where L': "modify_order 7 SELL 10 (I32 105) L = Some (Inr L')"
    "represents L' (fst ?spec)" "l_calls L' = l_calls L @ snd ?spec"
    using modify_sim [OF L(2,3), of 7 SELL 10 "I32 105"] L(4) by (auto simp: refines_def)
  have "book_ok (fst ?spec)" using L(3) by (rule book_ok_modify)
  with L'(2) obtain x' where x': "order_at L' 7 = Some x'" using find by (rule order_at_SomeE)
  from reprice_forgets_fills [OF L(1) x(1) _ _ L'(1,3) x'] x L(1) L' x' show ?thesis by auto
qed



end
