(* ===== verification/Oe_Protocol.thy ===== *)
theory Oe_Protocol imports
  Md_Protocol
begin

text \<open>
  \<open>order_entry/oe_protocol.H\<close> and \<open>matching_engine/spsc_oe_queue.H\<close>: the order entry messages,
  their packed layout, and the payloads that the order entry server and the engine exchange.
\<close>

section \<open>Enumerations\<close>

definition OE_PROTOCOL_VERSION :: u8 where
  "OE_PROTOCOL_VERSION = 1"

datatype oe_msg_type =
    OE_NEW_ORDER | OE_DELETE_ORDER | OE_MODIFY_ORDER | OE_LOGIN | OE_LOGIN_RESPONSE
  | OE_ACK | OE_REJECT | OE_FILL | OE_CLOSE | OE_ERROR

fun oe_type_code :: "oe_msg_type \<Rightarrow> u8" where
  "oe_type_code OE_NEW_ORDER = 1"
| "oe_type_code OE_DELETE_ORDER = 2"
| "oe_type_code OE_MODIFY_ORDER = 3"
| "oe_type_code OE_LOGIN = 99"
| "oe_type_code OE_LOGIN_RESPONSE = 100"
| "oe_type_code OE_ACK = 101"
| "oe_type_code OE_REJECT = 102"
| "oe_type_code OE_FILL = 103"
| "oe_type_code OE_CLOSE = 104"
| "oe_type_code OE_ERROR = 105"

datatype reject_reason =
    NoReject | UnknownSymbol | InvalidOrder | DuplicateOrderId | UnknownOrderId | InvalidPrice
  | InvalidQuantity | InvalidSide | UnknownSessionId | DuplicateLogin

fun reject_code :: "reject_reason \<Rightarrow> u8" where
  "reject_code NoReject = 0"
| "reject_code UnknownSymbol = 1"
| "reject_code InvalidOrder = 2"
| "reject_code DuplicateOrderId = 3"
| "reject_code UnknownOrderId = 4"
| "reject_code InvalidPrice = 5"
| "reject_code InvalidQuantity = 6"
| "reject_code InvalidSide = 7"
| "reject_code UnknownSessionId = 8"
| "reject_code DuplicateLogin = 9"

datatype login_status =
    LoginSuccess | InvalidUsername | InvalidPassword | InvalidSession | SessionAlreadyActive
  | LoginDuplicate | InvalidClientId

fun login_code :: "login_status \<Rightarrow> u8" where
  "login_code LoginSuccess = 0"
| "login_code InvalidUsername = 5"
| "login_code InvalidPassword = 6"
| "login_code InvalidSession = 7"
| "login_code SessionAlreadyActive = 8"
| "login_code LoginDuplicate = 9"
| "login_code InvalidClientId = 10"

section \<open>Headers\<close>

record oe_request_header =
  rq_length :: u16
  rq_msg_type :: u8
  rq_version :: u8
  rq_seq_num :: u32
  rq_client_id :: u32
  rq_session_id :: u64

record oe_response_header =
  rs_length :: u16
  rs_msg_type :: u8
  rs_version :: u8
  rs_seq_num :: u32
  rs_last_seq_num :: u32
  rs_client_id :: u32

definition oe_request_header_size :: nat where "oe_request_header_size = 20"
definition oe_response_header_size :: nat where "oe_response_header_size = 16"

definition encode_oe_request_header :: "oe_request_header \<Rightarrow> u8 list" where
  "encode_oe_request_header h = le_bytes 2 (rq_length h) @ [rq_msg_type h, rq_version h]
     @ le_bytes 4 (rq_seq_num h) @ le_bytes 4 (rq_client_id h) @ le_bytes 8 (rq_session_id h)"

definition oe_request_header_at :: "u8 list \<Rightarrow> oe_request_header" where
  "oe_request_header_at buf = \<lparr>rq_length = field 0 2 buf, rq_msg_type = field 2 1 buf,
     rq_version = field 3 1 buf, rq_seq_num = field 4 4 buf, rq_client_id = field 8 4 buf,
     rq_session_id = field 12 8 buf\<rparr>"

definition encode_oe_response_header :: "oe_response_header \<Rightarrow> u8 list" where
  "encode_oe_response_header h = le_bytes 2 (rs_length h) @ [rs_msg_type h, rs_version h]
     @ le_bytes 4 (rs_seq_num h) @ le_bytes 4 (rs_last_seq_num h) @ le_bytes 4 (rs_client_id h)"

definition oe_response_header_at :: "u8 list \<Rightarrow> oe_response_header" where
  "oe_response_header_at buf = \<lparr>rs_length = field 0 2 buf, rs_msg_type = field 2 1 buf,
     rs_version = field 3 1 buf, rs_seq_num = field 4 4 buf, rs_last_seq_num = field 8 4 buf,
     rs_client_id = field 12 4 buf\<rparr>"

section \<open>Requests\<close>

datatype oe_request =
    Login "u8 list" "u8 list"
  | OeNewOrder u64 u32 side u32 i32 u8
  | OeDeleteOrder u64
  | OeModifyOrder u64 side u32 i32

fun oe_request_type :: "oe_request \<Rightarrow> oe_msg_type" where
  "oe_request_type (Login u p) = OE_LOGIN"
| "oe_request_type (OeNewOrder i y s q p f) = OE_NEW_ORDER"
| "oe_request_type (OeDeleteOrder i) = OE_DELETE_ORDER"
| "oe_request_type (OeModifyOrder i s q p) = OE_MODIFY_ORDER"

fun oe_request_sizeof :: "oe_msg_type \<Rightarrow> nat" where
  "oe_request_sizeof OE_LOGIN = 52"
| "oe_request_sizeof OE_NEW_ORDER = 42"
| "oe_request_sizeof OE_DELETE_ORDER = 28"
| "oe_request_sizeof OE_MODIFY_ORDER = 37"
| "oe_request_sizeof _ = 20"

fun encode_oe_request_body :: "oe_request \<Rightarrow> u8 list" where
  "encode_oe_request_body (Login u p) = u @ p"
| "encode_oe_request_body (OeNewOrder i y s q p f) = le_bytes 8 i @ le_bytes 4 y @ [side_byte s]
     @ le_bytes 4 q @ le_bytes 4 (i32_bits p) @ [f]"
| "encode_oe_request_body (OeDeleteOrder i) = le_bytes 8 i"
| "encode_oe_request_body (OeModifyOrder i s q p) = le_bytes 8 i @ [side_byte s] @ le_bytes 4 q
     @ le_bytes 4 (i32_bits p)"

definition encode_oe_request :: "oe_request_header \<Rightarrow> oe_request \<Rightarrow> u8 list" where
  "encode_oe_request h m = encode_oe_request_header h @ encode_oe_request_body m"

fun oe_request_at :: "oe_msg_type \<Rightarrow> u8 list \<Rightarrow> oe_request option" where
  "oe_request_at OE_LOGIN buf = Some (Login (take 16 (drop 20 buf)) (take 16 (drop 36 buf)))"
| "oe_request_at OE_NEW_ORDER buf = Some (OeNewOrder (field 20 8 buf) (field 28 4 buf)
     (side_of_byte (field 32 1 buf)) (field 33 4 buf) (I32 (field 37 4 buf)) (field 41 1 buf))"
| "oe_request_at OE_DELETE_ORDER buf = Some (OeDeleteOrder (field 20 8 buf))"
| "oe_request_at OE_MODIFY_ORDER buf = Some (OeModifyOrder (field 20 8 buf)
     (side_of_byte (field 28 1 buf)) (field 29 4 buf) (I32 (field 33 4 buf)))"
| "oe_request_at _ buf = None"

fun oe_request_canonical :: "oe_request \<Rightarrow> bool" where
  "oe_request_canonical (Login u p) \<longleftrightarrow> length u = 16 \<and> length p = 16"
| "oe_request_canonical (OeNewOrder i y s q p f) \<longleftrightarrow> s \<notin> {SideByte 1, SideByte 2}"
| "oe_request_canonical (OeDeleteOrder i) \<longleftrightarrow> True"
| "oe_request_canonical (OeModifyOrder i s q p) \<longleftrightarrow> s \<notin> {SideByte 1, SideByte 2}"

section \<open>Responses\<close>

datatype oe_response =
    LoginResponse u64 u8
  | OrderAck u64 u64 u32 i32
  | OrderReject u64 u8
  | OrderFill u64 u32 i32 u8
  | OrderClosed u64
  | ErrorMessage u8 u16 "u8 list"

fun oe_response_type :: "oe_response \<Rightarrow> oe_msg_type" where
  "oe_response_type (LoginResponse n st) = OE_LOGIN_RESPONSE"
| "oe_response_type (OrderAck i x q p) = OE_ACK"
| "oe_response_type (OrderReject i r) = OE_REJECT"
| "oe_response_type (OrderFill i q p f) = OE_FILL"
| "oe_response_type (OrderClosed i) = OE_CLOSE"
| "oe_response_type (ErrorMessage c n msg) = OE_ERROR"

fun oe_response_sizeof :: "oe_msg_type \<Rightarrow> nat" where
  "oe_response_sizeof OE_LOGIN_RESPONSE = 25"
| "oe_response_sizeof OE_ACK = 40"
| "oe_response_sizeof OE_REJECT = 25"
| "oe_response_sizeof OE_FILL = 33"
| "oe_response_sizeof OE_CLOSE = 24"
| "oe_response_sizeof OE_ERROR = 51"
| "oe_response_sizeof _ = 16"

fun encode_oe_response_body :: "oe_response \<Rightarrow> u8 list" where
  "encode_oe_response_body (LoginResponse n st) = le_bytes 8 n @ [st]"
| "encode_oe_response_body (OrderAck i x q p) = le_bytes 8 i @ le_bytes 8 x @ le_bytes 4 q
     @ le_bytes 4 (i32_bits p)"
| "encode_oe_response_body (OrderReject i r) = le_bytes 8 i @ [r]"
| "encode_oe_response_body (OrderFill i q p f) = le_bytes 8 i @ le_bytes 4 q
     @ le_bytes 4 (i32_bits p) @ [f]"
| "encode_oe_response_body (OrderClosed i) = le_bytes 8 i"
| "encode_oe_response_body (ErrorMessage c n msg) = [c] @ le_bytes 2 n @ msg"

definition encode_oe_response :: "oe_response_header \<Rightarrow> oe_response \<Rightarrow> u8 list" where
  "encode_oe_response h m = encode_oe_response_header h @ encode_oe_response_body m"

fun oe_response_at :: "oe_msg_type \<Rightarrow> u8 list \<Rightarrow> oe_response option" where
  "oe_response_at OE_LOGIN_RESPONSE buf = Some (LoginResponse (field 16 8 buf) (field 24 1 buf))"
| "oe_response_at OE_ACK buf = Some (OrderAck (field 16 8 buf) (field 24 8 buf) (field 32 4 buf)
     (I32 (field 36 4 buf)))"
| "oe_response_at OE_REJECT buf = Some (OrderReject (field 16 8 buf) (field 24 1 buf))"
| "oe_response_at OE_FILL buf = Some (OrderFill (field 16 8 buf) (field 24 4 buf)
     (I32 (field 28 4 buf)) (field 32 1 buf))"
| "oe_response_at OE_CLOSE buf = Some (OrderClosed (field 16 8 buf))"
| "oe_response_at OE_ERROR buf = Some (ErrorMessage (field 16 1 buf) (field 17 2 buf)
     (take 32 (drop 19 buf)))"
| "oe_response_at _ buf = None"

fun oe_response_canonical :: "oe_response \<Rightarrow> bool" where
  "oe_response_canonical (ErrorMessage c n msg) \<longleftrightarrow> length msg = 32"
| "oe_response_canonical m \<longleftrightarrow> True"

definition MAX_OE_MESSAGE_SIZE :: nat where
  "MAX_OE_MESSAGE_SIZE = max (oe_request_sizeof OE_LOGIN) (max (oe_request_sizeof OE_NEW_ORDER)
     (max (oe_request_sizeof OE_DELETE_ORDER) (max (oe_request_sizeof OE_MODIFY_ORDER)
     (max (oe_response_sizeof OE_ACK) (max (oe_response_sizeof OE_REJECT)
     (max (oe_response_sizeof OE_FILL) (max (oe_response_sizeof OE_CLOSE)
     (oe_response_sizeof OE_ERROR))))))))"

lemma MAX_OE_MESSAGE_SIZE_eq: "MAX_OE_MESSAGE_SIZE = 52"
  by (simp add: MAX_OE_MESSAGE_SIZE_def)

section \<open>Queue payloads\<close>

text \<open>\<open>struct oe_payload\<close>; its price is a \<open>uint32_t\<close>.\<close>

record oe_payload =
  py_msg_type :: oe_msg_type
  py_exch_order_id :: u64
  py_symbol :: u32
  py_client_seq :: u32
  py_client_id :: u32
  py_side :: side
  py_quantity :: u32
  py_price :: u32
  py_flags :: u8

definition payload :: "oe_msg_type \<Rightarrow> u64 \<Rightarrow> u32 \<Rightarrow> u32 \<Rightarrow> u32 \<Rightarrow> side \<Rightarrow> u32 \<Rightarrow> i32 \<Rightarrow> u8 \<Rightarrow> oe_payload" where
  "payload t i y seq c s q p f = \<lparr>py_msg_type = t, py_exch_order_id = i, py_symbol = y,
     py_client_seq = seq, py_client_id = c, py_side = s, py_quantity = q,
     py_price = i32_bits p, py_flags = f\<rparr>"

section \<open>What is written is what is read\<close>

lemma length_encode_oe_headers [simp]:
  "length (encode_oe_request_header h) = 20" "length (encode_oe_response_header h') = 16"
  by (simp_all add: encode_oe_request_header_def encode_oe_response_header_def)

lemma oe_request_header_at_encode [simp]:
  "oe_request_header_at (encode_oe_request_header h @ rest) = h"
  by (simp add: oe_request_header_at_def encode_oe_request_header_def field_lookup
      del: le_bytes.simps)

lemma oe_response_header_at_encode [simp]:
  "oe_response_header_at (encode_oe_response_header h @ rest) = h"
  by (simp add: oe_response_header_at_def encode_oe_response_header_def field_lookup
      del: le_bytes.simps)

lemma field_past_oe_header:
  "20 \<le> off \<Longrightarrow> field off n (encode_oe_request_header h @ bs) = field (off - 20) n bs"
  "16 \<le> off \<Longrightarrow> field off n (encode_oe_response_header h' @ bs) = field (off - 16) n bs"
  by (simp_all add: field_append_skip)

lemma length_encode_oe_request [simp]:
  "oe_request_canonical m \<Longrightarrow> length (encode_oe_request h m) = oe_request_sizeof (oe_request_type m)"
  by (cases m) (simp_all add: encode_oe_request_def)

lemma length_encode_oe_response [simp]:
  "oe_response_canonical m \<Longrightarrow>
   length (encode_oe_response h m) = oe_response_sizeof (oe_response_type m)"
  by (cases m) (simp_all add: encode_oe_response_def)

lemma oe_request_at_encode:
  "oe_request_canonical m \<Longrightarrow>
   oe_request_at (oe_request_type m) (encode_oe_request h m @ rest) = Some m"
  by (cases m) (simp_all add: encode_oe_request_def field_past_oe_header field_lookup
      del: le_bytes.simps)

lemma oe_response_at_encode:
  "oe_response_canonical m \<Longrightarrow>
   oe_response_at (oe_response_type m) (encode_oe_response h m @ rest) = Some m"
  by (cases m) (simp_all add: encode_oe_response_def field_past_oe_header field_lookup
      del: le_bytes.simps)

lemma oe_request_sizeof_bounds: "20 \<le> oe_request_sizeof t" "oe_request_sizeof t \<le> 52"
  by (cases t; simp)+

text \<open>The model has two views of a packed struct, its bytes and its fields; they agree for every request,
  whatever bytes follow in the stream, and its length is the length that its type says.\<close>

lemma oe_request_roundtrip:
  assumes "oe_request_canonical m"
  shows "oe_request_header_at (encode_oe_request h m @ rest) = h \<and>
    oe_request_at (oe_request_type m) (encode_oe_request h m @ rest) = Some m \<and>
    length (encode_oe_request h m) = oe_request_sizeof (oe_request_type m)"
proof (intro conjI)
  show "oe_request_header_at (encode_oe_request h m @ rest) = h"
    by (simp add: encode_oe_request_def)
qed (use assms oe_request_at_encode in auto)

text \<open>So do those of every response.\<close>

lemma oe_response_roundtrip:
  assumes "oe_response_canonical m"
  shows "oe_response_header_at (encode_oe_response h m @ rest) = h \<and>
    oe_response_at (oe_response_type m) (encode_oe_response h m @ rest) = Some m \<and>
    length (encode_oe_response h m) = oe_response_sizeof (oe_response_type m)"
proof (intro conjI)
  show "oe_response_header_at (encode_oe_response h m @ rest) = h"
    by (simp add: encode_oe_response_def)
qed (use assms oe_response_at_encode in auto)

end
