(* ===== verification/Publishers.thy ===== *)
theory Publishers imports
  System Md_Protocol
begin

text \<open>
  \<open>matching_engine/md_mcast.cpp\<close>, the market data publisher with its packet buffer, and
  \<open>matching_engine/clearing_mcast.cpp\<close>, which publishes every fill to the clearing feed.  A
  publisher works on its own state and the system; a failed \<open>sendto\<close> is an exception.
\<close>

section \<open>Market data publisher\<close>

record publisher =
  pub_fd :: sock
  pub_buffer :: "u8 list"
  pub_seq_num :: u32
  pub_queued_trades :: "md_msg list"

datatype publish_error = SendtoFailed

type_synonym publishing = "(publish_error \<times> publisher \<times> system) + (publisher \<times> system)"

definition BUFFER_SIZE :: nat where "BUFFER_SIZE = 1460"

definition new_publisher :: "sock \<Rightarrow> publisher" where
  "new_publisher fd = \<lparr>pub_fd = fd, pub_buffer = [], pub_seq_num = 0, pub_queued_trades = []\<rparr>"

definition sendto_ok :: "env \<Rightarrow> sys_call \<Rightarrow> system \<Rightarrow> bool" where
  "sendto_ok e c s = (case env_send e (s_calls s) c of Taken n \<Rightarrow> True | _ \<Rightarrow> False)"

definition send_packet :: "env \<Rightarrow> publisher \<Rightarrow> system \<Rightarrow> publishing" where
  "send_packet e p s =
    (if pub_buffer p = [] then Inr (p, s)
     else
       (let c = SendtoCall (pub_fd p) (pub_buffer p)
        in if sendto_ok e c s then Inr (p\<lparr>pub_buffer := []\<rparr>, sys_do c s)
           else Inl (SendtoFailed, p, sys_do c s)))"

text \<open>\<open>write_msg\<close>: the message is copied to the buffer, and its header filled in there.\<close>

definition append_msg :: "env \<Rightarrow> md_msg \<Rightarrow> publisher \<Rightarrow> system \<Rightarrow> publisher \<times> system" where
  "append_msg e m p s = (let (now, s) = nanotime e s
     in (p\<lparr>pub_buffer := pub_buffer p @ encode_md MAGIC_NUMBER (pub_seq_num p) now m,
           pub_seq_num := pub_seq_num p + 1\<rparr>, s))"

definition write_md :: "env \<Rightarrow> md_msg \<Rightarrow> publisher \<Rightarrow> system \<Rightarrow> publishing" where
  "write_md e m p s =
    (if length (pub_buffer p) + md_sizeof (md_type_of m) > BUFFER_SIZE then
       (case send_packet e p s of
          Inl err \<Rightarrow> Inl err
        | Inr (p, s) \<Rightarrow> Inr (append_msg e m p s))
     else Inr (append_msg e m p s))"

definition write_and_send :: "env \<Rightarrow> md_msg \<Rightarrow> publisher \<Rightarrow> system \<Rightarrow> publishing" where
  "write_and_send e m p s = (case write_md e m p s of
      Inl err \<Rightarrow> Inl err | Inr (p, s) \<Rightarrow> send_packet e p s)"

definition publish_new_order ::
  "env \<Rightarrow> u64 \<Rightarrow> u32 \<Rightarrow> side \<Rightarrow> u32 \<Rightarrow> i32 \<Rightarrow> u8 \<Rightarrow> publisher \<Rightarrow> system \<Rightarrow> publishing" where
  "publish_new_order e order_id symb sd quantity price flags =
     write_and_send e (NewOrder order_id symb sd quantity price flags)"

definition publish_delete_order :: "env \<Rightarrow> u64 \<Rightarrow> publisher \<Rightarrow> system \<Rightarrow> publishing" where
  "publish_delete_order e order_id = write_and_send e (DeleteOrder order_id)"

definition publish_modify_order ::
  "env \<Rightarrow> u64 \<Rightarrow> side \<Rightarrow> u32 \<Rightarrow> i32 \<Rightarrow> publisher \<Rightarrow> system \<Rightarrow> publishing" where
  "publish_modify_order e order_id sd quantity price =
     write_and_send e (ModifyOrder order_id sd quantity price)"

definition queue_trade :: "u64 \<Rightarrow> u32 \<Rightarrow> i32 \<Rightarrow> publisher \<Rightarrow> publisher" where
  "queue_trade order_id quantity price p =
     p\<lparr>pub_queued_trades := pub_queued_trades p @ [Trade order_id quantity price]\<rparr>"

text \<open>The total quantity and the last price are \<open>uint32_t\<close>; the sum wraps.\<close>

definition trades_total :: "md_msg list \<Rightarrow> u32" where
  "trades_total ts = fold (\<lambda>t n. n + tr_quantity t) ts 0"

definition trades_last_price :: "md_msg list \<Rightarrow> i32" where
  "trades_last_price ts = fold (\<lambda>t n. tr_price t) ts (I32 0)"

fun write_mds :: "env \<Rightarrow> md_msg list \<Rightarrow> publisher \<Rightarrow> system \<Rightarrow> publishing" where
  "write_mds e [] p s = Inr (p, s)"
| "write_mds e (m # ms) p s = (case write_md e m p s of
      Inl err \<Rightarrow> Inl err | Inr (p, s) \<Rightarrow> write_mds e ms p s)"

definition publish_queued_trades :: "env \<Rightarrow> u32 \<Rightarrow> side \<Rightarrow> publisher \<Rightarrow> system \<Rightarrow> publishing" where
  "publish_queued_trades e symb aggressor p s =
    (if pub_queued_trades p = [] then Inr (p, s)
     else
       (let trades = pub_queued_trades p;
            summary = TradeSummary symb aggressor (trades_total trades) (trades_last_price trades)
        in (case write_md e summary p s of
              Inl err \<Rightarrow> Inl err
            | Inr (p, s) \<Rightarrow>
               (case write_mds e trades p s of
                  Inl err \<Rightarrow> Inl err
                | Inr (p, s) \<Rightarrow> send_packet e (p\<lparr>pub_queued_trades := []\<rparr>) s))))"

definition publish_heartbeat :: "env \<Rightarrow> publisher \<Rightarrow> system \<Rightarrow> publishing" where
  "publish_heartbeat e = write_and_send e Heartbeat"

section \<open>What is on the wire\<close>

text \<open>
  Messages with their time stamps, numbered consecutively, form a run of bytes; a sequence of
  packets is a sequence of such runs.
\<close>

type_synonym stamped = "u64 \<times> md_msg"

fun encode_run :: "u32 \<Rightarrow> stamped list \<Rightarrow> u8 list" where
  "encode_run n [] = []"
| "encode_run n ((t, m) # ms) = encode_md MAGIC_NUMBER n t m @ encode_run (n + 1) ms"

fun packets_of :: "u32 \<Rightarrow> stamped list list \<Rightarrow> u8 list list" where
  "packets_of n [] = []"
| "packets_of n (g # gs) = encode_run n g # packets_of (n + of_nat (length g)) gs"

lemma encode_run_append [simp]:
  "encode_run n (xs @ ys) = encode_run n xs @ encode_run (n + of_nat (length xs)) ys"
  by (induction xs arbitrary: n) (auto simp: algebra_simps)

lemma packets_of_append [simp]:
  "packets_of n (gs @ hs) = packets_of n gs @ packets_of (n + of_nat (length (concat gs))) hs"
  by (induction gs arbitrary: n) (auto simp: algebra_simps)

text \<open>
  \<open>emits g ms (p, s) g' (p', s')\<close>: from a buffer that holds the run \<open>g\<close>, the messages \<open>ms\<close> are
  written; whole packets of at most \<open>BUFFER_SIZE\<close> bytes are sent, and the run \<open>g'\<close> is left.
\<close>

definition first_seq :: "publisher \<Rightarrow> stamped list \<Rightarrow> u32" where
  "first_seq p g = pub_seq_num p - of_nat (length g)"

definition holds_run :: "publisher \<Rightarrow> stamped list \<Rightarrow> bool" where
  "holds_run p g \<longleftrightarrow> pub_buffer p = encode_run (first_seq p g) g \<and> length (pub_buffer p) \<le> BUFFER_SIZE"

definition emits :: "stamped list \<Rightarrow> md_msg list \<Rightarrow> publisher \<times> system \<Rightarrow> stamped list
    \<Rightarrow> publisher \<times> system \<Rightarrow> bool" where
  "emits g ms ps g' ps' \<longleftrightarrow> (\<exists>gs new. datagrams (pub_fd (fst ps)) (snd ps')
       = datagrams (pub_fd (fst ps)) (snd ps) @ packets_of (first_seq (fst ps) g) gs \<and>
     g @ new = concat gs @ g' \<and> map snd new = ms \<and>
     (\<forall>pkt \<in> set (packets_of (first_seq (fst ps) g) gs). length pkt \<le> BUFFER_SIZE) \<and>
     pub_seq_num (fst ps') = pub_seq_num (fst ps) + of_nat (length ms) \<and>
     pub_fd (fst ps') = pub_fd (fst ps) \<and> holds_run (fst ps') g')"

lemma emits_refl: "holds_run p g \<Longrightarrow> emits g [] (p, s) g (p, s)"
  unfolding emits_def by (intro exI [of _ "[]"]) simp

lemma first_seq_after:
  assumes "g @ new = concat gs @ g'" "pub_seq_num p' = pub_seq_num p + of_nat (length new)"
  shows "first_seq p' g' = first_seq p g + of_nat (length (concat gs))"
proof -
  have "length g + length new = length (concat gs) + length g'"
    using arg_cong [OF assms(1), of length] by simp
  then have "(of_nat (length g) + of_nat (length new) :: u32)
      = of_nat (length (concat gs)) + of_nat (length g')" by (metis of_nat_add)
  then show ?thesis using assms(2) by (simp add: first_seq_def algebra_simps)
qed

lemma emits_trans:
  assumes "emits g ms ps g' ps'" "emits g' ms' ps' g'' ps''"
  shows "emits g (ms @ ms') ps g'' ps''"
proof -
  obtain gs new where 1: "datagrams (pub_fd (fst ps)) (snd ps')
       = datagrams (pub_fd (fst ps)) (snd ps) @ packets_of (first_seq (fst ps) g) gs"
    "g @ new = concat gs @ g'" "map snd new = ms"
    "\<forall>pkt \<in> set (packets_of (first_seq (fst ps) g) gs). length pkt \<le> BUFFER_SIZE"
    "pub_seq_num (fst ps') = pub_seq_num (fst ps) + of_nat (length ms)"
    "pub_fd (fst ps') = pub_fd (fst ps)" using assms(1) by (auto simp: emits_def)
  obtain gs' new' where 2: "datagrams (pub_fd (fst ps')) (snd ps'')
       = datagrams (pub_fd (fst ps')) (snd ps') @ packets_of (first_seq (fst ps') g') gs'"
    "g' @ new' = concat gs' @ g''" "map snd new' = ms'"
    "\<forall>pkt \<in> set (packets_of (first_seq (fst ps') g') gs'). length pkt \<le> BUFFER_SIZE"
    "pub_seq_num (fst ps'') = pub_seq_num (fst ps') + of_nat (length ms')"
    "pub_fd (fst ps'') = pub_fd (fst ps')" "holds_run (fst ps'') g''"
    using assms(2) by (auto simp: emits_def)
  have "length new = length ms" using 1(3) by auto
  with first_seq_after [OF 1(2), of "fst ps'" "fst ps"] 1(5)
  have "first_seq (fst ps') g' = first_seq (fst ps) g + of_nat (length (concat gs))" by simp
  moreover have "g @ new @ new' = concat (gs @ gs') @ g''"
    using 1(2) 2(2) by (metis append_assoc concat_append)
  ultimately show ?thesis using 1 2 unfolding emits_def
    by (intro exI [of _ "gs @ gs'"] exI [of _ "new @ new'"]) auto
qed

lemma send_packet_emits:
  assumes "holds_run p g" "send_packet e p s = Inr (p', s')"
  shows "emits g [] (p, s) [] (p', s')" and "pub_buffer p' = []"
    and "pub_queued_trades p' = pub_queued_trades p"
proof -
  show "pub_buffer p' = []" "pub_queued_trades p' = pub_queued_trades p"
    using assms(2) by (auto simp: send_packet_def Let_def split: if_splits)
  show "emits g [] (p, s) [] (p', s')"
  proof (cases "g = []")
    case True
    with assms show ?thesis
      by (auto simp: emits_def send_packet_def holds_run_def intro!: exI [of _ "[]"])
  next
    case False
    then have "pub_buffer p \<noteq> []"
      using assms(1) by (cases g) (auto simp: holds_run_def)
    with assms show ?thesis
      by (auto simp: emits_def send_packet_def Let_def holds_run_def
          intro!: exI [of _ "[g]"] split: if_splits)
  qed
qed

lemma append_msg_emits:
  assumes "holds_run p g" "append_msg e m p s = (p', s')"
    "length (pub_buffer p) + md_sizeof (md_type_of m) \<le> BUFFER_SIZE"
  shows "\<exists>t. emits g [m] (p, s) (g @ [(t, m)]) (p', s')"
    and "pub_queued_trades p' = pub_queued_trades p"
proof -
  obtain t s1 where t: "nanotime e s = (t, s1)" by (cases "nanotime e s")
  have calls: "datagrams fd s1 = datagrams fd s" for fd
    using t by (auto simp: nanotime_def datagrams_def split: prod.splits)
  have p': "p' = p\<lparr>pub_buffer := pub_buffer p @ encode_md MAGIC_NUMBER (pub_seq_num p) t m,
      pub_seq_num := pub_seq_num p + 1\<rparr>" "s' = s1"
    using assms(2) t by (auto simp: append_msg_def)
  show "pub_queued_trades p' = pub_queued_trades p" by (simp add: p')
  have "first_seq p' (g @ [(t, m)]) = first_seq p g" by (simp add: p' first_seq_def)
  then have "holds_run p' (g @ [(t, m)])"
    using assms(1,3) by (simp add: holds_run_def p' first_seq_def)
  then have "emits g [m] (p, s) (g @ [(t, m)]) (p', s')"
    unfolding emits_def by (intro exI [of _ "[]"] exI [of _ "[(t, m)]"]) (simp add: p' calls)
  then show "\<exists>t. emits g [m] (p, s) (g @ [(t, m)]) (p', s')" ..
qed

lemma md_sizeof_le_BUFFER: "md_sizeof t \<le> BUFFER_SIZE"
  using md_sizeof_bounds(2) [of t] by (simp add: BUFFER_SIZE_def)

lemma write_md_emits:
  assumes "holds_run p g" "write_md e m p s = Inr (p', s')"
  shows "\<exists>g'. emits g [m] (p, s) g' (p', s')" and "pub_queued_trades p' = pub_queued_trades p"
proof -
  have "(\<exists>g'. emits g [m] (p, s) g' (p', s')) \<and> pub_queued_trades p' = pub_queued_trades p"
  proof (cases "length (pub_buffer p) + md_sizeof (md_type_of m) > BUFFER_SIZE")
    case False
    with assms have "append_msg e m p s = (p', s')" by (simp add: write_md_def)
    from append_msg_emits [OF assms(1) this] False show ?thesis by auto
  next
    case True
    with assms(2) obtain p1 s1 where 1: "send_packet e p s = Inr (p1, s1)"
      "append_msg e m p1 s1 = (p', s')" by (auto simp: write_md_def split: sum.splits)
    note sent = send_packet_emits [OF assms(1) 1(1)]
    have "holds_run p1 []" using sent(1) by (auto simp: emits_def)
    from append_msg_emits [OF this 1(2)] sent md_sizeof_le_BUFFER
    obtain t where "emits [] [m] (p1, s1) [(t, m)] (p', s')" "pub_queued_trades p' = pub_queued_trades p"
      by auto
    with emits_trans [OF sent(1)] show ?thesis by force
  qed
  then show "\<exists>g'. emits g [m] (p, s) g' (p', s')" and "pub_queued_trades p' = pub_queued_trades p"
    by auto
qed

lemma write_mds_emits:
  "holds_run p g \<Longrightarrow> write_mds e ms p s = Inr (p', s') \<Longrightarrow>
   (\<exists>g'. emits g ms (p, s) g' (p', s')) \<and> pub_queued_trades p' = pub_queued_trades p"
proof (induction ms arbitrary: p s g)
  case Nil
  then show ?case using emits_refl by auto
next
  case (Cons m ms)
  then obtain p1 s1 where 1: "write_md e m p s = Inr (p1, s1)" "write_mds e ms p1 s1 = Inr (p', s')"
    by (auto split: sum.splits)
  from write_md_emits [OF Cons.prems(1) 1(1)] obtain g1 where
    g1: "emits g [m] (p, s) g1 (p1, s1)" "pub_queued_trades p1 = pub_queued_trades p" by blast
  then have "holds_run p1 g1" by (auto simp: emits_def)
  from Cons.IH [OF this 1(2)] obtain g2 where "emits g1 ms (p1, s1) g2 (p', s')"
    "pub_queued_trades p' = pub_queued_trades p1" by blast
  with emits_trans [OF g1(1)] g1(2) show ?case by force
qed

lemma write_and_send_emits:
  assumes "holds_run p g" "write_and_send e m p s = Inr (p', s')"
  shows "emits g [m] (p, s) [] (p', s')" and "pub_buffer p' = []"
    and "pub_queued_trades p' = pub_queued_trades p"
proof -
  obtain p1 s1 where 1: "write_md e m p s = Inr (p1, s1)" "send_packet e p1 s1 = Inr (p', s')"
    using assms(2) by (auto simp: write_and_send_def split: sum.splits)
  obtain g1 where g1: "emits g [m] (p, s) g1 (p1, s1)" using write_md_emits [OF assms(1) 1(1)] by blast
  then have "holds_run p1 g1" by (auto simp: emits_def)
  note sent = send_packet_emits [OF this 1(2)]
  show "emits g [m] (p, s) [] (p', s')" using emits_trans [OF g1 sent(1)] by simp
  show "pub_buffer p' = []" "pub_queued_trades p' = pub_queued_trades p"
    using sent write_md_emits(2) [OF assms(1) 1(1)] by auto
qed

lemmas publish_emits = write_and_send_emits [of _ _ _ "NewOrder _ _ _ _ _ _", folded publish_new_order_def]
  write_and_send_emits [of _ _ _ "DeleteOrder _", folded publish_delete_order_def]
  write_and_send_emits [of _ _ _ "ModifyOrder _ _ _ _", folded publish_modify_order_def]
  write_and_send_emits [of _ _ _ Heartbeat, folded publish_heartbeat_def]

definition trade_messages :: "u32 \<Rightarrow> side \<Rightarrow> md_msg list \<Rightarrow> md_msg list" where
  "trade_messages symb aggressor ts = (if ts = [] then []
     else TradeSummary symb aggressor (trades_total ts) (trades_last_price ts) # ts)"

lemma publish_queued_trades_emits:
  assumes "holds_run p []" "publish_queued_trades e symb aggressor p s = Inr (p', s')"
  shows "emits [] (trade_messages symb aggressor (pub_queued_trades p)) (p, s) [] (p', s')"
    and "pub_queued_trades p' = []"
proof -
  let ?ts = "pub_queued_trades p"
  have "emits [] (trade_messages symb aggressor ?ts) (p, s) [] (p', s') \<and> pub_queued_trades p' = []"
  proof (cases "?ts = []")
    case True
    with assms emits_refl [OF assms(1)] show ?thesis
      by (simp add: publish_queued_trades_def trade_messages_def)
  next
    case False
    let ?sum = "TradeSummary symb aggressor (trades_total ?ts) (trades_last_price ?ts)"
    obtain p1 s1 p2 s2 where run: "write_md e ?sum p s = Inr (p1, s1)"
      "write_mds e ?ts p1 s1 = Inr (p2, s2)"
      "send_packet e (p2\<lparr>pub_queued_trades := []\<rparr>) s2 = Inr (p', s')"
      using assms(2) False by (auto simp: publish_queued_trades_def Let_def split: sum.splits)
    obtain g1 where g1: "emits [] [?sum] (p, s) g1 (p1, s1)"
      using write_md_emits [OF assms(1) run(1)] by blast
    then have "holds_run p1 g1" by (auto simp: emits_def)
    from write_mds_emits [OF this run(2)] obtain g2 where g2: "emits g1 ?ts (p1, s1) g2 (p2, s2)"
      by blast
    have "emits [] ([?sum] @ ?ts) (p, s) g2 (p2\<lparr>pub_queued_trades := []\<rparr>, s2)"
      using emits_trans [OF g1 g2] by (simp add: emits_def holds_run_def first_seq_def)
    moreover from this have "holds_run (p2\<lparr>pub_queued_trades := []\<rparr>) g2" by (auto simp: emits_def)
    ultimately show ?thesis using send_packet_emits [OF _ run(3)] emits_trans False
      by (force simp: trade_messages_def)
  qed
  then show "emits [] (trade_messages symb aggressor ?ts) (p, s) [] (p', s')"
    and "pub_queued_trades p' = []" by auto
qed

section \<open>Clearing publisher\<close>

text \<open>\<open>clearing_protocol.H\<close>.\<close>

definition CLEARING_MAGIC_NUMBER :: u64 where "CLEARING_MAGIC_NUMBER = 0x12345678"

datatype clearing_msg_type = CLEARING_HEARTBEAT | CLEARING_FILL

fun clearing_type_code :: "clearing_msg_type \<Rightarrow> u8" where
  "clearing_type_code CLEARING_HEARTBEAT = 0"
| "clearing_type_code CLEARING_FILL = 1"

record clearing_header =
  ch_magic_number :: u64
  ch_length :: u16
  ch_seq_num :: u32
  ch_msg_type :: u8

record fill = clearing_header +
  fl_client_id :: u32
  fl_symbol :: u32
  fl_quantity :: u32
  fl_price :: i32
  fl_side :: side

definition clearing_header_size :: nat where "clearing_header_size = 15"
definition fill_size :: nat where "fill_size = 32"

definition encode_clearing_header :: "'a clearing_header_scheme \<Rightarrow> u8 list" where
  "encode_clearing_header h = le_bytes 8 (ch_magic_number h) @ le_bytes 2 (ch_length h)
     @ le_bytes 4 (ch_seq_num h) @ [ch_msg_type h]"

definition encode_fill :: "fill \<Rightarrow> u8 list" where
  "encode_fill f = encode_clearing_header f @ le_bytes 4 (fl_client_id f) @ le_bytes 4 (fl_symbol f)
     @ le_bytes 4 (fl_quantity f) @ le_bytes 4 (i32_bits (fl_price f)) @ [side_byte (fl_side f)]"

definition fill_at :: "u8 list \<Rightarrow> fill" where
  "fill_at buf = \<lparr>ch_magic_number = field 0 8 buf, ch_length = field 8 2 buf,
     ch_seq_num = field 10 4 buf, ch_msg_type = field 14 1 buf, fl_client_id = field 15 4 buf,
     fl_symbol = field 19 4 buf, fl_quantity = field 23 4 buf, fl_price = I32 (field 27 4 buf),
     fl_side = side_of_byte (field 31 1 buf)\<rparr>"

record clearing_publisher =
  cp_fd :: sock
  cp_fill_msg :: fill

definition new_clearing_publisher :: "sock \<Rightarrow> clearing_publisher" where
  "new_clearing_publisher fd = \<lparr>cp_fd = fd, cp_fill_msg = \<lparr>ch_magic_number = CLEARING_MAGIC_NUMBER,
     ch_length = of_nat fill_size, ch_seq_num = 0, ch_msg_type = clearing_type_code CLEARING_FILL,
     fl_client_id = 0, fl_symbol = 0, fl_quantity = 0, fl_price = I32 0, fl_side = BUY\<rparr>\<rparr>"

type_synonym clearing_publishing =
  "(publish_error \<times> clearing_publisher \<times> system) + (clearing_publisher \<times> system)"

definition publish_fill ::
  "env \<Rightarrow> u64 \<Rightarrow> u32 \<Rightarrow> u32 \<Rightarrow> u32 \<Rightarrow> i32 \<Rightarrow> side \<Rightarrow> clearing_publisher \<Rightarrow> system
   \<Rightarrow> clearing_publishing" where
  "publish_fill e order_id client_id symb quantity price sd p s =
    (let f = (cp_fill_msg p)\<lparr>ch_length := of_nat fill_size,
               ch_msg_type := clearing_type_code CLEARING_FILL,
               ch_seq_num := ch_seq_num (cp_fill_msg p) + 1, fl_client_id := client_id,
               fl_symbol := symb, fl_quantity := quantity, fl_price := price, fl_side := sd\<rparr>;
         c = SendtoCall (cp_fd p) (encode_fill f);
         p' = p\<lparr>cp_fill_msg := f\<rparr>
     in if sendto_ok e c s then Inr (p', sys_do c s) else Inl (SendtoFailed, p', sys_do c s))"

definition publish_clearing_heartbeat :: "env \<Rightarrow> clearing_publisher \<Rightarrow> system \<Rightarrow> clearing_publishing" where
  "publish_clearing_heartbeat e p s =
    (let f = (cp_fill_msg p)\<lparr>ch_length := of_nat clearing_header_size,
               ch_msg_type := clearing_type_code CLEARING_HEARTBEAT,
               ch_seq_num := ch_seq_num (cp_fill_msg p) + 1, fl_client_id := 0,
               fl_symbol := 0, fl_quantity := 0, fl_price := I32 0\<rparr>;
         c = SendtoCall (cp_fd p) (encode_clearing_header f);
         p' = p\<lparr>cp_fill_msg := f\<rparr>
     in if sendto_ok e c s then Inr (p', sys_do c s) else Inl (SendtoFailed, p', sys_do c s))"

lemma length_encode_fill [simp]:
  "length (encode_clearing_header h) = 15" "length (encode_fill f) = fill_size"
  by (simp_all add: encode_fill_def encode_clearing_header_def fill_size_def)

lemma field_past_clearing_header:
  "15 \<le> off \<Longrightarrow> field off n (encode_clearing_header h @ bs) = field (off - 15) n bs"
  by (simp add: field_append_skip)

lemma fill_at_encode:
  "fl_side f \<notin> {SideByte 1, SideByte 2} \<Longrightarrow> fill_at (encode_fill f @ rest) = f"
  by (cases f) (simp add: fill_at_def encode_fill_def encode_clearing_header_def field_lookup
      del: le_bytes.simps)

end
