(* ===== verification/Me_Broker.thy ===== *)
theory Me_Broker imports
  Publishers Oe_Protocol Order_Ladder
begin

text \<open>
  \<open>matching_engine/me_broker.H\<close>: the engine's thread.  It takes the payloads of the order entry
  server, runs them on the ladder of their symbol, and turns the ladder's calls into market data,
  responses and clearing fills.

  The ladder makes its calls while it works; none of them reads or writes the ladder, so the
  model runs the ladder first and then the calls in their order.  An exception of a call ends the
  engine's thread, and what the ladder would have done after it is not observed.  The queues are
  unbounded: \<open>emplace\<close> on a full queue waits until there is room.
\<close>

definition HEARTBEAT_INTERVAL :: u64 where "HEARTBEAT_INTERVAL = 500000000"

record broker =
  bk_client_seq :: u32
  bk_client_id :: u32
  bk_aggressor_side :: side
  bk_last_published_ts :: u64
  bk_to_client :: "oe_payload list"
  bk_from_client :: "oe_payload list"
  bk_publisher :: publisher
  bk_clearing :: clearing_publisher
  bk_ladders :: "u32 \<rightharpoonup> ladder"
  bk_client_of :: "u32 \<rightharpoonup> u32"
  bk_system :: system

datatype broker_error =
    PublishError publish_error
  | ClientIdNotFound u64
  | InvalidSymbol
  | InvalidMessageType oe_msg_type
  | LadderException ladder_error

type_synonym brokering = "(broker_error \<times> broker) + broker"

definition new_broker :: "sock \<Rightarrow> sock \<Rightarrow> system \<Rightarrow> broker" where
  "new_broker md_fd clearing_fd s = \<lparr>bk_client_seq = 0, bk_client_id = 0, bk_aggressor_side = BUY,
     bk_last_published_ts = 0, bk_to_client = [], bk_from_client = [],
     bk_publisher = new_publisher md_fd, bk_clearing = new_clearing_publisher clearing_fd,
     bk_ladders = Map.empty, bk_client_of = Map.empty, bk_system = s\<rparr>"

definition add_symbol :: "u32 \<Rightarrow> broker \<Rightarrow> broker" where
  "add_symbol symb b = b\<lparr>bk_ladders := (bk_ladders b)(symb \<mapsto> empty_ladder symb)\<rparr>"

definition emplace :: "oe_payload \<Rightarrow> broker \<Rightarrow> broker" where
  "emplace p b = b\<lparr>bk_to_client := bk_to_client b @ [p]\<rparr>"

definition with_publisher :: "(publisher \<Rightarrow> system \<Rightarrow> publishing) \<Rightarrow> broker \<Rightarrow> brokering" where
  "with_publisher f b = (case f (bk_publisher b) (bk_system b) of
      Inl (err, p, s) \<Rightarrow> Inl (PublishError err, b\<lparr>bk_publisher := p, bk_system := s\<rparr>)
    | Inr (p, s) \<Rightarrow> Inr (b\<lparr>bk_publisher := p, bk_system := s\<rparr>))"

definition stamp :: "env \<Rightarrow> broker \<Rightarrow> broker" where
  "stamp e b = (let (now, s) = nanotime e (bk_system b)
     in b\<lparr>bk_last_published_ts := now, bk_system := s\<rparr>)"

section \<open>The calls of the ladder\<close>

definition onNewOrder :: "env \<Rightarrow> u64 \<Rightarrow> u32 \<Rightarrow> side \<Rightarrow> u32 \<Rightarrow> i32 \<Rightarrow> u8 \<Rightarrow> broker \<Rightarrow> brokering" where
  "onNewOrder e i symb sd q price flags b =
    (case (if q > 0
           then map_sum id (stamp e) (with_publisher (publish_new_order e i symb sd q price flags) b)
           else Inr b) of
       Inl err \<Rightarrow> Inl err
     | Inr b \<Rightarrow> Inr (emplace (payload OE_ACK i symb (bk_client_seq b) (bk_client_id b) sd q price flags) b))"

definition onModifyOrder :: "env \<Rightarrow> u64 \<Rightarrow> u32 \<Rightarrow> side \<Rightarrow> u32 \<Rightarrow> i32 \<Rightarrow> broker \<Rightarrow> brokering" where
  "onModifyOrder e i symb sd q price b =
    (case map_sum id (stamp e) (with_publisher (publish_modify_order e i sd q price) b) of
       Inl err \<Rightarrow> Inl err
     | Inr b \<Rightarrow> Inr (emplace (payload OE_ACK i symb (bk_client_seq b) (bk_client_id b) sd q price 0) b))"

definition onDeleteOrder :: "env \<Rightarrow> u64 \<Rightarrow> bool \<Rightarrow> broker \<Rightarrow> brokering" where
  "onDeleteOrder e i publish b =
    (case (if publish then map_sum id (stamp e) (with_publisher (publish_delete_order e i) b)
           else Inr b) of
       Inl err \<Rightarrow> Inl err
     | Inr b \<Rightarrow> Inr (emplace (payload OE_CLOSE i 0 (bk_client_seq b) (bk_client_id b) BUY 0 (I32 0) 0) b))"

definition onCancelReject :: "u64 \<Rightarrow> broker \<Rightarrow> broker" where
  "onCancelReject i b =
     emplace (payload OE_REJECT i 0 (bk_client_seq b) (bk_client_id b) BUY 0 (I32 0) 0) b"

definition onTrade :: "env \<Rightarrow> u64 \<Rightarrow> u32 \<Rightarrow> i32 \<Rightarrow> broker \<Rightarrow> broker" where
  "onTrade e i q price b = stamp e (b\<lparr>bk_publisher := queue_trade i q price (bk_publisher b)\<rparr>)"

text \<open>The key of \<open>exch_order_id_to_client_id\<close> is a \<open>uint32_t\<close>: the order id is truncated.\<close>

definition client_key :: "u64 \<Rightarrow> u32" where
  "client_key i = ucast i"

definition onFill ::
  "env \<Rightarrow> u64 \<Rightarrow> u32 \<Rightarrow> side \<Rightarrow> u32 \<Rightarrow> i32 \<Rightarrow> u8 \<Rightarrow> bool \<Rightarrow> broker \<Rightarrow> brokering" where
  "onFill e i symb sd q price flags active b =
    (let seq = (if active then bk_client_seq b else 0)
     in case (if active then Some (bk_client_id b) else bk_client_of b (client_key i)) of
          None \<Rightarrow> Inl (ClientIdNotFound i, b)
        | Some c \<Rightarrow>
           (let b = emplace (payload OE_FILL i symb seq c sd q price flags) b
            in case publish_fill e i c symb q price sd (bk_clearing b) (bk_system b) of
                 Inl (err, p, s) \<Rightarrow> Inl (PublishError err, b\<lparr>bk_clearing := p, bk_system := s\<rparr>)
               | Inr (p, s) \<Rightarrow> Inr (b\<lparr>bk_clearing := p, bk_system := s\<rparr>)))"

fun on_call :: "env \<Rightarrow> call \<Rightarrow> broker \<Rightarrow> brokering" where
  "on_call e (OnNewOrder i symb sd q price flags) b = onNewOrder e i symb sd q price flags b"
| "on_call e (OnModifyOrder i symb sd q price) b = onModifyOrder e i symb sd q price b"
| "on_call e (OnDeleteOrder i publish) b = onDeleteOrder e i publish b"
| "on_call e (OnCancelReject i) b = Inr (onCancelReject i b)"
| "on_call e (OnTrade i q price) b = Inr (onTrade e i q price b)"
| "on_call e (OnFill i symb sd q price flags active) b = onFill e i symb sd q price flags active b"

fun on_calls :: "env \<Rightarrow> call list \<Rightarrow> broker \<Rightarrow> brokering" where
  "on_calls e [] b = Inr b"
| "on_calls e (c # cs) b = (case on_call e c b of Inl err \<Rightarrow> Inl err | Inr b \<Rightarrow> on_calls e cs b)"

section \<open>Payloads\<close>

definition run_ladder ::
  "env \<Rightarrow> u32 \<Rightarrow> (ladder \<Rightarrow> ladder throws option) \<Rightarrow> broker \<Rightarrow> brokering option" where
  "run_ladder e symb f b = (case bk_ladders b symb of
      None \<Rightarrow> Some (Inl (InvalidSymbol, b))
    | Some L \<Rightarrow>
       (case f (L\<lparr>l_calls := []\<rparr>) of
          None \<Rightarrow> None
        | Some (Inl (err, L')) \<Rightarrow> Some (case on_calls e (l_calls L') b of
             Inl err' \<Rightarrow> Inl err' | Inr b \<Rightarrow> Inl (LadderException err, b))
        | Some (Inr L') \<Rightarrow>
            Some (on_calls e (l_calls L') (b\<lparr>bk_ladders := (bk_ladders b)(symb \<mapsto> L')\<rparr>))))"

definition finished_packet :: "env \<Rightarrow> u32 \<Rightarrow> broker \<Rightarrow> brokering" where
  "finished_packet e symb b =
     map_sum id (stamp e) (with_publisher (publish_queued_trades e symb (bk_aggressor_side b)) b)"

definition handle_payload :: "env \<Rightarrow> oe_payload \<Rightarrow> broker \<Rightarrow> brokering option" where
  "handle_payload e p b0 =
    (let b = b0\<lparr>bk_client_seq := py_client_seq p, bk_client_id := py_client_id p\<rparr>
     in case py_msg_type p of
          OE_NEW_ORDER \<Rightarrow>
            (if bk_ladders b (py_symbol p) = None then Some (Inl (InvalidSymbol, b))
             else
               (let b = b\<lparr>bk_client_of := (bk_client_of b)
                            (client_key (py_exch_order_id p) \<mapsto> py_client_id p),
                          bk_aggressor_side := py_side p\<rparr>
                in run_ladder e (py_symbol p) (new_order (py_exch_order_id p) (py_side p)
                     (py_quantity p) (I32 (py_price p)) (py_flags p)) b))
        | OE_DELETE_ORDER \<Rightarrow>
            run_ladder e (py_symbol p) (\<lambda>L. Some (delete_order True (py_exch_order_id p) L)) b
        | OE_MODIFY_ORDER \<Rightarrow>
            (if bk_ladders b (py_symbol p) = None then Some (Inl (InvalidSymbol, b))
             else run_ladder e (py_symbol p) (modify_order (py_exch_order_id p) (py_side p)
                    (py_quantity p) (I32 (py_price p))) (b\<lparr>bk_aggressor_side := py_side p\<rparr>))
        | OE_REJECT \<Rightarrow> Some (Inr (emplace (p\<lparr>py_client_seq := bk_client_seq b\<rparr>) b))
        | t \<Rightarrow> Some (Inl (InvalidMessageType t, b)))"

definition process_payload :: "env \<Rightarrow> oe_payload \<Rightarrow> broker \<Rightarrow> brokering option" where
  "process_payload e p b = (case handle_payload e p b of
      None \<Rightarrow> None
    | Some (Inl err) \<Rightarrow> Some (Inl err)
    | Some (Inr b) \<Rightarrow> Some (case finished_packet e (py_symbol p) b of
        Inl err \<Rightarrow> Inl err
      | Inr b \<Rightarrow> Inr (b\<lparr>bk_from_client := tl (bk_from_client b)\<rparr>)))"

text \<open>The loop runs while the queue has a front; it takes the payloads that are there.\<close>

fun process_payloads :: "env \<Rightarrow> oe_payload list \<Rightarrow> broker \<Rightarrow> brokering option" where
  "process_payloads e [] b = Some (Inr b)"
| "process_payloads e (p # ps) b = (case process_payload e p b of
      None \<Rightarrow> None
    | Some (Inl err) \<Rightarrow> Some (Inl err)
    | Some (Inr b) \<Rightarrow> process_payloads e ps b)"

definition check_heartbeat :: "env \<Rightarrow> broker \<Rightarrow> brokering" where
  "check_heartbeat e b =
    (let (now, s) = nanotime e (bk_system b);
         b = b\<lparr>bk_system := s\<rparr>
     in if now - bk_last_published_ts b > HEARTBEAT_INTERVAL
        then map_sum id (stamp e) (with_publisher (publish_heartbeat e) b)
        else Inr b)"

definition process_broker :: "env \<Rightarrow> broker \<Rightarrow> brokering option" where
  "process_broker e b = (case check_heartbeat e b of
      Inl err \<Rightarrow> Some (Inl err)
    | Inr b \<Rightarrow> process_payloads e (bk_from_client b) b)"

end
