(* ===== verification/Broker_Props.thy ===== *)
theory Broker_Props imports
  Me_Broker Ladder_Props
begin

text \<open>
  What the engine's thread sends out for what its ladders do, and that it keeps running: the
  ladder's calls become responses, market data and clearing fills one for one, and under the
  engine's invariant a payload never stops the thread.
\<close>

section \<open>The effect of one call\<close>

fun response_of :: "u32 \<Rightarrow> u32 \<Rightarrow> (u32 \<rightharpoonup> u32) \<Rightarrow> call \<Rightarrow> oe_payload list" where
  "response_of seq c ids (OnNewOrder i y s q p f) = [payload OE_ACK i y seq c s q p f]"
| "response_of seq c ids (OnModifyOrder i y s q p) = [payload OE_ACK i y seq c s q p 0]"
| "response_of seq c ids (OnDeleteOrder i pub) = [payload OE_CLOSE i 0 seq c BUY 0 (I32 0) 0]"
| "response_of seq c ids (OnCancelReject i) = [payload OE_REJECT i 0 seq c BUY 0 (I32 0) 0]"
| "response_of seq c ids (OnTrade i q p) = []"
| "response_of seq c ids (OnFill i y s q p f active) =
     (if active then [payload OE_FILL i y seq c s q p f]
      else [payload OE_FILL i y 0 (the (ids (client_key i))) s q p f])"

fun md_of :: "call \<Rightarrow> md_msg list" where
  "md_of (OnNewOrder i y s q p f) = (if q > 0 then [NewOrder i y s q p f] else [])"
| "md_of (OnModifyOrder i y s q p) = [ModifyOrder i s q p]"
| "md_of (OnDeleteOrder i pub) = (if pub then [DeleteOrder i] else [])"
| "md_of _ = []"

fun trade_of :: "call \<Rightarrow> md_msg list" where
  "trade_of (OnTrade i q p) = [Trade i q p]"
| "trade_of _ = []"

fun passive_id :: "call \<Rightarrow> u64 list" where
  "passive_id (OnFill i y s q p f active) = (if active then [] else [i])"
| "passive_id _ = []"

abbreviation feed :: "broker \<Rightarrow> publisher \<times> system" where
  "feed b \<equiv> (bk_publisher b, bk_system b)"

text \<open>What no call changes, and the state of the publisher between two payloads.\<close>

definition same_engine :: "broker \<Rightarrow> broker \<Rightarrow> bool" where
  "same_engine b b' \<longleftrightarrow> bk_client_seq b' = bk_client_seq b \<and> bk_client_id b' = bk_client_id b \<and>
     bk_aggressor_side b' = bk_aggressor_side b \<and> bk_from_client b' = bk_from_client b \<and>
     bk_ladders b' = bk_ladders b \<and> bk_client_of b' = bk_client_of b \<and>
     cp_fd (bk_clearing b') = cp_fd (bk_clearing b) \<and> pub_fd (bk_publisher b') = pub_fd (bk_publisher b)"

definition publisher_ready :: "broker \<Rightarrow> bool" where
  "publisher_ready b \<longleftrightarrow> pub_buffer (bk_publisher b) = [] \<and>
     cp_fd (bk_clearing b) \<noteq> pub_fd (bk_publisher b)"

lemma holds_run_empty: "pub_buffer p = [] \<Longrightarrow> holds_run p []"
  by (simp add: holds_run_def)

lemma emits_empty_buffer: "emits g ms ps [] ps' \<Longrightarrow> pub_buffer (fst ps') = []"
  by (auto simp: emits_def holds_run_def)

lemma emits_same_fd: "emits g ms ps g' ps' \<Longrightarrow> pub_fd (fst ps') = pub_fd (fst ps)"
  by (auto simp: emits_def)

lemma emits_cong:
  assumes "emits g ms ps g' (p, s)" "pub_buffer p' = pub_buffer p" "pub_seq_num p' = pub_seq_num p"
    "pub_fd p' = pub_fd p" "\<And>fd. fd = pub_fd p \<Longrightarrow> datagrams fd s' = datagrams fd s"
  shows "emits g ms ps g' (p', s')"
  using assms by (auto simp: emits_def holds_run_def first_seq_def)

lemma datagrams_nanotime: "nanotime e s = (t, s') \<Longrightarrow> datagrams fd s' = datagrams fd s"
  by (auto simp: nanotime_def datagrams_def Let_def split: prod.splits)

lemma stamp_fields [simp]:
  "bk_publisher (stamp e b) = bk_publisher b" "bk_to_client (stamp e b) = bk_to_client b"
  "same_engine b' (stamp e b) = same_engine b' b" "bk_clearing (stamp e b) = bk_clearing b"
  "datagrams fd (bk_system (stamp e b)) = datagrams fd (bk_system b)"
  "bk_client_seq (stamp e b) = bk_client_seq b" "bk_client_id (stamp e b) = bk_client_id b"
  "bk_aggressor_side (stamp e b) = bk_aggressor_side b" "bk_from_client (stamp e b) = bk_from_client b"
  "bk_ladders (stamp e b) = bk_ladders b" "bk_client_of (stamp e b) = bk_client_of b"
  by (auto simp: stamp_def same_engine_def datagrams_nanotime Let_def split: prod.splits)

lemma emits_stamp: "emits g ms ps g' (feed b) \<Longrightarrow> emits g ms ps g' (feed (stamp e b))"
  by (erule emits_cong) simp_all

lemma with_publisher_spec:
  assumes "with_publisher f b = Inr b'"
    "\<And>p' s'. f (bk_publisher b) (bk_system b) = Inr (p', s') \<Longrightarrow>
      emits [] ms (feed b) [] (p', s') \<and> pub_queued_trades p' = q"
  shows "emits [] ms (feed b) [] (feed b')" and "same_engine b b'"
    and "bk_to_client b' = bk_to_client b" and "pub_queued_trades (bk_publisher b') = q"
  using assms emits_same_fd by (fastforce simp: with_publisher_def same_engine_def split: sum.splits)+

text \<open>The effect of a call, as one statement that composes.\<close>

definition effect :: "broker \<Rightarrow> oe_payload list \<Rightarrow> md_msg list \<Rightarrow> md_msg list \<Rightarrow> broker \<Rightarrow> bool" where
  "effect b rs ms ts b' \<longleftrightarrow> bk_to_client b' = bk_to_client b @ rs \<and>
     emits [] ms (feed b) [] (feed b') \<and>
     pub_queued_trades (bk_publisher b') = pub_queued_trades (bk_publisher b) @ ts \<and>
     same_engine b b'"

lemma effect_refl: "publisher_ready b \<Longrightarrow> effect b [] [] [] b"
  by (simp add: effect_def same_engine_def publisher_ready_def emits_refl holds_run_empty)

lemma effect_trans:
  assumes "effect b rs ms ts b1" "effect b1 rs' ms' ts' b2"
  shows "effect b (rs @ rs') (ms @ ms') (ts @ ts') b2"
  using assms emits_trans by (fastforce simp: effect_def same_engine_def)

lemma effect_ready: "effect b rs ms ts b' \<Longrightarrow> publisher_ready b \<Longrightarrow> publisher_ready b'"
  using emits_empty_buffer by (force simp: effect_def publisher_ready_def same_engine_def)

lemma effect_emplace: "effect b rs ms ts b1 \<Longrightarrow> effect b (rs @ [r]) ms ts (emplace r b1)"
  by (auto simp: effect_def emplace_def same_engine_def)

text \<open>The response carries the sequence number and the client of the payload at work.\<close>

lemma emplace_effect:
  assumes "effect b [] ms ts b1"
  shows "effect b [payload t i y (bk_client_seq b) (bk_client_id b) s q p f] ms ts
    (emplace (payload t i y (bk_client_seq b1) (bk_client_id b1) s q p f) b1)"
  using effect_emplace [OF assms] assms by (simp add: effect_def same_engine_def)

lemma publish_effect:
  assumes "publisher_ready b" "map_sum id (stamp e) (with_publisher (write_and_send e m) b) = Inr b'"
  shows "effect b [] [m] [] b'"
proof -
  obtain b1 where b1: "with_publisher (write_and_send e m) b = Inr b1" "b' = stamp e b1"
    using assms(2) by (cases "with_publisher (write_and_send e m) b") auto
  have ready: "holds_run (bk_publisher b) []"
    using assms(1) by (simp add: publisher_ready_def holds_run_empty)
  note spec = with_publisher_spec [OF b1(1), of "[m]" "pub_queued_trades (bk_publisher b)",
      OF conjI [OF write_and_send_emits(1) [OF ready] write_and_send_emits(3) [OF ready]]]
  show ?thesis using spec emits_stamp b1(2) by (simp add: effect_def)
qed

lemmas publish_defs = publish_new_order_def publish_delete_order_def publish_modify_order_def

lemma publish_fill_effect:
  assumes "publisher_ready b" "publish_fill e i c y q p s (bk_clearing b) (bk_system b) = Inr (cp, sys)"
  shows "effect b [] [] [] (b\<lparr>bk_clearing := cp, bk_system := sys\<rparr>)"
proof -
  have "cp_fd cp = cp_fd (bk_clearing b)"
    "fd \<noteq> cp_fd (bk_clearing b) \<Longrightarrow> datagrams fd sys = datagrams fd (bk_system b)" for fd
    using assms(2) by (auto simp: publish_fill_def Let_def split: if_splits)
  moreover have "emits [] [] (feed b) [] (feed b)"
    using assms(1) by (simp add: emits_refl holds_run_empty publisher_ready_def)
  ultimately show ?thesis
    using assms(1) by (auto simp: effect_def same_engine_def publisher_ready_def elim!: emits_cong)
qed

lemma on_call_effect:
  assumes ready: "publisher_ready b" and run: "on_call e c b = Inr b'"
  shows "effect b (response_of (bk_client_seq b) (bk_client_id b) (bk_client_of b) c)
    (md_of c) (trade_of c) b'"
proof (cases c)
  case (OnNewOrder i y s q p f)
  let ?r = "payload OE_ACK i y (bk_client_seq b) (bk_client_id b) s q p f"
  have "onNewOrder e i y s q p f b = Inr b'" using run OnNewOrder by simp
  then obtain b1 where b1: "(if q > 0
      then map_sum id (stamp e) (with_publisher (write_and_send e (NewOrder i y s q p f)) b)
      else Inr b) = Inr b1" "b' = emplace (payload OE_ACK i y (bk_client_seq b1) (bk_client_id b1) s q p f) b1"
    unfolding onNewOrder_def publish_defs by (auto split: sum.splits)
  have "effect b [] (md_of c) [] b1"
    using publish_effect [OF ready] effect_refl [OF ready] b1(1) OnNewOrder by (auto split: if_splits)
  from emplace_effect [OF this] b1(2) OnNewOrder show ?thesis by simp
next
  case (OnModifyOrder i y s q p)
  from run OnModifyOrder obtain b1 where b1:
    "map_sum id (stamp e) (with_publisher (write_and_send e (ModifyOrder i s q p)) b) = Inr b1"
    "b' = emplace (payload OE_ACK i y (bk_client_seq b1) (bk_client_id b1) s q p 0) b1"
    by (auto simp: onModifyOrder_def publish_defs split: sum.splits)
  from emplace_effect [OF publish_effect [OF ready b1(1)]] b1(2) OnModifyOrder
  show ?thesis by simp
next
  case (OnDeleteOrder i pub)
  have "onDeleteOrder e i pub b = Inr b'" using run OnDeleteOrder by simp
  then obtain b1 where b1: "(if pub
      then map_sum id (stamp e) (with_publisher (write_and_send e (DeleteOrder i)) b)
      else Inr b) = Inr b1"
    "b' = emplace (payload OE_CLOSE i 0 (bk_client_seq b1) (bk_client_id b1) BUY 0 (I32 0) 0) b1"
    unfolding onDeleteOrder_def publish_defs by (auto split: sum.splits)
  have "effect b [] (md_of c) [] b1"
    using publish_effect [OF ready] effect_refl [OF ready] b1(1) OnDeleteOrder by (auto split: if_splits)
  from emplace_effect [OF this] b1(2) OnDeleteOrder show ?thesis by simp
next
  case (OnCancelReject i)
  with run effect_emplace [OF effect_refl [OF ready]] show ?thesis
    by (auto simp: onCancelReject_def)
next
  case (OnTrade i q p)
  with run have "b' = stamp e (b\<lparr>bk_publisher := queue_trade i q p (bk_publisher b)\<rparr>)"
    by (simp add: onTrade_def)
  moreover have "emits [] [] (feed b) [] (feed (b\<lparr>bk_publisher := queue_trade i q p (bk_publisher b)\<rparr>))"
    using ready by (intro emits_cong [OF emits_refl [of _ _ "bk_system b"]])
      (simp_all add: holds_run_empty publisher_ready_def queue_trade_def)
  then have "emits [] [] (feed b) []
      (feed (stamp e (b\<lparr>bk_publisher := queue_trade i q p (bk_publisher b)\<rparr>)))" by (rule emits_stamp)
  ultimately show ?thesis using OnTrade
    by (simp add: effect_def queue_trade_def same_engine_def)
next
  case (OnFill i y s q p f active)
  then obtain c' where c': "(if active then Some (bk_client_id b) else bk_client_of b (client_key i)) = Some c'"
    using run by (auto simp: onFill_def Let_def split: option.splits)
  let ?r = "payload OE_FILL i y (if active then bk_client_seq b else 0) c' s q p f"
  let ?b = "emplace ?r b"
  have 1: "effect b [?r] [] [] ?b" using effect_emplace [OF effect_refl [OF ready]] by simp
  obtain cp sys where fill: "publish_fill e i c' y q p s (bk_clearing ?b) (bk_system ?b) = Inr (cp, sys)"
    "b' = ?b\<lparr>bk_clearing := cp, bk_system := sys\<rparr>"
    using run OnFill c' by (auto simp: onFill_def Let_def emplace_def split: sum.splits)
  have "effect ?b [] [] [] b'"
    unfolding fill(2) by (rule publish_fill_effect [OF effect_ready [OF 1 ready] fill(1)])
  from effect_trans [OF 1 this] OnFill c' show ?thesis by (auto split: if_splits)
qed

lemma on_calls_effect:
  "publisher_ready b \<Longrightarrow> on_calls e cs b = Inr b' \<Longrightarrow>
   effect b (concat (map (response_of (bk_client_seq b) (bk_client_id b) (bk_client_of b)) cs))
     (concat (map md_of cs)) (concat (map trade_of cs)) b'"
proof (induction cs arbitrary: b)
  case Nil
  then show ?case using effect_refl by simp
next
  case (Cons c cs)
  then obtain b1 where b1: "on_call e c b = Inr b1" "on_calls e cs b1 = Inr b'"
    by (auto split: sum.splits)
  note eff = on_call_effect [OF Cons.prems(1) b1(1)]
  have "same_engine b b1" using eff by (simp add: effect_def)
  with effect_trans [OF eff Cons.IH [OF effect_ready [OF eff Cons.prems(1)] b1(2)]]
  show ?case by (simp add: same_engine_def)
qed

section \<open>Which orders the calls of an operation are about\<close>

abbreviation passive_ids :: "call list \<Rightarrow> u64 set" where
  "passive_ids cs \<equiv> set (concat (map passive_id cs))"

lemma fill_level_passive: "fill_level iid sd y p q rs = (q', rs', cs) \<Longrightarrow>
    passive_ids cs \<subseteq> r_order_id ` set rs"
proof (induction rs arbitrary: q q' rs' cs)
  case (Cons r rs)
  show ?case
  proof (cases "q \<noteq> 0 \<and> r_quantity r \<le> q")
    case True
    with Cons.prems obtain cs' where cs: "cs = full_fill_calls iid sd y p r (q - r_quantity r) @ cs'"
      "fill_level iid sd y p (q - r_quantity r) rs = (q', rs', cs')" by (auto split: prod.splits)
    from Cons.IH [OF cs(2)] show ?thesis unfolding cs(1) by (auto simp: full_fill_calls_def)
  next
    case False
    with Cons.prems show ?thesis by (auto simp: partial_fill_calls_def split: if_splits)
  qed
qed simp

lemma fill_book_passive: "fill_book iid sd y price q m = (q', m', cs) \<Longrightarrow>
    passive_ids cs \<subseteq> set (resting_ids m)"
proof (induction m arbitrary: q q' m' cs)
  case (Cons e m)
  then show ?case
    by (cases e) (fastforce split: prod.splits if_splits dest: fill_level_passive)
qed simp

lemma book_ids_upd: "book_ids (B(bs := m)) \<subseteq> set (resting_ids m) \<union> book_ids B"
  by (auto simp: book_ids_eq split: if_splits)

lemma enter_ids:
  assumes "book_ok B" "enter_order i sd y q price flags notify B = (left, B', cs)"
  shows "passive_ids cs \<subseteq> book_ids B" and "book_ids B' \<subseteq> insert i (book_ids B)"
proof -
  let ?opp = "opposite_of_side sd" and ?own = "levels_of_side sd"
  obtain m cs1 where fb: "fill_book i sd y price q (B ?opp) = (left, m, cs1)"
    using assms(2) by (auto simp: enter_order_def Let_def split: prod.splits)
  have sb: "served_book (B ?opp) m" using fb by (rule fill_book_served)
  have "passive_ids cs = passive_ids cs1"
    using assms(2) fb by (auto simp: enter_order_def Let_def)
  moreover have "set (resting_ids (B ?opp)) \<subseteq> book_ids B" by (auto simp: book_ids_eq)
  ultimately show "passive_ids cs \<subseteq> book_ids B" using fill_book_passive [OF fb] by blast
  let ?B1 = "B(?opp := m)"
  have ids1: "book_ids ?B1 \<subseteq> book_ids B" using sb by (rule book_ids_served)
  have "book_ids (?B1(?own := book_insert ?own price r (?B1 ?own))) \<subseteq> insert (r_order_id r) (book_ids ?B1)" for r
  proof -
    have "levels_ok ?own (?B1 ?own)" using assms(1) by (simp add: book_ok_levels)
    then obtain xs ys where "resting_ids (?B1 ?own) = xs @ ys"
      "resting_ids (book_insert ?own price r (?B1 ?own)) = xs @ r_order_id r # ys"
      by (rule resting_ids_book_insert)
    moreover have "set (resting_ids (?B1 ?own)) \<subseteq> book_ids ?B1" unfolding book_ids_eq by blast
    ultimately show ?thesis using book_ids_upd [of ?B1 ?own] by fastforce
  qed
  with assms(2) fb ids1 show "book_ids B' \<subseteq> insert i (book_ids B)"
    by (fastforce simp: enter_order_def Let_def split: if_splits)
qed

lemma remove_ids: "book_ids (remove_order i B) \<subseteq> book_ids B"
proof -
  have "set (resting_ids (book_remove i m)) \<subseteq> set (resting_ids m)" for m
    by (induction m) (auto simp: book_remove_def)
  then show ?thesis by (force simp: book_ids_eq remove_order_def)
qed

lemma new_ids:
  assumes "book_ok B"
  shows "passive_ids (snd (spec_new_order i sd y q price flags B)) \<subseteq> book_ids B"
    and "book_ids (fst (spec_new_order i sd y q price flags B)) \<subseteq> insert i (book_ids B)"
  using enter_ids [OF assms, of i sd y q price flags True]
  by (cases "enter_order i sd y q price flags True B"; simp add: spec_new_order_def)+

lemma delete_ids:
  "passive_ids (snd (spec_delete_order i B)) = {}" "book_ids (fst (spec_delete_order i B)) \<subseteq> book_ids B"
  using remove_ids [of i B] by (auto simp: spec_delete_order_def split: option.split)

lemma modify_ids:
  assumes "book_ok B"
  shows "passive_ids (snd (coded_modify_order i sd y q price B)) \<subseteq> book_ids B \<and>
    book_ids (fst (coded_modify_order i sd y q price B)) \<subseteq> book_ids B"
proof (cases "find_order i B")
  case (Some e)
  obtain p r where e: "e = (p, r)" by (cases e)
  obtain left B' cs where enter: "enter_order i sd y (q - r_filled r) price (r_flags r) False
      (remove_order i B) = (left, B', cs)" by (metis prod_cases3)
  note ids = enter_ids [OF book_ok_remove [OF assms] enter]
  have "i \<in> book_ids B" using Some find_order_None by force
  with ids remove_ids [of i B] have "passive_ids cs \<subseteq> book_ids B" "book_ids B' \<subseteq> book_ids B" by blast+
  moreover have "book_ids (\<lambda>bs. book_modify i (\<lambda>r. r\<lparr>r_quantity := q\<rparr>) (B bs)) = book_ids B"
    by (simp add: book_ids_eq resting_ids_modify)
  ultimately show ?thesis using Some e enter remove_ids [of i B]
    by (auto simp: coded_modify_order_def)
qed (simp add: coded_modify_order_def)

section \<open>The engine keeps running\<close>

definition accepts :: "env \<Rightarrow> bool" where
  "accepts e \<longleftrightarrow> (\<forall>cs c. \<exists>n. env_send e cs c = Taken n)"

lemma accepts_sendto:
  assumes "accepts e"
  shows "sendto_ok e c s"
proof -
  obtain n where "env_send e (s_calls s) c = Taken n" using assms unfolding accepts_def by blast
  then show ?thesis by (simp add: sendto_ok_def)
qed

lemma send_packet_runs: "accepts e \<Longrightarrow> \<exists>p' s'. send_packet e p s = Inr (p', s')"
  by (simp add: send_packet_def Let_def accepts_sendto)

lemma write_md_runs:
  assumes "accepts e"
  shows "\<exists>p' s'. write_md e m p s = Inr (p', s')"
proof -
  obtain p1 s1 where "send_packet e p s = Inr (p1, s1)" using send_packet_runs [OF assms] by blast
  moreover obtain p2 s2 p3 s3 where "append_msg e m p s = (p2, s2)" "append_msg e m p1 s1 = (p3, s3)"
    by fastforce
  ultimately show ?thesis by (simp add: write_md_def)
qed

lemma write_mds_runs: "accepts e \<Longrightarrow> \<exists>p' s'. write_mds e ms p s = Inr (p', s')"
proof (induction ms arbitrary: p s)
  case (Cons m ms)
  then obtain p1 s1 where "write_md e m p s = Inr (p1, s1)" using write_md_runs by blast
  with Cons show ?case by simp
qed simp

lemma write_and_send_runs:
  assumes "accepts e"
  shows "\<exists>p' s'. write_and_send e m p s = Inr (p', s')"
proof -
  obtain p1 s1 where "write_md e m p s = Inr (p1, s1)" using write_md_runs [OF assms] by blast
  then show ?thesis using send_packet_runs [OF assms] by (simp add: write_and_send_def)
qed

lemma publish_queued_trades_runs:
  assumes "accepts e"
  shows "\<exists>p' s'. publish_queued_trades e y a p s = Inr (p', s')"
proof -
  let ?ts = "pub_queued_trades p"
  obtain p1 s1 where 1: "write_md e (TradeSummary y a (trades_total ?ts) (trades_last_price ?ts)) p s
      = Inr (p1, s1)" using write_md_runs [OF assms] by blast
  obtain p2 s2 where "write_mds e ?ts p1 s1 = Inr (p2, s2)" using write_mds_runs [OF assms] by blast
  with 1 send_packet_runs [OF assms] show ?thesis
    by (auto simp: publish_queued_trades_def Let_def)
qed

lemma with_publisher_runs: "\<exists>p' s'. f (bk_publisher b) (bk_system b) = Inr (p', s') \<Longrightarrow>
    \<exists>b'. with_publisher f b = Inr b'"
  by (auto simp: with_publisher_def)

lemma publish_runs:
  assumes "accepts e"
  obtains b' where "map_sum id (stamp e) (with_publisher (write_and_send e m) b) = Inr b'"
proof -
  obtain b1 where "with_publisher (write_and_send e m) b = Inr b1"
    using with_publisher_runs [of "write_and_send e m"] write_and_send_runs [OF assms] by blast
  then show thesis by (intro that) simp
qed

lemma publish_fill_runs: "accepts e \<Longrightarrow> \<exists>cp s'. publish_fill e i c y q p sd x s = Inr (cp, s')"
  by (simp add: publish_fill_def Let_def accepts_sendto)

lemma on_call_runs:
  assumes "accepts e" "\<forall>i \<in> set (passive_id c). bk_client_of b (client_key i) \<noteq> None"
  shows "\<exists>b'. on_call e c b = Inr b'"
proof (cases c)
  case (OnNewOrder i y s q p f)
  obtain b1 where "map_sum id (stamp e) (with_publisher (write_and_send e (NewOrder i y s q p f)) b) = Inr b1"
    using assms(1) by (rule publish_runs)
  then show ?thesis unfolding OnNewOrder on_call.simps onNewOrder_def publish_defs by auto
next
  case (OnModifyOrder i y s q p)
  obtain b1 where "map_sum id (stamp e) (with_publisher (write_and_send e (ModifyOrder i s q p)) b) = Inr b1"
    using assms(1) by (rule publish_runs)
  then show ?thesis unfolding OnModifyOrder on_call.simps onModifyOrder_def publish_defs by auto
next
  case (OnDeleteOrder i pub)
  obtain b1 where "map_sum id (stamp e) (with_publisher (write_and_send e (DeleteOrder i)) b) = Inr b1"
    using assms(1) by (rule publish_runs)
  then show ?thesis unfolding OnDeleteOrder on_call.simps onDeleteOrder_def publish_defs by auto
next
  case (OnFill i y s q p f active)
  obtain c' where "(if active then Some (bk_client_id b) else bk_client_of b (client_key i)) = Some c'"
    using assms(2) OnFill by (cases active) auto
  moreover obtain cp s' where "publish_fill e i c' y q p s (bk_clearing b) (bk_system b) = Inr (cp, s')"
    using publish_fill_runs [OF assms(1)] by blast
  ultimately show ?thesis using OnFill by (simp add: onFill_def Let_def emplace_def)
qed auto

lemma on_calls_run:
  "accepts e \<Longrightarrow> publisher_ready b \<Longrightarrow> \<forall>i \<in> passive_ids cs. bk_client_of b (client_key i) \<noteq> None \<Longrightarrow>
   \<exists>b'. on_calls e cs b = Inr b'"
proof (induction cs arbitrary: b)
  case (Cons c cs)
  then obtain b1 where b1: "on_call e c b = Inr b1" using on_call_runs [of e c b] by auto
  note eff = on_call_effect [OF Cons.prems(2) b1]
  have "bk_client_of b1 = bk_client_of b" using eff by (simp add: effect_def same_engine_def)
  with Cons.IH [OF Cons.prems(1) effect_ready [OF eff Cons.prems(2)]] Cons.prems(3) b1
  show ?case by simp
qed simp

text \<open>
  The engine's invariant between two payloads: every ladder represents a well-formed book whose
  resting orders have a client, and the publisher has nothing pending.
\<close>

definition ladders_ok :: "(u32 \<rightharpoonup> ladder) \<Rightarrow> (u32 \<rightharpoonup> u32) \<Rightarrow> bool" where
  "ladders_ok ladders ids \<longleftrightarrow> (\<forall>symb L. ladders symb = Some L \<longrightarrow>
     (\<exists>B. represents L B \<and> book_ok B \<and> uncrossed B \<and> l_symbol L = symb \<and>
       (\<forall>i \<in> book_ids B. ids (client_key i) \<noteq> None)))"

definition engine_ok :: "broker \<Rightarrow> bool" where
  "engine_ok b \<longleftrightarrow> publisher_ready b \<and> pub_queued_trades (bk_publisher b) = [] \<and>
     ladders_ok (bk_ladders b) (bk_client_of b)"

definition acceptable :: "oe_payload \<Rightarrow> broker \<Rightarrow> bool" where
  "acceptable p b = (case py_msg_type p of
      OE_NEW_ORDER \<Rightarrow> (case bk_ladders b (py_symbol p) of None \<Rightarrow> False
        | Some L \<Rightarrow> 0 < py_quantity p \<and> l_orders L (py_exch_order_id p) = None)
    | OE_DELETE_ORDER \<Rightarrow> bk_ladders b (py_symbol p) \<noteq> None
    | OE_MODIFY_ORDER \<Rightarrow> bk_ladders b (py_symbol p) \<noteq> None
    | OE_REJECT \<Rightarrow> True
    | _ \<Rightarrow> False)"

lemma represents_calls [simp]: "represents (L\<lparr>l_calls := cs\<rparr>) B = represents L B"
  by (simp add: represents_def shape_ok_def)

lemma ladders_okE:
  assumes "ladders_ok ladders ids" "ladders symb = Some L"
  obtains B where "represents L B" "book_ok B" "uncrossed B" "l_symbol L = symb"
    "\<forall>i \<in> book_ids B. ids (client_key i) \<noteq> None"
  using assms unfolding ladders_ok_def by blast

lemma ladders_ok_mono:
  assumes "ladders_ok ladders ids"
  shows "ladders_ok ladders (ids(k \<mapsto> c))"
  using assms unfolding ladders_ok_def by (metis fun_upd_apply option.distinct(1))

lemma ladders_ok_upd:
  assumes "ladders_ok ladders ids" "represents L B" "book_ok B" "uncrossed B" "l_symbol L = symb"
    "\<forall>i \<in> book_ids B. ids (client_key i) \<noteq> None"
  shows "ladders_ok (ladders(symb \<mapsto> L)) ids"
  using assms unfolding ladders_ok_def by auto

abbreviation responses :: "broker \<Rightarrow> call list \<Rightarrow> oe_payload list" where
  "responses b cs \<equiv> concat (map (response_of (bk_client_seq b) (bk_client_id b) (bk_client_of b)) cs)"

abbreviation market_data :: "call list \<Rightarrow> md_msg list" where
  "market_data cs \<equiv> concat (map md_of cs)"

abbreviation trade_data :: "call list \<Rightarrow> md_msg list" where
  "trade_data cs \<equiv> concat (map trade_of cs)"

lemma run_ladder_ok:
  assumes e: "accepts e" and b: "publisher_ready b" "ladders_ok (bk_ladders b) (bk_client_of b)"
    and L: "bk_ladders b symb = Some L" "represents L B"
    and sim: "refines (L\<lparr>l_calls := []\<rparr>) spec (f (L\<lparr>l_calls := []\<rparr>))" "book_ok (fst spec)"
      "uncrossed (fst spec)" "l_symbol L = symb"
    and ids: "\<forall>i \<in> passive_ids (snd spec) \<union> book_ids (fst spec). bk_client_of b (client_key i) \<noteq> None"
  obtains b' L' where "run_ladder e symb f b = Some (Inr b')" "f (L\<lparr>l_calls := []\<rparr>) = Some (Inr L')"
    "bk_ladders b' = (bk_ladders b)(symb \<mapsto> L')" "bk_client_of b' = bk_client_of b"
    "l_calls L' = snd spec" "represents L' (fst spec)" "publisher_ready b'"
    "ladders_ok (bk_ladders b') (bk_client_of b')" "bk_aggressor_side b' = bk_aggressor_side b"
    "bk_from_client b' = bk_from_client b"
    "bk_to_client b' = bk_to_client b @ responses b (snd spec)"
    "emits [] (market_data (snd spec)) (feed b) [] (feed b')"
    "pub_queued_trades (bk_publisher b') = pub_queued_trades (bk_publisher b) @ trade_data (snd spec)"
proof -
  obtain L' where L': "f (L\<lparr>l_calls := []\<rparr>) = Some (Inr L')" "represents L' (fst spec)"
    "l_calls L' = snd spec" "l_symbol L' = symb"
    using sim(1,4) by (auto simp: refines_def)
  let ?b = "b\<lparr>bk_ladders := (bk_ladders b)(symb \<mapsto> L')\<rparr>"
  have ready: "publisher_ready ?b" using b(1) by (simp add: publisher_ready_def)
  have "\<forall>i \<in> passive_ids (snd spec). bk_client_of ?b (client_key i) \<noteq> None" using ids by auto
  from on_calls_run [OF e ready this] obtain b' where b': "on_calls e (snd spec) ?b = Inr b'" by blast
  note eff = on_calls_effect [OF ready b']
  have "ladders_ok ((bk_ladders b)(symb \<mapsto> L')) (bk_client_of b)"
    using b(2) L'(2) sim(2,3) L'(4) ids by (intro ladders_ok_upd) auto
  then show thesis
    using eff effect_ready [OF eff ready] L' b' L(1)
    by (intro that [of b' L']) (simp_all add: run_ladder_def effect_def same_engine_def)
qed

lemma finished_packet_ok:
  assumes e: "accepts e" and b: "publisher_ready b"
  obtains b' where "finished_packet e symb b = Inr b'" "publisher_ready b'"
    "pub_queued_trades (bk_publisher b') = []" "same_engine b b'" "bk_to_client b' = bk_to_client b"
    "emits [] (trade_messages symb (bk_aggressor_side b) (pub_queued_trades (bk_publisher b)))
       (feed b) [] (feed b')"
proof -
  let ?f = "publish_queued_trades e symb (bk_aggressor_side b)"
  let ?ms = "trade_messages symb (bk_aggressor_side b) (pub_queued_trades (bk_publisher b))"
  obtain b1 where b1: "with_publisher ?f b = Inr b1"
    using with_publisher_runs [of ?f] publish_queued_trades_runs [OF e] by blast
  have ready: "holds_run (bk_publisher b) []" using b by (simp add: publisher_ready_def holds_run_empty)
  have "?f (bk_publisher b) (bk_system b) = Inr (p', s') \<Longrightarrow>
      emits [] ?ms (feed b) [] (p', s') \<and> pub_queued_trades p' = []" for p' s'
    using publish_queued_trades_emits [OF ready] by blast
  note spec = with_publisher_spec [OF b1 this]
  have "pub_buffer (bk_publisher b1) = []" using emits_empty_buffer [OF spec(1)] by simp
  then have "publisher_ready b1" using spec(2) b by (simp add: publisher_ready_def same_engine_def)
  then have "publisher_ready (stamp e b1)" by (simp add: publisher_ready_def)
  moreover have "finished_packet e symb b = Inr (stamp e b1)" using b1 by (simp add: finished_packet_def)
  ultimately show thesis using spec emits_stamp [OF spec(1), of e]
    by (intro that [of "stamp e b1"]) simp_all
qed

text \<open>One payload, handled: the calls of its ladder operation, its responses and its market data.\<close>

definition handled :: "oe_payload \<Rightarrow> broker \<Rightarrow> call list \<Rightarrow> broker \<Rightarrow> bool" where
  "handled p b cs b' \<longleftrightarrow> publisher_ready b' \<and> ladders_ok (bk_ladders b') (bk_client_of b') \<and>
     pub_queued_trades (bk_publisher b') = pub_queued_trades (bk_publisher b) @ trade_data cs \<and>
     emits [] (market_data cs) (feed b) [] (feed b') \<and>
     (trade_data cs = [] \<or> bk_aggressor_side b' = py_side p)"

text \<open>The broker as a ladder operation finds it.\<close>

definition at_work :: "oe_payload \<Rightarrow> broker \<Rightarrow> broker" where
  "at_work p b = b\<lparr>bk_client_seq := py_client_seq p, bk_client_id := py_client_id p,
     bk_client_of := (if py_msg_type p = OE_NEW_ORDER
       then (bk_client_of b)(client_key (py_exch_order_id p) \<mapsto> py_client_id p) else bk_client_of b),
     bk_aggressor_side := (if py_msg_type p = OE_NEW_ORDER \<or> py_msg_type p = OE_MODIFY_ORDER
       then py_side p else bk_aggressor_side b)\<rparr>"

lemma at_work_fields [simp]:
  "bk_publisher (at_work p b) = bk_publisher b" "bk_system (at_work p b) = bk_system b"
  "bk_ladders (at_work p b) = bk_ladders b" "bk_to_client (at_work p b) = bk_to_client b"
  "bk_from_client (at_work p b) = bk_from_client b" "bk_clearing (at_work p b) = bk_clearing b"
  "bk_client_seq (at_work p b) = py_client_seq p" "bk_client_id (at_work p b) = py_client_id p"
  by (simp_all add: at_work_def)

definition ladder_op :: "oe_payload \<Rightarrow> ladder \<Rightarrow> ladder throws option" where
  "ladder_op p L = (case py_msg_type p of
      OE_NEW_ORDER \<Rightarrow> new_order (py_exch_order_id p) (py_side p) (py_quantity p)
        (I32 (py_price p)) (py_flags p) L
    | OE_MODIFY_ORDER \<Rightarrow> modify_order (py_exch_order_id p) (py_side p) (py_quantity p)
        (I32 (py_price p)) L
    | _ \<Rightarrow> Some (delete_order True (py_exch_order_id p) L))"

definition is_ladder_payload :: "oe_payload \<Rightarrow> bool" where
  "is_ladder_payload p \<longleftrightarrow> py_msg_type p \<in> {OE_NEW_ORDER, OE_DELETE_ORDER, OE_MODIFY_ORDER}"

lemma handle_payload_ladder:
  assumes "is_ladder_payload p" "bk_ladders b (py_symbol p) \<noteq> None"
  shows "handle_payload e p b = run_ladder e (py_symbol p) (ladder_op p) (at_work p b)"
  using assms
  by (auto simp: is_ladder_payload_def handle_payload_def at_work_def ladder_op_def Let_def fun_eq_iff
      intro!: arg_cong2 [where f = "run_ladder e (py_symbol p)"])

definition spec_op :: "oe_payload \<Rightarrow> book \<Rightarrow> book \<times> call list" where
  "spec_op p B = (case py_msg_type p of
      OE_NEW_ORDER \<Rightarrow> spec_new_order (py_exch_order_id p) (py_side p) (py_symbol p) (py_quantity p)
        (I32 (py_price p)) (py_flags p) B
    | OE_MODIFY_ORDER \<Rightarrow> coded_modify_order (py_exch_order_id p) (py_side p) (py_symbol p)
        (py_quantity p) (I32 (py_price p)) B
    | _ \<Rightarrow> spec_delete_order (py_exch_order_id p) B)"

lemma ladder_op_sim:
  assumes p: "is_ladder_payload p" "acceptable p b" "bk_ladders b (py_symbol p) = Some L"
    and B: "represents L B" "book_ok B" "uncrossed B" "l_symbol L = py_symbol p"
  shows "refines (L\<lparr>l_calls := []\<rparr>) (spec_op p B) (ladder_op p (L\<lparr>l_calls := []\<rparr>))"
    and "book_ok (fst (spec_op p B))" and "uncrossed (fst (spec_op p B))"
    and "passive_ids (snd (spec_op p B)) \<subseteq> book_ids B"
    and "book_ids (fst (spec_op p B)) \<subseteq>
      (if py_msg_type p = OE_NEW_ORDER then insert (py_exch_order_id p) (book_ids B) else book_ids B)"
proof -
  have rep: "represents (L\<lparr>l_calls := []\<rparr>) B" using B(1) by simp
  have new: "py_exch_order_id p \<notin> book_ids B \<and> 0 < py_quantity p" if "py_msg_type p = OE_NEW_ORDER"
    using that p(2,3) represents_index [OF B(1)] by (auto simp: acceptable_def)
  note sims = new_order_sim [OF rep B(2), of "py_exch_order_id p" "py_quantity p" "py_side p"
      "I32 (py_price p)" "py_flags p"] modify_sim [OF rep B(2), of "py_exch_order_id p" "py_side p"
      "py_quantity p" "I32 (py_price p)"] delete_sim [OF rep B(2), of "py_exch_order_id p"]
  have types: "py_msg_type p = OE_NEW_ORDER \<or> py_msg_type p = OE_MODIFY_ORDER \<or>
      py_msg_type p = OE_DELETE_ORDER" using p(1) by (auto simp: is_ladder_payload_def)
  then show "refines (L\<lparr>l_calls := []\<rparr>) (spec_op p B) (ladder_op p (L\<lparr>l_calls := []\<rparr>))"
    using sims new B(4) by (auto simp: spec_op_def ladder_op_def)
  show "book_ok (fst (spec_op p B))"
    using types new B(2) by (auto simp: spec_op_def book_ok_new book_ok_modify book_ok_delete)
  have "uncrossed (fst (spec_delete_order i B))" for i
    using B(3) by (auto simp: spec_delete_order_def uncrossed_remove split: option.split)
  then show "uncrossed (fst (spec_op p B))"
    using types B(2,3) by (auto simp: spec_op_def uncrossed_new uncrossed_modify)
  show "passive_ids (snd (spec_op p B)) \<subseteq> book_ids B"
    using types new_ids(1) [OF B(2)] modify_ids [OF B(2)] delete_ids(1)
    by (elim disjE) (simp_all add: spec_op_def)
  show "book_ids (fst (spec_op p B)) \<subseteq>
      (if py_msg_type p = OE_NEW_ORDER then insert (py_exch_order_id p) (book_ids B) else book_ids B)"
    using types new_ids(2) [OF B(2)] modify_ids [OF B(2)] delete_ids(2)
    by (elim disjE) (simp_all add: spec_op_def)
qed

lemma publisher_ready_at_work [simp]: "publisher_ready (at_work p b) = publisher_ready b"
  by (simp add: publisher_ready_def)

lemma process_ladder_payload:
  assumes e: "accepts e" and ok: "engine_ok b" and p: "is_ladder_payload p" "acceptable p b"
  obtains L L' b' where "bk_ladders b (py_symbol p) = Some L"
    "ladder_op p (L\<lparr>l_calls := []\<rparr>) = Some (Inr L')" "process_payload e p b = Some (Inr b')"
    "engine_ok b'" "bk_ladders b' = (bk_ladders b)(py_symbol p \<mapsto> L')"
    "bk_to_client b' = bk_to_client b @ responses (at_work p b) (l_calls L')"
    "bk_from_client b' = tl (bk_from_client b)" "bk_client_of b' = bk_client_of (at_work p b)"
    "\<forall>j. l_orders L' j \<noteq> None \<longrightarrow> l_orders L j \<noteq> None \<or>
       py_msg_type p = OE_NEW_ORDER \<and> j = py_exch_order_id p"
    "emits [] (market_data (l_calls L') @ trade_messages (py_symbol p)
       (bk_aggressor_side (at_work p b)) (trade_data (l_calls L'))) (feed b) [] (feed b')"
proof -
  obtain L where L: "bk_ladders b (py_symbol p) = Some L"
    using p by (auto simp: acceptable_def is_ladder_payload_def split: option.splits)
  have b: "publisher_ready b" "ladders_ok (bk_ladders b) (bk_client_of b)"
    "pub_queued_trades (bk_publisher b) = []" using ok by (auto simp: engine_ok_def)
  obtain B where B: "represents L B" "book_ok B" "uncrossed B" "l_symbol L = py_symbol p"
    "\<forall>i \<in> book_ids B. bk_client_of b (client_key i) \<noteq> None"
    using b(2) L by (rule ladders_okE)
  note sim = ladder_op_sim [OF p L B(1-4)]
  let ?b = "at_work p b"
  have lad: "ladders_ok (bk_ladders ?b) (bk_client_of ?b)"
    using b(2) ladders_ok_mono by (auto simp: at_work_def)
  have ids: "\<forall>i \<in> passive_ids (snd (spec_op p B)) \<union> book_ids (fst (spec_op p B)).
      bk_client_of ?b (client_key i) \<noteq> None"
  proof
    fix i assume "i \<in> passive_ids (snd (spec_op p B)) \<union> book_ids (fst (spec_op p B))"
    with sim(4,5) have "py_msg_type p = OE_NEW_ORDER \<and> i = py_exch_order_id p \<or> i \<in> book_ids B"
      by (auto simp del: set_concat set_map split: if_splits)
    then show "bk_client_of ?b (client_key i) \<noteq> None" using B(5) by (auto simp: at_work_def)
  qed
  have L0: "bk_ladders ?b (py_symbol p) = Some L" and ready: "publisher_ready ?b" using L b(1) by simp_all
  obtain b1 L' where b1: "run_ladder e (py_symbol p) (ladder_op p) ?b = Some (Inr b1)"
    "ladder_op p (L\<lparr>l_calls := []\<rparr>) = Some (Inr L')"
    "bk_ladders b1 = (bk_ladders ?b)(py_symbol p \<mapsto> L')" "bk_client_of b1 = bk_client_of ?b"
    "l_calls L' = snd (spec_op p B)" "represents L' (fst (spec_op p B))" "publisher_ready b1" "ladders_ok (bk_ladders b1) (bk_client_of b1)"
    "bk_aggressor_side b1 = bk_aggressor_side ?b" "bk_from_client b1 = bk_from_client ?b"
    "bk_to_client b1 = bk_to_client ?b @ responses ?b (snd (spec_op p B))"
    "emits [] (market_data (snd (spec_op p B))) (feed ?b) [] (feed b1)"
    "pub_queued_trades (bk_publisher b1)
       = pub_queued_trades (bk_publisher ?b) @ trade_data (snd (spec_op p B))"
    by (rule run_ladder_ok [where f = "ladder_op p" and spec = "spec_op p B",
          OF e ready lad L0 B(1) sim(1-3) B(4) ids])
  obtain b2 where b2: "finished_packet e (py_symbol p) b1 = Inr b2" "publisher_ready b2"
    "pub_queued_trades (bk_publisher b2) = []" "same_engine b1 b2" "bk_to_client b2 = bk_to_client b1"
    "emits [] (trade_messages (py_symbol p) (bk_aggressor_side b1)
       (pub_queued_trades (bk_publisher b1))) (feed b1) [] (feed b2)"
    by (rule finished_packet_ok [OF e b1(7)])
  let ?b' = "b2\<lparr>bk_from_client := tl (bk_from_client b2)\<rparr>"
  have run: "process_payload e p b = Some (Inr ?b')"
    using handle_payload_ladder [OF p(1)] L b1(1) b2(1) by (simp add: process_payload_def)
  have "emits [] (market_data (l_calls L') @ trade_messages (py_symbol p)
       (bk_aggressor_side ?b) (trade_data (l_calls L'))) (feed b) [] (feed ?b')"
    using emits_trans [OF b1(12) b2(6)] b1(5,9,13) b(3) by simp
  moreover have "engine_ok ?b'"
    using b2(2-4) b1(8) by (simp add: engine_ok_def same_engine_def publisher_ready_def)
  moreover have "\<forall>j. l_orders L' j \<noteq> None \<longrightarrow> l_orders L j \<noteq> None \<or>
       py_msg_type p = OE_NEW_ORDER \<and> j = py_exch_order_id p"
    using sim(5) represents_index [OF b1(6)] represents_index [OF B(1)] by (auto split: if_splits)
  ultimately show thesis using L b1 b2 run
    by (intro that [of L L' ?b']) (simp_all add: same_engine_def)
qed

lemma process_reject:
  assumes e: "accepts e" and ok: "engine_ok b" and p: "py_msg_type p = OE_REJECT"
  obtains b' where "process_payload e p b = Some (Inr b')" "engine_ok b'"
    "bk_ladders b' = bk_ladders b" "bk_from_client b' = tl (bk_from_client b)"
    "bk_to_client b' = bk_to_client b @ [p]" "feed b' = (bk_publisher b, snd (nanotime e (bk_system b)))"
    "bk_last_published_ts b' = fst (nanotime e (bk_system b))"
proof -
  have b: "pub_queued_trades (bk_publisher b) = []" using ok by (simp add: engine_ok_def)
  let ?b1 = "emplace p (b\<lparr>bk_client_seq := py_client_seq p, bk_client_id := py_client_id p\<rparr>)"
  have "handle_payload e p b = Some (Inr ?b1)"
    using p by (simp add: handle_payload_def emplace_def)
  moreover have "finished_packet e (py_symbol p) ?b1 = Inr (stamp e ?b1)"
    using b by (simp add: finished_packet_def with_publisher_def publish_queued_trades_def emplace_def)
  ultimately have run: "process_payload e p b
      = Some (Inr ((stamp e ?b1)\<lparr>bk_from_client := tl (bk_from_client b)\<rparr>))"
    by (simp add: process_payload_def emplace_def)
  show thesis
    by (rule that [OF run])
      (use ok in \<open>auto simp: engine_ok_def publisher_ready_def emplace_def stamp_def Let_def
        split: prod.split\<close>)
qed

section \<open>The whole loop\<close>

definition known_payload :: "oe_payload \<Rightarrow> broker \<Rightarrow> bool" where
  "known_payload p b \<longleftrightarrow> py_msg_type p = OE_REJECT \<or> is_ladder_payload p \<and>
     bk_ladders b (py_symbol p) \<noteq> None \<and> (py_msg_type p = OE_NEW_ORDER \<longrightarrow> 0 < py_quantity p)"

definition new_ids_of :: "oe_payload list \<Rightarrow> u64 list" where
  "new_ids_of ps = map py_exch_order_id (filter (\<lambda>p. py_msg_type p = OE_NEW_ORDER) ps)"

definition resting_in :: "broker \<Rightarrow> u64 \<Rightarrow> bool" where
  "resting_in b i \<longleftrightarrow> (\<exists>symb L. bk_ladders b symb = Some L \<and> l_orders L i \<noteq> None)"

definition admissible :: "oe_payload list \<Rightarrow> broker \<Rightarrow> bool" where
  "admissible ps b \<longleftrightarrow> (\<forall>p \<in> set ps. known_payload p b) \<and> distinct (new_ids_of ps) \<and>
     (\<forall>i \<in> set (new_ids_of ps). \<not> resting_in b i)"

lemma new_ids_of_Cons [simp]: "new_ids_of (p # ps) =
    (if py_msg_type p = OE_NEW_ORDER then py_exch_order_id p # new_ids_of ps else new_ids_of ps)"
  by (simp add: new_ids_of_def)

lemma new_ids_of_Nil [simp]: "new_ids_of [] = []"
  by (simp add: new_ids_of_def)

lemma admissible_acceptable: "admissible (p # ps) b \<Longrightarrow> acceptable p b"
  by (auto simp: admissible_def known_payload_def acceptable_def is_ladder_payload_def
      resting_in_def split: option.split)

text \<open>What the engine holds after some payloads it held before, or they brought it.\<close>

definition holds_more :: "oe_payload list \<Rightarrow> broker \<Rightarrow> broker \<Rightarrow> bool" where
  "holds_more ps b b' \<longleftrightarrow> dom (bk_ladders b') = dom (bk_ladders b) \<and>
     (\<forall>i. resting_in b' i \<longrightarrow> resting_in b i \<or> i \<in> set (new_ids_of ps))"

lemma process_payload_keeps:
  assumes "accepts e" "engine_ok b" "admissible (p # ps) b"
  obtains b' where "process_payload e p b = Some (Inr b')" "engine_ok b'" "admissible ps b'"
    "bk_from_client b' = tl (bk_from_client b)" "holds_more [p] b b'"
proof (cases "py_msg_type p = OE_REJECT")
  case True
  from process_reject [OF assms(1,2) True] obtain b' where b': "process_payload e p b = Some (Inr b')"
    "engine_ok b'" "bk_ladders b' = bk_ladders b" "bk_from_client b' = tl (bk_from_client b)" by metis
  then have "admissible ps b'" "holds_more [p] b b'" using assms(3) True
    by (auto simp: admissible_def known_payload_def resting_in_def holds_more_def)
  with b' show thesis by (intro that)
next
  case False
  then have p: "is_ladder_payload p" using assms(3) by (auto simp: admissible_def known_payload_def)
  obtain L L' b' where b': "bk_ladders b (py_symbol p) = Some L" "process_payload e p b = Some (Inr b')"
    "engine_ok b'" "bk_ladders b' = (bk_ladders b)(py_symbol p \<mapsto> L')"
    "bk_from_client b' = tl (bk_from_client b)"
    "\<forall>j. l_orders L' j \<noteq> None \<longrightarrow> l_orders L j \<noteq> None \<or>
       py_msg_type p = OE_NEW_ORDER \<and> j = py_exch_order_id p"
    using process_ladder_payload [OF assms(1,2) p admissible_acceptable [OF assms(3)]] by metis
  have known: "known_payload p' b \<Longrightarrow> known_payload p' b'" for p'
    using b'(4) by (auto simp: known_payload_def)
  have rest: "resting_in b' i \<Longrightarrow> resting_in b i \<or> py_msg_type p = OE_NEW_ORDER \<and> i = py_exch_order_id p" for i
    using b'(1,4,6) by (auto simp: resting_in_def split: if_splits)
  have "admissible ps b'"
    using assms(3) known rest by (auto simp: admissible_def split: if_splits)
  moreover have "holds_more [p] b b'"
    using rest b'(1,4) by (auto simp: holds_more_def)
  ultimately show thesis using b' by (intro that)
qed

lemma process_payloads_keeps:
  "accepts e \<Longrightarrow> engine_ok b \<Longrightarrow> admissible ps b \<Longrightarrow> bk_from_client b = ps @ rest \<Longrightarrow>
   \<exists>b'. process_payloads e ps b = Some (Inr b') \<and> engine_ok b' \<and> bk_from_client b' = rest \<and>
     holds_more ps b b'"
proof (induction ps arbitrary: b)
  case (Cons p ps)
  from process_payload_keeps [OF Cons.prems(1-3)] obtain b1 where
    b1: "process_payload e p b = Some (Inr b1)" "engine_ok b1" "admissible ps b1"
    "bk_from_client b1 = tl (bk_from_client b)" "holds_more [p] b b1" .
  with Cons.IH [OF Cons.prems(1), of b1] Cons.prems(4) obtain b' where
    "process_payloads e ps b1 = Some (Inr b')" "engine_ok b'" "bk_from_client b' = rest"
    "holds_more ps b1 b'" by auto
  moreover from this b1(5) have "holds_more (p # ps) b b'"
    by (auto simp: holds_more_def split: if_splits)
  ultimately show ?case using b1(1) by simp
qed (simp add: holds_more_def)

lemma check_heartbeat_keeps:
  assumes e: "accepts e" and ok: "engine_ok b"
  obtains b' where "check_heartbeat e b = Inr b'" "engine_ok b'"
    "bk_ladders b' = bk_ladders b" "bk_from_client b' = bk_from_client b"
proof -
  obtain now s where now: "nanotime e (bk_system b) = (now, s)" by fastforce
  let ?b = "b\<lparr>bk_system := s\<rparr>"
  have ready: "publisher_ready ?b" using ok by (simp add: engine_ok_def publisher_ready_def)
  obtain b1 where b1: "map_sum id (stamp e) (with_publisher (write_and_send e Heartbeat) ?b) = Inr b1"
    using e by (rule publish_runs)
  note eff = publish_effect [OF ready b1]
  show thesis
  proof (cases "now - bk_last_published_ts b > HEARTBEAT_INTERVAL")
    case True
    show thesis
      by (rule that [of b1])
        (use True b1 now eff effect_ready [OF eff ready] ok in \<open>auto simp: check_heartbeat_def
          publish_heartbeat_def effect_def same_engine_def engine_ok_def\<close>)
  next
    case False
    show thesis
      by (rule that [of ?b]) (use False now ok ready in \<open>auto simp: check_heartbeat_def engine_ok_def\<close>)
  qed
qed

lemma process_broker_keeps:
  assumes "accepts e" "engine_ok b" "admissible (bk_from_client b) b"
  shows "\<exists>b'. process_broker e b = Some (Inr b') \<and> engine_ok b' \<and> bk_from_client b' = [] \<and>
    holds_more (bk_from_client b) b b'"
proof -
  obtain b1 where b1: "check_heartbeat e b = Inr b1" "engine_ok b1" "bk_ladders b1 = bk_ladders b"
    "bk_from_client b1 = bk_from_client b" by (rule check_heartbeat_keeps [OF assms(1,2)])
  then have "admissible (bk_from_client b1) b1"
    using assms(3) by (simp add: admissible_def known_payload_def resting_in_def)
  from process_payloads_keeps [OF assms(1) b1(2) this, of "[]"] b1 show ?thesis
    by (auto simp: process_broker_def holds_more_def resting_in_def)
qed

section \<open>Properties of the engine\<close>

text \<open>A freshly started engine with one symbol.\<close>

definition started_broker :: "oe_payload list \<Rightarrow> broker" where
  "started_broker ps = (add_symbol 1 (new_broker 3 4 no_calls))\<lparr>bk_from_client := ps\<rparr>"

definition buy_payload :: "u64 \<Rightarrow> u32 \<Rightarrow> oe_payload" where
  "buy_payload i c = payload OE_NEW_ORDER i 1 5 c BUY 10 (I32 100) 0"

lemma calm_accepts: "accepts calm_env"
  by (simp add: accepts_def calm_env_def)

lemma started_ok: "engine_ok (started_broker ps)"
  using represents_empty [of 1] book_ok_empty
  by (auto simp: engine_ok_def started_broker_def add_symbol_def new_broker_def publisher_ready_def
      new_publisher_def new_clearing_publisher_def ladders_ok_def uncrossed_def book_ids_def
      empty_ladder_def intro!: exI [of _ "\<lambda>_. []"])

lemma buy_payload_fields [simp]:
  "py_msg_type (buy_payload i c) = OE_NEW_ORDER" "py_exch_order_id (buy_payload i c) = i"
  "py_symbol (buy_payload i c) = 1" "py_client_id (buy_payload i c) = c"
  "py_client_seq (buy_payload i c) = 5" "py_quantity (buy_payload i c) = 10"
  by (simp_all add: buy_payload_def payload_def)

lemma started_admissible: "admissible [buy_payload i c] (started_broker ps)"
  by (auto simp: admissible_def known_payload_def is_ladder_payload_def started_broker_def
      add_symbol_def resting_in_def empty_ladder_def new_broker_def)

text \<open>C11: what a ladder does for a payload is sent out one for one: the responses to the
  clients in the order of the calls, and the market data, additions and deletions first and then
  the trades of the packet under their summary, in consecutively numbered messages.\<close>

theorem payload_is_published:
  assumes "accepts e" "engine_ok b" "is_ladder_payload p" "acceptable p b"
  shows "\<exists>L L' b'. bk_ladders b (py_symbol p) = Some L \<and>
    ladder_op p (L\<lparr>l_calls := []\<rparr>) = Some (Inr L') \<and> process_payload e p b = Some (Inr b') \<and>
    bk_to_client b' = bk_to_client b @ responses (at_work p b) (l_calls L') \<and>
    emits [] (market_data (l_calls L') @ trade_messages (py_symbol p)
       (bk_aggressor_side (at_work p b)) (trade_data (l_calls L'))) (feed b) [] (feed b')"
  by (rule process_ladder_payload [OF assms]) blast

lemma started_acceptable: "acceptable (buy_payload i c) (started_broker ps)"
  by (rule admissible_acceptable [OF started_admissible])

theorem payload_is_published_witness:
  "\<exists>L L' b'. bk_ladders (started_broker []) 1 = Some L \<and>
    ladder_op (buy_payload 7 3) (L\<lparr>l_calls := []\<rparr>) = Some (Inr L') \<and>
    process_payload calm_env (buy_payload 7 3) (started_broker []) = Some (Inr b') \<and>
    bk_to_client b' = responses (at_work (buy_payload 7 3) (started_broker [])) (l_calls L')"
proof -
  have "is_ladder_payload (buy_payload 7 3)" by (simp add: is_ladder_payload_def)
  from payload_is_published [OF calm_accepts started_ok this started_acceptable, of "[]"]
  have "\<exists>L L' b'. bk_ladders (started_broker []) 1 = Some L \<and>
    ladder_op (buy_payload 7 3) (L\<lparr>l_calls := []\<rparr>) = Some (Inr L') \<and>
    process_payload calm_env (buy_payload 7 3) (started_broker []) = Some (Inr b') \<and>
    bk_to_client b' = bk_to_client (started_broker []) @
      responses (at_work (buy_payload 7 3) (started_broker [])) (l_calls L')"
    unfolding buy_payload_fields by blast
  moreover have "bk_to_client (started_broker []) = []"
    by (simp add: started_broker_def add_symbol_def new_broker_def)
  ultimately show ?thesis by simp
qed

text \<open>The engine looks the owner of a resting order up by the low half of its id.  After a
  new order of another client whose id agrees in the low 32 bits, the fills of the resting order
  are sent to that other client.\<close>

theorem fill_goes_to_wrong_client:
  assumes "accepts e" "engine_ok b" "acceptable p b" "py_msg_type p = OE_NEW_ORDER"
    "client_key i = client_key (py_exch_order_id p)"
  shows "\<exists>b' b''. process_payload e p b = Some (Inr b') \<and>
    onFill e i symb sd q price flags False b' = Inr b'' \<and>
    last (bk_to_client b'') = payload OE_FILL i symb 0 (py_client_id p) sd q price flags"
proof -
  have "is_ladder_payload p" using assms(4) by (simp add: is_ladder_payload_def)
  from process_ladder_payload [OF assms(1,2) this assms(3)] obtain b' where
    b': "process_payload e p b = Some (Inr b')" "bk_client_of b' = bk_client_of (at_work p b)" by metis
  have "bk_client_of b' (client_key i) = Some (py_client_id p)"
    using b'(2) assms(4,5) by (simp add: at_work_def)
  moreover obtain cp s' where "publish_fill e i (py_client_id p) symb q price sd (bk_clearing b')
      (bk_system b') = Inr (cp, s')" using publish_fill_runs [OF assms(1)] by blast
  ultimately show ?thesis using b'(1) by (simp add: onFill_def Let_def emplace_def)
qed

theorem fill_goes_to_wrong_client_witness:
  "\<exists>b' b''. process_payload calm_env (buy_payload (2 ^ 32 + 7) 3) (started_broker []) = Some (Inr b') \<and>
    onFill calm_env 7 1 BUY 10 (I32 100) CLOSED False b' = Inr b'' \<and>
    last (bk_to_client b'') = payload OE_FILL 7 1 0 3 BUY 10 (I32 100) CLOSED"
proof -
  have "client_key 7 = client_key (py_exch_order_id (buy_payload (2 ^ 32 + 7) 3))"
    by (simp add: client_key_def)
  from fill_goes_to_wrong_client [OF calm_accepts started_ok started_acceptable _ this,
      of "[]" 1 BUY 10 "I32 100" CLOSED]
  show ?thesis by simp
qed

text \<open>A payload that publishes nothing still counts as published: after a reject the feed
  has sent no datagram, but the time of the last publication is set anew, so a stream of rejects
  keeps the heartbeat from being sent.\<close>

theorem reject_resets_heartbeat:
  assumes "accepts e" "engine_ok b" "py_msg_type p = OE_REJECT"
  shows "\<exists>b'. process_payload e p b = Some (Inr b') \<and>
    datagrams fd (bk_system b') = datagrams fd (bk_system b) \<and>
    bk_last_published_ts b' = fst (nanotime e (bk_system b))"
proof -
  obtain b' where "process_payload e p b = Some (Inr b')"
    "feed b' = (bk_publisher b, snd (nanotime e (bk_system b)))"
    "bk_last_published_ts b' = fst (nanotime e (bk_system b))"
    by (rule process_reject [OF assms])
  then show ?thesis using datagrams_nanotime [of e "bk_system b"]
    by (cases "nanotime e (bk_system b)") auto
qed

theorem reject_resets_heartbeat_witness:
  "\<exists>b'. process_payload calm_env (payload OE_REJECT 7 1 5 3 BUY 0 (I32 0) 4) (started_broker [])
      = Some (Inr b') \<and> datagrams 3 (bk_system b') = [] \<and>
    bk_last_published_ts b' = fst (nanotime calm_env no_calls)"
proof -
  have s: "bk_system (started_broker []) = no_calls" "datagrams 3 no_calls = []"
    by (simp_all add: started_broker_def add_symbol_def new_broker_def datagrams_def no_calls_def
        map_filter_def)
  show ?thesis
    using reject_resets_heartbeat [OF calm_accepts started_ok,
        of "payload OE_REJECT 7 1 5 3 BUY 0 (I32 0) 4" "[]" 3] s by (simp add: payload_def)
qed

text \<open>A payload of a type that only the engine may send, or of an unknown symbol, ends the
  engine's thread with an exception.\<close>

theorem unexpected_payload_stops_engine:
  assumes "\<not> known_payload p b" "0 < py_quantity p"
  shows "\<exists>err b'. process_payload e p b = Some (Inl (err, b'))"
proof (cases "is_ladder_payload p")
  case True
  with assms have "bk_ladders b (py_symbol p) = None"
    by (auto simp: known_payload_def)
  with True show ?thesis
    by (auto simp: process_payload_def handle_payload_def is_ladder_payload_def run_ladder_def Let_def)
next
  case False
  with assms show ?thesis
    by (cases "py_msg_type p")
      (auto simp: process_payload_def handle_payload_def is_ladder_payload_def known_payload_def Let_def)
qed

theorem unexpected_payload_stops_engine_witness:
  "\<exists>err b'. process_payload calm_env (payload OE_FILL 7 1 5 3 BUY 1 (I32 0) 4) (started_broker [])
      = Some (Inl (err, b'))"
proof (rule unexpected_payload_stops_engine)
  show "\<not> known_payload (payload OE_FILL 7 1 5 3 BUY 1 (I32 0) 4) (started_broker [])"
    by (simp add: known_payload_def is_ladder_payload_def payload_def)
qed (simp add: payload_def)

end
