(* ===== verification/Oe_Validator.thy ===== *)
theory Oe_Validator imports
  Oe_Protocol
begin

text \<open>
  \<open>order_entry/oe_validator.cpp\<close>, \<open>matching_engine/symbol_definition.H\<close> and the symbol table of
  \<open>matching_engine/matching_engine.cpp\<close>.
\<close>

record symbol_definition =
  sd_symbol :: u32
  sd_tick_size :: u32
  sd_min_lot_size :: u32
  sd_max_lot_size :: u32
  sd_max_price :: i32
  sd_min_price :: i32

text \<open>
  \<open>price % tick_size\<close> is computed on \<open>uint32_t\<close>, to which the price is converted.  A symbol
  with a zero lot or tick size would divide by zero; the symbol table has none.
\<close>

definition validate_new_order ::
  "(u32 \<rightharpoonup> symbol_definition) \<Rightarrow> u64 \<Rightarrow> u32 \<Rightarrow> side \<Rightarrow> u32 \<Rightarrow> i32 \<Rightarrow> u8 \<Rightarrow> reject_reason" where
  "validate_new_order symbols order_id symb sd quantity price flags =
    (case symbols symb of
       None \<Rightarrow> UnknownSymbol
     | Some d \<Rightarrow>
        if quantity mod sd_min_lot_size d \<noteq> 0 then InvalidQuantity
        else if i32_bits price mod sd_tick_size d \<noteq> 0 then InvalidPrice
        else if quantity > sd_max_lot_size d then InvalidQuantity
        else if price > sd_max_price d \<or> price < sd_min_price d then InvalidPrice
        else if quantity = 0 then InvalidQuantity
        else NoReject)"

definition mk_symbol :: "u32 \<Rightarrow> u32 \<Rightarrow> u32 \<Rightarrow> u32 \<Rightarrow> int \<Rightarrow> int \<Rightarrow> symbol_definition" where
  "mk_symbol y tick min_lot max_lot max_price min_price = \<lparr>sd_symbol = y, sd_tick_size = tick,
     sd_min_lot_size = min_lot, sd_max_lot_size = max_lot, sd_max_price = i32_of_int max_price,
     sd_min_price = i32_of_int min_price\<rparr>"

definition exchange_symbols :: "symbol_definition list" where
  "exchange_symbols =
    [mk_symbol 1 10 1 1000 10000000 0,
     mk_symbol 2 5 1 1000 10000000 0,
     mk_symbol 3 5 1 1000 10000000 0,
     mk_symbol 4 5 1 1000 10000000 0,
     mk_symbol 5 5 1 1000 10000000 0,
     mk_symbol 6 5 1 1000 10000000 0,
     mk_symbol 7 5 1 1000 10000000 0,
     mk_symbol 8 5 1 1000 10000000 0,
     mk_symbol 9 5 1 1000 10000000 0,
     mk_symbol 10 5 1 1000 10000000 0,
     mk_symbol 11 5 1 1000 10000000 0,
     mk_symbol 12 5 1 1000 10000000 0,
     mk_symbol 13 10 1 1000 10000000 0]"

definition symbols_map :: "symbol_definition list \<Rightarrow> (u32 \<rightharpoonup> symbol_definition)" where
  "symbols_map ds = fold (\<lambda>d m. m(sd_symbol d \<mapsto> d)) ds Map.empty"

lemma symbols_map_in: "symbols_map ds y = Some d \<Longrightarrow> d \<in> set ds \<and> sd_symbol d = y"
proof -
  have "fold (\<lambda>d m. m(sd_symbol d \<mapsto> d)) ds m y = Some d \<Longrightarrow>
      d \<in> set ds \<and> sd_symbol d = y \<or> m y = Some d" for m
    by (induction ds arbitrary: m) (fastforce split: if_splits)+
  from this [of Map.empty] show "symbols_map ds y = Some d \<Longrightarrow> d \<in> set ds \<and> sd_symbol d = y"
    by (simp add: symbols_map_def)
qed

lemma exchange_symbols_shape: "d \<in> set exchange_symbols \<Longrightarrow> sd_tick_size d \<in> {5, 10} \<and>
    sd_min_lot_size d = 1 \<and> sd_max_lot_size d = 1000 \<and> i32_val (sd_max_price d) = 10000000 \<and>
    i32_val (sd_min_price d) = 0 \<and> 1 \<le> sd_symbol d \<and> sd_symbol d \<le> 13"
  by (auto simp: exchange_symbols_def mk_symbol_def i32_val_of_int)

lemma sint_uint_nonneg:
  assumes "0 \<le> sint (w :: u32)"
  shows "sint w = uint w"
proof -
  have eq: "sint w = (uint w + 2 ^ 31) mod 2 ^ 32 - 2 ^ 31"
    by (simp add: sint_uint signed_take_bit_eq_take_bit_shift take_bit_eq_mod)
  have range: "0 \<le> uint w" "uint w < 2 ^ 32" using uint_lt2p [of w] by simp_all
  show ?thesis
  proof (cases "uint w < 2 ^ 31")
    case True
    with range have "(uint w + 2 ^ 31) mod 2 ^ 32 = uint w + 2 ^ 31"
      by (intro mod_pos_pos_trivial) simp_all
    with eq show ?thesis by simp
  next
    case False
    with range have "(uint w + 2 ^ 31) mod 2 ^ 32 = (uint w + 2 ^ 31 - 2 ^ 32) mod 2 ^ 32"
      by (intro mod_pos_geq) simp_all
    also have "\<dots> = uint w + 2 ^ 31 - 2 ^ 32"
      using range False by (intro mod_pos_pos_trivial) simp_all
    finally show ?thesis using eq assms range by simp
  qed
qed

text \<open>The tick sizes of the exchange's symbols, as \<open>matching_engine.cpp\<close> lists them.\<close>

lemma exchange_tick_sizes:
  "d \<in> set exchange_symbols \<Longrightarrow> sd_tick_size d = (if sd_symbol d \<in> {1, 13} then 10 else 5)"
  by (auto simp: exchange_symbols_def mk_symbol_def)

text \<open>C13: an order that the validator lets through on the exchange's symbols has a listed symbol,
  a quantity from 1 to 1000 and a price from 0 to 10000000 that is a multiple of the symbol's own
  tick size, which is 10 for the symbols 1 and 13 and 5 for the others.\<close>

theorem validated_order_in_bounds:
  assumes "validate_new_order (symbols_map exchange_symbols) i y s q p f = NoReject"
  shows "1 \<le> y \<and> y \<le> 13 \<and> 1 \<le> q \<and> q \<le> 1000 \<and> 0 \<le> i32_val p \<and> i32_val p \<le> 10000000 \<and>
    (if y \<in> {1, 13} then 10 else 5) dvd i32_val p"
proof -
  obtain d where d: "symbols_map exchange_symbols y = Some d"
    using assms by (auto simp: validate_new_order_def split: option.splits)
  then have shape: "sd_tick_size d \<in> {5, 10}" "sd_min_lot_size d = 1" "sd_max_lot_size d = 1000"
    "i32_val (sd_max_price d) = 10000000" "i32_val (sd_min_price d) = 0" "1 \<le> y" "y \<le> 13"
    using symbols_map_in [OF d] exchange_symbols_shape by auto
  have checks: "i32_bits p mod sd_tick_size d = 0" "q \<le> 1000" "i32_val p \<le> 10000000" "0 \<le> i32_val p"
    "q \<noteq> 0"
    using assms d shape(3-5) by (auto simp: validate_new_order_def less_i32_def split: if_splits)
  have "uint (i32_bits p) mod uint (sd_tick_size d) = 0"
    using arg_cong [OF checks(1), of uint] by (simp add: uint_mod)
  moreover have "sd_tick_size d = (if y \<in> {1, 13} then 10 else 5)"
    using exchange_tick_sizes symbols_map_in [OF d] by blast
  ultimately have "(if y \<in> {1, 13} then 10 else 5) dvd uint (i32_bits p)"
    by (auto simp: mod_eq_0_iff_dvd split: if_splits)
  moreover have "i32_val p = uint (i32_bits p)" using checks(4) sint_uint_nonneg by (simp add: i32_val_def)
  moreover have "1 \<le> q" using checks(5) by (metis word_gt_0 unat_1 unat_0 word_le_nat_alt word_less_nat_alt Suc_leI One_nat_def)
  ultimately show ?thesis using checks shape by simp
qed

theorem validated_order_in_bounds_witness:
  "validate_new_order (symbols_map exchange_symbols) 7 1 BUY 10 (I32 100) 0 = NoReject \<and>
    10 dvd i32_val (I32 100) \<and>
    validate_new_order (symbols_map exchange_symbols) 7 1 BUY 10 (I32 105) 0 \<noteq> NoReject"
proof -
  have check: "validate_new_order (symbols_map exchange_symbols) 7 1 BUY 10 (I32 100) 0 = NoReject"
    "validate_new_order (symbols_map exchange_symbols) 7 1 BUY 10 (I32 105) 0 \<noteq> NoReject"
    by (simp_all add: validate_new_order_def symbols_map_def exchange_symbols_def mk_symbol_def
        less_i32_def i32_val_of_int)
  from validated_order_in_bounds [OF check(1)] have "10 dvd i32_val (I32 100)" by simp
  with check show ?thesis by blast
qed

end
