(* ===== verification/Stream_Parser.thy ===== *)
theory Stream_Parser imports
  System Oe_Protocol
begin

text \<open>
  \<open>order_entry/oe_stream_parser.H\<close>: cuts the byte stream of every client socket into requests and
  hands them to a handler, the parameter of the class template.  The handler's operations are
  functions on its own state and the system; an operation that does not return is \<open>None\<close>.
\<close>

section \<open>Data\<close>

type_synonym 'h handler_fn = "sock \<Rightarrow> oe_request_header \<Rightarrow> oe_request \<Rightarrow> 'h \<times> system \<Rightarrow> ('h \<times> system) option"

record 'h handler_ops =
  ho_on_login :: "'h handler_fn"
  ho_on_new_order :: "'h handler_fn"
  ho_on_delete_order :: "'h handler_fn"
  ho_on_modify_order :: "'h handler_fn"
  ho_on_socket_closed :: "sock \<Rightarrow> 'h \<times> system \<Rightarrow> 'h \<times> system"

text \<open>\<open>operator[]\<close> of the two maps inserts an empty buffer or queue for a new key.\<close>

record 'h parser =
  sp_partial :: "sock \<Rightarrow> u8 list"
  sp_timestamps :: "sock \<Rightarrow> u64 list"
  sp_handler :: 'h
  sp_system :: system

definition MAX_MSGS_PER_SECOND :: nat where "MAX_MSGS_PER_SECOND = 1000"

definition new_parser :: "'h \<Rightarrow> system \<Rightarrow> 'h parser" where
  "new_parser h s = \<lparr>sp_partial = (\<lambda>_. []), sp_timestamps = (\<lambda>_. []), sp_handler = h, sp_system = s\<rparr>"

section \<open>Error messages\<close>

definition c_string :: "nat \<Rightarrow> string \<Rightarrow> u8 list" where
  "c_string n s = take n (map of_char s @ replicate n 0)"

text \<open>
  \<open>send_error_msg\<close> never sets the version and the last sequence number of the header; they are
  sent with the bytes that the object happened to have.
\<close>

definition error_bytes :: "env \<Rightarrow> system \<Rightarrow> u32 \<Rightarrow> u32 \<Rightarrow> reject_reason \<Rightarrow> string \<Rightarrow> u8 list" where
  "error_bytes e s seq client reason text =
     encode_oe_response \<lparr>rs_length = of_nat (oe_response_sizeof OE_ERROR),
         rs_msg_type = oe_type_code OE_ERROR,
         rs_version = ucast (env_indeterminate e (2 * length (s_calls s))), rs_seq_num = seq,
         rs_last_seq_num = ucast (env_indeterminate e (2 * length (s_calls s) + 1)),
         rs_client_id = client\<rparr>
       (ErrorMessage (reject_code reason) (of_nat (length text)) (c_string 32 text))"

definition send_error_msg ::
  "env \<Rightarrow> sock \<Rightarrow> u32 \<Rightarrow> u32 \<Rightarrow> reject_reason \<Rightarrow> string \<Rightarrow> system \<Rightarrow> system" where
  "send_error_msg e fd seq client reason text s =
     shutdown_close fd (sys_do (WriteCall fd (error_bytes e s seq client reason text)) s)"

section \<open>Parsing\<close>

definition request_type :: "u8 \<Rightarrow> oe_msg_type option" where
  "request_type code = (if code = oe_type_code OE_NEW_ORDER then Some OE_NEW_ORDER
     else if code = oe_type_code OE_DELETE_ORDER then Some OE_DELETE_ORDER
     else if code = oe_type_code OE_MODIFY_ORDER then Some OE_MODIFY_ORDER
     else if code = oe_type_code OE_LOGIN then Some OE_LOGIN else None)"

fun dispatch :: "'h handler_ops \<Rightarrow> oe_msg_type \<Rightarrow> 'h handler_fn" where
  "dispatch ops OE_NEW_ORDER = ho_on_new_order ops"
| "dispatch ops OE_DELETE_ORDER = ho_on_delete_order ops"
| "dispatch ops OE_MODIFY_ORDER = ho_on_modify_order ops"
| "dispatch ops OE_LOGIN = ho_on_login ops"
| "dispatch ops _ = (\<lambda>fd h m st. Some st)"

text \<open>
  The cast reads a whole struct at the front of the buffer.  The length field is not compared with
  the size of the struct, so the cast can read past the vector's elements; those bytes are
  indeterminate.
\<close>

definition request_at :: "env \<Rightarrow> oe_msg_type \<Rightarrow> u8 list \<Rightarrow> oe_request" where
  "request_at e t buf =
     the (oe_request_at t (buf @ map (\<lambda>k. ucast (env_indeterminate e k)) [0..<MAX_OE_MESSAGE_SIZE]))"

definition fail_parse :: "env \<Rightarrow> sock \<Rightarrow> u32 \<Rightarrow> u32 \<Rightarrow> string \<Rightarrow> 'h parser \<Rightarrow> 'h parser" where
  "fail_parse e fd seq client text p =
     p\<lparr>sp_system := send_error_msg e fd seq client InvalidOrder text (sp_system p)\<rparr>"

partial_function (option) parse_loop ::
  "env \<Rightarrow> 'h handler_ops \<Rightarrow> sock \<Rightarrow> u64 \<Rightarrow> 'h parser \<Rightarrow> 'h parser option" where
  "parse_loop e ops fd now p =
    (let buf = sp_partial p fd; h = oe_request_header_at buf
     in if length buf < oe_request_header_size then Some p
        else if rq_version h \<noteq> OE_PROTOCOL_VERSION then
          Some (fail_parse e fd (rq_seq_num h) (rq_client_id h) ''Unknown protocol version'' p)
        else if unat (rq_length h) > MAX_OE_MESSAGE_SIZE then
          Some (fail_parse e fd (rq_seq_num h) (rq_client_id h) ''Message too large'' p)
        else if length buf < unat (rq_length h) then Some p
        else
          (case request_type (rq_msg_type h) of
             None \<Rightarrow>
               Some (fail_parse e fd (rq_seq_num h) (rq_client_id h) ''Unknown message type'' p)
           | Some t \<Rightarrow>
              (case dispatch ops t fd h (request_at e t buf) (sp_handler p, sp_system p) of
                 None \<Rightarrow> None
               | Some (hs, s) \<Rightarrow>
                   parse_loop e ops fd now
                     (p\<lparr>sp_handler := hs, sp_system := s,
                        sp_timestamps := (sp_timestamps p)(fd := sp_timestamps p fd @ [now]),
                        sp_partial := (sp_partial p)(fd := drop (unat (rq_length h)) buf)\<rparr>))))"

definition drop_old :: "u64 \<Rightarrow> u64 list \<Rightarrow> u64 list" where
  "drop_old now ts = dropWhile (\<lambda>t. now - t > 1000000000) ts"

definition parse_bytes ::
  "env \<Rightarrow> 'h handler_ops \<Rightarrow> sock \<Rightarrow> u8 list \<Rightarrow> 'h parser \<Rightarrow> 'h parser option" where
  "parse_bytes e ops fd bytes p0 =
    (let (now, s) = nanotime e (sp_system p0);
         ts = drop_old now (sp_timestamps p0 fd);
         p = p0\<lparr>sp_system := s, sp_timestamps := (sp_timestamps p0)(fd := ts)\<rparr>
     in if length ts > MAX_MSGS_PER_SECOND then
          Some (fail_parse e fd 0 0 ''Too many messages per second'' p)
        else parse_loop e ops fd now
          (p\<lparr>sp_partial := (sp_partial p)(fd := sp_partial p fd @ bytes)\<rparr>))"

definition parser_socket_closed :: "'h handler_ops \<Rightarrow> sock \<Rightarrow> 'h parser \<Rightarrow> 'h parser" where
  "parser_socket_closed ops fd p =
    (let (hs, s) = ho_on_socket_closed ops fd (sp_handler p, sp_system p)
     in p\<lparr>sp_partial := (sp_partial p)(fd := []), sp_handler := hs, sp_system := s\<rparr>)"

definition parser_new_socket :: "sock \<Rightarrow> 'h parser \<Rightarrow> 'h parser" where
  "parser_new_socket fd p = p\<lparr>sp_partial := (sp_partial p)(fd := []),
     sp_timestamps := (sp_timestamps p)(fd := [])\<rparr>"

section \<open>A stream of well-formed requests\<close>

text \<open>A request as a client sends it: the header says what follows.\<close>

definition well_formed :: "oe_request_header \<times> oe_request \<Rightarrow> bool" where
  "well_formed r \<longleftrightarrow> (case r of (h, m) \<Rightarrow> oe_request_canonical m \<and>
     rq_length h = of_nat (oe_request_sizeof (oe_request_type m)) \<and>
     rq_msg_type h = oe_type_code (oe_request_type m) \<and> rq_version h = OE_PROTOCOL_VERSION)"

fun encode_stream :: "(oe_request_header \<times> oe_request) list \<Rightarrow> u8 list" where
  "encode_stream [] = []"
| "encode_stream ((h, m) # rs) = encode_oe_request h m @ encode_stream rs"

text \<open>The handler called on the requests of a stream, one after the other.\<close>

fun deliver ::
  "'h handler_ops \<Rightarrow> sock \<Rightarrow> (oe_request_header \<times> oe_request) list \<Rightarrow> 'h \<times> system \<Rightarrow> ('h \<times> system) option"
  where
  "deliver ops fd [] st = Some st"
| "deliver ops fd ((h, m) # rs) st = (case dispatch ops (oe_request_type m) fd h m st of
      None \<Rightarrow> None | Some st' \<Rightarrow> deliver ops fd rs st')"

text \<open>Bytes that are the beginning of a request, but not yet a whole one.\<close>

definition incomplete :: "u8 list \<Rightarrow> bool" where
  "incomplete bytes \<longleftrightarrow> length bytes < oe_request_header_size \<or>
     (let h = oe_request_header_at bytes in rq_version h = OE_PROTOCOL_VERSION \<and>
        unat (rq_length h) \<le> MAX_OE_MESSAGE_SIZE \<and> length bytes < unat (rq_length h))"

lemma request_type_code [simp]: "request_type (oe_type_code (oe_request_type m)) = Some (oe_request_type m)"
  by (cases m) (simp_all add: request_type_def)

lemma request_at_encode [simp]:
  "oe_request_canonical m \<Longrightarrow> request_at e (oe_request_type m) (encode_oe_request h m @ rest) = m"
  by (simp add: request_at_def oe_request_at_encode)

lemma unat_request_size: "unat (of_nat (oe_request_sizeof t) :: u16) = oe_request_sizeof t"
  by (cases t) simp_all

lemma oe_request_header_at_encode' [simp]:
  "oe_request_header_at (encode_oe_request h m @ rest) = h"
  by (simp add: encode_oe_request_def)

definition advanced :: "sock \<Rightarrow> u64 \<Rightarrow> u8 list \<Rightarrow> nat \<Rightarrow> 'h parser \<Rightarrow> 'h \<times> system \<Rightarrow> 'h parser" where
  "advanced fd now rest n p st =
     p\<lparr>sp_handler := fst st, sp_system := snd st,
       sp_timestamps := (sp_timestamps p)(fd := sp_timestamps p fd @ replicate n now),
       sp_partial := (sp_partial p)(fd := rest)\<rparr>"

lemma parse_loop_incomplete:
  "incomplete (sp_partial p fd) \<Longrightarrow> parse_loop e ops fd now p = Some p"
  by (subst parse_loop.simps) (auto simp: incomplete_def Let_def)

lemma parse_loop_step:
  assumes "well_formed (h, m)" "sp_partial p fd = encode_oe_request h m @ rest"
  shows "parse_loop e ops fd now p =
    (case dispatch ops (oe_request_type m) fd h m (sp_handler p, sp_system p) of
       None \<Rightarrow> None
     | Some st \<Rightarrow> parse_loop e ops fd now (advanced fd now rest 1 p st))"
proof -
  have m: "oe_request_canonical m" "rq_length h = of_nat (oe_request_sizeof (oe_request_type m))"
    "rq_msg_type h = oe_type_code (oe_request_type m)" "rq_version h = OE_PROTOCOL_VERSION"
    using assms(1) by (auto simp: well_formed_def)
  then have len: "unat (rq_length h) = oe_request_sizeof (oe_request_type m)"
    "length (encode_oe_request h m) = oe_request_sizeof (oe_request_type m)"
    by (simp_all add: unat_request_size)
  have bounds: "20 \<le> oe_request_sizeof (oe_request_type m)" "oe_request_sizeof (oe_request_type m) \<le> 52"
    by (rule oe_request_sizeof_bounds)+
  show ?thesis
    using m(1,3,4) len bounds assms(2)
    by (subst parse_loop.simps)
      (simp add: Let_def oe_request_header_size_def MAX_OE_MESSAGE_SIZE_eq advanced_def
        split: option.split prod.split)
qed

lemma parse_loop_stream:
  assumes "\<forall>r \<in> set rs. well_formed r" "sp_partial p fd = encode_stream rs @ rest" "incomplete rest"
  shows "parse_loop e ops fd now p =
    map_option (advanced fd now rest (length rs) p) (deliver ops fd rs (sp_handler p, sp_system p))"
  using assms
proof (induction rs arbitrary: p)
  case Nil
  then have "parse_loop e ops fd now p = Some p" by (simp add: parse_loop_incomplete)
  with Nil show ?case by (simp add: advanced_def fun_upd_idem)
next
  case (Cons r rs)
  obtain h m where r: "r = (h, m)" by (cases r)
  from Cons.prems r have wf: "well_formed (h, m)" by simp
  from Cons.prems(2) r have buf: "sp_partial p fd = encode_oe_request h m @ encode_stream rs @ rest" by simp
  note step = parse_loop_step [OF wf buf, of e ops now]
  show ?case
  proof (cases "dispatch ops (oe_request_type m) fd h m (sp_handler p, sp_system p)")
    case None
    then show ?thesis by (simp add: step r)
  next
    case (Some st)
    let ?p = "advanced fd now (encode_stream rs @ rest) 1 p st"
    have "parse_loop e ops fd now ?p
        = map_option (advanced fd now rest (length rs) ?p) (deliver ops fd rs (sp_handler ?p, sp_system ?p))"
      by (rule Cons.IH) (use Cons.prems in \<open>auto simp: advanced_def\<close>)
    moreover have "advanced fd now rest (length rs) ?p = advanced fd now rest (length (r # rs)) p"
      by (rule ext) (simp add: advanced_def)
    moreover have "(sp_handler ?p, sp_system ?p) = st" by (simp add: advanced_def)
    ultimately show ?thesis by (simp add: step r Some)
  qed
qed

section \<open>Properties of the parser\<close>

lemma parse_bytes_stream:
  assumes "length (drop_old (fst (nanotime e (sp_system p))) (sp_timestamps p fd)) \<le> MAX_MSGS_PER_SECOND"
    "\<forall>r \<in> set rs. well_formed r" "sp_partial p fd @ bytes = encode_stream rs @ rest" "incomplete rest"
  shows "\<exists>p0. parse_bytes e ops fd bytes p = map_option (advanced fd (fst (nanotime e (sp_system p))) rest
      (length rs) p0) (deliver ops fd rs (sp_handler p, snd (nanotime e (sp_system p)))) \<and>
    (\<forall>fd'. fd' \<noteq> fd \<longrightarrow> sp_partial p0 fd' = sp_partial p fd')"
proof -
  obtain now s where now: "nanotime e (sp_system p) = (now, s)" by fastforce
  let ?ts = "drop_old now (sp_timestamps p fd)"
  let ?p0 = "p\<lparr>sp_system := s, sp_timestamps := (sp_timestamps p)(fd := ?ts),
      sp_partial := (sp_partial p)(fd := sp_partial p fd @ bytes)\<rparr>"
  have "parse_bytes e ops fd bytes p = parse_loop e ops fd now ?p0"
    using assms(1) now by (simp add: parse_bytes_def Let_def)
  also have "\<dots> = map_option (advanced fd now rest (length rs) ?p0)
      (deliver ops fd rs (sp_handler ?p0, sp_system ?p0))"
    by (rule parse_loop_stream) (use assms in auto)
  finally show ?thesis using now by (intro exI [of _ ?p0]) simp
qed

text \<open>A handler that records the requests it is given; the witnesses use it.\<close>

definition recorder :: "(oe_request list) handler_ops" where
  "recorder = (let f = (\<lambda>fd h m (l, s). Some (l @ [m], s)) in
     \<lparr>ho_on_login = f, ho_on_new_order = f, ho_on_delete_order = f, ho_on_modify_order = f,
      ho_on_socket_closed = (\<lambda>fd st. st)\<rparr>)"

definition delete_header :: oe_request_header where
  "delete_header = \<lparr>rq_length = 28, rq_msg_type = 2, rq_version = 1, rq_seq_num = 1,
     rq_client_id = 1, rq_session_id = 9\<rparr>"

text \<open>C12: while the socket is within its rate limit, framing does not depend on how the stream is cut:
  whenever the bytes kept so far and
  the bytes that arrive make up a sequence of requests and the beginning of another, the handler
  gets exactly these requests, in order, and the beginning is kept for the next call.\<close>

theorem stream_is_framed:
  assumes "length (drop_old (fst (nanotime e (sp_system p))) (sp_timestamps p fd)) \<le> MAX_MSGS_PER_SECOND"
    "\<forall>r \<in> set rs. well_formed r" "sp_partial p fd @ bytes = encode_stream rs @ rest" "incomplete rest"
    "deliver ops fd rs (sp_handler p, snd (nanotime e (sp_system p))) = Some (h', s')"
  shows "\<exists>p'. parse_bytes e ops fd bytes p = Some p' \<and> sp_handler p' = h' \<and> sp_system p' = s' \<and>
    sp_partial p' fd = rest \<and> (\<forall>fd'. fd' \<noteq> fd \<longrightarrow> sp_partial p' fd' = sp_partial p fd')"
  using parse_bytes_stream [OF assms(1-4), of ops] assms(5) by (auto simp: advanced_def)

theorem stream_is_framed_witness:
  "\<exists>p'. parse_bytes calm_env recorder 6 (encode_oe_request delete_header (OeDeleteOrder 5) @ [1])
      (new_parser [] no_calls) = Some p' \<and> sp_handler p' = [OeDeleteOrder 5] \<and> sp_partial p' 6 = [1]"
proof -
  let ?rs = "[(delete_header, OeDeleteOrder 5)]"
  have wf: "\<forall>r \<in> set ?rs. well_formed r"
    by (simp add: well_formed_def delete_header_def OE_PROTOCOL_VERSION_def)
  have inc: "incomplete [1]" by (simp add: incomplete_def oe_request_header_size_def)
  let ?s = "snd (nanotime calm_env no_calls)"
  have del: "deliver recorder 6 ?rs ([], ?s) = Some ([OeDeleteOrder 5], ?s)"
    by (simp add: recorder_def Let_def)
  show ?thesis
    using stream_is_framed [of calm_env "new_parser [] no_calls" 6 ?rs
        "encode_oe_request delete_header (OeDeleteOrder 5) @ [1]" "[1]" recorder, OF _ wf _ inc] del
    by (auto simp: new_parser_def drop_old_def)
qed

text \<open>A header of a known request type with length zero makes the parser hand the same
  bytes to the handler over and over: if the handler always returns, the call never does.\<close>

theorem zero_length_never_returns:
  assumes "sp_partial p fd = buf" "oe_request_header_size \<le> length buf"
    "rq_version (oe_request_header_at buf) = OE_PROTOCOL_VERSION"
    "rq_length (oe_request_header_at buf) = 0"
    "request_type (rq_msg_type (oe_request_header_at buf)) = Some t"
  shows "parse_loop e ops fd now p = None"
proof -
  have "sp_partial p fd \<noteq> buf" if run: "parse_loop e ops fd now p = Some y"
    for e and ops :: "'a handler_ops" and fd now p y
  proof (rule parse_loop.raw_induct [of "\<lambda>e ops fd now p y. sp_partial p fd \<noteq> buf", OF _ run],
      goal_cases)
    case (1 loop e ops fd now p y)
    show ?case
    proof
      assume buf: "sp_partial p fd = buf"
      with 1(2) assms(2-5) obtain hs s where
        "loop e ops fd now (p\<lparr>sp_handler := hs, sp_system := s,
           sp_timestamps := (sp_timestamps p)(fd := sp_timestamps p fd @ [now]),
           sp_partial := (sp_partial p)(fd := buf)\<rparr>) = Some y"
        by (auto simp: Let_def split: option.splits)
      from 1(1) [OF this] show False by simp
    qed
  qed
  then show ?thesis using assms(1) by (cases "parse_loop e ops fd now p") auto
qed

lemma zero_header: "oe_request_header_at (encode_oe_request h m) = h"
  using oe_request_header_at_encode' [of h m "[]"] by simp

theorem zero_length_never_returns_witness:
  "parse_loop calm_env recorder 6 0 ((new_parser [] no_calls)\<lparr>sp_partial := (\<lambda>_.
     encode_oe_request (delete_header\<lparr>rq_length := 0\<rparr>) (OeDeleteOrder 5))\<rparr>) = None"
proof (rule zero_length_never_returns [where t = OE_DELETE_ORDER, OF refl])
  let ?buf = "encode_oe_request (delete_header\<lparr>rq_length := 0\<rparr>) (OeDeleteOrder 5)"
  show "oe_request_header_size \<le> length (sp_partial ((new_parser [] no_calls)\<lparr>sp_partial := (\<lambda>_. ?buf)\<rparr>) 6)"
    by (simp add: oe_request_header_size_def)
qed (simp_all add: zero_header delete_header_def OE_PROTOCOL_VERSION_def request_type_def)

text \<open>The limit on the messages of one second is checked only when bytes arrive, and it
  lets a socket with 1000 recent messages pass; one call then delivers any number of requests.\<close>

theorem rate_limit_is_per_call:
  assumes "length (drop_old (fst (nanotime e (sp_system p))) (sp_timestamps p fd)) = MAX_MSGS_PER_SECOND"
    "\<forall>r \<in> set rs. well_formed r" "sp_partial p fd = []"
    "deliver ops fd rs (sp_handler p, snd (nanotime e (sp_system p))) = Some (h', s')"
  shows "\<exists>p'. parse_bytes e ops fd (encode_stream rs) p = Some p' \<and> sp_handler p' = h' \<and> sp_system p' = s'"
proof -
  have "incomplete []" by (simp add: incomplete_def oe_request_header_size_def)
  with assms parse_bytes_stream [of e p fd rs "encode_stream rs" "[]" ops] show ?thesis
    by (auto simp: advanced_def)
qed

definition busy_parser :: "(oe_request list) parser" where
  "busy_parser = (new_parser [] no_calls)\<lparr>sp_timestamps := (\<lambda>_. replicate 1000 0)\<rparr>"

theorem rate_limit_is_per_call_witness:
  "\<exists>p'. parse_bytes calm_env recorder 6 (encode_stream [(delete_header, OeDeleteOrder 5),
      (delete_header, OeDeleteOrder 6)]) busy_parser = Some p' \<and>
    sp_handler p' = [OeDeleteOrder 5, OeDeleteOrder 6]"
proof -
  let ?rs = "[(delete_header, OeDeleteOrder 5), (delete_header, OeDeleteOrder 6)]"
  let ?s = "snd (nanotime calm_env no_calls)"
  have now: "fst (nanotime calm_env no_calls) = 0"
    by (simp add: nanotime_def calm_env_def no_calls_def nanoseconds_def)
  have recent: "length (drop_old (fst (nanotime calm_env (sp_system busy_parser)))
      (sp_timestamps busy_parser 6)) = MAX_MSGS_PER_SECOND"
    using now by (simp add: busy_parser_def new_parser_def drop_old_def MAX_MSGS_PER_SECOND_def
        dropWhile_replicate)
  have wf: "\<forall>r \<in> set ?rs. well_formed r"
    by (simp add: well_formed_def delete_header_def OE_PROTOCOL_VERSION_def)
  have del: "deliver recorder 6 ?rs ([], ?s) = Some ([OeDeleteOrder 5, OeDeleteOrder 6], ?s)"
    by (simp add: recorder_def Let_def)
  show ?thesis
    using rate_limit_is_per_call [OF recent wf, of recorder] del
    by (auto simp: busy_parser_def new_parser_def)
qed

end
