(* ===== verification/Client_Handler.thy ===== *)
theory Client_Handler imports
  Oe_Validator Stream_Parser
begin

text \<open>
  \<open>order_entry/oe_client_handler.cpp\<close>: sessions, the maps between the clients' order ids and the
  exchange's, and the responses.  Requests that pass are payloads for the engine; the engine's
  payloads become messages to the clients.  Logging is not modelled.
\<close>

section \<open>State\<close>

record session_info =
  ss_session_id :: u64
  ss_client_id :: u32
  ss_last_seq_num :: u32
  ss_exch_seq_num :: u32

record user_info =
  ui_username :: "u8 list"
  ui_password :: "u8 list"
  ui_client_id :: u32

record open_order =
  oo_exch_order_id :: u64
  oo_symbol :: u32

record exch_order =
  eo_client_id :: u32
  eo_order_id :: u64

text \<open>
  The open orders of a client are the entries of an \<open>unordered_map\<close>, kept as a list without
  duplicate keys; the order in which they are iterated is the environment's.
\<close>

record client_handler =
  hd_symbols :: "u32 \<rightharpoonup> symbol_definition"
  hd_users :: "u8 list \<rightharpoonup> user_info"
  hd_to_engine :: "oe_payload list"
  hd_from_engine :: "oe_payload list"
  hd_sessions :: "sock \<rightharpoonup> session_info"
  hd_sock_of :: "u32 \<rightharpoonup> sock"
  hd_open_orders :: "u32 \<rightharpoonup> (u64 \<times> open_order) list"
  hd_exch_orders :: "u64 \<rightharpoonup> exch_order"
  hd_draws :: nat

definition new_handler ::
  "(u32 \<rightharpoonup> symbol_definition) \<Rightarrow> (u8 list \<rightharpoonup> user_info) \<Rightarrow> client_handler" where
  "new_handler symbols users = \<lparr>hd_symbols = symbols, hd_users = users, hd_to_engine = [],
     hd_from_engine = [], hd_sessions = Map.empty, hd_sock_of = Map.empty,
     hd_open_orders = Map.empty, hd_exch_orders = Map.empty, hd_draws = 0\<rparr>"

type_synonym handling = "client_handler \<times> system"

definition to_engine :: "oe_payload \<Rightarrow> client_handler \<Rightarrow> client_handler" where
  "to_engine p h = h\<lparr>hd_to_engine := hd_to_engine h @ [p]\<rparr>"

definition open_orders_of :: "client_handler \<Rightarrow> u32 \<Rightarrow> (u64 \<times> open_order) list" where
  "open_orders_of h c = (case hd_open_orders h c of None \<Rightarrow> [] | Some os \<Rightarrow> os)"

section \<open>Closing a session\<close>

definition delete_payload :: "u32 \<Rightarrow> u32 \<Rightarrow> open_order \<Rightarrow> oe_payload" where
  "delete_payload seq c oo =
     payload OE_DELETE_ORDER (oo_exch_order_id oo) (oo_symbol oo) seq c BUY 0 (I32 0) 0"

definition cancel_all_client_orders :: "env \<Rightarrow> u32 \<Rightarrow> client_handler \<Rightarrow> client_handler" where
  "cancel_all_client_orders e c h = (case hd_open_orders h c of
      None \<Rightarrow> h
    | Some os \<Rightarrow> h\<lparr>hd_to_engine := hd_to_engine h
          @ map (\<lambda>(i, oo). delete_payload 0 c oo) (iterate e os),
        hd_open_orders := (hd_open_orders h)(c := None)\<rparr>)"

definition on_socket_closed :: "env \<Rightarrow> sock \<Rightarrow> client_handler \<Rightarrow> client_handler" where
  "on_socket_closed e fd h = (case hd_sessions h fd of
      None \<Rightarrow> h
    | Some ss \<Rightarrow>
       (let h = cancel_all_client_orders e (ss_client_id ss) h
        in h\<lparr>hd_sock_of := (hd_sock_of h)(ss_client_id ss := None),
             hd_sessions := (hd_sessions h)(fd := None)\<rparr>))"

section \<open>Writing to a client\<close>

definition response_header :: "oe_response \<Rightarrow> session_info \<Rightarrow> oe_response_header" where
  "response_header m ss = \<lparr>rs_length = of_nat (oe_response_sizeof (oe_response_type m)),
     rs_msg_type = oe_type_code (oe_response_type m), rs_version = OE_PROTOCOL_VERSION,
     rs_seq_num = ss_exch_seq_num ss, rs_last_seq_num = ss_last_seq_num ss,
     rs_client_id = ss_client_id ss\<rparr>"

definition write_msg :: "env \<Rightarrow> sock \<Rightarrow> oe_response \<Rightarrow> handling \<Rightarrow> (bool \<times> handling) option" where
  "write_msg e fd m st = (case st of (h, s) \<Rightarrow>
    (case hd_sessions h fd of
       None \<Rightarrow> Some (False, h, s)
     | Some ss \<Rightarrow>
        (let bytes = encode_oe_response (response_header m ss) m;
             h = h\<lparr>hd_sessions := (hd_sessions h)
                     (fd \<mapsto> ss\<lparr>ss_exch_seq_num := ss_exch_seq_num ss + 1\<rparr>)\<rparr>;
             (start, s) = nanotime e s
         in map_option (\<lambda>(ok, s). (ok, h, s)) (send_all e fd bytes start s))))"

definition close_session :: "env \<Rightarrow> sock \<Rightarrow> handling \<Rightarrow> handling" where
  "close_session e fd st = (on_socket_closed e fd (fst st), shutdown_close fd (snd st))"

definition update_last_seq_num :: "sock \<Rightarrow> u32 \<Rightarrow> client_handler \<Rightarrow> client_handler" where
  "update_last_seq_num fd seq h = (case hd_sessions h fd of
      None \<Rightarrow> h
    | Some ss \<Rightarrow> h\<lparr>hd_sessions := (hd_sessions h)(fd \<mapsto> ss\<lparr>ss_last_seq_num := seq\<rparr>)\<rparr>)"

definition write_msg_to_client :: "env \<Rightarrow> u32 \<Rightarrow> u32 \<Rightarrow> oe_response \<Rightarrow> handling \<Rightarrow> handling option" where
  "write_msg_to_client e c last_seq m st = (case hd_sock_of (fst st) c of
      None \<Rightarrow> Some st
    | Some fd \<Rightarrow> map_option (\<lambda>(ok, st). if ok then st else close_session e fd st)
        (write_msg e fd m (update_last_seq_num fd last_seq (fst st), snd st)))"

section \<open>Login\<close>

definition c_str :: "u8 list \<Rightarrow> u8 list" where
  "c_str bytes = takeWhile (\<lambda>b. b \<noteq> 0) bytes"

text \<open>A login response that is written at once, before the connection is closed.\<close>

definition write_login_response ::
  "sock \<Rightarrow> oe_request_header \<Rightarrow> login_status \<Rightarrow> system \<Rightarrow> system" where
  "write_login_response fd hdr status s =
     sys_do (WriteCall fd (encode_oe_response
       \<lparr>rs_length = of_nat (oe_response_sizeof OE_LOGIN_RESPONSE),
        rs_msg_type = oe_type_code OE_LOGIN_RESPONSE, rs_version = OE_PROTOCOL_VERSION,
        rs_seq_num = rq_seq_num hdr, rs_last_seq_num = 0, rs_client_id = rq_client_id hdr\<rparr>
       (LoginResponse 0 (login_code status)))) s"

definition check_login ::
  "client_handler \<Rightarrow> u8 list \<Rightarrow> u8 list \<Rightarrow> u32 \<Rightarrow> login_status" where
  "check_login h username password c = (case hd_users h username of
      None \<Rightarrow> InvalidUsername
    | Some u \<Rightarrow> if ui_password u \<noteq> password then InvalidPassword
               else if ui_client_id u \<noteq> c then InvalidClientId else LoginSuccess)"

text \<open>A second login of a client: the new connection and the old one are both closed.\<close>

definition duplicate_login ::
  "env \<Rightarrow> sock \<Rightarrow> sock \<Rightarrow> oe_request_header \<Rightarrow> handling \<Rightarrow> handling option" where
  "duplicate_login e fd other_fd hdr st = (case st of (h, s) \<Rightarrow>
     map_option (\<lambda>(ok, h, s). (on_socket_closed e other_fd h, shutdown_close other_fd s))
       (write_msg e other_fd
         (ErrorMessage (reject_code DuplicateLogin) 15 (c_string 32 ''Duplicate login''))
         (h, shutdown_close fd (write_login_response fd hdr SessionAlreadyActive s))))"

definition new_session :: "env \<Rightarrow> sock \<Rightarrow> oe_request_header \<Rightarrow> handling \<Rightarrow> handling option" where
  "new_session e fd hdr st = (case st of (h, s) \<Rightarrow>
    (let session_id = env_random e (hd_draws h);
         h = h\<lparr>hd_draws := hd_draws h + 1,
               hd_sessions := (hd_sessions h)(fd \<mapsto> \<lparr>ss_session_id = session_id,
                 ss_client_id = rq_client_id hdr, ss_last_seq_num = rq_seq_num hdr,
                 ss_exch_seq_num = 0\<rparr>),
               hd_sock_of := (hd_sock_of h)(rq_client_id hdr \<mapsto> fd)\<rparr>
     in map_option (\<lambda>(ok, st). if ok then st else close_session e fd st)
          (write_msg e fd (LoginResponse session_id (login_code LoginSuccess)) (h, s))))"

definition on_login ::
  "env \<Rightarrow> sock \<Rightarrow> oe_request_header \<Rightarrow> u8 list \<Rightarrow> u8 list \<Rightarrow> handling \<Rightarrow> handling option" where
  "on_login e fd hdr username password st = (case st of (h, s) \<Rightarrow>
    (let c = rq_client_id hdr;
         status = check_login h (c_str username) (c_str password) c
     in if status \<noteq> LoginSuccess then
          Some (h, shutdown_close fd (write_login_response fd hdr status s))
        else
          (case hd_sock_of h c of
             Some other_fd \<Rightarrow>
               if other_fd = fd then Some (h, s)
               else if hd_sessions h other_fd = None then Some (h, shutdown_close fd s)
               else duplicate_login e fd other_fd hdr (h, s)
           | None \<Rightarrow> new_session e fd hdr (h, s))))"

section \<open>Orders\<close>

definition send_order_reject :: "u32 \<Rightarrow> u32 \<Rightarrow> reject_reason \<Rightarrow> u64 \<Rightarrow> client_handler \<Rightarrow> client_handler" where
  "send_order_reject seq c reason i h =
     to_engine (payload OE_REJECT i 0 seq c BUY 0 (I32 0) (reject_code reason)) h"

definition validate_session :: "client_handler \<Rightarrow> sock \<Rightarrow> u64 \<Rightarrow> u32 \<Rightarrow> bool" where
  "validate_session h fd session_id c = (case hd_sessions h fd of
      None \<Rightarrow> False
    | Some ss \<Rightarrow> ss_session_id ss = session_id \<and> ss_client_id ss = c)"

definition on_new_order ::
  "env \<Rightarrow> sock \<Rightarrow> oe_request_header \<Rightarrow> u64 \<Rightarrow> u32 \<Rightarrow> side \<Rightarrow> u32 \<Rightarrow> i32 \<Rightarrow> u8 \<Rightarrow> handling \<Rightarrow> handling" where
  "on_new_order e fd hdr i symb sd q price flags st = (case st of (h, s) \<Rightarrow>
    (let c = rq_client_id hdr;
         seq = rq_seq_num hdr;
         reject = validate_new_order (hd_symbols h) i symb sd q price flags
     in if \<not> validate_session h fd (rq_session_id hdr) c then
          (send_order_reject seq c UnknownSessionId i h, s)
        else if reject \<noteq> NoReject then (send_order_reject seq c reject i h, s)
        else
          (let orders = open_orders_of h c;
               h = h\<lparr>hd_open_orders := (hd_open_orders h)(c \<mapsto> orders)\<rparr>
           in if map_of orders i \<noteq> None then
                (send_order_reject seq c DuplicateOrderId i h, s)
              else
                (let (exch_id, s) = nanotime e s;
                     h = h\<lparr>hd_open_orders := (hd_open_orders h)(c \<mapsto> orders
                             @ [(i, \<lparr>oo_exch_order_id = exch_id, oo_symbol = symb\<rparr>)]),
                           hd_exch_orders := (hd_exch_orders h)(exch_id \<mapsto>
                             \<lparr>eo_client_id = c, eo_order_id = i\<rparr>)\<rparr>
                 in (to_engine (payload OE_NEW_ORDER exch_id symb seq c sd q price flags) h, s)))))"

definition on_delete_order ::
  "sock \<Rightarrow> oe_request_header \<Rightarrow> u64 \<Rightarrow> handling \<Rightarrow> handling" where
  "on_delete_order fd hdr i st = (case st of (h, s) \<Rightarrow>
    (let c = rq_client_id hdr; seq = rq_seq_num hdr
     in if \<not> validate_session h fd (rq_session_id hdr) c then
          (send_order_reject seq c UnknownSessionId i h, s)
        else
          (case map_of (open_orders_of h c) i of
             None \<Rightarrow> (send_order_reject seq c UnknownOrderId i h, s)
           | Some oo \<Rightarrow> (to_engine (delete_payload seq c oo) h, s))))"

definition on_modify_order ::
  "sock \<Rightarrow> oe_request_header \<Rightarrow> u64 \<Rightarrow> side \<Rightarrow> u32 \<Rightarrow> i32 \<Rightarrow> handling \<Rightarrow> handling" where
  "on_modify_order fd hdr i sd q price st = (case st of (h, s) \<Rightarrow>
    (let c = rq_client_id hdr; seq = rq_seq_num hdr
     in if \<not> validate_session h fd (rq_session_id hdr) c then
          (send_order_reject seq c UnknownSessionId i h, s)
        else
          (case map_of (open_orders_of h c) i of
             None \<Rightarrow> (send_order_reject seq c UnknownOrderId i h, s)
           | Some oo \<Rightarrow>
              (let reject = validate_new_order (hd_symbols h) i (oo_symbol oo) sd q price 0
               in if reject \<noteq> NoReject then (send_order_reject seq c reject i h, s)
                  else (to_engine (payload OE_MODIFY_ORDER (oo_exch_order_id oo) (oo_symbol oo)
                          seq c sd q price 0) h, s)))))"

section \<open>The engine's payloads\<close>

definition forget_order :: "u32 \<Rightarrow> u64 \<Rightarrow> u64 \<Rightarrow> client_handler \<Rightarrow> client_handler" where
  "forget_order c i exch_id h =
     h\<lparr>hd_open_orders := (hd_open_orders h)(c \<mapsto> filter (\<lambda>e. fst e \<noteq> i) (open_orders_of h c)),
       hd_exch_orders := (hd_exch_orders h)(exch_id := None)\<rparr>"

definition response_to :: "oe_payload \<Rightarrow> exch_order \<Rightarrow> oe_response option" where
  "response_to p eo = (case py_msg_type p of
      OE_ACK \<Rightarrow> Some (OrderAck (eo_order_id eo) (py_exch_order_id p) (py_quantity p) (I32 (py_price p)))
    | OE_FILL \<Rightarrow> Some (OrderFill (eo_order_id eo) (py_quantity p) (I32 (py_price p)) (py_flags p))
    | OE_CLOSE \<Rightarrow> Some (OrderClosed (eo_order_id eo))
    | _ \<Rightarrow> None)"

definition ends_order :: "oe_payload \<Rightarrow> bool" where
  "ends_order p \<longleftrightarrow> py_msg_type p = OE_CLOSE \<or> py_msg_type p = OE_FILL \<and> py_flags p AND 2 \<noteq> 0"

definition process_response :: "env \<Rightarrow> oe_payload \<Rightarrow> handling \<Rightarrow> handling option" where
  "process_response e p st =
    (if py_msg_type p = OE_REJECT then
       (case hd_sock_of (fst st) (py_client_id p) of
          None \<Rightarrow> Some st
        | Some fd \<Rightarrow> write_msg_to_client e (py_client_id p) (py_client_seq p)
            (OrderReject (py_exch_order_id p) (py_flags p)) st)
     else
       (case hd_exch_orders (fst st) (py_exch_order_id p) of
          None \<Rightarrow> Some st
        | Some eo \<Rightarrow>
           (case response_to p eo of
              None \<Rightarrow> Some st
            | Some m \<Rightarrow> map_option
                (\<lambda>(h, s). (if ends_order p
                   then forget_order (eo_client_id eo) (eo_order_id eo) (py_exch_order_id p) h
                   else h, s))
                (write_msg_to_client e (eo_client_id eo) (py_client_seq p) m st))))"

fun process_responses :: "env \<Rightarrow> oe_payload list \<Rightarrow> handling \<Rightarrow> handling option" where
  "process_responses e [] st = Some st"
| "process_responses e (p # ps) st = (case process_response e p st of
      None \<Rightarrow> None
    | Some (h, s) \<Rightarrow> process_responses e ps (h\<lparr>hd_from_engine := tl (hd_from_engine h)\<rparr>, s))"

definition process_handler :: "env \<Rightarrow> handling \<Rightarrow> handling option" where
  "process_handler e st = process_responses e (hd_from_engine (fst st)) st"

section \<open>The handler as the parser's template argument\<close>

fun handle_request :: "env \<Rightarrow> sock \<Rightarrow> oe_request_header \<Rightarrow> oe_request \<Rightarrow> handling \<Rightarrow> handling option" where
  "handle_request e fd hdr (Login u p) st = on_login e fd hdr u p st"
| "handle_request e fd hdr (OeNewOrder i y s q p f) st = Some (on_new_order e fd hdr i y s q p f st)"
| "handle_request e fd hdr (OeDeleteOrder i) st = Some (on_delete_order fd hdr i st)"
| "handle_request e fd hdr (OeModifyOrder i s q p) st = Some (on_modify_order fd hdr i s q p st)"

definition client_handler_ops :: "env \<Rightarrow> client_handler handler_ops" where
  "client_handler_ops e = \<lparr>ho_on_login = handle_request e, ho_on_new_order = handle_request e,
     ho_on_delete_order = handle_request e, ho_on_modify_order = handle_request e,
     ho_on_socket_closed = (\<lambda>fd (h, s). (on_socket_closed e fd h, s))\<rparr>"

end
