(* ===== verification/Handler_Inv.thy ===== *)
theory Handler_Inv imports
  Client_Handler Broker_Props
begin

text \<open>
  The invariant of the client handler.  Sessions and the sockets of the clients agree; every open
  order can be found again from its exchange id; exchange ids come from the clock; and the payloads
  in the engine's queue are ones that an engine with the same symbols can handle.
\<close>

section \<open>The invariant\<close>

definition sessions_ok :: "client_handler \<Rightarrow> bool" where
  "sessions_ok h \<longleftrightarrow> (\<forall>fd ss. hd_sessions h fd = Some ss \<longrightarrow> hd_sock_of h (ss_client_id ss) = Some fd)"

definition entry_ok ::
  "(u32 \<rightharpoonup> symbol_definition) \<Rightarrow> (u64 \<rightharpoonup> exch_order) \<Rightarrow> u32 \<Rightarrow> u64 \<times> open_order \<Rightarrow> bool" where
  "entry_ok symbols exch c r \<longleftrightarrow>
     exch (oo_exch_order_id (snd r)) = Some \<lparr>eo_client_id = c, eo_order_id = fst r\<rparr> \<and>
     symbols (oo_symbol (snd r)) \<noteq> None"

definition orders_ok :: "client_handler \<Rightarrow> bool" where
  "orders_ok h \<longleftrightarrow> (\<forall>c. distinct (map fst (open_orders_of h c)) \<and>
     (\<forall>r \<in> set (open_orders_of h c). entry_ok (hd_symbols h) (hd_exch_orders h) c r))"

definition payload_ok :: "(u32 \<rightharpoonup> symbol_definition) \<Rightarrow> oe_payload \<Rightarrow> bool" where
  "payload_ok symbols p \<longleftrightarrow> py_msg_type p = OE_REJECT \<or> is_ladder_payload p \<and>
     symbols (py_symbol p) \<noteq> None \<and> (py_msg_type p = OE_NEW_ORDER \<longrightarrow> 0 < py_quantity p)"

text \<open>\<open>R\<close> are the ids that the engine holds already.\<close>

definition ids_ok :: "env \<Rightarrow> u64 set \<Rightarrow> handling \<Rightarrow> bool" where
  "ids_ok e R st \<longleftrightarrow> (\<forall>x. hd_exch_orders (fst st) x \<noteq> None \<longrightarrow> clocked e (snd st) x) \<and>
     distinct (new_ids_of (hd_to_engine (fst st))) \<and>
     (\<forall>i \<in> set (new_ids_of (hd_to_engine (fst st))). clocked e (snd st) i \<and> i \<notin> R) \<and>
     (\<forall>i \<in> R. clocked e (snd st) i)"

definition handler_ok :: "env \<Rightarrow> (u32 \<rightharpoonup> symbol_definition) \<Rightarrow> u64 set \<Rightarrow> handling \<Rightarrow> bool" where
  "handler_ok e symbols R st \<longleftrightarrow> hd_symbols (fst st) = symbols \<and> sessions_ok (fst st) \<and>
     orders_ok (fst st) \<and> (\<forall>p \<in> set (hd_to_engine (fst st)). payload_ok symbols p) \<and> ids_ok e R st"

text \<open>What the invariant of the orders is about, and steps that leave it alone.\<close>

definition same_orders :: "client_handler \<Rightarrow> client_handler \<Rightarrow> bool" where
  "same_orders h h' \<longleftrightarrow> hd_symbols h' = hd_symbols h \<and> hd_open_orders h' = hd_open_orders h \<and>
     hd_exch_orders h' = hd_exch_orders h \<and> hd_to_engine h' = hd_to_engine h"

lemma same_orders_keeps:
  assumes "same_orders h h'" "s_clock_reads s \<le> s_clock_reads s'" "handler_ok e symbols R (h, s)"
    "sessions_ok h'"
  shows "handler_ok e symbols R (h', s')"
proof -
  have "open_orders_of h' c = open_orders_of h c" for c
    using assms(1) by (simp add: same_orders_def open_orders_of_def)
  moreover have "clocked e s x \<Longrightarrow> clocked e s' x" for x using clocked_mono assms(2) by blast
  ultimately show ?thesis
    using assms by (auto simp: same_orders_def handler_ok_def orders_ok_def ids_ok_def)
qed

lemma clock_keeps: "handler_ok e symbols R (h, s) \<Longrightarrow> s_clock_reads s \<le> s_clock_reads s' \<Longrightarrow>
    handler_ok e symbols R (h, s')"
  by (rule same_orders_keeps [of h h]) (auto simp: same_orders_def handler_ok_def)

lemma new_handler_ok: "handler_ok e symbols {} (new_handler symbols users, s)"
  by (simp add: handler_ok_def new_handler_def sessions_ok_def orders_ok_def open_orders_of_def
      ids_ok_def)

section \<open>Queueing payloads\<close>

lemma new_ids_of_append [simp]: "new_ids_of (ps @ qs) = new_ids_of ps @ new_ids_of qs"
  by (simp add: new_ids_of_def)

lemma payload_type [simp]:
  "py_msg_type (payload t i y seq c s q p f) = t" "py_exch_order_id (payload t i y seq c s q p f) = i"
  "py_symbol (payload t i y seq c s q p f) = y" "py_quantity (payload t i y seq c s q p f) = q"
  "py_client_id (payload t i y seq c s q p f) = c" "py_client_seq (payload t i y seq c s q p f) = seq"
  "py_flags (payload t i y seq c s q p f) = f" "py_side (payload t i y seq c s q p f) = s"
  "py_price (payload t i y seq c s q p f) = i32_bits p"
  by (simp_all add: payload_def)

lemma delete_payload_fields [simp]:
  "py_msg_type (delete_payload seq c oo) = OE_DELETE_ORDER"
  "py_exch_order_id (delete_payload seq c oo) = oo_exch_order_id oo"
  "py_symbol (delete_payload seq c oo) = oo_symbol oo"
  "py_client_id (delete_payload seq c oo) = c"
  "py_client_seq (delete_payload seq c oo) = seq"
  by (simp_all add: delete_payload_def)

text \<open>Payloads other than new orders may be appended as long as the engine can handle them.\<close>

lemma queue_keeps:
  assumes "handler_ok e symbols R (h, s)" "\<forall>p \<in> set ps. payload_ok symbols p \<and> py_msg_type p \<noteq> OE_NEW_ORDER"
  shows "handler_ok e symbols R (h\<lparr>hd_to_engine := hd_to_engine h @ ps\<rparr>, s)"
proof -
  have "new_ids_of ps = []" using assms(2) by (auto simp: new_ids_of_def filter_empty_conv)
  moreover have "open_orders_of (h\<lparr>hd_to_engine := hd_to_engine h @ ps\<rparr>) c = open_orders_of h c" for c
    by (simp add: open_orders_of_def)
  ultimately show ?thesis using assms
    by (auto simp: handler_ok_def sessions_ok_def orders_ok_def ids_ok_def)
qed

lemma reject_keeps: "handler_ok e symbols R (h, s) \<Longrightarrow>
    handler_ok e symbols R (send_order_reject seq c reason i h, s)"
  using queue_keeps [of e symbols R h s "[payload OE_REJECT i 0 seq c BUY 0 (I32 0) (reject_code reason)]"]
  by (simp add: send_order_reject_def to_engine_def payload_ok_def)

lemma open_order_known:
  assumes "orders_ok h" "map_of (open_orders_of h c) i = Some oo"
  shows "hd_exch_orders h (oo_exch_order_id oo) = Some \<lparr>eo_client_id = c, eo_order_id = i\<rparr>"
    and "hd_symbols h (oo_symbol oo) \<noteq> None"
proof -
  have "entry_ok (hd_symbols h) (hd_exch_orders h) c (i, oo)"
    using assms map_of_SomeD [OF assms(2)] unfolding orders_ok_def by blast
  then show "hd_exch_orders h (oo_exch_order_id oo) = Some \<lparr>eo_client_id = c, eo_order_id = i\<rparr>"
    and "hd_symbols h (oo_symbol oo) \<noteq> None" by (simp_all add: entry_ok_def)
qed

text \<open>Forgetting a client's orders, or one of them, keeps what is known of the others.\<close>

lemma forget_client_keeps:
  assumes "handler_ok e symbols R (h, s)"
  shows "handler_ok e symbols R (h\<lparr>hd_open_orders := (hd_open_orders h)(c := None)\<rparr>, s)"
proof -
  let ?h = "h\<lparr>hd_open_orders := (hd_open_orders h)(c := None)\<rparr>"
  have "open_orders_of ?h c' = (if c' = c then [] else open_orders_of h c')" for c'
    by (simp add: open_orders_of_def)
  moreover have "orders_ok h" using assms by (simp add: handler_ok_def)
  ultimately have "orders_ok ?h" by (simp add: orders_ok_def)
  then show ?thesis using assms by (simp add: handler_ok_def sessions_ok_def ids_ok_def)
qed

lemma forget_order_keeps:
  assumes "handler_ok e symbols R (h, s)" "hd_exch_orders h x = Some eo"
  shows "handler_ok e symbols R (forget_order (eo_client_id eo) (eo_order_id eo) x h, s)"
proof -
  let ?h = "forget_order (eo_client_id eo) (eo_order_id eo) x h"
  have ok: "orders_ok h" using assms(1) by (simp add: handler_ok_def)
  have opens: "open_orders_of ?h c = (if c = eo_client_id eo
      then filter (\<lambda>e. fst e \<noteq> eo_order_id eo) (open_orders_of h c) else open_orders_of h c)" for c
    by (simp add: forget_order_def open_orders_of_def)
  have exch: "hd_exch_orders ?h = (hd_exch_orders h)(x := None)" "hd_symbols ?h = hd_symbols h"
    by (simp_all add: forget_order_def)
  have "orders_ok ?h" unfolding orders_ok_def
  proof (intro allI conjI ballI)
    fix c
    show "distinct (map fst (open_orders_of ?h c))"
      using ok by (simp add: orders_ok_def opens distinct_map_filter)
    fix r assume r: "r \<in> set (open_orders_of ?h c)"
    then have "r \<in> set (open_orders_of h c)" by (simp add: opens split: if_splits)
    then have known: "entry_ok (hd_symbols h) (hd_exch_orders h) c r"
      using ok unfolding orders_ok_def by blast
    have "oo_exch_order_id (snd r) \<noteq> x"
    proof
      assume "oo_exch_order_id (snd r) = x"
      with known assms(2) have "c = eo_client_id eo" "fst r = eo_order_id eo"
        by (auto simp: entry_ok_def)
      with r show False by (simp add: opens)
    qed
    with known show "entry_ok (hd_symbols ?h) (hd_exch_orders ?h) c r"
      by (simp add: entry_ok_def exch)
  qed
  then show ?thesis using assms(1)
    by (auto simp: handler_ok_def sessions_ok_def ids_ok_def forget_order_def)
qed

section \<open>Sessions\<close>

lemma cancel_all_keeps:
  assumes "fair_iteration e'" "handler_ok e symbols R (h, s)"
  shows "handler_ok e symbols R (cancel_all_client_orders e' c h, s)"
proof (cases "hd_open_orders h c")
  case None
  with assms show ?thesis by (simp add: cancel_all_client_orders_def)
next
  case (Some os)
  let ?ps = "map (\<lambda>(i, oo). delete_payload 0 c oo) (iterate e' os)"
  have known: "symbols (oo_symbol oo) \<noteq> None" if "(i, oo) \<in> set os" for i oo
  proof -
    have "(i, oo) \<in> set (open_orders_of h c)" using that Some by (simp add: open_orders_of_def)
    with assms(2) have "entry_ok (hd_symbols h) (hd_exch_orders h) c (i, oo)" "hd_symbols h = symbols"
      unfolding handler_ok_def orders_ok_def fst_conv by blast+
    then show ?thesis by (simp add: entry_ok_def)
  qed
  have "\<forall>p \<in> set ?ps. payload_ok symbols p \<and> py_msg_type p \<noteq> OE_NEW_ORDER"
    using known by (auto simp: set_iterate [OF assms(1)] payload_ok_def is_ladder_payload_def)
  from forget_client_keeps [OF queue_keeps [OF assms(2) this], of c] Some show ?thesis
    by (simp add: cancel_all_client_orders_def)
qed

lemma cancel_all_sessions [simp]:
  "hd_sessions (cancel_all_client_orders e c h) = hd_sessions h"
  "hd_sock_of (cancel_all_client_orders e c h) = hd_sock_of h"
  by (simp_all add: cancel_all_client_orders_def split: option.split)

lemma socket_closed_keeps:
  assumes "fair_iteration e'" "handler_ok e symbols R (h, s)"
  shows "handler_ok e symbols R (on_socket_closed e' fd h, s)"
proof (cases "hd_sessions h fd")
  case None
  with assms show ?thesis by (simp add: on_socket_closed_def)
next
  case (Some ss)
  let ?h = "cancel_all_client_orders e' (ss_client_id ss) h"
  let ?h' = "?h\<lparr>hd_sock_of := (hd_sock_of ?h)(ss_client_id ss := None),
      hd_sessions := (hd_sessions ?h)(fd := None)\<rparr>"
  have old: "sessions_ok h" using assms(2) by (simp add: handler_ok_def)
  have "hd_sock_of ?h' (ss_client_id ss') = Some fd'" if s': "hd_sessions ?h' fd' = Some ss'" for fd' ss'
  proof -
    from s' have "hd_sessions h fd' = Some ss'" "fd' \<noteq> fd" by (auto split: if_splits)
    with old Some have "hd_sock_of h (ss_client_id ss') = Some fd'" "hd_sock_of h (ss_client_id ss) = Some fd"
      by (simp_all add: sessions_ok_def)
    with \<open>fd' \<noteq> fd\<close> show ?thesis by auto
  qed
  then have "sessions_ok ?h'" by (simp add: sessions_ok_def)
  then have "handler_ok e symbols R (?h', s)"
    by (rule same_orders_keeps [OF _ le_refl cancel_all_keeps [OF assms], rotated])
      (simp add: same_orders_def)
  with Some show ?thesis by (simp add: on_socket_closed_def Let_def)
qed

lemma close_session_keeps:
  "fair_iteration e' \<Longrightarrow> handler_ok e symbols R st \<Longrightarrow> handler_ok e symbols R (close_session e' fd st)"
  using socket_closed_keeps clock_keeps by (cases st) (fastforce simp: close_session_def)

text \<open>Writing a message only advances the numbers of a session.\<close>

lemma session_update_ok:
  "sessions_ok h \<Longrightarrow> hd_sessions h fd = Some ss \<Longrightarrow> ss_client_id ss' = ss_client_id ss \<Longrightarrow>
   sessions_ok (h\<lparr>hd_sessions := (hd_sessions h)(fd \<mapsto> ss')\<rparr>)"
  by (auto simp: sessions_ok_def)

lemma write_msg_keeps:
  assumes "handler_ok e symbols R st" "write_msg e fd m st = Some (ok, st')"
  shows "handler_ok e symbols R st'"
proof -
  obtain h s where st: "st = (h, s)" by (cases st)
  show ?thesis
  proof (cases "hd_sessions h fd")
    case None
    with assms st show ?thesis by (simp add: write_msg_def)
  next
    case (Some ss)
    let ?h = "h\<lparr>hd_sessions := (hd_sessions h)(fd \<mapsto> ss\<lparr>ss_exch_seq_num := ss_exch_seq_num ss + 1\<rparr>)\<rparr>"
    obtain s' where st': "st' = (?h, s')" "s_clock_reads s \<le> s_clock_reads s'"
      using assms(2) Some
      by (auto simp: st write_msg_def Let_def nanotime_clock dest!: send_all_reads)
    have "sessions_ok ?h"
      by (rule session_update_ok [OF _ Some]) (use assms(1) st in \<open>auto simp: handler_ok_def\<close>)
    then show ?thesis unfolding st'(1)
      by (rule same_orders_keeps [rotated -1])
        (use assms(1) st st'(2) in \<open>auto simp: same_orders_def\<close>)
  qed
qed

lemma update_last_seq_num_keeps:
  assumes "handler_ok e symbols R (h, s)"
  shows "handler_ok e symbols R (update_last_seq_num fd seq h, s)"
proof (cases "hd_sessions h fd")
  case (Some ss)
  show ?thesis
    by (rule same_orders_keeps [OF _ le_refl assms])
      (use Some assms in \<open>auto simp: update_last_seq_num_def same_orders_def handler_ok_def
        intro!: session_update_ok\<close>)
qed (use assms in \<open>simp add: update_last_seq_num_def\<close>)

lemma write_msg_to_client_keeps:
  assumes "fair_iteration e" "handler_ok e symbols R st" "write_msg_to_client e c seq m st = Some st'"
  shows "handler_ok e symbols R st'"
proof (cases "hd_sock_of (fst st) c")
  case None
  with assms show ?thesis by (simp add: write_msg_to_client_def)
next
  case (Some fd)
  then obtain ok st1 where w: "write_msg e fd m (update_last_seq_num fd seq (fst st), snd st)
      = Some (ok, st1)" "st' = (if ok then st1 else close_session e fd st1)"
    using assms(3) by (auto simp: write_msg_to_client_def)
  have "handler_ok e symbols R (update_last_seq_num fd seq (fst st), snd st)"
    using update_last_seq_num_keeps assms(2) by simp
  from write_msg_keeps [OF this w(1)] close_session_keeps [OF assms(1)] w(2) show ?thesis by simp
qed

section \<open>Requests\<close>

lemma reject_shut_keeps: "handler_ok e symbols R (h, s) \<Longrightarrow>
    handler_ok e symbols R (h, shutdown_close fd (write_login_response fd hdr status s))"
  by (erule clock_keeps) (simp add: write_login_response_def)

lemma new_session_keeps:
  assumes "fair_iteration e" "handler_ok e symbols R (h, s)" "hd_sock_of h (rq_client_id hdr) = None"
    "new_session e fd hdr (h, s) = Some st'"
  shows "handler_ok e symbols R st'"
proof -
  let ?c = "rq_client_id hdr"
  let ?ss = "\<lparr>ss_session_id = env_random e (hd_draws h), ss_client_id = ?c,
      ss_last_seq_num = rq_seq_num hdr, ss_exch_seq_num = 0\<rparr>"
  let ?h = "h\<lparr>hd_draws := hd_draws h + 1, hd_sessions := (hd_sessions h)(fd \<mapsto> ?ss),
      hd_sock_of := (hd_sock_of h)(?c \<mapsto> fd)\<rparr>"
  have old: "sessions_ok h" using assms(2) by (simp add: handler_ok_def)
  have "ss_client_id ss \<noteq> ?c" if "hd_sessions h fd' = Some ss" for fd' ss
  proof
    assume c: "ss_client_id ss = ?c"
    have "hd_sock_of h (ss_client_id ss) = Some fd'" using old that by (simp add: sessions_ok_def)
    with assms(3) show False unfolding c by simp
  qed
  with old have "sessions_ok ?h" by (auto simp: sessions_ok_def)
  then have ok: "handler_ok e symbols R (?h, s)"
    by (rule same_orders_keeps [OF _ le_refl assms(2), rotated]) (simp add: same_orders_def)
  obtain b st1 where w: "write_msg e fd (LoginResponse (env_random e (hd_draws h))
      (login_code LoginSuccess)) (?h, s) = Some (b, st1)"
    "st' = (if b then st1 else close_session e fd st1)"
    using assms(4) by (auto simp: new_session_def Let_def)
  from write_msg_keeps [OF ok w(1)] close_session_keeps [OF assms(1)] w(2) show ?thesis by simp
qed

lemma duplicate_login_keeps:
  assumes "fair_iteration e" "handler_ok e symbols R (h, s)"
    "duplicate_login e fd other_fd hdr (h, s) = Some st'"
  shows "handler_ok e symbols R st'"
proof -
  note ok = reject_shut_keeps [OF assms(2), of fd hdr SessionAlreadyActive]
  obtain b h1 s1 where w: "write_msg e other_fd
      (ErrorMessage (reject_code DuplicateLogin) 15 (c_string 32 ''Duplicate login''))
      (h, shutdown_close fd (write_login_response fd hdr SessionAlreadyActive s)) = Some (b, h1, s1)"
    "st' = (on_socket_closed e other_fd h1, shutdown_close other_fd s1)"
    using assms(3) by (auto simp: duplicate_login_def)
  from clock_keeps [OF socket_closed_keeps [OF assms(1) write_msg_keeps [OF ok w(1)]]] w(2)
  show ?thesis by simp
qed

lemma on_login_keeps:
  assumes "fair_iteration e" "handler_ok e symbols R st" "on_login e fd hdr u p st = Some st'"
  shows "handler_ok e symbols R st'"
proof -
  obtain h s where st: "st = (h, s)" by (cases st)
  have shut: "handler_ok e symbols R (h, shutdown_close fd s)"
    by (rule clock_keeps) (use assms(2) st in auto)
  let ?status = "check_login h (c_str u) (c_str p) (rq_client_id hdr)"
  note run = assms(3) [unfolded st on_login_def prod.case Let_def]
  have ok: "handler_ok e symbols R (h, s)" using assms(2) st by simp
  show ?thesis
  proof (cases "?status = LoginSuccess")
    case False
    with run have "st' = (h, shutdown_close fd (write_login_response fd hdr ?status s))" by simp
    with reject_shut_keeps [OF ok] show ?thesis by simp
  next
    case True
    show ?thesis
    proof (cases "hd_sock_of h (rq_client_id hdr)")
      case None
      with run True have "new_session e fd hdr (h, s) = Some st'" by simp
      with new_session_keeps [OF assms(1) ok None] show ?thesis by blast
    next
      case (Some other_fd)
      have "(if other_fd = fd then Some (h, s)
          else if hd_sessions h other_fd = None then Some (h, shutdown_close fd s)
          else duplicate_login e fd other_fd hdr (h, s)) = Some st'"
        using run True unfolding Some by simp
      then consider "st' = (h, s)" | "st' = (h, shutdown_close fd s)"
        | "duplicate_login e fd other_fd hdr (h, s) = Some st'"
        by (metis option.inject)
      then show ?thesis using ok shut duplicate_login_keeps [OF assms(1) ok] by cases simp_all
    qed
  qed
qed

lemma validated_payload:
  assumes "validate_new_order symbols i y sd q p f = NoReject"
  shows "symbols y \<noteq> None" "0 < q"
  using assms by (auto simp: validate_new_order_def word_gt_0 split: option.splits if_splits)

text \<open>A new order gets the next reading of the clock as its id, which no other order has.\<close>

lemma accept_keeps:
  assumes "distinct_times e s'" "handler_ok e symbols R (h, s)" "map_of (open_orders_of h c) i = None"
    "symbols y \<noteq> None" "0 < q" "nanotime e s = (x, s')"
    "h' = h\<lparr>hd_open_orders := (hd_open_orders h)(c \<mapsto> open_orders_of h c
              @ [(i, \<lparr>oo_exch_order_id = x, oo_symbol = y\<rparr>)]),
            hd_exch_orders := (hd_exch_orders h)(x \<mapsto> \<lparr>eo_client_id = c, eo_order_id = i\<rparr>),
            hd_to_engine := hd_to_engine h @ [payload OE_NEW_ORDER x y seq c sd q p f]\<rparr>"
  shows "handler_ok e symbols R (h', s')"
proof -
  note read = clocked_read [OF assms(6)]
  have fresh: "\<not> clocked e s x" using read(3) assms(1) .
  then have new: "hd_exch_orders h x = None" using assms(2) by (auto simp: handler_ok_def ids_ok_def)
  have opens: "open_orders_of h' d = (if d = c then open_orders_of h c
      @ [(i, \<lparr>oo_exch_order_id = x, oo_symbol = y\<rparr>)] else open_orders_of h d)" for d
    by (simp add: assms(7) open_orders_of_def)
  have parts: "hd_exch_orders h' = (hd_exch_orders h)(x \<mapsto> \<lparr>eo_client_id = c, eo_order_id = i\<rparr>)"
    "hd_symbols h' = hd_symbols h" "hd_sessions h' = hd_sessions h" "hd_sock_of h' = hd_sock_of h"
    "hd_to_engine h' = hd_to_engine h @ [payload OE_NEW_ORDER x y seq c sd q p f]"
    by (simp_all add: assms(7))
  have "orders_ok h'" unfolding orders_ok_def
  proof (intro allI conjI ballI)
    have ok: "orders_ok h" using assms(2) by (simp add: handler_ok_def)
    fix d
    have "i \<notin> fst ` set (open_orders_of h c)" using assms(3) by (simp add: map_of_eq_None_iff)
    with ok show "distinct (map fst (open_orders_of h' d))" by (simp add: orders_ok_def opens)
    fix r assume r: "r \<in> set (open_orders_of h' d)"
    show "entry_ok (hd_symbols h') (hd_exch_orders h') d r"
    proof (cases "r \<in> set (open_orders_of h d)")
      case True
      then have "entry_ok (hd_symbols h) (hd_exch_orders h) d r" using ok unfolding orders_ok_def by blast
      with new show ?thesis by (auto simp: entry_ok_def parts)
    next
      case False
      with r have "d = c" "r = (i, \<lparr>oo_exch_order_id = x, oo_symbol = y\<rparr>)"
        by (auto simp: opens split: if_splits)
      moreover have "hd_symbols h = symbols" using assms(2) by (simp add: handler_ok_def)
      ultimately show ?thesis using assms(4) by (simp add: entry_ok_def parts)
    qed
  qed
  moreover have "sessions_ok h'" using assms(2) by (simp add: handler_ok_def sessions_ok_def parts)
  moreover have "payload_ok symbols (payload OE_NEW_ORDER x y seq c sd q p f)"
    using assms(4,5) by (simp add: payload_ok_def is_ladder_payload_def)
  moreover have "ids_ok e R (h', s')"
    using assms(2) fresh read(1,2) by (auto simp: handler_ok_def ids_ok_def parts)
  ultimately show ?thesis using assms(2) by (auto simp: handler_ok_def parts)
qed

lemma touch_orders_keeps:
  assumes "handler_ok e symbols R (h, s)"
  shows "handler_ok e symbols R
    (h\<lparr>hd_open_orders := (hd_open_orders h)(c \<mapsto> open_orders_of h c)\<rparr>, s)"
proof -
  have "open_orders_of (h\<lparr>hd_open_orders := (hd_open_orders h)(c \<mapsto> open_orders_of h c)\<rparr>) d
      = open_orders_of h d" for d by (simp add: open_orders_of_def)
  moreover have "orders_ok h" using assms by (simp add: handler_ok_def)
  ultimately have "orders_ok (h\<lparr>hd_open_orders := (hd_open_orders h)(c \<mapsto> open_orders_of h c)\<rparr>)"
    by (simp add: orders_ok_def)
  with assms show ?thesis by (simp add: handler_ok_def sessions_ok_def ids_ok_def)
qed

lemma on_new_order_keeps:
  assumes "distinct_times e (snd (on_new_order e fd hdr i y sd q p f st))" "handler_ok e symbols R st"
  shows "handler_ok e symbols R (on_new_order e fd hdr i y sd q p f st)"
proof -
  obtain h s where st: "st = (h, s)" by (cases st)
  have symbols: "hd_symbols h = symbols" using assms(2) st by (simp add: handler_ok_def)
  show ?thesis
  proof (cases "validate_session h fd (rq_session_id hdr) (rq_client_id hdr) \<and>
      validate_new_order (hd_symbols h) i y sd q p f = NoReject \<and>
      map_of (open_orders_of h (rq_client_id hdr)) i = None")
    case True
    note valid = validated_payload [OF True [THEN conjunct2, THEN conjunct1]]
    obtain x s' where x: "nanotime e s = (x, s')" by fastforce
    have "distinct_times e s'" using assms(1) True x
      by (simp add: st on_new_order_def Let_def)
    from accept_keeps [OF this, of symbols R h s "rq_client_id hdr" i y q x] True valid x
        assms(2) symbols
    show ?thesis by (simp add: st on_new_order_def Let_def to_engine_def)
  next
    case False
    with assms(2) reject_keeps reject_keeps [OF touch_orders_keeps] show ?thesis
      by (auto simp: st on_new_order_def Let_def)
  qed
qed

lemma on_delete_order_keeps:
  assumes "handler_ok e symbols R st"
  shows "handler_ok e symbols R (on_delete_order fd hdr i st)"
proof -
  obtain h s where st: "st = (h, s)" by (cases st)
  have "handler_ok e symbols R (to_engine (delete_payload seq c oo) h, s)"
    if "map_of (open_orders_of h c) i = Some oo" for seq c oo
    using queue_keeps [of e symbols R h s "[delete_payload seq c oo]"] assms st
      open_order_known(2) [OF _ that]
    by (simp add: to_engine_def payload_ok_def is_ladder_payload_def handler_ok_def)
  with assms reject_keeps show ?thesis
    by (auto simp: st on_delete_order_def Let_def split: option.split)
qed

lemma on_modify_order_keeps:
  assumes "handler_ok e symbols R st"
  shows "handler_ok e symbols R (on_modify_order fd hdr i sd q p st)"
proof -
  obtain h s where st: "st = (h, s)" by (cases st)
  have "handler_ok e symbols R (to_engine (payload OE_MODIFY_ORDER (oo_exch_order_id oo)
      (oo_symbol oo) seq c sd q p 0) h, s)"
    if "map_of (open_orders_of h c) i = Some oo" for seq c oo
    using queue_keeps [of e symbols R h s "[payload OE_MODIFY_ORDER (oo_exch_order_id oo)
      (oo_symbol oo) seq c sd q p 0]"] assms st open_order_known(2) [OF _ that]
    by (simp add: to_engine_def payload_ok_def is_ladder_payload_def handler_ok_def)
  with assms reject_keeps show ?thesis
    by (auto simp: st on_modify_order_def Let_def split: option.split)
qed

lemma handle_request_keeps:
  "fair_iteration e \<Longrightarrow> distinct_times e (snd st') \<Longrightarrow> handler_ok e symbols R st \<Longrightarrow>
   handle_request e fd hdr m st = Some st' \<Longrightarrow> handler_ok e symbols R st'"
  by (cases m) (auto intro: on_login_keeps on_new_order_keeps on_delete_order_keeps
      on_modify_order_keeps)

section \<open>Responses\<close>

lemma write_msg_exch: "write_msg e fd m st = Some (ok, st') \<Longrightarrow>
    hd_exch_orders (fst st') = hd_exch_orders (fst st)"
  by (cases st) (auto simp: write_msg_def Let_def split: option.splits prod.splits)

lemma write_msg_to_client_exch: "write_msg_to_client e c seq m st = Some st' \<Longrightarrow>
    hd_exch_orders (fst st') = hd_exch_orders (fst st)"
  by (auto simp: write_msg_to_client_def close_session_def on_socket_closed_def Let_def
      cancel_all_client_orders_def update_last_seq_num_def
      dest!: write_msg_exch split: option.splits if_splits)

lemma process_response_keeps:
  assumes "fair_iteration e" "handler_ok e symbols R st" "process_response e p st = Some st'"
  shows "handler_ok e symbols R st'"
proof (cases "py_msg_type p = OE_REJECT")
  case True
  with assms write_msg_to_client_keeps show ?thesis
    by (auto simp: process_response_def split: option.splits)
next
  case False
  show ?thesis
  proof (cases "hd_exch_orders (fst st) (py_exch_order_id p)")
    case None
    with False assms show ?thesis by (simp add: process_response_def)
  next
    case (Some eo)
    show ?thesis
    proof (cases "response_to p eo")
      case None
      with Some False assms show ?thesis by (simp add: process_response_def)
    next
      case (Some m)
      then obtain h s where w: "write_msg_to_client e (eo_client_id eo) (py_client_seq p) m st = Some (h, s)"
        "st' = (if ends_order p then forget_order (eo_client_id eo) (eo_order_id eo)
           (py_exch_order_id p) h else h, s)"
        using \<open>hd_exch_orders (fst st) (py_exch_order_id p) = Some eo\<close> False assms(3)
        by (auto simp: process_response_def)
      have "handler_ok e symbols R (h, s)" by (rule write_msg_to_client_keeps [OF assms(1,2) w(1)])
      moreover have "hd_exch_orders h (py_exch_order_id p) = Some eo"
        using write_msg_to_client_exch [OF w(1)] \<open>hd_exch_orders (fst st) (py_exch_order_id p) = Some eo\<close>
        by simp
      ultimately show ?thesis using forget_order_keeps w(2) by simp
    qed
  qed
qed

lemma pop_keeps: "handler_ok e symbols R (h, s) \<Longrightarrow>
    handler_ok e symbols R (h\<lparr>hd_from_engine := ps\<rparr>, s)"
  by (rule same_orders_keeps [of h _ s]) (auto simp: same_orders_def handler_ok_def sessions_ok_def)

lemma process_responses_keeps:
  "fair_iteration e \<Longrightarrow> handler_ok e symbols R st \<Longrightarrow> process_responses e ps st = Some st' \<Longrightarrow>
   handler_ok e symbols R st'"
proof (induction ps arbitrary: st)
  case (Cons p ps)
  then obtain h s where hs: "process_response e p st = Some (h, s)"
    "process_responses e ps (h\<lparr>hd_from_engine := tl (hd_from_engine h)\<rparr>, s) = Some st'"
    by (auto split: option.splits prod.splits)
  from pop_keeps [OF process_response_keeps [OF Cons.prems(1,2) hs(1)]]
  show ?case by (rule Cons.IH [OF Cons.prems(1) _ hs(2)])
qed simp

section \<open>The clock only moves on\<close>

abbreviation reads :: "handling \<Rightarrow> nat" where
  "reads st \<equiv> s_clock_reads (snd st)"

lemma write_msg_reads: "write_msg e fd m st = Some (ok, st') \<Longrightarrow> reads st \<le> reads st'"
  by (cases st) (auto simp: write_msg_def Let_def nanotime_clock dest!: send_all_reads split: option.splits)

lemma close_session_reads [simp]: "reads (close_session e fd st) = reads st"
  by (simp add: close_session_def)

lemma write_msg_to_client_reads:
  "write_msg_to_client e c seq m st = Some st' \<Longrightarrow> reads st \<le> reads st'"
  by (auto simp: write_msg_to_client_def dest!: write_msg_reads split: option.splits)

lemma on_login_reads:
  assumes "on_login e fd hdr u p st = Some st'"
  shows "reads st \<le> reads st'"
proof -
  obtain h s where st: "st = (h, s)" by (cases st)
  have "new_session e fd hdr (h, s) = Some st' \<Longrightarrow> s_clock_reads s \<le> reads st'"
    by (auto simp: new_session_def Let_def dest!: write_msg_reads)
  moreover have "duplicate_login e fd other_fd hdr (h, s) = Some st' \<Longrightarrow> s_clock_reads s \<le> reads st'"
    for other_fd
    by (auto simp: duplicate_login_def write_login_response_def dest!: write_msg_reads)
  moreover have "(if check_login h (c_str u) (c_str p) (rq_client_id hdr) \<noteq> LoginSuccess
      then Some (h, shutdown_close fd (write_login_response fd hdr
        (check_login h (c_str u) (c_str p) (rq_client_id hdr)) s))
      else (case hd_sock_of h (rq_client_id hdr) of
          Some other_fd \<Rightarrow> if other_fd = fd then Some (h, s)
            else if hd_sessions h other_fd = None then Some (h, shutdown_close fd s)
            else duplicate_login e fd other_fd hdr (h, s)
        | None \<Rightarrow> new_session e fd hdr (h, s))) = Some st'"
    using assms unfolding st on_login_def Let_def prod.case .
  ultimately show ?thesis unfolding st snd_conv
    by (auto simp: write_login_response_def split: if_splits option.splits)
qed

lemma handle_request_reads: "handle_request e fd hdr m st = Some st' \<Longrightarrow> reads st \<le> reads st'"
proof (cases m)
  case (Login u p)
  then show "handle_request e fd hdr m st = Some st' \<Longrightarrow> reads st \<le> reads st'"
    using on_login_reads by simp
qed (cases st; auto simp: on_new_order_def on_delete_order_def on_modify_order_def
      Let_def nanotime_clock split: option.splits)+

lemma process_response_reads: "process_response e p st = Some st' \<Longrightarrow> reads st \<le> reads st'"
  by (auto simp: process_response_def dest!: write_msg_to_client_reads split: option.splits if_splits)

lemma process_responses_reads: "process_responses e ps st = Some st' \<Longrightarrow> reads st \<le> reads st'"
proof (induction ps arbitrary: st)
  case (Cons p ps)
  then obtain h s where hs: "process_response e p st = Some (h, s)"
    "process_responses e ps (h\<lparr>hd_from_engine := tl (hd_from_engine h)\<rparr>, s) = Some st'"
    by (auto split: option.splits prod.splits)
  from process_response_reads [OF hs(1)] Cons.IH [OF hs(2)] show ?case by simp
qed simp

end
