(* ===== verification/Oe_Server.thy ===== *)
theory Oe_Server imports
  Handler_Inv
begin

text \<open>
  \<open>order_entry/oe_server.cpp\<close>: the event loop of the order entry server.  One pass takes a batch of
  events from \<open>epoll_wait\<close>, gives what was read to the stream parser, and lets the client handler
  write the engine's responses.  The answers of \<open>accept\<close>, of the calls that set a connection up,
  and of the reads come with the events; only the calls that close a socket are recorded.
\<close>

section \<open>Events\<close>

datatype setup_call = GetFlags | SetNonblocking | SetKeepalive | AddToEpoll

text \<open>How the reads of a readable socket end, after the chunks that were read.\<close>

datatype read_end = ReadWouldBlock | ReadFailed | EndOfFile

datatype event =
    Incoming "sock option" "setup_call option"
  | HangUp sock
  | Readable sock "u8 list list" read_end

datatype server_error = EpollWaitFailed | AcceptFailed | SetupFailed setup_call

type_synonym 'h serving = "(server_error + 'h parser) option"

section \<open>The loop\<close>

definition close_fd :: "sock \<Rightarrow> 'h parser \<Rightarrow> 'h parser" where
  "close_fd fd p = p\<lparr>sp_system := sys_do (CloseCall fd) (sp_system p)\<rparr>"

fun read_chunks :: "env \<Rightarrow> 'h handler_ops \<Rightarrow> sock \<Rightarrow> u8 list list \<Rightarrow> 'h parser \<Rightarrow> 'h parser option" where
  "read_chunks e ops fd [] p = Some p"
| "read_chunks e ops fd (b # bs) p = (case parse_bytes e ops fd b p of
      None \<Rightarrow> None | Some p \<Rightarrow> read_chunks e ops fd bs p)"

fun end_reads :: "'h handler_ops \<Rightarrow> sock \<Rightarrow> read_end \<Rightarrow> 'h parser \<Rightarrow> 'h parser" where
  "end_reads ops fd ReadWouldBlock p = p"
| "end_reads ops fd ReadFailed p = close_fd fd (parser_socket_closed ops fd p)"
| "end_reads ops fd EndOfFile p = parser_socket_closed ops fd (close_fd fd p)"

text \<open>A hang-up ends the loop over the batch: the events after it are not looked at.\<close>

fun handle_events :: "env \<Rightarrow> 'h handler_ops \<Rightarrow> event list \<Rightarrow> 'h parser \<Rightarrow> 'h serving" where
  "handle_events e ops [] p = Some (Inr p)"
| "handle_events e ops (Incoming None f # evs) p = Some (Inl AcceptFailed)"
| "handle_events e ops (Incoming (Some fd) (Some c) # evs) p = Some (Inl (SetupFailed c))"
| "handle_events e ops (Incoming (Some fd) None # evs) p =
     handle_events e ops evs (parser_new_socket fd p)"
| "handle_events e ops (HangUp fd # evs) p =
     Some (Inr (parser_socket_closed ops fd (close_fd fd p)))"
| "handle_events e ops (Readable fd bs en # evs) p = (case read_chunks e ops fd bs p of
      None \<Rightarrow> None | Some p \<Rightarrow> handle_events e ops evs (end_reads ops fd en p))"

text \<open>One turn of the loop; \<open>epoll_wait\<close> failed when there is no batch.\<close>

definition server_pass ::
  "env \<Rightarrow> 'h handler_ops \<Rightarrow> ('h \<times> system \<Rightarrow> ('h \<times> system) option) \<Rightarrow> event list option \<Rightarrow> 'h parser \<Rightarrow> 'h serving"
  where
  "server_pass e ops process batch p = (case batch of
      None \<Rightarrow> Some (Inl EpollWaitFailed)
    | Some evs \<Rightarrow> (case handle_events e ops evs p of
        None \<Rightarrow> None
      | Some (Inl err) \<Rightarrow> Some (Inl err)
      | Some (Inr p) \<Rightarrow> map_option (\<lambda>(h, s). Inr (p\<lparr>sp_handler := h, sp_system := s\<rparr>))
          (process (sp_handler p, sp_system p))))"

definition run_pass :: "env \<Rightarrow> event list option \<Rightarrow> client_handler parser \<Rightarrow> client_handler serving" where
  "run_pass e = server_pass e (client_handler_ops e) (process_handler e)"

section \<open>What the server asks of its handler\<close>

text \<open>
  The template argument of the server: operations on a state of its own and the system.  A handler
  that keeps an invariant in every operation keeps it under everything that arrives on the sockets.
\<close>

locale request_handler =
  fixes ops :: "'h handler_ops"
    and process :: "'h \<times> system \<Rightarrow> ('h \<times> system) option"
    and keeps :: "'h \<times> system \<Rightarrow> bool"
  assumes request_keeps: "keeps st \<Longrightarrow> dispatch ops t fd hdr m st = Some st' \<Longrightarrow> keeps st'"
    and closed_keeps: "keeps st \<Longrightarrow> keeps (ho_on_socket_closed ops fd st)"
    and process_keeps: "keeps st \<Longrightarrow> process st = Some st' \<Longrightarrow> keeps st'"
    and system_keeps: "keeps (h, s) \<Longrightarrow> s_clock_reads s \<le> s_clock_reads s' \<Longrightarrow> keeps (h, s')"
begin

definition parser_keeps :: "'h parser \<Rightarrow> bool" where
  "parser_keeps p \<longleftrightarrow> keeps (sp_handler p, sp_system p)"

lemma fail_keeps: "parser_keeps p \<Longrightarrow> parser_keeps (fail_parse e' fd seq c text p)"
  unfolding parser_keeps_def fail_parse_def
  by (simp add: send_error_msg_def) (erule system_keeps, simp)

lemma parse_loop_keeps:
  assumes "parse_loop e' ops fd now p = Some p'" "parser_keeps p"
  shows "parser_keeps p'"
proof -
  have "ops' = ops \<longrightarrow> parser_keeps p \<longrightarrow> parser_keeps p'"
    if run: "parse_loop e' ops' fd now p = Some p'" for ops' :: "'h handler_ops"
  proof (rule parse_loop.raw_induct [of "\<lambda>e' ops' fd now p p'. ops' = ops \<longrightarrow> parser_keeps p \<longrightarrow> parser_keeps p'",
      OF _ run], goal_cases)
    case (1 loop e' ops' fd now p p')
    let ?buf = "sp_partial p fd"
    let ?h = "oe_request_header_at ?buf"
    show ?case
    proof (intro impI)
      assume ops: "ops' = ops" and p: "parser_keeps p"
      from 1(2) consider "p' = p" | msg where "p' = fail_parse e' fd (rq_seq_num ?h) (rq_client_id ?h) msg p"
        | t hs s ts buf where "dispatch ops' t fd ?h (request_at e' t ?buf) (sp_handler p, sp_system p) = Some (hs, s)"
            "loop e' ops' fd now (p\<lparr>sp_handler := hs, sp_system := s, sp_timestamps := ts,
               sp_partial := buf\<rparr>) = Some p'"
        by (auto simp: Let_def split: if_splits option.splits)
      then show "parser_keeps p'"
      proof cases
        case (3 t hs s ts buf)
        have "keeps (hs, s)" using 3(1) p request_keeps ops by (auto simp: parser_keeps_def)
        with 1(1) [OF 3(2)] ops show ?thesis by (simp add: parser_keeps_def)
      qed (use p fail_keeps in simp_all)
    qed
  qed
  with assms show ?thesis by blast
qed

lemma parse_bytes_keeps:
  assumes "parse_bytes e' ops fd b p = Some p'" "parser_keeps p"
  shows "parser_keeps p'"
proof -
  obtain now s where now: "nanotime e' (sp_system p) = (now, s)" by fastforce
  let ?p = "p\<lparr>sp_system := s, sp_timestamps := (sp_timestamps p)(fd := drop_old now (sp_timestamps p fd))\<rparr>"
  have "keeps (sp_handler p, s)"
    using assms(2) now system_keeps by (auto simp: parser_keeps_def nanotime_clock)
  then have keep: "parser_keeps ?p" "parser_keeps (?p\<lparr>sp_partial := bs\<rparr>)" for bs
    by (simp_all add: parser_keeps_def)
  have run: "(if length (drop_old now (sp_timestamps p fd)) > MAX_MSGS_PER_SECOND
      then Some (fail_parse e' fd 0 0 ''Too many messages per second'' ?p)
      else parse_loop e' ops fd now (?p\<lparr>sp_partial := (sp_partial ?p)(fd := sp_partial ?p fd @ b)\<rparr>))
      = Some p'"
    using assms(1) unfolding parse_bytes_def now Let_def prod.case .
  show ?thesis
  proof (cases "length (drop_old now (sp_timestamps p fd)) > MAX_MSGS_PER_SECOND")
    case True
    with run have "p' = fail_parse e' fd 0 0 ''Too many messages per second'' ?p" by simp
    with fail_keeps [OF keep(1)] show ?thesis by simp
  next
    case False
    with run have "parse_loop e' ops fd now
        (?p\<lparr>sp_partial := (sp_partial ?p)(fd := sp_partial ?p fd @ b)\<rparr>) = Some p'" by (simp only: if_False)
    then show ?thesis using keep(2) by (rule parse_loop_keeps)
  qed
qed

lemma socket_closed_parser_keeps: "parser_keeps p \<Longrightarrow> parser_keeps (parser_socket_closed ops fd p)"
  using closed_keeps [of "(sp_handler p, sp_system p)" fd]
  by (cases "ho_on_socket_closed ops fd (sp_handler p, sp_system p)")
    (simp add: parser_keeps_def parser_socket_closed_def)

lemma close_fd_keeps: "parser_keeps p \<Longrightarrow> parser_keeps (close_fd fd p)"
  unfolding parser_keeps_def close_fd_def by simp (erule system_keeps, simp)

lemma new_socket_keeps: "parser_keeps p \<Longrightarrow> parser_keeps (parser_new_socket fd p)"
  by (simp add: parser_keeps_def parser_new_socket_def)

lemma read_chunks_keeps:
  "read_chunks e' ops fd bs p = Some p' \<Longrightarrow> parser_keeps p \<Longrightarrow> parser_keeps p'"
  by (induction bs arbitrary: p) (auto split: option.splits intro: parse_bytes_keeps)

lemma end_reads_keeps: "parser_keeps p \<Longrightarrow> parser_keeps (end_reads ops fd en p)"
  by (cases en) (simp_all add: socket_closed_parser_keeps close_fd_keeps)

lemma handle_events_keeps:
  "handle_events e' ops evs p = Some (Inr p') \<Longrightarrow> parser_keeps p \<Longrightarrow> parser_keeps p'"
proof (induction evs arbitrary: p)
  case (Cons ev evs)
  show ?case
  proof (cases ev)
    case (Incoming fd c)
    with Cons obtain fd' where "fd = Some fd'" "c = None"
      by (cases fd; cases c) auto
    with Incoming Cons new_socket_keeps show ?thesis by simp
  next
    case (HangUp fd)
    with Cons.prems have "p' = parser_socket_closed ops fd (close_fd fd p)" by simp
    with Cons.prems(2) socket_closed_parser_keeps close_fd_keeps show ?thesis by blast
  next
    case (Readable fd bs en)
    with Cons.prems obtain p1 where "read_chunks e' ops fd bs p = Some p1"
      "handle_events e' ops evs (end_reads ops fd en p1) = Some (Inr p')" by (auto split: option.splits)
    with Cons read_chunks_keeps end_reads_keeps show ?thesis by blast
  qed
qed simp

lemma server_pass_keeps:
  assumes "server_pass e' ops process batch p = Some (Inr p')" "parser_keeps p"
  shows "parser_keeps p'"
proof -
  obtain evs p1 h s where "handle_events e' ops evs p = Some (Inr p1)"
    "process (sp_handler p1, sp_system p1) = Some (h, s)" "p' = p1\<lparr>sp_handler := h, sp_system := s\<rparr>"
    using assms(1) by (auto simp: server_pass_def split: option.splits sum.splits)
  with handle_events_keeps process_keeps assms(2) show ?thesis by (fastforce simp: parser_keeps_def)
qed

end

text \<open>
  The client handler is such a handler twice over: its clock only moves on, and as long as the clock
  gives no reading twice it keeps the invariant of its sessions, its orders and its queue.
\<close>

definition safe_handler :: "env \<Rightarrow> (u32 \<rightharpoonup> symbol_definition) \<Rightarrow> u64 set \<Rightarrow> handling \<Rightarrow> bool" where
  "safe_handler e symbols R st \<longleftrightarrow>
     (fair_iteration e \<and> distinct_times e (snd st) \<longrightarrow> handler_ok e symbols R st)"

definition read_since :: "nat \<Rightarrow> handling \<Rightarrow> bool" where
  "read_since n st \<longleftrightarrow> n \<le> reads st"

lemma dispatch_handle_request:
  "dispatch (client_handler_ops e) t fd hdr m st = Some st' \<Longrightarrow>
   handle_request e fd hdr m st = Some st' \<or> st' = st"
  by (cases t) (auto simp: client_handler_ops_def)

interpretation timed: request_handler "client_handler_ops e" "process_handler e" "read_since n"
  for e n
proof
  show "read_since n st \<Longrightarrow> dispatch (client_handler_ops e) t fd hdr m st = Some st' \<Longrightarrow>
      read_since n st'" for st t fd hdr m st'
    using dispatch_handle_request [of e t fd hdr m st st'] handle_request_reads [of e fd hdr m st st']
    unfolding read_since_def by (metis le_trans)
  show "read_since n st \<Longrightarrow> process_handler e st = Some st' \<Longrightarrow> read_since n st'" for st st'
    using process_responses_reads [of e "hd_from_engine (fst st)" st st']
    unfolding read_since_def process_handler_def by linarith
qed (auto simp: read_since_def client_handler_ops_def)

lemma run_pass_reads: "run_pass e batch p = Some (Inr p') \<Longrightarrow>
    s_clock_reads (sp_system p) \<le> s_clock_reads (sp_system p')"
proof -
  assume run: "run_pass e batch p = Some (Inr p')"
  let ?keeps = "request_handler.parser_keeps (read_since (s_clock_reads (sp_system p)))
    :: client_handler parser \<Rightarrow> bool"
  have "?keeps p" by (simp add: timed.parser_keeps_def read_since_def)
  then have "?keeps p'" by (rule timed.server_pass_keeps [OF run [unfolded run_pass_def]])
  then show ?thesis by (simp add: timed.parser_keeps_def read_since_def)
qed

interpretation entry: request_handler "client_handler_ops e" "process_handler e"
    "safe_handler e symbols R"
  for e symbols R
proof
  show "safe_handler e symbols R st \<Longrightarrow> dispatch (client_handler_ops e) t fd hdr m st = Some st' \<Longrightarrow>
      safe_handler e symbols R st'" for st t fd hdr m st'
    using dispatch_handle_request [of e t fd hdr m st st'] handle_request_keeps [of e st']
      handle_request_reads [of e fd hdr m st st'] distinct_times_mono [of e "snd st'" "snd st"]
    unfolding safe_handler_def by blast
  show "safe_handler e symbols R st \<Longrightarrow>
      safe_handler e symbols R (ho_on_socket_closed (client_handler_ops e) fd st)" for st fd
    using socket_closed_keeps
    by (cases st) (auto simp: safe_handler_def client_handler_ops_def)
  show "safe_handler e symbols R st \<Longrightarrow> process_handler e st = Some st' \<Longrightarrow> safe_handler e symbols R st'"
    for st st'
    using process_responses_keeps [of e symbols R st "hd_from_engine (fst st)" st']
      process_responses_reads [of e "hd_from_engine (fst st)" st st']
      distinct_times_mono [of e "snd st'" "snd st"]
    unfolding safe_handler_def process_handler_def by blast
  show "safe_handler e symbols R (h, s) \<Longrightarrow> s_clock_reads s \<le> s_clock_reads s' \<Longrightarrow>
      safe_handler e symbols R (h, s')" for h s s'
    using clock_keeps [of e symbols R h s s'] distinct_times_mono [of e s' s]
    unfolding safe_handler_def by simp
qed

lemma run_pass_keeps:
  assumes "fair_iteration e" "run_pass e batch p = Some (Inr p')"
    "distinct_times e (sp_system p')" "handler_ok e symbols R (sp_handler p, sp_system p)"
  shows "handler_ok e symbols R (sp_handler p', sp_system p')"
proof -
  let ?keeps = "request_handler.parser_keeps (safe_handler e symbols R)"
  have "?keeps p" using assms(4) by (simp add: entry.parser_keeps_def safe_handler_def)
  then have "?keeps p'" by (rule entry.server_pass_keeps [OF assms(2) [unfolded run_pass_def]])
  then show ?thesis using assms(1,3) by (simp add: entry.parser_keeps_def safe_handler_def)
qed

end
