(* ===== verification/Handler_Props.thy ===== *)
theory Handler_Props imports
  Oe_Server
begin

text \<open>
  What the client handler does for its clients: every request becomes one payload of its client, the
  responses of a session are numbered without a gap, and three ways in which clients get in each
  other's, or their own, way.
\<close>

section \<open>Writing over a prompt network\<close>

lemma encode_oe_response_nonempty [simp]: "encode_oe_response h m \<noteq> []"
  by (metis append_is_Nil_conv encode_oe_response_def length_0_conv length_encode_oe_headers(2)
      zero_neq_numeral)

lemma response_header_at_encode [simp]: "oe_response_header_at (encode_oe_response h m) = h"
  using oe_response_header_at_encode [of h "encode_oe_response_body m"]
  by (simp add: encode_oe_response_def)

definition advance :: "sock \<Rightarrow> session_info \<Rightarrow> client_handler \<Rightarrow> client_handler" where
  "advance fd ss h = h\<lparr>hd_sessions := (hd_sessions h)
     (fd \<mapsto> ss\<lparr>ss_exch_seq_num := ss_exch_seq_num ss + 1\<rparr>)\<rparr>"

lemma write_msg_prompt:
  assumes "prompt e N" "hd_sessions h fd = Some ss" "s_clock_reads s + 2 \<le> N"
  obtains s' where "write_msg e fd m (h, s) = Some (True, advance fd ss h, s')"
    "s_calls s' = s_calls s @ [SendCall fd (encode_oe_response (response_header m ss) m)]"
    "s_clock_reads s' \<le> s_clock_reads s + 2"
proof -
  obtain start s1 where now: "nanotime e s = (start, s1)" by fastforce
  then have "start = clock e (s_clock_reads s)" "s_clock_reads s1 = Suc (s_clock_reads s)"
    by (auto simp: nanotime_clock)
  from send_all_prompt [OF assms(1) this, of fd "encode_oe_response (response_header m ss) m"] assms(3)
  obtain s' where s': "send_all e fd (encode_oe_response (response_header m ss) m) start s1 = Some (True, s')"
    "s_calls s' = s_calls s1 @ [SendCall fd (encode_oe_response (response_header m ss) m)]"
    "s_clock_reads s' \<le> s_clock_reads s + 2" by auto
  have "s_calls s1 = s_calls s" using now by (auto simp: nanotime_clock)
  with s' now assms(2) show thesis
    by (intro that [of s']) (simp_all add: write_msg_def advance_def Let_def)
qed

section \<open>The payload of a request\<close>

fun is_login :: "oe_request \<Rightarrow> bool" where
  "is_login (Login u p) \<longleftrightarrow> True"
| "is_login _ \<longleftrightarrow> False"

text \<open>What is known of the payload that a request of client \<open>c\<close> put into the queue.\<close>

definition answers :: "client_handler \<Rightarrow> sock \<Rightarrow> oe_request_header \<Rightarrow> oe_payload \<Rightarrow> bool" where
  "answers h fd hdr p \<longleftrightarrow> py_client_id p = rq_client_id hdr \<and> py_client_seq p = rq_seq_num hdr \<and>
     (py_msg_type p \<noteq> OE_REJECT \<longrightarrow> validate_session h fd (rq_session_id hdr) (rq_client_id hdr)) \<and>
     (py_msg_type p \<in> {OE_DELETE_ORDER, OE_MODIFY_ORDER} \<longrightarrow>
        (\<exists>i. hd_exch_orders h (py_exch_order_id p)
           = Some \<lparr>eo_client_id = rq_client_id hdr, eo_order_id = i\<rparr>))"

lemma answers_reject: "answers h fd hdr
    (payload OE_REJECT i 0 (rq_seq_num hdr) (rq_client_id hdr) BUY 0 (I32 0) r)"
  by (simp add: answers_def)

definition queues_one :: "client_handler \<Rightarrow> sock \<Rightarrow> oe_request_header \<Rightarrow> client_handler \<Rightarrow> bool" where
  "queues_one h fd hdr h' \<longleftrightarrow> (\<exists>p. hd_to_engine h' = hd_to_engine h @ [p] \<and> answers h fd hdr p)"

lemma queues_reject:
  "hd_to_engine h1 = hd_to_engine h \<Longrightarrow>
   queues_one h fd hdr (send_order_reject (rq_seq_num hdr) (rq_client_id hdr) r i h1)"
  unfolding queues_one_def by (simp add: send_order_reject_def to_engine_def answers_reject)

lemma new_order_queues:
  "queues_one h fd hdr (fst (on_new_order e fd hdr i y sd q p f (h, s)))"
proof (cases "validate_session h fd (rq_session_id hdr) (rq_client_id hdr) \<and>
      validate_new_order (hd_symbols h) i y sd q p f = NoReject \<and>
      map_of (open_orders_of h (rq_client_id hdr)) i = None")
  case True
  then show ?thesis
    by (simp add: on_new_order_def Let_def nanotime_clock to_engine_def queues_one_def answers_def)
next
  case False
  then show ?thesis
    by (auto simp: on_new_order_def Let_def intro!: queues_reject)
qed

lemma delete_order_queues:
  assumes "orders_ok h"
  shows "queues_one h fd hdr (fst (on_delete_order fd hdr i (h, s)))"
proof -
  have "queues_one h fd hdr (to_engine (delete_payload (rq_seq_num hdr) (rq_client_id hdr) oo) h)"
    if "map_of (open_orders_of h (rq_client_id hdr)) i = Some oo"
      "validate_session h fd (rq_session_id hdr) (rq_client_id hdr)" for oo
    using open_order_known(1) [OF assms that(1)] that(2)
    by (simp add: queues_one_def to_engine_def answers_def)
  then show ?thesis
    by (auto simp: on_delete_order_def Let_def intro!: queues_reject split: option.split)
qed

lemma modify_order_queues:
  assumes "orders_ok h"
  shows "queues_one h fd hdr (fst (on_modify_order fd hdr i sd q p (h, s)))"
proof -
  have "queues_one h fd hdr (to_engine (payload OE_MODIFY_ORDER (oo_exch_order_id oo) (oo_symbol oo)
      (rq_seq_num hdr) (rq_client_id hdr) sd q p 0) h)"
    if "map_of (open_orders_of h (rq_client_id hdr)) i = Some oo"
      "validate_session h fd (rq_session_id hdr) (rq_client_id hdr)" for oo
    using open_order_known(1) [OF assms that(1)] that(2)
    by (simp add: queues_one_def to_engine_def answers_def)
  then show ?thesis
    by (auto simp: on_modify_order_def Let_def intro!: queues_reject split: option.split)
qed

text \<open>C17: an order request puts exactly one payload into the engine's queue, under the client id and
  sequence number of its header.  Only a request with a valid session gets anything but a reject, and
  a deletion or modification that reaches the engine names an exchange order of that client.\<close>

theorem request_queues_own_payload:
  assumes "orders_ok h" "\<not> is_login m" "handle_request e fd hdr m (h, s) = Some (h', s')"
  shows "\<exists>p. hd_to_engine h' = hd_to_engine h @ [p] \<and>
    py_client_id p = rq_client_id hdr \<and> py_client_seq p = rq_seq_num hdr \<and>
    (py_msg_type p \<noteq> OE_REJECT \<longrightarrow> validate_session h fd (rq_session_id hdr) (rq_client_id hdr)) \<and>
    (py_msg_type p \<in> {OE_DELETE_ORDER, OE_MODIFY_ORDER} \<longrightarrow>
       (\<exists>i. hd_exch_orders h (py_exch_order_id p)
          = Some \<lparr>eo_client_id = rq_client_id hdr, eo_order_id = i\<rparr>))"
proof -
  have "queues_one h fd hdr (fst (the (handle_request e fd hdr m (h, s))))"
    using assms(1,2) new_order_queues delete_order_queues modify_order_queues by (cases m) simp_all
  then show ?thesis using assms(3) by (simp add: queues_one_def answers_def)
qed

text \<open>A handler with one client, for the witnesses.\<close>

definition client_session :: session_info where
  "client_session = \<lparr>ss_session_id = 9, ss_client_id = 1, ss_last_seq_num = 0, ss_exch_seq_num = 5\<rparr>"

definition one_client :: client_handler where
  "one_client = (new_handler (symbols_map exchange_symbols)
     [[98] \<mapsto> \<lparr>ui_username = [98], ui_password = [112], ui_client_id = 2\<rparr>,
      [97] \<mapsto> \<lparr>ui_username = [97], ui_password = [112], ui_client_id = 1\<rparr>])
     \<lparr>hd_sessions := [6 \<mapsto> client_session], hd_sock_of := [1 \<mapsto> 6],
      hd_open_orders := [1 \<mapsto> [(5, \<lparr>oo_exch_order_id = 70, oo_symbol = 2\<rparr>)]],
      hd_exch_orders := [70 \<mapsto> \<lparr>eo_client_id = 1, eo_order_id = 5\<rparr>]\<rparr>"

lemma exchange_symbol_2: "symbols_map exchange_symbols 2 \<noteq> None"
  by (simp add: symbols_map_def exchange_symbols_def mk_symbol_def)

lemma one_client_ok: "orders_ok one_client"
  using exchange_symbol_2
  by (simp add: orders_ok_def one_client_def new_handler_def open_orders_of_def entry_ok_def)

theorem request_queues_own_payload_witness:
  "\<exists>h' s' p. handle_request calm_env 6 delete_header (OeDeleteOrder 5) (one_client, no_calls) = Some (h', s') \<and>
    hd_to_engine h' = [p] \<and> py_msg_type p = OE_DELETE_ORDER \<and> py_client_id p = 1 \<and>
    (\<exists>i. hd_exch_orders one_client (py_exch_order_id p) = Some \<lparr>eo_client_id = 1, eo_order_id = i\<rparr>)"
proof -
  have run: "handle_request calm_env 6 delete_header (OeDeleteOrder 5) (one_client, no_calls)
      = Some (to_engine (delete_payload 1 1 \<lparr>oo_exch_order_id = 70, oo_symbol = 2\<rparr>) one_client, no_calls)"
    by (simp add: on_delete_order_def delete_header_def validate_session_def one_client_def
        new_handler_def client_session_def open_orders_of_def)
  show ?thesis
    using request_queues_own_payload [OF one_client_ok _ run] run
    by (simp add: to_engine_def one_client_def new_handler_def delete_header_def)
qed

section \<open>The numbers of a session's messages\<close>

fun sent_on :: "sock \<Rightarrow> sys_call \<Rightarrow> u8 list option" where
  "sent_on fd (SendCall fd' b) = (if fd' = fd then Some b else None)"
| "sent_on fd _ = None"

definition messages_on :: "sock \<Rightarrow> system \<Rightarrow> u8 list list" where
  "messages_on fd s = List.map_filter (sent_on fd) (s_calls s)"

fun numbered_from :: "u32 \<Rightarrow> u8 list list \<Rightarrow> bool" where
  "numbered_from n [] \<longleftrightarrow> True"
| "numbered_from n (b # bs) \<longleftrightarrow> rs_seq_num (oe_response_header_at b) = n \<and> numbered_from (n + 1) bs"

lemma numbered_append: "numbered_from n (bs @ bs') \<longleftrightarrow>
    numbered_from n bs \<and> numbered_from (n + of_nat (length bs)) bs'"
  by (induction bs arbitrary: n) (simp_all add: algebra_simps)

text \<open>Some messages went out on a socket, and its session's number moved on with them.\<close>

definition continues :: "sock \<Rightarrow> handling \<Rightarrow> handling \<Rightarrow> bool" where
  "continues fd st st' \<longleftrightarrow> (\<forall>ss. hd_sessions (fst st) fd = Some ss \<longrightarrow>
     (\<exists>bs ss'. messages_on fd (snd st') = messages_on fd (snd st) @ bs \<and>
        hd_sessions (fst st') fd = Some ss' \<and> ss_client_id ss' = ss_client_id ss \<and>
        numbered_from (ss_exch_seq_num ss) bs \<and>
        ss_exch_seq_num ss' = ss_exch_seq_num ss + of_nat (length bs)))"

lemma continues_refl: "hd_sessions (fst st') = hd_sessions (fst st) \<Longrightarrow>
    s_calls (snd st') = s_calls (snd st) \<Longrightarrow> continues fd st st'"
  unfolding continues_def messages_on_def by (auto intro!: exI [of _ "[]"])

lemma continues_trans:
  assumes "continues fd st st1" "continues fd st1 st2"
  shows "continues fd st st2"
  unfolding continues_def
proof (intro allI impI)
  fix ss assume "hd_sessions (fst st) fd = Some ss"
  then obtain bs ss1 where 1: "messages_on fd (snd st1) = messages_on fd (snd st) @ bs"
    "hd_sessions (fst st1) fd = Some ss1" "ss_client_id ss1 = ss_client_id ss"
    "numbered_from (ss_exch_seq_num ss) bs"
    "ss_exch_seq_num ss1 = ss_exch_seq_num ss + of_nat (length bs)"
    using assms(1) unfolding continues_def by blast
  then obtain bs' ss2 where 2: "messages_on fd (snd st2) = messages_on fd (snd st1) @ bs'"
    "hd_sessions (fst st2) fd = Some ss2" "ss_client_id ss2 = ss_client_id ss1"
    "numbered_from (ss_exch_seq_num ss1) bs'"
    "ss_exch_seq_num ss2 = ss_exch_seq_num ss1 + of_nat (length bs')"
    using assms(2) unfolding continues_def by blast
  show "\<exists>bs ss'. messages_on fd (snd st2) = messages_on fd (snd st) @ bs \<and>
        hd_sessions (fst st2) fd = Some ss' \<and> ss_client_id ss' = ss_client_id ss \<and>
        numbered_from (ss_exch_seq_num ss) bs \<and>
        ss_exch_seq_num ss' = ss_exch_seq_num ss + of_nat (length bs)"
    by (rule exI [of _ "bs @ bs'"], rule exI [of _ ss2])
      (use 1 2 in \<open>simp add: numbered_append algebra_simps\<close>)
qed

definition served_session :: "sock \<Rightarrow> u32 \<Rightarrow> client_handler \<Rightarrow> session_info \<Rightarrow> client_handler" where
  "served_session fd seq h ss = advance fd (ss\<lparr>ss_last_seq_num := seq\<rparr>) (update_last_seq_num fd seq h)"

text \<open>Over a prompt network a message to a client is one call, on the client's own socket.\<close>

lemma write_msg_to_client_prompt:
  assumes "prompt e N" "hd_sock_of h c = Some fd" "hd_sessions h fd = Some ss" "s_clock_reads s + 2 \<le> N"
  obtains s' where "write_msg_to_client e c seq m (h, s) = Some (served_session fd seq h ss, s')"
    "s_calls s' = s_calls s
       @ [SendCall fd (encode_oe_response (response_header m (ss\<lparr>ss_last_seq_num := seq\<rparr>)) m)]"
    "s_clock_reads s' \<le> s_clock_reads s + 2"
proof -
  let ?h = "update_last_seq_num fd seq h" and ?ss = "ss\<lparr>ss_last_seq_num := seq\<rparr>"
  have "hd_sessions ?h fd = Some ?ss" using assms(3) by (simp add: update_last_seq_num_def)
  from write_msg_prompt [OF assms(1) this assms(4), of m] obtain s' where
    "write_msg e fd m (?h, s) = Some (True, advance fd ?ss ?h, s')"
    "s_calls s' = s_calls s @ [SendCall fd (encode_oe_response (response_header m ?ss) m)]"
    "s_clock_reads s' \<le> s_clock_reads s + 2" .
  then show thesis using assms(2)
    by (intro that [of s']) (simp_all add: write_msg_to_client_def served_session_def)
qed

lemma served_session_fields [simp]:
  "hd_sessions h fd = Some ss \<Longrightarrow> hd_sessions (served_session fd seq h ss)
     = (hd_sessions h)(fd \<mapsto> ss\<lparr>ss_last_seq_num := seq, ss_exch_seq_num := ss_exch_seq_num ss + 1\<rparr>)"
  "hd_sock_of (served_session fd seq h ss) = hd_sock_of h"
  "hd_exch_orders (served_session fd seq h ss) = hd_exch_orders h"
  "hd_open_orders (served_session fd seq h ss) = hd_open_orders h"
  "hd_from_engine (served_session fd seq h ss) = hd_from_engine h"
  by (simp_all add: served_session_def advance_def update_last_seq_num_def split: option.split)

definition live_clients :: "client_handler \<Rightarrow> bool" where
  "live_clients h \<longleftrightarrow> (\<forall>c fd. hd_sock_of h c = Some fd \<longrightarrow> hd_sessions h fd \<noteq> None)"

lemma write_msg_to_client_continues:
  assumes "prompt e N" "live_clients h" "s_clock_reads s + 2 \<le> N"
  obtains h' s' where "write_msg_to_client e c seq m (h, s) = Some (h', s')"
    "continues fd (h, s) (h', s')" "live_clients h'" "hd_exch_orders h' = hd_exch_orders h"
    "s_clock_reads s' \<le> s_clock_reads s + 2" "hd_from_engine h' = hd_from_engine h"
proof (cases "hd_sock_of h c")
  case None
  with assms(2) show thesis
    by (intro that [of h s]) (simp_all add: write_msg_to_client_def continues_refl)
next
  case (Some fd')
  then obtain ss where ss: "hd_sessions h fd' = Some ss" using assms(2) unfolding live_clients_def by blast
  obtain s' where s': "write_msg_to_client e c seq m (h, s) = Some (served_session fd' seq h ss, s')"
    "s_calls s' = s_calls s
       @ [SendCall fd' (encode_oe_response (response_header m (ss\<lparr>ss_last_seq_num := seq\<rparr>)) m)]"
    "s_clock_reads s' \<le> s_clock_reads s + 2"
    by (rule write_msg_to_client_prompt [OF assms(1) Some ss assms(3)])
  let ?b = "encode_oe_response (response_header m (ss\<lparr>ss_last_seq_num := seq\<rparr>)) m"
  have "continues fd (h, s) (served_session fd' seq h ss, s')"
  proof (cases "fd' = fd")
    case True
    have "messages_on fd s' = messages_on fd s @ [?b]"
      using s'(2) True by (simp add: messages_on_def map_filter_def)
    then show ?thesis using True ss
      by (auto simp: continues_def response_header_def intro!: exI [of _ "[?b]"])
  next
    case False
    have "messages_on fd s' = messages_on fd s @ []"
      using s'(2) False by (simp add: messages_on_def map_filter_def)
    then show ?thesis using False ss
      by (auto simp: continues_def intro!: exI [of _ "[]"])
  qed
  moreover have "live_clients (served_session fd' seq h ss)"
    using assms(2) ss by (auto simp: live_clients_def)
  ultimately show thesis by (intro that [OF s'(1)]) (use s'(3) ss in simp_all)
qed

lemma process_response_continues:
  assumes "prompt e N" "live_clients h" "s_clock_reads s + 2 \<le> N"
  obtains h' s' where "process_response e p (h, s) = Some (h', s')"
    "continues fd (h, s) (h', s')" "live_clients h'" "s_clock_reads s' \<le> s_clock_reads s + 2"
proof (cases "py_msg_type p = OE_REJECT")
  case True
  show thesis
  proof (cases "hd_sock_of h (py_client_id p)")
    case None
    with True assms(2) show thesis
      by (intro that [of h s]) (simp_all add: process_response_def continues_refl)
  next
    case (Some fd')
    obtain h' s' where "write_msg_to_client e (py_client_id p) (py_client_seq p)
        (OrderReject (py_exch_order_id p) (py_flags p)) (h, s) = Some (h', s')"
      "continues fd (h, s) (h', s')" "live_clients h'" "s_clock_reads s' \<le> s_clock_reads s + 2"
      by (rule write_msg_to_client_continues [OF assms])
    with True Some show thesis by (intro that) (simp_all add: process_response_def)
  qed
next
  case False
  show thesis
  proof (cases "hd_exch_orders h (py_exch_order_id p)")
    case None
    with False assms(2) show thesis
      by (intro that [of h s]) (simp_all add: process_response_def continues_refl)
  next
    case (Some eo)
    show thesis
    proof (cases "response_to p eo")
      case None
      with Some False assms(2) show thesis
        by (intro that [of h s]) (simp_all add: process_response_def continues_refl)
    next
      case (Some m)
      obtain h' s' where w: "write_msg_to_client e (eo_client_id eo) (py_client_seq p) m (h, s) = Some (h', s')"
        "continues fd (h, s) (h', s')" "live_clients h'" "s_clock_reads s' \<le> s_clock_reads s + 2"
        by (rule write_msg_to_client_continues [OF assms])
      let ?h = "if ends_order p then forget_order (eo_client_id eo) (eo_order_id eo)
        (py_exch_order_id p) h' else h'"
      have same: "hd_sessions ?h = hd_sessions h'" "hd_sock_of ?h = hd_sock_of h'"
        by (simp_all add: forget_order_def)
      have "continues fd (h', s') (?h, s')" by (rule continues_refl) (use same in simp_all)
      with w(2) have "continues fd (h, s) (?h, s')" by (rule continues_trans)
      moreover have "live_clients ?h" using w(3) same unfolding live_clients_def by simp
      moreover have "process_response e p (h, s) = Some (?h, s')"
        using False \<open>hd_exch_orders h (py_exch_order_id p) = Some eo\<close> Some w(1)
        by (simp add: process_response_def)
      ultimately show thesis using w(4) by (intro that) simp_all
    qed
  qed
qed

lemma process_responses_continues:
  "prompt e N \<Longrightarrow> live_clients h \<Longrightarrow> s_clock_reads s + 2 * length ps \<le> N \<Longrightarrow>
   \<exists>h' s'. process_responses e ps (h, s) = Some (h', s') \<and> continues fd (h, s) (h', s') \<and> live_clients h'"
proof (induction ps arbitrary: h s)
  case Nil
  then show ?case by (simp add: continues_refl)
next
  case (Cons p ps)
  have "s_clock_reads s + 2 \<le> N" using Cons.prems(3) by simp
  then obtain h1 s1 where 1: "process_response e p (h, s) = Some (h1, s1)"
    "continues fd (h, s) (h1, s1)" "live_clients h1" "s_clock_reads s1 \<le> s_clock_reads s + 2"
    by (rule process_response_continues [OF Cons.prems(1,2)])
  let ?h = "h1\<lparr>hd_from_engine := tl (hd_from_engine h1)\<rparr>"
  have "live_clients ?h" using 1(3) by (simp add: live_clients_def)
  moreover have "s_clock_reads s1 + 2 * length ps \<le> N" using 1(4) Cons.prems(3) by simp
  ultimately obtain h' s' where 2:
    "process_responses e ps (?h, s1) = Some (h', s')" "continues fd (?h, s1) (h', s')" "live_clients h'"
    using Cons.IH [OF Cons.prems(1), of ?h s1] by blast
  have "continues fd (h1, s1) (?h, s1)" by (rule continues_refl) simp_all
  with 1(2) 2(2) have "continues fd (h, s) (h', s')" using continues_trans by blast
  with 1(1) 2 show ?case by simp
qed

text \<open>C18: as long as the sockets take what is sent, and no two readings of the clock in a row, among
  those that are made, are more than the ten milliseconds of the timeout apart, the handler works
  off the engine's whole queue, and the messages it sends to a session carry consecutive sequence
  numbers, starting at the session's.\<close>

theorem responses_are_numbered:
  assumes "prompt e (s_clock_reads s + 2 * length (hd_from_engine h))" "live_clients h" "hd_sessions h fd = Some ss"
  shows "\<exists>h' s' bs ss'. process_handler e (h, s) = Some (h', s') \<and>
    messages_on fd s' = messages_on fd s @ bs \<and> numbered_from (ss_exch_seq_num ss) bs \<and>
    hd_sessions h' fd = Some ss' \<and> ss_exch_seq_num ss' = ss_exch_seq_num ss + of_nat (length bs)"
proof -
  obtain h' s' where "process_handler e (h, s) = Some (h', s')" "continues fd (h, s) (h', s')"
    using process_responses_continues [OF assms(1,2) order.refl, of fd]
    by (auto simp: process_handler_def)
  with assms(3) show ?thesis by (fastforce simp: continues_def)
qed

lemma prompt_mono: "prompt e N \<Longrightarrow> n \<le> N \<Longrightarrow> prompt e n"
  by (simp add: prompt_def)

lemma calm_at_start: "prompt calm_env (s_clock_reads no_calls + 2)"
  by (rule prompt_mono [OF calm_prompt]) (simp add: no_calls_def)

lemma one_client_live: "live_clients (one_client\<lparr>hd_from_engine := ps\<rparr>)"
  by (simp add: live_clients_def one_client_def new_handler_def)

theorem responses_are_numbered_witness:
  "\<exists>h' s' bs. process_handler calm_env (one_client\<lparr>hd_from_engine :=
      [payload OE_ACK 70 2 1 1 BUY 5 (I32 100) 0, payload OE_CLOSE 70 0 2 1 BUY 0 (I32 0) 0]\<rparr>, no_calls)
      = Some (h', s') \<and> messages_on 6 s' = bs \<and> numbered_from 5 bs"
proof -
  let ?ps = "[payload OE_ACK 70 2 1 1 BUY 5 (I32 100) 0, payload OE_CLOSE 70 0 2 1 BUY 0 (I32 0) 0]"
  let ?h = "one_client\<lparr>hd_from_engine := ?ps\<rparr>"
  have "hd_sessions ?h 6 = Some client_session" by (simp add: one_client_def)
  moreover have "messages_on 6 no_calls = []" by (simp add: messages_on_def no_calls_def map_filter_def)
  moreover have "prompt calm_env (s_clock_reads no_calls + 2 * length (hd_from_engine ?h))"
    by (rule prompt_mono [OF calm_prompt]) (simp add: no_calls_def)
  ultimately show ?thesis
    using responses_are_numbered [OF _ one_client_live, of calm_env no_calls ?ps 6 client_session]
    by (auto simp: client_session_def)
qed

section \<open>Clients in each other's way\<close>

text \<open>Nothing ties a reject to the connection that caused it: a connection that never logged in
  and names another client in its header makes the server write a reject to that client's socket,
  and take the stranger's sequence number for the client's last one.\<close>

theorem stranger_reaches_client:
  assumes "prompt e (s_clock_reads s + 2)" "hd_sessions h fd = None" "hd_sock_of h (rq_client_id hdr) = Some fd'"
    "hd_sessions h fd' = Some ss"
  shows "\<exists>p h' s'. hd_to_engine (fst (on_delete_order fd hdr i (h, s))) = hd_to_engine h @ [p] \<and>
    py_msg_type p = OE_REJECT \<and> process_response e p (h, s) = Some (h', s') \<and>
    length (messages_on fd' s') = length (messages_on fd' s) + 1 \<and>
    (\<exists>ss'. hd_sessions h' fd' = Some ss' \<and> ss_last_seq_num ss' = rq_seq_num hdr)"
proof -
  let ?p = "payload OE_REJECT i 0 (rq_seq_num hdr) (rq_client_id hdr) BUY 0 (I32 0)
    (reject_code UnknownSessionId)"
  have queued: "hd_to_engine (fst (on_delete_order fd hdr i (h, s))) = hd_to_engine h @ [?p]"
    using assms(2) by (simp add: on_delete_order_def validate_session_def send_order_reject_def to_engine_def)
  obtain s' where s': "write_msg_to_client e (rq_client_id hdr) (rq_seq_num hdr)
      (OrderReject i (reject_code UnknownSessionId)) (h, s)
      = Some (served_session fd' (rq_seq_num hdr) h ss, s')"
    "s_calls s' = s_calls s @ [SendCall fd' (encode_oe_response (response_header
      (OrderReject i (reject_code UnknownSessionId)) (ss\<lparr>ss_last_seq_num := rq_seq_num hdr\<rparr>))
      (OrderReject i (reject_code UnknownSessionId)))]"
    by (rule write_msg_to_client_prompt [OF assms(1,3,4) order.refl])
  have "process_response e ?p (h, s) = Some (served_session fd' (rq_seq_num hdr) h ss, s')"
    using s'(1) assms(3) by (simp add: process_response_def)
  moreover have "length (messages_on fd' s') = length (messages_on fd' s) + 1"
    using s'(2) by (simp add: messages_on_def map_filter_def)
  moreover have "\<exists>ss'. hd_sessions (served_session fd' (rq_seq_num hdr) h ss) fd' = Some ss' \<and>
      ss_last_seq_num ss' = rq_seq_num hdr" using assms(4) by simp
  ultimately show ?thesis
    using queued by (intro exI [of _ ?p] exI [of _ "served_session fd' (rq_seq_num hdr) h ss"]
        exI [of _ s']) simp
qed

theorem stranger_reaches_client_witness:
  "\<exists>p h' s'. hd_to_engine (fst (on_delete_order 8 delete_header 5 (one_client, no_calls))) = [p] \<and>
    process_response calm_env p (one_client, no_calls) = Some (h', s') \<and>
    length (messages_on 6 s') = 1"
proof -
  have "messages_on 6 no_calls = []" by (simp add: messages_on_def no_calls_def map_filter_def)
  moreover have "hd_sessions one_client 8 = None" "hd_sessions one_client 6 = Some client_session"
    "hd_sock_of one_client (rq_client_id delete_header) = Some 6" "hd_to_engine one_client = []"
    by (simp_all add: one_client_def new_handler_def delete_header_def)
  ultimately show ?thesis
    using stranger_reaches_client [OF calm_at_start, of one_client 8 delete_header 6 client_session 5]
    by auto
qed

text \<open>One socket may log two clients in, and the second session replaces the first.  When the
  socket closes, the first client's entry stays behind without a session, and from then on every
  connection on which that client logs in with its right password is closed.\<close>

theorem second_login_locks_first_out:
  assumes "prompt e (s_clock_reads s + 2)" "hd_sock_of h c = Some fd" "hd_sock_of h (rq_client_id hdr) = None"
    "check_login h (c_str u) (c_str p) (rq_client_id hdr) = LoginSuccess"
  shows "\<exists>h1 s1. on_login e fd hdr u p (h, s) = Some (h1, s1) \<and>
    (\<forall>fd' hdr' u' p' s'. fd' \<noteq> fd \<and> rq_client_id hdr' = c \<and>
        check_login h (c_str u') (c_str p') c = LoginSuccess \<longrightarrow>
      on_login e fd' hdr' u' p' (on_socket_closed e fd h1, s')
        = Some (on_socket_closed e fd h1, shutdown_close fd' s'))"
proof -
  let ?c = "rq_client_id hdr"
  let ?ss = "\<lparr>ss_session_id = env_random e (hd_draws h), ss_client_id = ?c,
      ss_last_seq_num = rq_seq_num hdr, ss_exch_seq_num = 0\<rparr>"
  let ?h = "h\<lparr>hd_draws := hd_draws h + 1, hd_sessions := (hd_sessions h)(fd \<mapsto> ?ss),
      hd_sock_of := (hd_sock_of h)(?c \<mapsto> fd)\<rparr>"
  have c: "c \<noteq> ?c" using assms(2,3) by auto
  have "hd_sessions ?h fd = Some ?ss" by simp
  from write_msg_prompt [OF assms(1) this order.refl, of "LoginResponse (env_random e (hd_draws h))
      (login_code LoginSuccess)"] obtain s1 where
    w: "write_msg e fd (LoginResponse (env_random e (hd_draws h)) (login_code LoginSuccess)) (?h, s)
      = Some (True, advance fd ?ss ?h, s1)" .
  let ?h1 = "advance fd ?ss ?h"
  have login: "on_login e fd hdr u p (h, s) = Some (?h1, s1)"
    using w assms(3,4) by (simp add: on_login_def new_session_def Let_def)
  have h1: "hd_sessions ?h1 fd = Some (?ss\<lparr>ss_exch_seq_num := 1\<rparr>)"
    "hd_sock_of ?h1 = (hd_sock_of h)(?c \<mapsto> fd)" "hd_users ?h1 = hd_users h"
    by (simp_all add: advance_def)
  let ?h2 = "on_socket_closed e fd ?h1"
  have h2: "hd_sessions ?h2 fd = None" "hd_sock_of ?h2 c = Some fd" "hd_users ?h2 = hd_users h"
    using h1 c assms(2)
    by (simp_all add: on_socket_closed_def Let_def cancel_all_client_orders_def split: option.split)
  have "on_login e fd' hdr' u' p' (?h2, s') = Some (?h2, shutdown_close fd' s')"
    if "fd' \<noteq> fd" "rq_client_id hdr' = c" "check_login h (c_str u') (c_str p') c = LoginSuccess"
    for fd' hdr' u' p' s'
  proof -
    have "check_login ?h2 (c_str u') (c_str p') c = LoginSuccess"
      using that(3) h2(3) by (simp add: check_login_def)
    with that(1,2) h2(1,2) show ?thesis by (simp add: on_login_def Let_def)
  qed
  with login show ?thesis by blast
qed

definition login_header :: "u32 \<Rightarrow> oe_request_header" where
  "login_header c = \<lparr>rq_length = 52, rq_msg_type = 99, rq_version = 1, rq_seq_num = 1,
     rq_client_id = c, rq_session_id = 0\<rparr>"

definition name_field :: "u8 \<Rightarrow> u8 list" where
  "name_field b = b # replicate 15 0"

theorem second_login_locks_first_out_witness:
  "\<exists>h1 s1. on_login calm_env 6 (login_header 2) (name_field 98) (name_field 112) (one_client, no_calls)
      = Some (h1, s1) \<and>
    on_login calm_env 7 (login_header 1) (name_field 97) (name_field 112)
      (on_socket_closed calm_env 6 h1, no_calls)
      = Some (on_socket_closed calm_env 6 h1, shutdown_close 7 no_calls)"
proof -
  have name: "c_str (name_field b) = [b]" if "b \<noteq> 0" for b using that
    by (simp add: c_str_def name_field_def)
  have "hd_sock_of one_client 1 = Some 6" "hd_sock_of one_client (rq_client_id (login_header 2)) = None"
    by (simp_all add: one_client_def login_header_def)
  moreover have "check_login one_client (c_str (name_field 98)) (c_str (name_field 112))
      (rq_client_id (login_header 2)) = LoginSuccess"
    "check_login one_client (c_str (name_field 97)) (c_str (name_field 112)) 1 = LoginSuccess"
    by (simp_all add: name check_login_def one_client_def new_handler_def login_header_def)
  ultimately show ?thesis
    using second_login_locks_first_out [OF calm_at_start, of one_client 1 6 "login_header 2"
        "name_field 98" "name_field 112"]
    by (fastforce simp: login_header_def)
qed

text \<open>A client's orders are forgotten when its connection closes, but the map from the
  exchange's ids keeps them until the engine has closed them.  When the client has reconnected and
  used an order id again, the close of the old order makes the handler forget the new one: it still
  rests, but the client's requests to delete it are rejected as unknown.\<close>

theorem stale_close_forgets_new_order:
  assumes "prompt e (s_clock_reads s + 2)" "live_clients h" "py_msg_type p = OE_CLOSE"
    "hd_exch_orders h (py_exch_order_id p) = Some \<lparr>eo_client_id = c, eo_order_id = i\<rparr>"
    "map_of (open_orders_of h c) i = Some oo" "oo_exch_order_id oo \<noteq> py_exch_order_id p"
    "hd_exch_orders h (oo_exch_order_id oo) = Some \<lparr>eo_client_id = c, eo_order_id = i\<rparr>"
  shows "\<exists>h' s'. process_response e p (h, s) = Some (h', s') \<and>
    hd_exch_orders h' (oo_exch_order_id oo) = Some \<lparr>eo_client_id = c, eo_order_id = i\<rparr> \<and>
    (\<forall>fd hdr. rq_client_id hdr = c \<and> validate_session h' fd (rq_session_id hdr) c \<longrightarrow>
      on_delete_order fd hdr i (h', s')
        = (send_order_reject (rq_seq_num hdr) c UnknownOrderId i h', s'))"
proof -
  obtain h1 s1 where w: "write_msg_to_client e c (py_client_seq p) (OrderClosed i) (h, s) = Some (h1, s1)"
    "hd_exch_orders h1 = hd_exch_orders h" by (rule write_msg_to_client_continues [OF assms(1,2) order.refl])
  let ?h = "forget_order c i (py_exch_order_id p) h1"
  have "process_response e p (h, s) = Some (?h, s1)"
    using w(1) assms(3,4) by (simp add: process_response_def response_to_def ends_order_def)
  moreover have "hd_exch_orders ?h (oo_exch_order_id oo) = Some \<lparr>eo_client_id = c, eo_order_id = i\<rparr>"
    using w(2) assms(6,7) by (simp add: forget_order_def)
  moreover have "map_of (open_orders_of ?h c) i = None"
    by (auto simp: forget_order_def open_orders_of_def map_of_eq_None_iff)
  ultimately show ?thesis
    by (intro exI [of _ ?h] exI [of _ s1]) (simp add: on_delete_order_def)
qed

text \<open>Such a state comes about by a new order, a closed connection, a login and a new order.\<close>

definition order_header :: "oe_request_header" where
  "order_header = \<lparr>rq_length = 42, rq_msg_type = 1, rq_version = 1, rq_seq_num = 2,
     rq_client_id = 1, rq_session_id = 9\<rparr>"

definition reconnected :: handling where
  "reconnected =
    (let h = one_client\<lparr>hd_open_orders := Map.empty, hd_exch_orders := Map.empty\<rparr>;
         (h, s) = on_new_order calm_env 6 order_header 5 2 BUY 10 (I32 100) 0 (h, no_calls);
         h = on_socket_closed calm_env 6 h;
         h = h\<lparr>hd_sessions := [7 \<mapsto> client_session], hd_sock_of := [1 \<mapsto> 7]\<rparr>
     in on_new_order calm_env 7 order_header 5 2 BUY 10 (I32 100) 0 (h, s))"

lemma validates_example: "validate_new_order (symbols_map exchange_symbols) 5 2 BUY 10 (I32 100) 0 = NoReject"
  by (simp add: validate_new_order_def symbols_map_def exchange_symbols_def mk_symbol_def
      less_i32_def i32_val_of_int)

lemma reconnected_state:
  "hd_exch_orders (fst reconnected) 0 = Some \<lparr>eo_client_id = 1, eo_order_id = 5\<rparr>"
  "hd_exch_orders (fst reconnected) 1 = Some \<lparr>eo_client_id = 1, eo_order_id = 5\<rparr>"
  "map_of (open_orders_of (fst reconnected) 1) 5 = Some \<lparr>oo_exch_order_id = 1, oo_symbol = 2\<rparr>"
  "live_clients (fst reconnected)"
  using validates_example
  by (simp_all add: reconnected_def on_new_order_def one_client_def new_handler_def order_header_def
      validate_session_def client_session_def open_orders_of_def to_engine_def nanotime_def calm_env_def
      no_calls_def nanoseconds_def on_socket_closed_def cancel_all_client_orders_def live_clients_def)

lemma reconnected_reads: "s_clock_reads (snd reconnected) + 2 \<le> 2 ^ 53"
  using validates_example
  by (simp add: reconnected_def on_new_order_def one_client_def new_handler_def order_header_def
      validate_session_def client_session_def open_orders_of_def to_engine_def nanotime_def calm_env_def
      no_calls_def on_socket_closed_def cancel_all_client_orders_def)

theorem stale_close_forgets_new_order_witness:
  "\<exists>h' s'. process_response calm_env (payload OE_CLOSE 0 0 2 1 BUY 0 (I32 0) 0) reconnected = Some (h', s') \<and>
    hd_exch_orders h' 1 = Some \<lparr>eo_client_id = 1, eo_order_id = 5\<rparr>"
  using stale_close_forgets_new_order [OF prompt_mono [OF calm_prompt reconnected_reads] reconnected_state(4), of
      "payload OE_CLOSE 0 0 2 1 BUY 0 (I32 0) 0" 1 5 "\<lparr>oo_exch_order_id = 1, oo_symbol = 2\<rparr>"]
    reconnected_state(1-3) by auto

end
