(* ===== verification/Exchange.thy ===== *)
theory Exchange imports
  Handler_Props
begin

text \<open>
  \<open>matching_engine/matching_engine.cpp\<close>: the users' file, the wiring of the components, and the two
  threads that share the queues.  The server's thread and the engine's thread take turns in any order,
  and the engine sees any part of its queue that is there.
\<close>

section \<open>The users' file\<close>

definition is_space :: "u8 \<Rightarrow> bool" where
  "is_space b \<longleftrightarrow> b = 32 \<or> 9 \<le> b \<and> b \<le> 13"

definition next_token :: "u8 list \<Rightarrow> u8 list \<times> u8 list" where
  "next_token l = (let l = dropWhile is_space l
     in (takeWhile (\<lambda>b. \<not> is_space b) l, dropWhile (\<lambda>b. \<not> is_space b) l))"

definition is_digit :: "u8 \<Rightarrow> bool" where
  "is_digit b \<longleftrightarrow> 48 \<le> b \<and> b \<le> 57"

definition digits_val :: "u8 list \<Rightarrow> int" where
  "digits_val ds = fold (\<lambda>d n. 10 * n + int (unat d) - 48) ds 0"

text \<open>\<open>std::stoi\<close>: a sign and digits; no digit, or a value that is no \<open>int\<close>, is an exception.\<close>

definition stoi :: "u8 list \<Rightarrow> int option" where
  "stoi l =
    (let l = dropWhile is_space l;
         signed = l \<noteq> [] \<and> (hd l = 43 \<or> hd l = 45);
         ds = takeWhile is_digit (if signed then tl l else l);
         n = if signed \<and> hd l = 45 then - digits_val ds else digits_val ds
     in if ds = [] \<or> n < - (2 ^ 31) \<or> n \<ge> 2 ^ 31 then None else Some n)"

text \<open>Each line names a client id, a user and a password; a later line of the same user wins.\<close>

fun read_users :: "u8 list list \<Rightarrow> (u8 list \<rightharpoonup> user_info) \<Rightarrow> (u8 list \<rightharpoonup> user_info) option" where
  "read_users [] users = Some users"
| "read_users (line # lines) users =
    (let (client_id, line) = next_token line;
         (username, line) = next_token line;
         (password, line) = next_token line
     in case stoi client_id of
          None \<Rightarrow> None
        | Some n \<Rightarrow> read_users lines (users(username \<mapsto> \<lparr>ui_username = username,
            ui_password = password, ui_client_id = word_of_int n\<rparr>)))"

section \<open>The two threads\<close>

record exchange =
  ex_server :: "client_handler parser"
  ex_broker :: broker

definition add_symbols :: "symbol_definition list \<Rightarrow> broker \<Rightarrow> broker" where
  "add_symbols ds b = fold (\<lambda>d. add_symbol (sd_symbol d)) ds b"

definition start_exchange ::
  "(u8 list \<rightharpoonup> user_info) \<Rightarrow> sock \<Rightarrow> sock \<Rightarrow> system \<Rightarrow> system \<Rightarrow> exchange" where
  "start_exchange users md_fd clearing_fd s s' =
    \<lparr>ex_server = new_parser (new_handler (symbols_map exchange_symbols) users) s,
     ex_broker = add_symbols exchange_symbols (new_broker md_fd clearing_fd s')\<rparr>"

text \<open>The engine's turn: it takes \<open>ps\<close> from its queue, and its responses go to the handler's.\<close>

definition engine_turn :: "env \<Rightarrow> oe_payload list \<Rightarrow> exchange \<Rightarrow> brokering option" where
  "engine_turn e ps x = process_broker e ((ex_broker x)\<lparr>bk_from_client := ps\<rparr>)"

definition hand_over :: "nat \<Rightarrow> broker \<Rightarrow> exchange \<Rightarrow> exchange" where
  "hand_over n b x =
    (let p = ex_server x; h = sp_handler p
     in x\<lparr>ex_server := p\<lparr>sp_handler := h\<lparr>hd_to_engine := drop n (hd_to_engine h),
            hd_from_engine := hd_from_engine h @ bk_to_client b\<rparr>\<rparr>,
          ex_broker := b\<lparr>bk_to_client := []\<rparr>\<rparr>)"

inductive exchange_step :: "env \<Rightarrow> env \<Rightarrow> exchange \<Rightarrow> exchange \<Rightarrow> bool" for es ee where
  serve: "run_pass es batch (ex_server x) = Some (Inr p) \<Longrightarrow>
    exchange_step es ee x (x\<lparr>ex_server := p\<rparr>)"
| engine: "engine_turn ee (take n (hd_to_engine (sp_handler (ex_server x)))) x = Some (Inr b) \<Longrightarrow>
    exchange_step es ee x (hand_over n b x)"

inductive exchange_reachable :: "env \<Rightarrow> env \<Rightarrow> exchange \<Rightarrow> exchange \<Rightarrow> bool" for es ee x0 where
  start: "exchange_reachable es ee x0 x0"
| step: "exchange_reachable es ee x0 x \<Longrightarrow> exchange_step es ee x y \<Longrightarrow> exchange_reachable es ee x0 y"

inductive_cases exchange_stepE: "exchange_step es ee x y"

section \<open>What both threads keep\<close>

abbreviation exchange_table :: "u32 \<rightharpoonup> symbol_definition" where
  "exchange_table \<equiv> symbols_map exchange_symbols"

definition exchange_ok :: "env \<Rightarrow> exchange \<Rightarrow> bool" where
  "exchange_ok es x \<longleftrightarrow> engine_ok (ex_broker x) \<and> dom (bk_ladders (ex_broker x)) = dom exchange_table \<and>
     handler_ok es exchange_table {i. resting_in (ex_broker x) i}
       (sp_handler (ex_server x), sp_system (ex_server x))"

lemma add_symbols_fields:
  "dom (bk_ladders (add_symbols ds b)) = dom (bk_ladders b) \<union> sd_symbol ` set ds"
  "bk_publisher (add_symbols ds b) = bk_publisher b" "bk_clearing (add_symbols ds b) = bk_clearing b"
  "bk_client_of (add_symbols ds b) = bk_client_of b"
  by (induction ds arbitrary: b) (auto simp: add_symbols_def add_symbol_def)

lemma add_symbols_empty:
  "(\<And>y L. bk_ladders b y = Some L \<Longrightarrow> L = empty_ladder y) \<Longrightarrow>
   bk_ladders (add_symbols ds b) y = Some L \<Longrightarrow> L = empty_ladder y"
proof (induction ds arbitrary: b)
  case Nil
  then show ?case by (simp add: add_symbols_def)
next
  case (Cons d ds)
  show ?case
    by (rule Cons.IH [of "add_symbol (sd_symbol d) b"])
      (use Cons.prems in \<open>auto simp: add_symbol_def add_symbols_def split: if_splits\<close>)
qed

lemma symbols_map_dom: "dom (symbols_map ds) = sd_symbol ` set ds"
proof -
  have "dom (fold (\<lambda>d m. m(sd_symbol d \<mapsto> d)) ds m) = dom m \<union> sd_symbol ` set ds" for m
    by (induction ds arbitrary: m) auto
  then show ?thesis by (simp add: symbols_map_def)
qed

lemma start_exchange_ok:
  assumes "md_fd \<noteq> clearing_fd"
  shows "exchange_ok es (start_exchange users md_fd clearing_fd s s')"
proof -
  let ?b = "add_symbols exchange_symbols (new_broker md_fd clearing_fd s')"
  have empty: "L = empty_ladder y" if "bk_ladders ?b y = Some L" for y L
    by (rule add_symbols_empty [OF _ that]) (simp add: new_broker_def)
  then have none: "\<not> resting_in ?b i" for i
    by (fastforce simp: resting_in_def empty_ladder_def)
  have "ladders_ok (bk_ladders ?b) (bk_client_of ?b)"
    using empty represents_empty book_ok_empty
    by (fastforce simp: ladders_ok_def uncrossed_def book_ids_def resting_ids_def empty_ladder_def
        intro!: exI [of _ "\<lambda>_. []"])
  then have "engine_ok ?b" using assms
    by (simp add: engine_ok_def publisher_ready_def add_symbols_fields new_broker_def
        new_publisher_def new_clearing_publisher_def)
  moreover have "dom (bk_ladders ?b) = dom exchange_table"
    by (simp add: add_symbols_fields symbols_map_dom new_broker_def)
  ultimately show ?thesis
    using none new_handler_ok by (simp add: exchange_ok_def start_exchange_def new_parser_def)
qed

lemma new_ids_of_take: "set (new_ids_of (take n ps)) \<subseteq> set (new_ids_of ps)"
  by (metis append_take_drop_id new_ids_of_append set_append sup_ge1)

lemma exchange_admissible:
  assumes "exchange_ok es x"
  shows "admissible (take n (hd_to_engine (sp_handler (ex_server x)))) (ex_broker x)"
proof -
  let ?q = "hd_to_engine (sp_handler (ex_server x))"
  have q: "\<forall>p \<in> set ?q. payload_ok exchange_table p" "distinct (new_ids_of ?q)"
    "\<forall>i \<in> set (new_ids_of ?q). \<not> resting_in (ex_broker x) i"
    using assms by (auto simp: exchange_ok_def handler_ok_def ids_ok_def)
  have "new_ids_of ?q = new_ids_of (take n ?q) @ new_ids_of (drop n ?q)"
    by (metis append_take_drop_id new_ids_of_append)
  with q(2) have "distinct (new_ids_of (take n ?q))" by simp
  moreover have "known_payload p (ex_broker x)" if "p \<in> set (take n ?q)" for p
  proof -
    have "payload_ok exchange_table p" using q(1) in_set_takeD [OF that] by blast
    moreover have "dom (bk_ladders (ex_broker x)) = dom exchange_table"
      using assms by (simp add: exchange_ok_def)
    ultimately show ?thesis unfolding payload_ok_def known_payload_def by (metis domIff)
  qed
  ultimately show ?thesis using q(3) new_ids_of_take [of n ?q] by (auto simp: admissible_def)
qed

lemma engine_turn_returns:
  assumes "accepts ee" "exchange_ok es x"
  obtains b where "engine_turn ee (take n (hd_to_engine (sp_handler (ex_server x)))) x = Some (Inr b)"
    "engine_ok b" "holds_more (take n (hd_to_engine (sp_handler (ex_server x)))) (ex_broker x) b"
proof -
  let ?ps = "take n (hd_to_engine (sp_handler (ex_server x)))"
  let ?b = "(ex_broker x)\<lparr>bk_from_client := ?ps\<rparr>"
  have "engine_ok ?b" using assms(2) by (simp add: exchange_ok_def engine_ok_def publisher_ready_def)
  moreover have "admissible ?ps ?b" using exchange_admissible [OF assms(2)]
    by (simp add: admissible_def known_payload_def resting_in_def)
  ultimately obtain b where "process_broker ee ?b = Some (Inr b)" "engine_ok b" "holds_more ?ps ?b b"
    using process_broker_keeps [OF assms(1), of ?b] by auto
  then show thesis by (intro that [of b]) (auto simp: engine_turn_def holds_more_def resting_in_def)
qed

lemma engine_step_keeps:
  assumes "exchange_ok es x" "engine_ok b"
    "holds_more (take n (hd_to_engine (sp_handler (ex_server x)))) (ex_broker x) b"
  shows "exchange_ok es (hand_over n b x)"
proof -
  let ?h = "sp_handler (ex_server x)" and ?s = "sp_system (ex_server x)"
  let ?q = "hd_to_engine ?h"
  let ?h' = "?h\<lparr>hd_to_engine := drop n ?q, hd_from_engine := hd_from_engine ?h @ bk_to_client b\<rparr>"
  let ?R = "{i. resting_in (ex_broker x) i}" and ?R' = "{i. resting_in b i}"
  have old: "handler_ok es exchange_table ?R (?h, ?s)" using assms(1) by (simp add: exchange_ok_def)
  have split: "new_ids_of ?q = new_ids_of (take n ?q) @ new_ids_of (drop n ?q)"
    by (metis append_take_drop_id new_ids_of_append)
  have R': "i \<in> ?R \<or> i \<in> set (new_ids_of (take n ?q))" if "i \<in> ?R'" for i
    using assms(3) that by (auto simp: holds_more_def)
  have ids: "ids_ok es ?R (?h, ?s)" using old by (simp add: handler_ok_def)
  then have ids': "distinct (new_ids_of ?q)"
    "\<forall>i \<in> set (new_ids_of ?q). clocked es ?s i \<and> i \<notin> ?R" "\<forall>i \<in> ?R. clocked es ?s i"
    "\<forall>x. hd_exch_orders ?h x \<noteq> None \<longrightarrow> clocked es ?s x"
    unfolding ids_ok_def fst_conv snd_conv by blast+
  have "ids_ok es ?R' (?h', ?s)" unfolding ids_ok_def fst_conv snd_conv
  proof (intro conjI)
    show "\<forall>x. hd_exch_orders ?h' x \<noteq> None \<longrightarrow> clocked es ?s x" using ids'(4) by simp
    show "distinct (new_ids_of (hd_to_engine ?h'))" using ids'(1) split by simp
    show "\<forall>i \<in> set (new_ids_of (hd_to_engine ?h')). clocked es ?s i \<and> i \<notin> ?R'"
      using ids'(1,2) split R' by auto
    show "\<forall>i \<in> ?R'. clocked es ?s i" using ids'(2,3) R' unfolding split by auto
  qed
  note ids'' = this
  have "open_orders_of ?h' c = open_orders_of ?h c" for c by (simp add: open_orders_of_def)
  moreover have "orders_ok ?h" using old by (simp add: handler_ok_def)
  ultimately have "orders_ok ?h'" by (simp add: orders_ok_def)
  moreover have "sessions_ok ?h'" using old by (simp add: handler_ok_def sessions_ok_def)
  moreover have "\<forall>p \<in> set (drop n ?q). payload_ok exchange_table p"
    using old in_set_dropD [of _ n ?q] by (auto simp: handler_ok_def)
  ultimately have "handler_ok es exchange_table ?R' (?h', ?s)"
    using old ids'' by (simp add: handler_ok_def)
  moreover have "engine_ok (b\<lparr>bk_to_client := []\<rparr>)"
    using assms(2) by (simp add: engine_ok_def publisher_ready_def)
  moreover have "dom (bk_ladders b) = dom exchange_table"
    using assms(1,3) by (simp add: exchange_ok_def holds_more_def)
  moreover have "resting_in (b\<lparr>bk_to_client := []\<rparr>) i = resting_in b i" for i
    by (simp add: resting_in_def)
  ultimately show ?thesis by (simp add: exchange_ok_def hand_over_def Let_def)
qed

abbreviation server_times :: "env \<Rightarrow> exchange \<Rightarrow> bool" where
  "server_times es x \<equiv> distinct_times es (sp_system (ex_server x))"

lemma exchange_step_keeps:
  assumes "exchange_step es ee x y" "fair_iteration es" "accepts ee" "server_times es y"
    "server_times es x \<longrightarrow> exchange_ok es x"
  shows "exchange_ok es y"
  using assms(1)
proof cases
  case (serve batch p)
  have "server_times es x"
    using distinct_times_mono run_pass_reads [OF serve(2)] assms(4) serve(1) by simp
  with assms(5) have ok: "exchange_ok es x" by blast
  have "handler_ok es exchange_table {i. resting_in (ex_broker x) i} (sp_handler p, sp_system p)"
    by (rule run_pass_keeps [OF assms(2) serve(2)])
      (use ok assms(4) serve(1) in \<open>simp_all add: exchange_ok_def\<close>)
  with ok serve show ?thesis by (simp add: exchange_ok_def)
next
  case (engine n b)
  have ok: "exchange_ok es x" using assms(4,5) engine(1) by (simp add: hand_over_def Let_def)
  obtain b' where b': "engine_turn ee (take n (hd_to_engine (sp_handler (ex_server x)))) x = Some (Inr b')"
    "engine_ok b'" "holds_more (take n (hd_to_engine (sp_handler (ex_server x)))) (ex_broker x) b'"
    by (rule engine_turn_returns [OF assms(3) ok])
  then have "b' = b" using engine(2) by simp
  with b' engine_step_keeps [OF ok] engine show ?thesis by simp
qed

lemma exchange_reachable_ok:
  assumes "exchange_reachable es ee x0 x" "fair_iteration es" "accepts ee" "exchange_ok es x0"
  shows "server_times es x \<longrightarrow> exchange_ok es x"
  using assms(1) by induction (use assms(2-4) exchange_step_keeps in blast)+

section \<open>Properties of the exchange\<close>

text \<open>A run for the witnesses: a client connects, logs in and enters an order, over a network that takes
  every message and with a clock that counts.\<close>


lemma calm_times: "s_clock_reads s \<le> 2 ^ 53 \<Longrightarrow> distinct_times calm_env s"
proof -
  assume reads: "s_clock_reads s \<le> 2 ^ 53"
  have "m = n" if "m < s_clock_reads s" "n < s_clock_reads s" "clock calm_env m = clock calm_env n" for m n
  proof -
    have small: "m < 2 ^ 53" "n < 2 ^ 53" using reads that by simp_all
    then have "(of_nat m :: u64) = of_nat n" using that(3) by (simp add: calm_clock)
    then have "take_bit 64 m = take_bit 64 n" by (simp add: word_of_nat_eq_iff)
    moreover have "take_bit 64 m = m" "take_bit 64 n = n"
      using small by (simp_all add: take_bit_nat_eq_self)
    ultimately show ?thesis by simp
  qed
  then show ?thesis by (auto simp: distinct_times_def inj_on_def)
qed

lemma calm_send_all:
  assumes "bytes \<noteq> []" "Suc (s_clock_reads s) < 2 ^ 53"
  shows "\<exists>s'. send_all calm_env fd bytes (clock calm_env (s_clock_reads s))
      (s\<lparr>s_clock_reads := Suc (s_clock_reads s)\<rparr>) = Some (True, s') \<and>
    s_clock_reads s' = s_clock_reads s + 2"
proof -
  let ?k = "s_clock_reads s"
  have now: "clock calm_env ?k = of_nat ?k" "clock calm_env (Suc ?k) = of_nat ?k + 1"
    using assms(2) by (simp_all add: calm_clock)
  have "send_or_write calm_env fd bytes t = (Taken (length bytes), sys_do (SendCall fd bytes) t)" for t
    by (simp add: send_or_write_def calm_env_def)
  then show ?thesis using assms(1) now
    by (subst send_all.simps, subst send_all.simps)
      (simp add: nanotime_clock SEND_TIMEOUT_def)
qed

lemma calm_write_msg:
  assumes "hd_sessions h fd = Some ss" "Suc (s_clock_reads s) < 2 ^ 53"
  shows "\<exists>s'. write_msg calm_env fd m (h, s) = Some (True, advance fd ss h, s') \<and>
    s_clock_reads s' = s_clock_reads s + 2"
  using calm_send_all [OF encode_oe_response_nonempty assms(2)] assms(1)
  by (fastforce simp: write_msg_def advance_def nanotime_clock Let_def)

definition first_user :: "u8 list \<rightharpoonup> user_info" where
  "first_user = [[97] \<mapsto> \<lparr>ui_username = [97], ui_password = [112], ui_client_id = 1\<rparr>]"

definition first_exchange :: exchange where
  "first_exchange = start_exchange first_user 3 4 no_calls no_calls"

definition login_request :: "oe_request_header \<times> oe_request" where
  "login_request = (login_header 1, Login (name_field 97) (name_field 112))"

definition first_order :: "oe_request_header \<times> oe_request" where
  "first_order = (order_header\<lparr>rq_session_id := 0\<rparr>, OeNewOrder 5 2 BUY 10 (I32 100) 0)"

text \<open>What the handler then holds: a session, an open order and its payload for the engine.\<close>

definition order_queued :: "client_handler \<Rightarrow> bool" where
  "order_queued h \<longleftrightarrow> (\<exists>ss. hd_sessions h 7 = Some ss \<and> ss_client_id ss = 1) \<and>
     (\<exists>oo. map_of (open_orders_of h 1) 5 = Some oo) \<and>
     (\<exists>p. hd_to_engine h = [p] \<and> py_msg_type p = OE_NEW_ORDER)"

lemma first_order_queued:
  assumes "hd_sessions h 7 = Some \<lparr>ss_session_id = 0, ss_client_id = 1, ss_last_seq_num = n, ss_exch_seq_num = m\<rparr>"
    "hd_symbols h = exchange_table" "hd_open_orders h 1 = None" "hd_to_engine h = []" "hd_from_engine h = []"
  shows "\<exists>h' s'. deliver (client_handler_ops calm_env) 7 [first_order] (h, s) = Some (h', s') \<and>
    s_clock_reads s' = Suc (s_clock_reads s) \<and> hd_from_engine h' = [] \<and> order_queued h'"
proof -
  let ?t = "clock calm_env (s_clock_reads s)"
  let ?h = "h\<lparr>hd_open_orders := (hd_open_orders h)(1 \<mapsto> [(5, \<lparr>oo_exch_order_id = ?t, oo_symbol = 2\<rparr>)]),
      hd_exch_orders := (hd_exch_orders h)(?t \<mapsto> \<lparr>eo_client_id = 1, eo_order_id = 5\<rparr>)\<rparr>"
  have "on_new_order calm_env 7 (order_header\<lparr>rq_session_id := 0\<rparr>) 5 2 BUY 10 (I32 100) 0 (h, s)
      = (to_engine (payload OE_NEW_ORDER ?t 2 2 1 BUY 10 (I32 100) 0) ?h, s\<lparr>s_clock_reads := Suc (s_clock_reads s)\<rparr>)"
    using assms validates_example
    by (simp add: on_new_order_def order_header_def validate_session_def open_orders_of_def nanotime_clock Let_def)
  then show ?thesis using assms(4,5)
    by (simp add: first_order_def client_handler_ops_def)
      (simp add: order_queued_def to_engine_def open_orders_of_def assms(1,4,5) payload_def)
qed

lemma deliver_Cons: "deliver ops fd (r # rs) st = (case deliver ops fd [r] st of
    None \<Rightarrow> None | Some st' \<Rightarrow> deliver ops fd rs st')"
  by (cases r) (simp split: option.split)

lemma first_login:
  assumes "s_clock_reads s = 1"
  shows "\<exists>h' s'. deliver (client_handler_ops calm_env) 7 [login_request, first_order]
      (new_handler exchange_table first_user, s) = Some (h', s') \<and> s_clock_reads s' = 4 \<and>
    hd_from_engine h' = [] \<and> order_queued h'"
proof -
  let ?h = "new_handler exchange_table first_user"
  have c_str: "c_str (name_field 97) = [97]" "c_str (name_field 112) = [112]"
    by (simp_all add: c_str_def name_field_def)
  have "check_login ?h [97] [112] 1 = LoginSuccess"
    by (simp add: check_login_def new_handler_def first_user_def)
  moreover have "hd_sock_of ?h 1 = None" by (simp add: new_handler_def)
  ultimately have login: "on_login calm_env 7 (login_header 1) (name_field 97) (name_field 112) (?h, s)
      = new_session calm_env 7 (login_header 1) (?h, s)"
    by (simp add: on_login_def c_str login_header_def)
  let ?ss = "\<lparr>ss_session_id = env_random calm_env 0, ss_client_id = 1, ss_last_seq_num = 1,
      ss_exch_seq_num = 0\<rparr>"
  let ?h1 = "?h\<lparr>hd_draws := 1, hd_sessions := (hd_sessions ?h)(7 \<mapsto> ?ss),
      hd_sock_of := (hd_sock_of ?h)(1 \<mapsto> 7)\<rparr>"
  have "hd_sessions ?h1 7 = Some ?ss" by simp
  from calm_write_msg [OF this, of s "LoginResponse (env_random calm_env 0) (login_code LoginSuccess)"] assms
  obtain s' where w: "write_msg calm_env 7 (LoginResponse (env_random calm_env 0) (login_code LoginSuccess))
      (?h1, s) = Some (True, advance 7 ?ss ?h1, s')" "s_clock_reads s' = 3" by auto
  have draws: "hd_draws ?h = 0" by (simp add: new_handler_def)
  have "new_session calm_env 7 (login_header 1) (?h, s) = Some (advance 7 ?ss ?h1, s')"
    using w(1) by (simp add: new_session_def Let_def login_header_def draws)
  with login have first: "deliver (client_handler_ops calm_env) 7 [login_request] (?h, s)
      = Some (advance 7 ?ss ?h1, s')" by (simp add: login_request_def client_handler_ops_def)
  have "hd_sessions (advance 7 ?ss ?h1) 7 = Some \<lparr>ss_session_id = 0, ss_client_id = 1, ss_last_seq_num = 1,
      ss_exch_seq_num = 1\<rparr>" by (simp add: advance_def calm_env_def)
  from first_order_queued [OF this, of s'] w(2)
  obtain h2 s2 where "deliver (client_handler_ops calm_env) 7 [first_order] (advance 7 ?ss ?h1, s') = Some (h2, s2)"
    "s_clock_reads s2 = 4" "hd_from_engine h2 = []" "order_queued h2"
    by (auto simp: advance_def new_handler_def)
  then show ?thesis
    unfolding deliver_Cons [of "client_handler_ops calm_env" 7 login_request "[first_order]"] first by simp
qed

text \<open>The connection comes in, and its first bytes are the login and the order.\<close>

lemma exchange_with_order:
  "\<exists>x. exchange_reachable calm_env calm_env first_exchange x \<and> server_times calm_env x \<and>
    order_queued (sp_handler (ex_server x))"
proof -
  let ?p = "parser_new_socket 7 (ex_server first_exchange)"
  let ?rs = "[login_request, first_order]" let ?bytes = "encode_stream ?rs"
  let ?s = "snd (nanotime calm_env no_calls)"
  have p: "sp_handler ?p = new_handler exchange_table first_user" "sp_system ?p = no_calls"
    "sp_partial ?p 7 = []" "sp_timestamps ?p 7 = []"
    by (simp_all add: first_exchange_def start_exchange_def new_parser_def parser_new_socket_def)
  have "s_clock_reads ?s = 1" by (simp add: nanotime_clock no_calls_def)
  from first_login [OF this] obtain h' s' where login:
    "deliver (client_handler_ops calm_env) 7 ?rs (sp_handler ?p, ?s) = Some (h', s')"
    "s_clock_reads s' = 4" "hd_from_engine h' = []" "order_queued h'"
    unfolding p(1) by blast
  have wf: "\<forall>r \<in> set ?rs. well_formed r"
    by (simp add: login_request_def first_order_def order_header_def well_formed_def login_header_def
        name_field_def OE_PROTOCOL_VERSION_def)
  have "incomplete []" by (simp add: incomplete_def oe_request_header_size_def)
  from parse_bytes_stream [OF _ wf _ this, of calm_env ?p 7 ?bytes "client_handler_ops calm_env"] p login(1)
  obtain p1 where parse: "parse_bytes calm_env (client_handler_ops calm_env) 7 ?bytes ?p = Some p1"
    "sp_handler p1 = h'" "sp_system p1 = s'" by (auto simp: drop_old_def advanced_def)
  have "run_pass calm_env (Some [Incoming (Some 7) None, Readable 7 [?bytes] ReadWouldBlock])
      (ex_server first_exchange) = Some (Inr p1)"
    using parse login(3) by (simp add: run_pass_def server_pass_def process_handler_def)
  then have "exchange_step calm_env calm_env first_exchange (first_exchange\<lparr>ex_server := p1\<rparr>)"
    by (rule exchange_step.serve)
  with exchange_reachable.start have "exchange_reachable calm_env calm_env first_exchange
      (first_exchange\<lparr>ex_server := p1\<rparr>)" by (rule exchange_reachable.step)
  moreover have "server_times calm_env (first_exchange\<lparr>ex_server := p1\<rparr>)"
    using calm_times parse(3) login(2) by simp
  ultimately show ?thesis using parse(2) login(4)
    by (intro exI [of _ "first_exchange\<lparr>ex_server := p1\<rparr>"]) simp
qed

lemma logged_in_exchange:
  "\<exists>x ss. exchange_reachable calm_env calm_env first_exchange x \<and> server_times calm_env x \<and>
    hd_sessions (sp_handler (ex_server x)) 7 = Some ss \<and> ss_client_id ss = 1"
  using exchange_with_order by (auto simp: order_queued_def)

text \<open>C14: the engine's thread goes on whatever arrives on the server's sockets, and however the two
  threads take turns, under three conditions on their surroundings: no two readings of the server's
  clock so far were equal (the handler makes order ids of them), every \<open>sendto\<close> takes the engine's
  datagram, and an iteration over an unordered map meets every entry once.  In every state of the
  exchange that can then be reached, the engine works off any part of its queue without an exception.\<close>

theorem exchange_never_stops:
  assumes "exchange_reachable es ee (start_exchange users md_fd clearing_fd s s') x"
    "md_fd \<noteq> clearing_fd" "fair_iteration es" "accepts ee" "server_times es x"
  shows "\<exists>b. engine_turn ee (take n (hd_to_engine (sp_handler (ex_server x)))) x = Some (Inr b) \<and>
    bk_from_client b = []"
proof -
  have "exchange_ok es x"
    using exchange_reachable_ok [OF assms(1,3,4) start_exchange_ok [OF assms(2)]] assms(5) by blast
  then have "admissible (take n (hd_to_engine (sp_handler (ex_server x)))) (ex_broker x)"
    "engine_ok (ex_broker x)" using exchange_admissible by (auto simp: exchange_ok_def)
  then show ?thesis
    using process_broker_keeps [OF assms(4),
        of "(ex_broker x)\<lparr>bk_from_client := take n (hd_to_engine (sp_handler (ex_server x)))\<rparr>"]
    by (auto simp: engine_turn_def engine_ok_def publisher_ready_def admissible_def known_payload_def
        resting_in_def)
qed

theorem exchange_never_stops_witness:
  "\<exists>x p b. exchange_reachable calm_env calm_env first_exchange x \<and>
    hd_to_engine (sp_handler (ex_server x)) = [p] \<and> py_msg_type p = OE_NEW_ORDER \<and>
    engine_turn calm_env [p] x = Some (Inr b)"
proof -
  obtain x p where x: "exchange_reachable calm_env calm_env first_exchange x" "server_times calm_env x"
    "hd_to_engine (sp_handler (ex_server x)) = [p]" "py_msg_type p = OE_NEW_ORDER"
    using exchange_with_order by (auto simp: order_queued_def)
  from exchange_never_stops [OF x(1) [unfolded first_exchange_def] _ calm_fair calm_accepts x(2), of 1] x
  show ?thesis by auto
qed

text \<open>C15: in every reachable state of the exchange a client has at most one session, and the
  session's socket is the one to which the client's messages go.\<close>

theorem one_session_per_client:
  assumes "exchange_reachable es ee (start_exchange users md_fd clearing_fd s s') x"
    "md_fd \<noteq> clearing_fd" "fair_iteration es" "accepts ee" "server_times es x"
    "hd_sessions (sp_handler (ex_server x)) fd = Some ss"
  shows "hd_sock_of (sp_handler (ex_server x)) (ss_client_id ss) = Some fd \<and>
    (\<forall>fd' ss'. hd_sessions (sp_handler (ex_server x)) fd' = Some ss' \<and>
      ss_client_id ss' = ss_client_id ss \<longrightarrow> fd' = fd)"
proof -
  have "exchange_ok es x"
    using exchange_reachable_ok [OF assms(1,3,4) start_exchange_ok [OF assms(2)]] assms(5) by blast
  then have ok: "sessions_ok (sp_handler (ex_server x))" by (simp add: exchange_ok_def handler_ok_def)
  then have own: "hd_sock_of (sp_handler (ex_server x)) (ss_client_id ss) = Some fd"
    using assms(6) by (simp add: sessions_ok_def)
  have "fd' = fd" if "hd_sessions (sp_handler (ex_server x)) fd' = Some ss'"
    "ss_client_id ss' = ss_client_id ss" for fd' ss'
  proof -
    have "hd_sock_of (sp_handler (ex_server x)) (ss_client_id ss') = Some fd'"
      using ok that(1) by (simp add: sessions_ok_def)
    with own that(2) show ?thesis by simp
  qed
  with own show ?thesis by blast
qed

theorem one_session_per_client_witness:
  "\<exists>x ss. exchange_reachable calm_env calm_env first_exchange x \<and>
    hd_sessions (sp_handler (ex_server x)) 7 = Some ss \<and>
    hd_sock_of (sp_handler (ex_server x)) (ss_client_id ss) = Some 7"
proof -
  obtain x ss where x: "exchange_reachable calm_env calm_env first_exchange x" "server_times calm_env x"
    "hd_sessions (sp_handler (ex_server x)) 7 = Some ss" using logged_in_exchange by blast
  from one_session_per_client [OF x(1) [unfolded first_exchange_def] _ calm_fair calm_accepts x(2,3)] x
  show ?thesis by auto
qed

text \<open>C16: in every state of the exchange that can be reached while no two readings of the server's
  clock were equal, every \<open>sendto\<close> took the engine's datagram and an iteration met every entry once,
  the id that the handler gave to an open order leads back to its client and its order id, so the
  engine's answers to it reach its owner.  With two equal readings the second order would take over
  the first one's entry.\<close>

theorem open_orders_are_owned:
  assumes "exchange_reachable es ee (start_exchange users md_fd clearing_fd s s') x"
    "md_fd \<noteq> clearing_fd" "fair_iteration es" "accepts ee" "server_times es x"
  shows "orders_ok (sp_handler (ex_server x)) \<and>
    (\<forall>c i oo. map_of (open_orders_of (sp_handler (ex_server x)) c) i = Some oo \<longrightarrow>
      hd_exch_orders (sp_handler (ex_server x)) (oo_exch_order_id oo)
        = Some \<lparr>eo_client_id = c, eo_order_id = i\<rparr>)"
proof -
  have "exchange_ok es x"
    using exchange_reachable_ok [OF assms(1,3,4) start_exchange_ok [OF assms(2)]] assms(5) by blast
  then have "orders_ok (sp_handler (ex_server x))" by (simp add: exchange_ok_def handler_ok_def)
  then show ?thesis using open_order_known(1) by blast
qed

theorem open_orders_are_owned_witness:
  "\<exists>x oo. exchange_reachable calm_env calm_env first_exchange x \<and>
    map_of (open_orders_of (sp_handler (ex_server x)) 1) 5 = Some oo \<and>
    hd_exch_orders (sp_handler (ex_server x)) (oo_exch_order_id oo) = Some \<lparr>eo_client_id = 1, eo_order_id = 5\<rparr>"
proof -
  obtain x oo where x: "exchange_reachable calm_env calm_env first_exchange x" "server_times calm_env x"
    "map_of (open_orders_of (sp_handler (ex_server x)) 1) 5 = Some oo"
    using exchange_with_order by (auto simp: order_queued_def)
  from open_orders_are_owned [OF x(1) [unfolded first_exchange_def] _ calm_fair calm_accepts x(2)] x(1,3)
  show ?thesis by auto
qed

end
