(* ===== verification/Feed_View.thy ===== *)
theory Feed_View imports
  Ladder_Book Md_Protocol
begin

text \<open>
  What a reader of the market data feed should know: the resting orders of all symbols by id.  This
  is the abstract specification of the order books that the repository's clients build from the
  feed; each of them is an instance of the locale \<open>feed_reader\<close>.
\<close>

section \<open>The view\<close>

record view_order =
  vo_symbol :: u32
  vo_side :: book_side
  vo_price :: i32
  vo_quantity :: u32

type_synonym view = "u64 \<rightharpoonup> view_order"

text \<open>The view of one symbol.\<close>

definition only :: "u32 \<Rightarrow> view \<Rightarrow> view" where
  "only y v = (\<lambda>i. case v i of None \<Rightarrow> None | Some r \<Rightarrow> if vo_symbol r = y then Some r else None)"

text \<open>What a message says about the view.\<close>

fun view_step :: "md_msg \<Rightarrow> view \<Rightarrow> view" where
  "view_step (NewOrder i y sd q p f) v = v(i \<mapsto> \<lparr>vo_symbol = y, vo_side = levels_of_side sd,
     vo_price = p, vo_quantity = q\<rparr>)"
| "view_step (DeleteOrder i) v = v(i := None)"
| "view_step (ModifyOrder i sd q p) v = (case v i of None \<Rightarrow> v
     | Some r \<Rightarrow> v(i \<mapsto> r\<lparr>vo_side := levels_of_side sd, vo_price := p, vo_quantity := q\<rparr>))"
| "view_step (Trade i q p) v = (case v i of None \<Rightarrow> v
     | Some r \<Rightarrow> if vo_quantity r = q then v(i := None)
                else v(i \<mapsto> r\<lparr>vo_quantity := vo_quantity r - q\<rparr>))"
| "view_step m v = v"

text \<open>The messages of a snapshot's orders.\<close>

fun is_new_order :: "md_msg \<Rightarrow> bool" where
  "is_new_order (NewOrder i y sd q p fl) = True"
| "is_new_order m = False"

text \<open>A message that the exchange may send when the view is \<open>v\<close>.\<close>

fun fits :: "md_msg \<Rightarrow> view \<Rightarrow> bool" where
  "fits (NewOrder i y sd q p f) v \<longleftrightarrow> v i = None \<and> 0 < q"
| "fits (DeleteOrder i) v \<longleftrightarrow> v i \<noteq> None"
| "fits (ModifyOrder i sd q p) v \<longleftrightarrow> v i \<noteq> None \<and> 0 < q"
| "fits (Trade i q p) v \<longleftrightarrow> (\<exists>r. v i = Some r \<and> 0 < q \<and> q \<le> vo_quantity r)"
| "fits (TradeSummary y sd q p) v \<longleftrightarrow> (\<exists>i r. v i = Some r \<and> vo_symbol r = y)"
| "fits Heartbeat v \<longleftrightarrow> True"
| "fits (SnapshotInfo y b a n) v \<longleftrightarrow> False"

section \<open>Quantity at a price\<close>

text \<open>
  The readers add up the quantities at a price in 32 bits, so a view is only good as long as these
  sums do not wrap.
\<close>

definition share :: "u32 \<Rightarrow> book_side \<Rightarrow> i32 \<Rightarrow> view_order \<Rightarrow> nat" where
  "share y bs p r = (if vo_symbol r = y \<and> vo_side r = bs \<and> vo_price r = p
     then unat (vo_quantity r) else 0)"

definition level_total :: "view \<Rightarrow> u32 \<Rightarrow> book_side \<Rightarrow> i32 \<Rightarrow> nat" where
  "level_total v y bs p = (\<Sum>i \<in> dom v. share y bs p (the (v i)))"

definition view_ok :: "view \<Rightarrow> bool" where
  "view_ok v \<longleftrightarrow> finite (dom v) \<and> (\<forall>i r. v i = Some r \<longrightarrow> 0 < vo_quantity r) \<and>
     (\<forall>y bs p. level_total v y bs p < 2 ^ 32)"

lemma level_total_empty [simp]: "level_total Map.empty y bs p = 0"
  by (simp add: level_total_def)

lemma level_total_remove:
  assumes "finite (dom v)" "v i = Some r"
  shows "level_total v y bs p = level_total (v(i := None)) y bs p + share y bs p r"
proof -
  have "level_total v y bs p = share y bs p (the (v i)) + (\<Sum>j \<in> dom v - {i}. share y bs p (the (v j)))"
    unfolding level_total_def using assms by (intro sum.remove) auto
  also have "(\<Sum>j \<in> dom v - {i}. share y bs p (the (v j))) = level_total (v(i := None)) y bs p"
    unfolding level_total_def by (rule sum.cong) auto
  finally show ?thesis using assms(2) by simp
qed

lemma level_total_add:
  assumes "finite (dom v)"
  shows "level_total (v(i \<mapsto> r)) y bs p = level_total (v(i := None)) y bs p + share y bs p r"
  using level_total_remove [of "v(i \<mapsto> r)" i r] assms by simp

lemma level_total_absent: "v i = None \<Longrightarrow> level_total (v(i := None)) y bs p = level_total v y bs p"
  by (simp add: fun_upd_idem)

lemma share_le_total: "finite (dom v) \<Longrightarrow> v i = Some r \<Longrightarrow> share y bs p r \<le> level_total v y bs p"
  by (simp add: level_total_remove)

lemma view_step_finite: "finite (dom v) \<Longrightarrow> finite (dom (view_step m v))"
  by (cases m) (auto split: option.split)

section \<open>Readers of the feed\<close>

fun feed_ok :: "md_msg list \<Rightarrow> view \<Rightarrow> bool" where
  "feed_ok [] v \<longleftrightarrow> view_ok v"
| "feed_ok (m # ms) v \<longleftrightarrow> view_ok v \<and> fits m v \<and> feed_ok ms (view_step m v)"

lemma feed_ok_append: "feed_ok (ms @ ms') v \<longleftrightarrow> feed_ok ms v \<and> feed_ok ms' (fold view_step ms v)"
  by (induction ms arbitrary: v) (auto elim: feed_ok.elims)

lemma feed_ok_view: "feed_ok ms v \<Longrightarrow> view_ok v"
  by (cases ms) auto

lemma feed_ok_end: "feed_ok ms v \<Longrightarrow> view_ok (fold view_step ms v)"
  by (induction ms arbitrary: v) auto

text \<open>
  A trade that leaves nothing of the order it names.
\<close>

fun uses_up :: "md_msg \<Rightarrow> view \<Rightarrow> bool" where
  "uses_up (Trade i q p) v \<longleftrightarrow> (\<exists>r. v i = Some r \<and> vo_quantity r = q)"
| "uses_up m v \<longleftrightarrow> False"

text \<open>
  A condition on messages, each in the view that the earlier ones have left.
\<close>

fun all_along :: "(md_msg \<Rightarrow> view \<Rightarrow> bool) \<Rightarrow> md_msg list \<Rightarrow> view \<Rightarrow> bool" where
  "all_along P [] v \<longleftrightarrow> True"
| "all_along P (m # ms) v \<longleftrightarrow> P m v \<and> all_along P ms (view_step m v)"

lemma all_along_append: "all_along P (ms @ ms') v \<longleftrightarrow> all_along P ms v \<and> all_along P ms' (fold view_step ms v)"
  by (induction ms arbitrary: v) simp_all

lemma all_along_const [simp]: "all_along (\<lambda>m v. P m) ms v \<longleftrightarrow> (\<forall>m \<in> set ms. P m)"
  by (induction ms arbitrary: v) simp_all

abbreviation none_used_up :: "md_msg list \<Rightarrow> view \<Rightarrow> bool" where
  "none_used_up \<equiv> all_along (\<lambda>m v. \<not> uses_up m v)"

lemma new_orders_use_nothing: "is_new_order m \<Longrightarrow> \<not> uses_up m v"
  by (cases m) simp_all

text \<open>
  A reader has a state, a step for each message, and a relation to the view; it promises that a step
  for a fitting message it can read, in the view before it, leads to a state for the next view.
\<close>

locale feed_reader =
  fixes reads_msg :: "md_msg \<Rightarrow> 'c \<Rightarrow> 'c"
    and shows_view :: "'c \<Rightarrow> view \<Rightarrow> bool"
    and readable :: "md_msg \<Rightarrow> view \<Rightarrow> bool"
  assumes step_shows: "shows_view c v \<Longrightarrow> view_ok v \<Longrightarrow> fits m v \<Longrightarrow> view_ok (view_step m v) \<Longrightarrow>
    readable m v \<Longrightarrow> shows_view (reads_msg m c) (view_step m v)"
begin

lemma feed_shows: "shows_view c v \<Longrightarrow> feed_ok ms v \<Longrightarrow> all_along readable ms v \<Longrightarrow>
    shows_view (fold reads_msg ms c) (fold view_step ms v)"
proof (induction ms arbitrary: c v)
  case (Cons m ms)
  then have "view_ok (view_step m v)" using feed_ok_view [of ms "view_step m v"] by simp
  with Cons have "shows_view (reads_msg m c) (view_step m v)" by (intro step_shows) simp_all
  with Cons show ?case by simp
qed simp

end

section \<open>The ladder's book as a view\<close>

definition view_of_level :: "u32 \<Rightarrow> book_side \<Rightarrow> i32 \<times> resting list \<Rightarrow> (u64 \<times> view_order) list" where
  "view_of_level y bs e = map (\<lambda>r. (r_order_id r, \<lparr>vo_symbol = y, vo_side = bs, vo_price = fst e,
     vo_quantity = r_quantity r\<rparr>)) (snd e)"

definition view_of_levels :: "u32 \<Rightarrow> book_side \<Rightarrow> book_levels \<Rightarrow> (u64 \<times> view_order) list" where
  "view_of_levels y bs m = concat (map (view_of_level y bs) m)"

definition view_of_book :: "u32 \<Rightarrow> book \<Rightarrow> (u64 \<times> view_order) list" where
  "view_of_book y B = view_of_levels y BuyLevels (B BuyLevels) @ view_of_levels y SellLevels (B SellLevels)"

lemma view_of_levels_simps [simp]:
  "view_of_levels y bs [] = []"
  "view_of_levels y bs (e # m) = view_of_level y bs e @ view_of_levels y bs m"
  "view_of_levels y bs (m @ m') = view_of_levels y bs m @ view_of_levels y bs m'"
  by (simp_all add: view_of_levels_def)

lemma fst_view_of_level: "map fst (view_of_level y bs e) = map r_order_id (snd e)"
  by (simp add: view_of_level_def)

lemma fst_view_of_levels: "map fst (view_of_levels y bs m) = resting_ids m"
  by (induction m) (auto simp: resting_ids_def fst_view_of_level)

lemma fst_view_of_book: "map fst (view_of_book y B)
    = resting_ids (B BuyLevels) @ resting_ids (B SellLevels)"
  by (simp add: view_of_book_def fst_view_of_levels)

end
