(* ===== verification/Ladder_Feed.thy ===== *)
theory Ladder_Feed imports
  Feed_View Broker_Props
begin

text \<open>
  The feed of a ladder operation tells a reader exactly what the operation did to the book: the
  messages fit the reader's view, and after them the view is the view of the new book.
\<close>

section \<open>The operations of the book, seen by id\<close>

definition view_of :: "u32 \<Rightarrow> book \<Rightarrow> view" where
  "view_of y B = map_of (view_of_book y B)"

definition at_level :: "u32 \<Rightarrow> book_side \<Rightarrow> i32 \<Rightarrow> resting \<Rightarrow> view_order" where
  "at_level y bs p r = \<lparr>vo_symbol = y, vo_side = bs, vo_price = p, vo_quantity = r_quantity r\<rparr>"

lemma view_of_level_Nil [simp]: "view_of_level y bs (p, []) = []"
  by (simp add: view_of_level_def)

lemma view_of_level_Cons [simp]:
  "view_of_level y bs (p, r # rs) = (r_order_id r, at_level y bs p r) # view_of_level y bs (p, rs)"
  by (simp add: view_of_level_def at_level_def)

lemma view_of_level_append [simp]:
  "view_of_level y bs (p, rs @ rs') = view_of_level y bs (p, rs) @ view_of_level y bs (p, rs')"
  by (simp add: view_of_level_def)

definition levels_view :: "u32 \<Rightarrow> book_side \<Rightarrow> book_levels \<Rightarrow> view" where
  "levels_view y bs m = map_of (view_of_levels y bs m)"

lemma levels_view_simps [simp]:
  "levels_view y bs [] = Map.empty"
  "levels_view y bs (e # m) = levels_view y bs m ++ map_of (view_of_level y bs e)"
  "levels_view y bs (m @ m') = levels_view y bs m' ++ levels_view y bs m"
  by (simp_all add: levels_view_def)

lemma levels_view_None: "levels_view y bs m i = None \<longleftrightarrow> i \<notin> set (resting_ids m)"
  by (metis fst_view_of_levels levels_view_def list.set_map map_of_eq_None_iff)

lemma level_view_None: "map_of (view_of_level y bs (p, rs)) i = None \<longleftrightarrow> i \<notin> r_order_id ` set rs"
  using fst_view_of_level [of y bs "(p, rs)"] by (metis list.set_map map_of_eq_None_iff snd_conv)

lemma view_of_nonempty_levels:
  "view_of_levels y bs (filter (\<lambda>e. snd e \<noteq> []) m) = view_of_levels y bs m"
  by (induction m) auto

lemma levels_view_remove:
  "levels_view y bs (book_remove i m) = (levels_view y bs m)(i := None)"
proof -
  have "view_of_level y bs (p, filter (\<lambda>r. r_order_id r \<noteq> i) rs)
      = omap_erase i (view_of_level y bs (p, rs))" for p rs
    by (induction rs) auto
  then have "view_of_levels y bs (map (\<lambda>(p, rs). (p, filter (\<lambda>r. r_order_id r \<noteq> i) rs)) m)
      = omap_erase i (view_of_levels y bs m)"
    by (induction m) (auto simp: omap_erase_def)
  then have "view_of_levels y bs (book_remove i m) = omap_erase i (view_of_levels y bs m)"
    unfolding book_remove_def view_of_nonempty_levels .
  then show ?thesis by (simp add: levels_view_def map_of_omap_erase)
qed

lemma levels_view_modify:
  assumes "\<And>r. r_order_id (f r) = r_order_id r" "\<And>r. r_quantity (f r) = q"
  shows "levels_view y bs (book_modify i f m) = (case levels_view y bs m i of None \<Rightarrow> levels_view y bs m
    | Some o' \<Rightarrow> (levels_view y bs m)(i \<mapsto> o'\<lparr>vo_quantity := q\<rparr>))"
proof -
  have "view_of_level y bs (p, map (\<lambda>r. if r_order_id r = i then f r else r) rs)
      = omap_update i (\<lambda>x. x\<lparr>vo_quantity := q\<rparr>) (view_of_level y bs (p, rs))" for p rs
    by (induction rs) (auto simp: assms at_level_def)
  then have "view_of_levels y bs (book_modify i f m)
      = omap_update i (\<lambda>x. x\<lparr>vo_quantity := q\<rparr>) (view_of_levels y bs m)"
    by (induction m) (auto simp: book_modify_def omap_update_def)
  then show ?thesis by (auto simp: levels_view_def map_of_omap_update fun_eq_iff split: option.split)
qed

lemma levels_view_insert:
  assumes "levels_ok bs m" "r_order_id r \<notin> set (resting_ids m)"
  shows "levels_view y bs (book_insert bs p r m) = (levels_view y bs m)(r_order_id r \<mapsto> at_level y bs p r)"
proof -
  obtain m1 rs m2 where ins: "book_insert bs p r m = m1 @ (p, rs @ [r]) # m2"
    and m: "m = m1 @ (p, rs) # m2 \<or> rs = [] \<and> m = m1 @ m2"
    by (rule book_insert_split [OF assms(1)]) blast
  have absent: "levels_view y bs m1 (r_order_id r) = None"
    "map_of (view_of_level y bs (p, rs)) (r_order_id r) = None"
    using assms(2) m by (auto simp: levels_view_None level_view_None)
  have "levels_view y bs m = levels_view y bs (m1 @ (p, rs) # m2)" using m by auto
  then show ?thesis unfolding ins using absent
    by (auto simp: fun_eq_iff map_add_def split: option.split)
qed

text \<open>Both sides of a book.\<close>

lemma view_of_side: "view_of y B i = (case levels_view y SellLevels (B SellLevels) i of
    Some x \<Rightarrow> (case levels_view y BuyLevels (B BuyLevels) i of Some x' \<Rightarrow> Some x' | None \<Rightarrow> Some x)
  | None \<Rightarrow> levels_view y BuyLevels (B BuyLevels) i)"
  by (auto simp: view_of_def view_of_book_def levels_view_def map_add_def split: option.split)

lemma view_of_None: "view_of y B i = None \<longleftrightarrow> i \<notin> book_ids B"
  using levels_view_None [of y BuyLevels "B BuyLevels" i] levels_view_None [of y SellLevels "B SellLevels" i]
  by (auto simp: view_of_side book_ids_def split: option.split)

lemma view_of_at:
  assumes "book_ok B" "bs' \<noteq> bs"
  shows "view_of y B i = (if i \<in> set (resting_ids (B bs)) then levels_view y bs (B bs) i
    else levels_view y bs' (B bs') i)"
proof -
  have "set (resting_ids (B bs)) \<inter> set (resting_ids (B bs')) = {}"
    using book_ok_ids(2) [OF assms] .
  then have "i \<in> set (resting_ids (B bs)) \<Longrightarrow> levels_view y bs' (B bs') i = None"
    "i \<notin> set (resting_ids (B bs)) \<Longrightarrow> levels_view y bs (B bs) i = None"
    using levels_view_None [of y bs' "B bs'" i] levels_view_None [of y bs "B bs" i] by auto
  then show ?thesis using assms(2)
    by (cases bs; cases bs') (auto simp: view_of_side split: option.split)
qed

lemma view_of_remove: "view_of y (remove_order i B) = (view_of y B)(i := None)"
  by (rule ext) (auto simp: view_of_side remove_order_def levels_view_remove split: option.split)

lemma at_level_symbol: "(i, r) \<in> set (view_of_levels y bs m) \<Longrightarrow> vo_symbol r = y \<and> vo_side r = bs"
  by (induction m) (auto simp: view_of_level_def)

lemma view_of_symbol: "view_of y B i = Some r \<Longrightarrow> vo_symbol r = y"
  by (auto simp: view_of_def view_of_book_def dest!: map_of_SomeD at_level_symbol)

section \<open>The trades of a match\<close>

definition trade_msgs :: "call list \<Rightarrow> md_msg list" where
  "trade_msgs cs = concat (map trade_of cs)"

lemma trade_msgs_simps [simp]:
  "trade_msgs [] = []"
  "trade_msgs (cs @ cs') = trade_msgs cs @ trade_msgs cs'"
  "trade_msgs (c # cs) = trade_of c @ trade_msgs cs"
  by (simp_all add: trade_msgs_def)

lemma trade_msgs_fill [simp]:
  "trade_msgs (full_fill_calls iid sd y p r left) = [Trade (r_order_id r) (r_quantity r) p]"
  "trade_msgs (partial_fill_calls iid sd y p r q) = [Trade (r_order_id r) q p]"
  by (simp_all add: full_fill_calls_def partial_fill_calls_def)

text \<open>A view that agrees with some levels, and what becomes of it when they are served.\<close>

definition agrees :: "view \<Rightarrow> u64 list \<Rightarrow> view \<Rightarrow> bool" where
  "agrees v ids w \<longleftrightarrow> (\<forall>i \<in> set ids. v i = w i)"

definition replace :: "view \<Rightarrow> u64 list \<Rightarrow> view \<Rightarrow> view" where
  "replace v ids w = (\<lambda>i. if i \<in> set ids then w i else v i)"

lemma trade_keeps_ok:
  assumes "view_ok v" "fits (Trade i q p) v"
  shows "view_ok (view_step (Trade i q p) v)"
proof -
  obtain r where r: "v i = Some r" "0 < q" "q \<le> vo_quantity r" using assms(2) by auto
  have fin: "finite (dom v)" using assms(1) by (simp add: view_ok_def)
  let ?r = "r\<lparr>vo_quantity := vo_quantity r - q\<rparr>"
  have "unat (vo_quantity r - q) \<le> unat (vo_quantity r)" using r(3) by (simp add: unat_diff_le)
  then have share: "share y bs p' ?r \<le> share y bs p' r" for y bs p' by (simp add: share_def)
  have less: "level_total (view_step (Trade i q p) v) y bs p' \<le> level_total v y bs p'" for y bs p'
    using level_total_remove [OF fin r(1), of y bs p'] level_total_add [OF fin, of i ?r y bs p'] r share
    by simp
  have "0 < vo_quantity r - q" if "vo_quantity r \<noteq> q"
    using that r(3) by (simp add: word_gt_0)
  then have "\<forall>j x. view_step (Trade i q p) v j = Some x \<longrightarrow> 0 < vo_quantity x"
    using assms(1) r by (auto simp: view_ok_def)
  with less show ?thesis
    using assms(1) view_step_finite [OF fin] le_less_trans unfolding view_ok_def by blast
qed

lemma fill_level_feed:
  assumes "fill_level iid sd y p q rs = (q', rs', cs)" "distinct (map r_order_id rs)"
    "\<forall>r \<in> set rs. r_quantity r \<noteq> 0" "agrees v (map r_order_id rs) (map_of (view_of_level y bs (p, rs)))"
    "view_ok v"
  shows "feed_ok (trade_msgs cs) v \<and> fold view_step (trade_msgs cs) v
    = replace v (map r_order_id rs) (map_of (view_of_level y bs (p, rs')))"
  using assms
proof (induction rs arbitrary: q q' rs' cs v)
  case Nil
  then show ?case by (simp add: replace_def)
next
  case (Cons r rs)
  let ?i = "r_order_id r"
  have here: "v ?i = Some (at_level y bs p r)" using Cons.prems(4) by (simp add: agrees_def)
  consider "q = 0" | "q \<noteq> 0" "r_quantity r \<le> q" | "q \<noteq> 0" "\<not> r_quantity r \<le> q" by blast
  then show ?case
  proof cases
    case 1
    with Cons.prems show ?thesis by (auto simp: replace_def agrees_def fun_eq_iff)
  next
    case 2
    obtain q1 rs1 cs1 where rec: "fill_level iid sd y p (q - r_quantity r) rs = (q1, rs1, cs1)"
      by (metis prod_cases3)
    with Cons.prems(1) 2 have res: "rs' = rs1" "cs = full_fill_calls iid sd y p r (q - r_quantity r) @ cs1"
      by auto
    let ?t = "Trade ?i (r_quantity r) p"
    have step: "view_step ?t v = v(?i := None)" using here by (simp add: at_level_def)
    have fit: "fits ?t v" using here Cons.prems(3) by (simp add: at_level_def word_gt_0)
    have ids: "?i \<notin> r_order_id ` set rs" "distinct (map r_order_id rs)" using Cons.prems(2) by auto
    have "agrees (v(?i := None)) (map r_order_id rs) (map_of (view_of_level y bs (p, rs)))"
      unfolding agrees_def
    proof
      fix j assume j: "j \<in> set (map r_order_id rs)"
      with ids(1) have "j \<noteq> ?i" by (metis list.set_map)
      with j Cons.prems(4) show "(v(?i := None)) j = map_of (view_of_level y bs (p, rs)) j"
        by (auto simp: agrees_def)
    qed
    moreover have "view_ok (v(?i := None))" using trade_keeps_ok [OF Cons.prems(5) fit] step by simp
    ultimately have IH: "feed_ok (trade_msgs cs1) (v(?i := None))"
      "fold view_step (trade_msgs cs1) (v(?i := None))
        = replace (v(?i := None)) (map r_order_id rs) (map_of (view_of_level y bs (p, rs1)))"
      using Cons.IH [OF rec ids(2)] Cons.prems(3) by auto
    have "?i \<notin> r_order_id ` set rs1"
      using served_ids [OF fill_level_served [OF rec]] ids(1) in_set_dropD by (metis list.set_map)
    then have "map_of (view_of_level y bs (p, rs1)) ?i = None" by (simp add: level_view_None)
    then have "replace (v(?i := None)) (map r_order_id rs) (map_of (view_of_level y bs (p, rs1)))
        = replace v (map r_order_id (r # rs)) (map_of (view_of_level y bs (p, rs1)))"
      using ids(1) by (auto simp: replace_def fun_eq_iff)
    with IH fit step Cons.prems(5) show ?thesis by (simp add: res)
  next
    case 3
    with Cons.prems(1) have res: "rs' = reduce q r # rs" "cs = partial_fill_calls iid sd y p r q"
      by auto
    let ?t = "Trade ?i q p"
    have fit: "fits ?t v" using here 3 by (auto simp: at_level_def word_gt_0)
    have step: "view_step ?t v = v(?i \<mapsto> at_level y bs p (reduce q r))"
      using here 3 by (auto simp: at_level_def)
    have "replace v (map r_order_id (r # rs)) (map_of (view_of_level y bs (p, rs'))) = view_step ?t v"
      using Cons.prems(2,4) unfolding step res by (auto simp: replace_def agrees_def fun_eq_iff)
    moreover have "trade_msgs cs = [?t]" by (simp add: res)
    moreover have "fold view_step [?t] v = view_step ?t v" by simp
    ultimately show ?thesis
      using fit trade_keeps_ok [OF Cons.prems(5) fit] Cons.prems(5) by (simp only: feed_ok.simps simp_thms)
  qed
qed

lemma replace_append: "replace (replace v ids w) ids' w' = replace v (ids @ ids') (\<lambda>i. if i \<in> set ids' then w' i else w i)"
  by (auto simp: replace_def)

lemma fill_book_feed:
  assumes "fill_book iid sd y price q m = (q', m', cs)" "distinct (resting_ids m)"
    "\<forall>(p, rs) \<in> set m. \<forall>r \<in> set rs. r_quantity r \<noteq> 0"
    "agrees v (resting_ids m) (levels_view y bs m)" "view_ok v"
  shows "feed_ok (trade_msgs cs) v \<and> fold view_step (trade_msgs cs) v
    = replace v (resting_ids m) (levels_view y bs m')"
  using assms
proof (induction m arbitrary: q q' m' cs v)
  case Nil
  then show ?case by (simp add: replace_def)
next
  case (Cons e m)
  obtain p rs where e: "e = (p, rs)" by (cases e)
  let ?ids = "map r_order_id rs"
  have parts: "distinct ?ids" "distinct (resting_ids m)" "set ?ids \<inter> set (resting_ids m) = {}"
    using Cons.prems(2) by (auto simp: e)
  have none: "levels_view y bs m j = None" if "j \<in> set ?ids" for j
    using parts(3) that levels_view_None by fastforce
  have none': "map_of (view_of_level y bs (p, rs)) j = None" if "j \<in> set (resting_ids m)" for j
    using parts(3) that level_view_None by fastforce
  have here: "agrees v ?ids (map_of (view_of_level y bs (p, rs)))"
    using Cons.prems(4) none by (auto simp: agrees_def e map_add_def split: option.splits)
  have there: "agrees v (resting_ids m) (levels_view y bs m)"
    using Cons.prems(4) none' by (simp add: agrees_def e map_add_def)
  show ?case
  proof (cases "q = 0 \<or> \<not> crosses sd price p")
    case True
    with Cons.prems show ?thesis by (auto simp: e replace_def agrees_def fun_eq_iff)
  next
    case False
    obtain q1 rs' cs1 where fl: "fill_level iid sd y p q rs = (q1, rs', cs1)"
      by (metis prod_cases3)
    have pos: "\<forall>r \<in> set rs. r_quantity r \<noteq> 0" using Cons.prems(3) by (simp add: e)
    note level = fill_level_feed [OF fl parts(1) pos here Cons.prems(5)]
    let ?v1 = "replace v ?ids (map_of (view_of_level y bs (p, rs')))"
    have ok1: "view_ok ?v1" using feed_ok_end level by metis
    have sub: "j \<in> set ?ids" if "map_of (view_of_level y bs (p, rs')) j \<noteq> None" for j
    proof -
      have "j \<in> set (map r_order_id rs')" using that level_view_None [of y bs p rs' j] by simp
      then show ?thesis using served_ids [OF fill_level_served [OF fl]] in_set_dropD by metis
    qed
    show ?thesis
    proof (cases "rs' = []")
      case True
      obtain q2 m2 cs2 where rec: "fill_book iid sd y price q1 m = (q2, m2, cs2)"
        by (metis prod_cases3)
      with Cons.prems(1) False fl True e have res: "m' = m2" "cs = cs1 @ cs2" by auto
      have "agrees ?v1 (resting_ids m) (levels_view y bs m)"
        using there parts(3) by (auto simp: agrees_def replace_def)
      moreover have "\<forall>(p, rs) \<in> set m. \<forall>r \<in> set rs. r_quantity r \<noteq> 0" using Cons.prems(3) by (simp add: e)
      ultimately have IH: "feed_ok (trade_msgs cs2) ?v1"
        "fold view_step (trade_msgs cs2) ?v1 = replace ?v1 (resting_ids m) (levels_view y bs m2)"
        using Cons.IH [OF rec parts(2) _ _ ok1] by blast+
      have "levels_view y bs m2 j = None" if "j \<in> set ?ids" for j
      proof -
        have "set (resting_ids m2) \<subseteq> set (resting_ids m)"
          using served_book_ids [OF fill_book_served [OF rec]] set_drop_subset by metis
        with parts(3) that show ?thesis by (auto simp: levels_view_None)
      qed
      then have "replace ?v1 (resting_ids m) (levels_view y bs m2)
          = replace v (resting_ids (e # m)) (levels_view y bs m2)"
        using True parts(3) by (auto simp: e replace_def fun_eq_iff)
      with level IH show ?thesis by (simp add: res feed_ok_append)
    next
      case False
      with Cons.prems(1) \<open>\<not> (q = 0 \<or> \<not> crosses sd price p)\<close> fl e
      have res: "m' = (p, rs') # m" "cs = cs1" by auto
      have "?v1 = replace v (resting_ids (e # m)) (levels_view y bs m')"
      proof
        fix j
        show "?v1 j = replace v (resting_ids (e # m)) (levels_view y bs m') j"
          using there none [of j] sub [of j] parts(3)
          by (auto simp: e res replace_def agrees_def map_add_def split: option.split)
      qed
      with level show ?thesis by (simp add: res)
    qed
  qed
qed

section \<open>Entering an order\<close>

text \<open>The view of one symbol, and what its feed must not touch.\<close>

definition same_others :: "u32 \<Rightarrow> view \<Rightarrow> view \<Rightarrow> bool" where
  "same_others y v v' \<longleftrightarrow> (\<forall>y'. y' \<noteq> y \<longrightarrow> only y' v' = only y' v)"

definition fresh :: "u64 \<Rightarrow> u32 \<Rightarrow> view \<Rightarrow> bool" where
  "fresh i y v \<longleftrightarrow> v i = None \<or> (\<exists>r. v i = Some r \<and> vo_symbol r = y)"

lemma only_view_of:
  assumes "only y v = view_of y B"
  shows "v i = Some r \<Longrightarrow> vo_symbol r = y \<Longrightarrow> view_of y B i = Some r"
    and "view_of y B i = Some r \<Longrightarrow> v i = Some r"
proof -
  have "only y v i = view_of y B i" using assms by simp
  then show "v i = Some r \<Longrightarrow> vo_symbol r = y \<Longrightarrow> view_of y B i = Some r"
    and "view_of y B i = Some r \<Longrightarrow> v i = Some r"
    by (auto simp: only_def split: option.splits if_splits)
qed

lemma only_replace:
  assumes "\<forall>i \<in> set ids. \<exists>r. v i = Some r \<and> vo_symbol r = y"
    "\<forall>i \<in> set ids. \<forall>r. w i = Some r \<longrightarrow> vo_symbol r = y"
  shows "only y (replace v ids w) = replace (only y v) ids w" "same_others y v (replace v ids w)"
proof -
  have "only y' (replace v ids w) i = (if y' = y then replace (only y v) ids w i else only y' v i)" for y' i
  proof (cases "i \<in> set ids")
    case True
    then obtain r where "v i = Some r" "vo_symbol r = y" using assms(1) by blast
    with True assms(2) show ?thesis by (cases "w i") (simp_all add: only_def replace_def)
  qed (auto simp: only_def replace_def)
  then show "only y (replace v ids w) = replace (only y v) ids w" "same_others y v (replace v ids w)"
    by (simp_all add: same_others_def fun_eq_iff)
qed

lemma fill_feed:
  assumes fb: "fill_book iid sd y price q (B bs) = (left, m, cs)" and ok: "book_ok B"
    and v: "only y v = view_of y B" "view_ok v"
  shows "feed_ok (trade_msgs cs) v" "only y (fold view_step (trade_msgs cs) v) = view_of y (B(bs := m))"
    "same_others y v (fold view_step (trade_msgs cs) v)"
proof -
  obtain bs' where bs': "bs' \<noteq> bs" by (cases bs) auto
  let ?ids = "resting_ids (B bs)" and ?w = "levels_view y bs m"
  have known: "v i = levels_view y bs (B bs) i \<and> (\<exists>r. v i = Some r \<and> vo_symbol r = y)" if i: "i \<in> set ?ids" for i
  proof -
    have view: "view_of y B i = levels_view y bs (B bs) i" using i view_of_at [OF ok bs'] by simp
    obtain r where r: "levels_view y bs (B bs) i = Some r" using i levels_view_None [of y bs "B bs" i] by (cases "levels_view y bs (B bs) i") auto
    with view have "v i = Some r" "vo_symbol r = y"
      using only_view_of(2) [OF v(1)] view_of_symbol by auto
    with r show ?thesis by simp
  qed
  then have "agrees v ?ids (levels_view y bs (B bs))" by (simp add: agrees_def)
  moreover have "\<forall>(p, rs) \<in> set (B bs). \<forall>r \<in> set rs. r_quantity r \<noteq> 0"
    using book_ok_levels [OF ok, of bs] by (auto simp: levels_ok_def resting_ok_def)
  ultimately have run: "feed_ok (trade_msgs cs) v" "fold view_step (trade_msgs cs) v = replace v ?ids ?w"
    using fill_book_feed [OF fb book_ok_ids(1) [OF ok] _ _ v(2)] by blast+
  show "feed_ok (trade_msgs cs) v" by (rule run)
  have sb: "served_book (B bs) m" using fb by (rule fill_book_served)
  have sub: "set (resting_ids m) \<subseteq> set ?ids" using served_book_ids [OF sb] set_drop_subset by metis
  have "replace (view_of y B) ?ids ?w = view_of y (B(bs := m))"
  proof
    fix i
    show "replace (view_of y B) ?ids ?w i = view_of y (B(bs := m)) i"
      using view_of_at [OF ok bs', of y i] view_of_at [OF book_ok_served [OF ok sb] bs', of y i]
        sub bs' levels_view_None [of y bs m i] levels_view_None [of y bs' "B bs'" i]
        book_ok_ids(2) [OF ok bs']
      by (auto simp: replace_def)
  qed
  moreover have "\<forall>i \<in> set ?ids. \<forall>r. ?w i = Some r \<longrightarrow> vo_symbol r = y"
    by (auto simp: levels_view_def dest!: map_of_SomeD at_level_symbol)
  moreover have "\<forall>i \<in> set ?ids. \<exists>r. v i = Some r \<and> vo_symbol r = y" using known by blast
  ultimately show "only y (fold view_step (trade_msgs cs) v) = view_of y (B(bs := m))"
    "same_others y v (fold view_step (trade_msgs cs) v)"
    unfolding run(2) using only_replace [of ?ids v y ?w] v(1) by simp_all
qed

text \<open>Showing, hiding and resizing one order of the symbol.\<close>

definition own_order :: "u32 \<Rightarrow> u64 \<Rightarrow> view \<Rightarrow> bool" where
  "own_order y i v \<longleftrightarrow> (\<forall>r. v i = Some r \<longrightarrow> vo_symbol r = y)"

lemma only_upd:
  assumes "own_order y i v" "\<forall>r. x = Some r \<longrightarrow> vo_symbol r = y"
  shows "only y (v(i := x)) = (only y v)(i := x)" "same_others y v (v(i := x))"
proof -
  have "only y' (v(i := x)) j = (if y' = y then ((only y v)(i := x)) j else only y' v j)" for y' j
  proof (cases "j = i")
    case True
    then show ?thesis using assms
      by (cases "v i"; cases x) (simp_all add: only_def own_order_def)
  qed (auto simp: only_def)
  then show "only y (v(i := x)) = (only y v)(i := x)" "same_others y v (v(i := x))"
    by (simp_all add: same_others_def fun_eq_iff)
qed

lemma same_others_trans: "same_others y v v1 \<Longrightarrow> same_others y v1 v2 \<Longrightarrow> same_others y v v2"
  by (simp add: same_others_def)

lemma view_of_insert:
  assumes "book_ok B" "r_order_id r \<notin> book_ids B"
  shows "view_of y (B(bs := book_insert bs p r (B bs))) = (view_of y B)(r_order_id r \<mapsto> at_level y bs p r)"
proof
  fix i
  have absent: "r_order_id r \<notin> set (resting_ids (B bs))" for bs using assms(2) by (auto simp: book_ids_eq)
  note ins = levels_view_insert [OF book_ok_levels [OF assms(1)] absent, of y bs p]
  show "view_of y (B(bs := book_insert bs p r (B bs))) i
      = ((view_of y B)(r_order_id r \<mapsto> at_level y bs p r)) i"
    using absent [of BuyLevels] absent [of SellLevels] ins
      levels_view_None [of y BuyLevels "B BuyLevels" "r_order_id r"]
      levels_view_None [of y SellLevels "B SellLevels" "r_order_id r"]
    by (cases bs) (auto simp: view_of_side split: option.split)
qed

lemma view_ok_upd:
  assumes "view_ok v" "0 < vo_quantity r"
    "level_total (v(i := None)) (vo_symbol r) (vo_side r) (vo_price r) + unat (vo_quantity r) < 2 ^ 32"
  shows "view_ok (v(i \<mapsto> r))"
proof -
  have fin: "finite (dom v)" using assms(1) by (simp add: view_ok_def)
  have le: "level_total (v(i := None)) y bs p \<le> level_total v y bs p" for y bs p
    using level_total_remove [OF fin, of i _ y bs p] by (cases "v i") (auto simp: fun_upd_idem)
  have "level_total (v(i \<mapsto> r)) y bs p < 2 ^ 32" for y bs p
    using level_total_add [OF fin, of i r y bs p] assms(3) le [of y bs p] assms(1)
    by (auto simp: view_ok_def share_def intro: le_less_trans)
  then show ?thesis using assms(1,2) fin by (simp add: view_ok_def)
qed

lemma view_ok_remove: "view_ok v \<Longrightarrow> view_ok (v(i := None))"
proof -
  assume v: "view_ok v"
  then have fin: "finite (dom v)" by (simp add: view_ok_def)
  have le: "level_total (v(i := None)) y bs p \<le> level_total v y bs p" for y bs p
    using level_total_remove [OF fin, of i _ y bs p] by (cases "v i") (auto simp: fun_upd_idem)
  show ?thesis using v fin le_less_trans [OF le] unfolding view_ok_def by simp
qed

section \<open>The feed of an operation\<close>

text \<open>The messages in the order in which the engine sends them.\<close>

definition op_messages :: "u32 \<Rightarrow> side \<Rightarrow> call list \<Rightarrow> md_msg list" where
  "op_messages y aggressor cs = concat (map md_of cs) @ trade_messages y aggressor (trade_msgs cs)"

text \<open>The feed leads from a view that shows the book \<open>B\<close> to one that shows \<open>B'\<close>.\<close>

definition feed_leads :: "u32 \<Rightarrow> view \<Rightarrow> md_msg list \<Rightarrow> book \<Rightarrow> bool" where
  "feed_leads y v ms B' \<longleftrightarrow> feed_ok ms v \<and> only y (fold view_step ms v) = view_of y B' \<and>
     same_others y v (fold view_step ms v)"

lemma feed_leads_Nil: "view_ok v \<Longrightarrow> only y v = view_of y B \<Longrightarrow> feed_leads y v [] B"
  by (simp add: feed_leads_def same_others_def)

lemma feed_leads_step:
  assumes "view_ok v" "fits m v" "same_others y v (view_step m v)" "feed_leads y (view_step m v) ms B"
  shows "feed_leads y v (m # ms) B"
  using assms same_others_trans unfolding feed_leads_def by (simp add: same_others_def)

lemma trade_messages_leads:
  assumes fb: "fill_book iid sd y price q (B bs) = (left, m, cs)" and ok: "book_ok B"
    and v: "only y v = view_of y B" "view_ok v"
  shows "feed_leads y v (trade_messages y aggressor (trade_msgs cs)) (B(bs := m))"
proof (cases "trade_msgs cs = []")
  case True
  then show ?thesis using fill_feed [OF fb ok v] by (simp add: trade_messages_def feed_leads_def)
next
  case False
  obtain p rs m' where e: "B bs = (p, rs) # m'"
  proof (cases "B bs")
    case Nil
    with fb False show ?thesis by simp
  next
    case (Cons e m')
    with that show ?thesis by (cases e) simp
  qed
  then have "rs \<noteq> []" using book_ok_levels [OF ok, of bs] by simp
  then obtain r where "r \<in> set rs" by (cases rs) auto
  then have "r_order_id r \<in> set (resting_ids (B bs))" by (simp add: e)
  then have "r_order_id r \<in> book_ids B" unfolding book_ids_eq by blast
  then obtain x where x: "view_of y B (r_order_id r) = Some x"
    using view_of_None [of y B "r_order_id r"] by auto
  from only_view_of(2) [OF v(1) x] view_of_symbol [OF x] have "fits (TradeSummary y sd' k p') v" for sd' k p'
    by auto
  moreover have "view_step (TradeSummary y sd' k p') v = v" for sd' k p' by simp
  ultimately show ?thesis using False fill_feed [OF fb ok v] v(2)
    by (simp add: trade_messages_def feed_leads_def)
qed

text \<open>Trades, and the aggressor's rest shown before them.\<close>

lemma rest_leads:
  assumes ok: "book_ok B" and i: "i \<notin> book_ids B" and q: "left \<noteq> 0"
    and fb: "fill_book i sd y price q (B (opposite_of_side sd)) = (left, m, cs)"
    and r: "r_order_id r = i" "r_quantity r = left" "r_side r = sd" "\<not> is_ioc (r_flags r)"
    and v: "only y v = (view_of y B)(i \<mapsto> at_level y (levels_of_side sd) price r)" "view_ok v"
    and B1: "B1 = B(opposite_of_side sd := m)"
  shows "feed_leads y v (trade_messages y aggressor (trade_msgs cs))
    (B1(levels_of_side sd := book_insert (levels_of_side sd) price r (B1 (levels_of_side sd))))"
proof -
  let ?own = "levels_of_side sd" and ?opp = "opposite_of_side sd"
  let ?B = "B(?own := book_insert ?own price r (B ?own))"
  have "resting_ok ?own r" using r q by (simp add: resting_ok_def)
  then have "book_ok ?B" using ok i r(1) by (intro book_ok_insert) simp_all
  moreover have "only y v = view_of y ?B" using view_of_insert [OF ok] i r(1) v(1) by simp
  moreover have "fill_book i sd y price q (?B ?opp) = (left, m, cs)" using fb by simp
  ultimately have "feed_leads y v (trade_messages y aggressor (trade_msgs cs)) (?B(?opp := m))"
    using v(2) by (intro trade_messages_leads)
  moreover have "?B(?opp := m) = B1(?own := book_insert ?own price r (B1 ?own))"
    by (simp add: B1 fun_upd_twist)
  ultimately show ?thesis by simp
qed

lemma trade_msgs_none [simp]:
  "trade_msgs (if c then [OnNewOrder i y sd q p f] else []) = []"
  "trade_msgs (if c then [OnDeleteOrder i b] else []) = []"
  by simp_all

lemma fill_level_no_md: "fill_level iid sd y p q rs = (q', rs', cs) \<Longrightarrow> concat (map md_of cs) = []"
  by (induction rs arbitrary: q q' rs' cs)
    (auto simp: full_fill_calls_def partial_fill_calls_def split: prod.splits if_splits)

lemma fill_book_no_md: "fill_book iid sd y price q m = (q', m', cs) \<Longrightarrow> concat (map md_of cs) = []"
proof (induction m arbitrary: q q' m' cs)
  case (Cons e m)
  then show ?case by (cases e) (fastforce split: prod.splits if_splits dest: fill_level_no_md)
qed simp

lemma op_messages_enter:
  assumes "fill_book i sd y price q m0 = (left, m, cs)" "trade_msgs cs' = []"
  shows "op_messages y aggressor (cs @ cs') = concat (map md_of cs') @ trade_messages y aggressor (trade_msgs cs)"
  using fill_book_no_md [OF assms(1)] assms(2) by (simp add: op_messages_def)

text \<open>A message that (re)places the order \<open>i\<close> of the symbol, and the trades that follow it.\<close>

lemma place_leads:
  assumes ok: "book_ok B" and i: "i \<notin> book_ids B" and q: "left \<noteq> 0"
    and fb: "fill_book i sd y price q (B (opposite_of_side sd)) = (left, m, cs)"
    and r: "r_order_id r = i" "r_quantity r = left" "r_side r = sd" "\<not> is_ioc (r_flags r)"
    and v: "(only y v)(i := None) = view_of y B" "own_order y i v" "view_ok v"
    and room: "level_total (v(i := None)) y (levels_of_side sd) price + unat q < 2 ^ 32"
    and msg: "fits msg v" "view_step msg v = v(i \<mapsto> at_level y (levels_of_side sd) price r)"
    and B1: "B1 = B(opposite_of_side sd := m)"
  shows "feed_leads y v (msg # trade_messages y aggressor (trade_msgs cs))
    (B1(levels_of_side sd := book_insert (levels_of_side sd) price r (B1 (levels_of_side sd))))"
proof (rule feed_leads_step [OF v(3) msg(1)])
  let ?x = "at_level y (levels_of_side sd) price r"
  note upd = only_upd [OF v(2), of "Some ?x"]
  show "same_others y v (view_step msg v)" using upd by (simp add: msg(2) at_level_def)
  have "unat left \<le> unat q" using fill_book_left_le [OF fb] by (simp add: word_le_nat_alt)
  then have "view_ok (v(i \<mapsto> ?x))"
    using room q r by (intro view_ok_upd [OF v(3)]) (simp_all add: at_level_def word_gt_0)
  moreover have "only y (v(i \<mapsto> ?x)) = (view_of y B)(i \<mapsto> ?x)"
    using upd by (simp add: at_level_def v(1) [symmetric])
  ultimately show "feed_leads y (view_step msg v) (trade_messages y aggressor (trade_msgs cs))
    (B1(levels_of_side sd := book_insert (levels_of_side sd) price r (B1 (levels_of_side sd))))"
    unfolding msg(2) by (intro rest_leads [OF ok i q fb r _ _ B1])
qed

lemma new_order_leads:
  assumes ok: "book_ok B" and v: "only y v = view_of y B" "view_ok v" "v i = None"
    and q: "0 < q" and room: "level_total v y (levels_of_side sd) price + unat q < 2 ^ 32"
  shows "feed_leads y v (op_messages y aggressor (snd (spec_new_order i sd y q price flags B)))
    (fst (spec_new_order i sd y q price flags B))"
proof -
  let ?own = "levels_of_side sd" and ?opp = "opposite_of_side sd"
  obtain left m cs where fb: "fill_book i sd y price q (B ?opp) = (left, m, cs)" by (metis prod_cases3)
  show ?thesis
  proof (cases "left = 0 \<or> is_ioc flags")
    case True
    then show ?thesis using trade_messages_leads [OF fb ok v(1,2)] fb
      by (auto simp: spec_new_order_def enter_order_def Let_def op_messages_enter [OF fb])
  next
    case False
    let ?r = "\<lparr>r_order_id = i, r_quantity = left, r_filled = q - left, r_side = sd, r_flags = flags\<rparr>"
    have i: "i \<notin> book_ids B" using v(1,3) view_of_None [of y B i] by (auto simp: only_def dest: fun_cong [of _ _ i])
    have "(only y v)(i := None) = view_of y B" using v(1) i view_of_None [of y B i] by (simp add: fun_upd_idem)
    moreover have "own_order y i v" using v(3) by (simp add: own_order_def)
    moreover have "fits (NewOrder i y sd left price flags) v" using v(3) False by (simp add: word_gt_0)
    moreover have "level_total (v(i := None)) y ?own price + unat q < 2 ^ 32"
      using room v(3) by (simp add: fun_upd_idem)
    ultimately have "feed_leads y v (NewOrder i y sd left price flags # trade_messages y aggressor (trade_msgs cs))
        ((B(?opp := m))(?own := book_insert ?own price ?r ((B(?opp := m)) ?own)))"
      using False v(2) by (intro place_leads [OF ok i _ fb]) (simp_all add: at_level_def)
    then show ?thesis using fb False
      by (simp add: spec_new_order_def enter_order_def Let_def op_messages_enter [OF fb] word_gt_0)
  qed
qed

lemma order_shown:
  assumes "find_order i B = Some e" "only y v = view_of y B"
  shows "v i \<noteq> None" "own_order y i v"
proof -
  have "i \<in> book_ids B" using assms(1) find_order_None [of i B] by auto
  then obtain x where x: "view_of y B i = Some x" using view_of_None [of y B i] by auto
  from only_view_of(2) [OF assms(2) x] view_of_symbol [OF x]
  show "v i \<noteq> None" "own_order y i v" by (auto simp: own_order_def)
qed

text \<open>A message that removes the order, and the trades that follow it.\<close>

lemma remove_leads:
  assumes ok: "book_ok B" and v: "only y v = view_of y B" "view_ok v" and i: "find_order i B = Some e"
    and fb: "fill_book iid sd y price q (remove_order i B bs) = (left, m, cs)"
  shows "feed_leads y v (DeleteOrder i # trade_messages y aggressor (trade_msgs cs)) ((remove_order i B)(bs := m))"
proof (rule feed_leads_step [OF v(2)])
  show "fits (DeleteOrder i) v" using order_shown [OF i v(1)] by simp
  note upd = only_upd [OF order_shown(2) [OF i v(1)], of None]
  show "same_others y v (view_step (DeleteOrder i) v)" using upd by simp
  have "only y (v(i := None)) = view_of y (remove_order i B)" using upd v(1) by (simp add: view_of_remove)
  then show "feed_leads y (view_step (DeleteOrder i) v) (trade_messages y aggressor (trade_msgs cs))
      ((remove_order i B)(bs := m))"
    using trade_messages_leads [OF fb book_ok_remove [OF ok]] view_ok_remove [OF v(2)] by simp
qed

lemma removed_leads:
  assumes ok: "book_ok B" and v: "only y v = view_of y B" "view_ok v" and i: "find_order i B = Some e"
  shows "feed_leads y v [DeleteOrder i] (remove_order i B)"
proof (rule feed_leads_step [OF v(2)])
  show "fits (DeleteOrder i) v" using order_shown [OF i v(1)] by simp
  note upd = only_upd [OF order_shown(2) [OF i v(1)], of None]
  show "same_others y v (view_step (DeleteOrder i) v)" using upd by simp
  show "feed_leads y (view_step (DeleteOrder i) v) [] (remove_order i B)"
    using upd v(1) view_ok_remove [OF v(2)] by (intro feed_leads_Nil) (simp_all add: view_of_remove)
qed

lemma levels_view_find:
  assumes "distinct (resting_ids m)" "book_find i m = Some (p, r)"
  shows "levels_view y bs m i = Some (at_level y bs p r)"
proof -
  obtain m1 rs1 rs2 m2 where m: "m = m1 @ (p, rs1 @ r # rs2) # m2" "r_order_id r = i"
    by (rule book_find_SomeE [OF assms(2)])
  have "(i, at_level y bs p r) \<in> set (view_of_levels y bs m)" using m by auto
  moreover have "distinct (map fst (view_of_levels y bs m))"
    using assms(1) unfolding fst_view_of_levels .
  ultimately show ?thesis unfolding levels_view_def by (intro map_of_is_SomeI)
qed

lemma view_of_find:
  assumes ok: "book_ok B" and found: "find_order i B = Some (p, r)"
  shows "view_of y B i = Some (at_level y (levels_of_side (r_side r)) p r)"
proof -
  obtain bs where bs: "book_find i (B bs) = Some (p, r)"
    using found by (auto simp: find_order_def split: option.splits)
  obtain bs' where bs': "bs' \<noteq> bs" by (cases bs) auto
  have i: "i \<in> set (resting_ids (B bs))" using bs book_find_None [of i "B bs"] by auto
  obtain m1 rs1 rs2 m2 where "B bs = m1 @ (p, rs1 @ r # rs2) # m2" by (rule book_find_SomeE [OF bs])
  then have "levels_of_side (r_side r) = bs"
    using book_ok_levels [OF ok, of bs] by (auto simp: resting_ok_def)
  then show ?thesis using i view_of_at [OF ok bs'] levels_view_find [OF book_ok_ids(1) [OF ok] bs] by simp
qed

lemma view_of_modify:
  "view_of y (\<lambda>bs. book_modify i (\<lambda>r. r\<lparr>r_quantity := q\<rparr>) (B bs)) = (case view_of y B i of
      None \<Rightarrow> view_of y B | Some x \<Rightarrow> (view_of y B)(i \<mapsto> x\<lparr>vo_quantity := q\<rparr>))"
proof -
  have lv: "levels_view y bs (book_modify i (\<lambda>r. r\<lparr>r_quantity := q\<rparr>) m) = (case levels_view y bs m i of
      None \<Rightarrow> levels_view y bs m | Some o' \<Rightarrow> (levels_view y bs m)(i \<mapsto> o'\<lparr>vo_quantity := q\<rparr>))" for bs m
    by (rule levels_view_modify) simp_all
  show ?thesis
    by (rule ext) (auto simp: view_of_side lv split: option.split)
qed

lemma modify_order_leads:
  assumes ok: "book_ok B" and v: "only y v = view_of y B" "view_ok v"
    and room: "level_total (v(i := None)) y (levels_of_side sd) price + unat q < 2 ^ 32"
    and unfilled: "\<And>r. find_order i B = Some (price, r) \<Longrightarrow> r_side r = sd \<Longrightarrow> r_filled r = 0"
  shows "feed_leads y v (op_messages y aggressor (snd (coded_modify_order i sd y q price B)))
    (fst (coded_modify_order i sd y q price B))"
proof (cases "find_order i B")
  case None
  then show ?thesis using v
    by (simp add: coded_modify_order_def op_messages_def trade_messages_def feed_leads_Nil)
next
  case (Some e)
  obtain p r where e: "find_order i B = Some (p, r)" using Some by (cases e) simp
  note shown = order_shown [OF e v(1)]
  note here = only_view_of(2) [OF v(1) view_of_find [OF ok e]]
  consider "q \<le> r_filled r" | "\<not> q \<le> r_filled r" "p = price \<and> r_side r = sd"
    | "\<not> q \<le> r_filled r" "\<not> (p = price \<and> r_side r = sd)" by blast
  then show ?thesis
  proof cases
    case 1
    then show ?thesis using removed_leads [OF ok v e] e
      by (simp add: coded_modify_order_def op_messages_def trade_messages_def)
  next
    case 2
    let ?x = "(at_level y (levels_of_side sd) price r)\<lparr>vo_quantity := q\<rparr>" and ?m = "ModifyOrder i sd q price"
    have zero: "r_filled r = 0" using unfilled e 2 by simp
    have q: "0 < q" using 2 by (auto simp: word_gt_0)
    have step: "view_step ?m v = v(i \<mapsto> ?x)" using here 2 by (simp add: at_level_def)
    note upd = only_upd [OF shown(2), of "Some ?x"]
    have "feed_leads y v [?m] (\<lambda>bs. book_modify i (\<lambda>r. r\<lparr>r_quantity := q\<rparr>) (B bs))"
    proof (rule feed_leads_step [OF v(2)])
      show "fits ?m v" using shown(1) q by simp
      show "same_others y v (view_step ?m v)" unfolding step using upd by (simp add: at_level_def)
      have "view_ok (v(i \<mapsto> ?x))" using room q by (intro view_ok_upd [OF v(2)]) (simp_all add: at_level_def)
      then show "feed_leads y (view_step ?m v) [] (\<lambda>bs. book_modify i (\<lambda>r. r\<lparr>r_quantity := q\<rparr>) (B bs))"
        unfolding step using upd view_of_find [OF ok e, of y] 2 v(1)
        by (intro feed_leads_Nil) (simp_all add: view_of_modify at_level_def)
    qed
    then show ?thesis using e 2 zero
      by (simp add: coded_modify_order_def op_messages_def trade_messages_def)
  next
    case 3
    let ?own = "levels_of_side sd" and ?opp = "opposite_of_side sd" and ?B = "remove_order i B"
    obtain left m cs where fb: "fill_book i sd y price (q - r_filled r) (?B ?opp) = (left, m, cs)"
      by (metis prod_cases3)
    obtain bs where bs: "book_find i (B bs) = Some (p, r)"
      using e by (auto simp: find_order_def split: option.splits)
    obtain m1 rs1 rs2 m2 where "B bs = m1 @ (p, rs1 @ r # rs2) # m2" by (rule book_find_SomeE [OF bs])
    then have plain: "\<not> is_ioc (r_flags r)"
      using book_ok_levels [OF ok, of bs] by (auto simp: resting_ok_def)
    have run: "coded_modify_order i sd y q price B = (if left = 0 then (?B(?opp := m), cs @ [OnDeleteOrder i True])
      else ((?B(?opp := m))(?own := book_insert ?own price \<lparr>r_order_id = i, r_quantity = left,
          r_filled = q - r_filled r - left, r_side = sd, r_flags = r_flags r\<rparr> ((?B(?opp := m)) ?own)),
        cs @ [OnModifyOrder i y sd left price]))"
      using e 3 fb plain unfolding coded_modify_order_def enter_order_def Let_def
      by (auto simp: word_gt_0)
    show ?thesis
    proof (cases "left = 0")
      case True
      then show ?thesis using remove_leads [OF ok v e fb] by (simp add: run op_messages_enter [OF fb])
    next
      case False
      let ?r = "\<lparr>r_order_id = i, r_quantity = left, r_filled = q - r_filled r - left, r_side = sd, r_flags = r_flags r\<rparr>"
      have "q - r_filled r \<le> q" using 3 by (intro word_diff_le) simp
      then have "level_total (v(i := None)) y ?own price + unat (q - r_filled r) < 2 ^ 32"
        using room by (simp add: word_le_nat_alt)
      moreover have "(only y v)(i := None) = view_of y ?B" using v(1) by (simp add: view_of_remove)
      moreover have "view_step (ModifyOrder i sd left price) v = v(i \<mapsto> at_level y ?own price ?r)"
        using here by (simp add: at_level_def)
      moreover have "fits (ModifyOrder i sd left price) v" using shown(1) False by (simp add: word_gt_0)
      ultimately have "feed_leads y v (ModifyOrder i sd left price # trade_messages y aggressor (trade_msgs cs))
          ((?B(?opp := m))(?own := book_insert ?own price ?r ((?B(?opp := m)) ?own)))"
        using False plain shown(2) v(2)
        by (intro place_leads [OF book_ok_remove [OF ok] not_in_removed _ fb]) simp_all
      then show ?thesis using False by (simp add: run op_messages_enter [OF fb])
    qed
  qed
qed

end
