(* ===== verification/Broker_Feed.thy ===== *)
theory Broker_Feed imports
  Ladder_Feed
begin

text \<open>
  The engine and the readers of its feed: what the engine sends while it handles a payload keeps a
  reader's view equal to the ladders.
\<close>

section \<open>A view of all ladders\<close>

definition shows_engine :: "broker \<Rightarrow> view \<Rightarrow> bool" where
  "shows_engine b v \<longleftrightarrow> (\<forall>y L. bk_ladders b y = Some L \<longrightarrow>
     (\<exists>B. represents L B \<and> book_ok B \<and> uncrossed B \<and> l_symbol L = y \<and> only y v = view_of y B))"

text \<open>
  What a payload must not do: use an id that is already shown, overflow the quantity at its price,
  or modify, in place, an order that has been filled in part (the ladder then announces less than it
  keeps).
\<close>

definition shown_well :: "oe_payload \<Rightarrow> broker \<Rightarrow> view \<Rightarrow> bool" where
  "shown_well p b v \<longleftrightarrow> (let i = py_exch_order_id p; y = py_symbol p in
     (py_msg_type p = OE_NEW_ORDER \<longrightarrow> v i = None) \<and>
     (py_msg_type p \<noteq> OE_DELETE_ORDER \<longrightarrow> level_total (v(i := None)) y
        (levels_of_side (py_side p)) (I32 (py_price p)) + unat (py_quantity p) < 2 ^ 32) \<and>
     (py_msg_type p = OE_MODIFY_ORDER \<longrightarrow> (\<forall>L a. bk_ladders b y = Some L \<longrightarrow> l_orders L i = Some a \<longrightarrow>
        o_price (l_heap L a) = I32 (py_price p) \<longrightarrow> o_side (l_heap L a) = py_side p \<longrightarrow>
        o_filled_quantity (l_heap L a) = 0)))"

lemma spec_op_leads:
  assumes p: "is_ladder_payload p" "acceptable p b" "bk_ladders b (py_symbol p) = Some L"
    and B: "represents L B" "book_ok B"
    and v: "only (py_symbol p) v = view_of (py_symbol p) B" "view_ok v" "shown_well p b v"
  shows "feed_leads (py_symbol p) v (op_messages (py_symbol p) aggressor (snd (spec_op p B))) (fst (spec_op p B))"
proof -
  let ?i = "py_exch_order_id p" and ?y = "py_symbol p"
  consider "py_msg_type p = OE_NEW_ORDER" | "py_msg_type p = OE_DELETE_ORDER" | "py_msg_type p = OE_MODIFY_ORDER"
    using p(1) by (auto simp: is_ladder_payload_def)
  then show ?thesis
  proof cases
    case 1
    then have "v ?i = None" "0 < py_quantity p" using v(3) p by (auto simp: shown_well_def acceptable_def Let_def)
    then show ?thesis using v(3) 1 new_order_leads [OF B(2) v(1,2)]
      by (simp add: spec_op_def shown_well_def Let_def fun_upd_idem)
  next
    case 2
    have "feed_leads ?y v (op_messages ?y aggressor (snd (spec_delete_order ?i B))) (fst (spec_delete_order ?i B))"
    proof (cases "find_order ?i B")
      case None
      then show ?thesis using feed_leads_Nil [OF v(2,1)]
        by (simp add: spec_delete_order_def op_messages_def trade_messages_def)
    next
      case (Some x)
      then show ?thesis using removed_leads [OF B(2) v(1,2)]
        by (simp add: spec_delete_order_def op_messages_def trade_messages_def)
    qed
    then show ?thesis using 2 by (simp add: spec_op_def)
  next
    case 3
    have "r_filled r = 0" if r: "find_order ?i B = Some (I32 (py_price p), r)" "r_side r = py_side p" for r
    proof -
      have "?i \<in> book_ids B" using r(1) find_order_None [of ?i B] by auto
      then obtain a where a: "l_orders L ?i = Some a" using represents_index [OF B(1), of ?i] by auto
      obtain q where "find_order ?i B = Some (q, abs_order (l_heap L a))" "o_price (l_heap L a) = q"
        by (rule find_order_level [OF B(1) a B(2)])
      with r a 3 p(3) v(3) show ?thesis by (auto simp: shown_well_def Let_def)
    qed
    then show ?thesis using v(3) 3 modify_order_leads [OF B(2) v(1,2)]
      by (simp add: spec_op_def shown_well_def Let_def)
  qed
qed

text \<open>C19: the datagrams that the engine sends for a payload tell a reader what it did.  From a view
  that shows all ladders, the messages sent are ones a reader can apply, and lead to a view that
  shows all ladders after the payload.  The conditions are that \<open>sendto\<close> takes the datagrams, and that
  the payload is \<open>shown_well\<close>: a new order's id is not shown yet, the quantity at its price fits 32 bits,
  and a modification at an unchanged price is of an order without fills (of one with fills, the ladder
  keeps more than it announces, and the feed and the book differ).\<close>

theorem feed_follows_engine:
  assumes "accepts e" "engine_ok b" "is_ladder_payload p" "acceptable p b"
    and v: "shows_engine b v" "view_ok v" "shown_well p b v"
  shows "\<exists>b' ms. process_payload e p b = Some (Inr b') \<and> emits [] ms (feed b) [] (feed b') \<and>
    feed_ok ms v \<and> shows_engine b' (fold view_step ms v)"
proof -
  obtain L L' b' where run: "bk_ladders b (py_symbol p) = Some L"
    "ladder_op p (L\<lparr>l_calls := []\<rparr>) = Some (Inr L')" "process_payload e p b = Some (Inr b')"
    "bk_ladders b' = (bk_ladders b)(py_symbol p \<mapsto> L')"
    "emits [] (op_messages (py_symbol p) (bk_aggressor_side (at_work p b)) (l_calls L')) (feed b) [] (feed b')"
    using process_ladder_payload [OF assms(1-4)] unfolding op_messages_def trade_msgs_def by metis
  obtain B where B: "represents L B" "book_ok B" "uncrossed B" "l_symbol L = py_symbol p"
    "only (py_symbol p) v = view_of (py_symbol p) B" using v(1) run(1) by (auto simp: shows_engine_def)
  note sim = ladder_op_sim [OF assms(3,4) run(1) B(1-4)]
  have L': "represents L' (fst (spec_op p B))" "l_calls L' = snd (spec_op p B)" "l_symbol L' = py_symbol p"
    using sim(1) run(2) B(4) by (auto simp: refines_def)
  let ?ms = "op_messages (py_symbol p) (bk_aggressor_side (at_work p b)) (l_calls L')"
  have lead: "feed_leads (py_symbol p) v ?ms (fst (spec_op p B))"
    unfolding L'(2) by (rule spec_op_leads [OF assms(3,4) run(1) B(1,2,5) v(2,3)])
  then have "only y (fold view_step ?ms v) = only y v" if "y \<noteq> py_symbol p" for y
    using that by (simp add: feed_leads_def same_others_def)
  then have "shows_engine b' (fold view_step ?ms v)"
    using v(1) L' sim(2,3) lead run(4) by (auto simp: shows_engine_def feed_leads_def)
  with run(3,5) lead show ?thesis unfolding feed_leads_def by blast
qed

lemma started_shown: "shows_engine (started_broker ps) Map.empty"
  using represents_empty [of 1] book_ok_empty
  by (auto simp: shows_engine_def started_broker_def add_symbol_def new_broker_def uncrossed_def
      only_def view_of_def view_of_book_def empty_ladder_def intro!: exI [of _ "\<lambda>_. []"])

lemma view_ok_empty [simp]: "view_ok Map.empty"
  by (simp add: view_ok_def)

lemma feed_follows_engine_witness:
  "\<exists>b' ms. process_payload calm_env (buy_payload 7 3) (started_broker []) = Some (Inr b') \<and>
    emits [] ms (feed (started_broker [])) [] (feed b') \<and> feed_ok ms Map.empty \<and>
    shows_engine b' (fold view_step ms Map.empty)"
proof -
  have "shown_well (buy_payload 7 3) (started_broker []) Map.empty"
    by (simp add: shown_well_def Let_def fun_upd_idem)
  moreover have "is_ladder_payload (buy_payload 7 3)" by (simp add: is_ladder_payload_def)
  ultimately show ?thesis
    using feed_follows_engine [OF calm_accepts started_ok _ started_acceptable started_shown view_ok_empty] by blast
qed

end
