(* ===== verification/Bot_Order_Book.thy ===== *)
theory Bot_Order_Book imports
  Feed_View
begin

text \<open>
  \<open>bots/order_book.cpp\<close>: the order book that the bots' market data client keeps for one symbol.
  It knows every order and, for each price of a side, the sum of the quantities; it does not keep
  the orders of a price in order.
\<close>

section \<open>State\<close>

record ob_order =
  ob_side :: side
  ob_price :: i32
  ob_quantity :: u32

record order_book =
  ob_orders :: "u64 \<rightharpoonup> ob_order"
  ob_buy_levels :: "(i32 \<times> u32) list"
  ob_sell_levels :: "(i32 \<times> u32) list"

record ob_price_level =
  opl_price :: i32
  opl_quantity :: u32

definition empty_order_book :: order_book where
  "empty_order_book = \<lparr>ob_orders = Map.empty, ob_buy_levels = [], ob_sell_levels = []\<rparr>"

fun ob_levels :: "book_side \<Rightarrow> order_book \<Rightarrow> (i32 \<times> u32) list" where
  "ob_levels BuyLevels b = ob_buy_levels b"
| "ob_levels SellLevels b = ob_sell_levels b"

fun set_ob_levels :: "book_side \<Rightarrow> (i32 \<times> u32) list \<Rightarrow> order_book \<Rightarrow> order_book" where
  "set_ob_levels BuyLevels m b = b\<lparr>ob_buy_levels := m\<rparr>"
| "set_ob_levels SellLevels m b = b\<lparr>ob_sell_levels := m\<rparr>"

section \<open>Operations\<close>

text \<open>\<open>levels[price] += quantity\<close> and \<open>levels[price] -= quantity\<close>; the subscript inserts a zero.\<close>

definition level_add :: "book_side \<Rightarrow> i32 \<Rightarrow> u32 \<Rightarrow> order_book \<Rightarrow> order_book" where
  "level_add bs p q b = set_ob_levels bs
     (omap_update p (\<lambda>x. x + q) (omap_insert (before bs) p 0 (ob_levels bs b))) b"

definition level_sub :: "book_side \<Rightarrow> i32 \<Rightarrow> u32 \<Rightarrow> order_book \<Rightarrow> order_book" where
  "level_sub bs p q b = set_ob_levels bs
     (omap_update p (\<lambda>x. x - q) (omap_insert (before bs) p 0 (ob_levels bs b))) b"

definition ob_new_order :: "u64 \<Rightarrow> side \<Rightarrow> u32 \<Rightarrow> i32 \<Rightarrow> u8 \<Rightarrow> order_book \<Rightarrow> order_book" where
  "ob_new_order i sd q p flags b =
    (let b = (case ob_orders b i of
           None \<Rightarrow> b\<lparr>ob_orders := (ob_orders b)(i \<mapsto> \<lparr>ob_side = sd, ob_price = p, ob_quantity = q\<rparr>)\<rparr>
         | Some _ \<Rightarrow> b)
     in if sd = BUY then level_add BuyLevels p q b else level_add SellLevels p q b)"

definition delete_order_from_levels :: "u64 \<Rightarrow> book_side \<Rightarrow> order_book \<Rightarrow> order_book" where
  "delete_order_from_levels i bs b = (case ob_orders b i of
      None \<Rightarrow> b
    | Some x \<Rightarrow> (case map_of (ob_levels bs b) (ob_price x) of
          None \<Rightarrow> b
        | Some q \<Rightarrow>
            if q < ob_quantity x then b
            else if q - ob_quantity x = 0
              then set_ob_levels bs (omap_erase (ob_price x) (ob_levels bs b)) b
              else set_ob_levels bs (omap_update (ob_price x) (\<lambda>q. q - ob_quantity x) (ob_levels bs b)) b))"

definition ob_delete_order :: "u64 \<Rightarrow> order_book \<Rightarrow> order_book" where
  "ob_delete_order i b = (case ob_orders b i of
      None \<Rightarrow> b
    | Some x \<Rightarrow>
        let b = (if ob_quantity x = 0 then b
                 else if BUY = ob_side x then delete_order_from_levels i BuyLevels b
                 else delete_order_from_levels i SellLevels b)
        in b\<lparr>ob_orders := (ob_orders b)(i := None)\<rparr>)"

definition ob_modify_order :: "u64 \<Rightarrow> side \<Rightarrow> u32 \<Rightarrow> i32 \<Rightarrow> order_book \<Rightarrow> order_book" where
  "ob_modify_order i sd q p b = (case ob_orders b i of
      None \<Rightarrow> b
    | Some x \<Rightarrow>
        let b = (if BUY = ob_side x then delete_order_from_levels i BuyLevels b
                 else delete_order_from_levels i SellLevels b);
            b = (if sd = BUY then level_add BuyLevels p q b else level_add SellLevels p q b)
        in b\<lparr>ob_orders := (ob_orders b)(i \<mapsto> \<lparr>ob_side = sd, ob_price = p, ob_quantity = q\<rparr>)\<rparr>)"

text \<open>
  When a trade uses an order up, its node is erased first and its side and price are read through
  the dangling reference afterwards.  What these reads give is not defined; \<open>freed\<close> is what they
  give, as a function of the order that the node held.
\<close>

definition level_sub_erase :: "book_side \<Rightarrow> i32 \<Rightarrow> u32 \<Rightarrow> order_book \<Rightarrow> order_book" where
  "level_sub_erase bs p q b = (let b = level_sub bs p q b
     in if map_of (ob_levels bs b) p = Some 0 then set_ob_levels bs (omap_erase p (ob_levels bs b)) b
        else b)"

definition order_trade :: "(ob_order \<Rightarrow> ob_order) \<Rightarrow> u64 \<Rightarrow> u32 \<Rightarrow> i32 \<Rightarrow> order_book \<Rightarrow> order_book" where
  "order_trade freed i q p b = (case ob_orders b i of
      None \<Rightarrow> b
    | Some x \<Rightarrow>
        if ob_quantity x < q then b
        else let x = x\<lparr>ob_quantity := ob_quantity x - q\<rparr> in
          if ob_quantity x = 0 then
            (let b = b\<lparr>ob_orders := (ob_orders b)(i := None)\<rparr>; x = freed x
             in if BUY = ob_side x then level_sub_erase BuyLevels (ob_price x) q b
                else level_sub_erase SellLevels (ob_price x) q b)
          else
            (let b = b\<lparr>ob_orders := (ob_orders b)(i \<mapsto> x)\<rparr>
             in if BUY = ob_side x then level_sub BuyLevels (ob_price x) q b
                else level_sub SellLevels (ob_price x) q b))"

definition get_best_bid :: "order_book \<Rightarrow> ob_price_level" where
  "get_best_bid b = (case ob_buy_levels b of
      [] \<Rightarrow> \<lparr>opl_price = I32 0, opl_quantity = 0\<rparr>
    | (p, q) # _ \<Rightarrow> \<lparr>opl_price = p, opl_quantity = q\<rparr>)"

definition get_best_ask :: "order_book \<Rightarrow> ob_price_level" where
  "get_best_ask b = (case ob_sell_levels b of
      [] \<Rightarrow> \<lparr>opl_price = I32 0, opl_quantity = 0\<rparr>
    | (p, q) # _ \<Rightarrow> \<lparr>opl_price = p, opl_quantity = q\<rparr>)"

section \<open>Levels as sums\<close>

definition levels_match :: "book_side \<Rightarrow> (i32 \<times> u32) list \<Rightarrow> (i32 \<Rightarrow> nat) \<Rightarrow> bool" where
  "levels_match bs m f \<longleftrightarrow> ordered_map (before bs) m \<and> (\<forall>p. f p < 2 ^ 32 \<and>
     map_of m p = (if f p = 0 then None else Some (of_nat (f p))))"

lemma levels_match_insert:
  assumes "levels_match bs m f"
  shows "map_of (omap_insert (before bs) p 0 m) = (map_of m)(p \<mapsto> of_nat (f p))"
    and "ordered_map (before bs) (omap_insert (before bs) p 0 m)"
proof -
  have m: "ordered_map (before bs) m" "map_of m p = (if f p = 0 then None else Some (of_nat (f p)))"
    using assms by (simp_all add: levels_match_def)
  show "ordered_map (before bs) (omap_insert (before bs) p 0 m)"
    by (rule book_order.ordered_insert [OF m(1)])
  show "map_of (omap_insert (before bs) p 0 m) = (map_of m)(p \<mapsto> of_nat (f p))"
  proof (cases "f p = 0")
    case True
    then have "map_of m p = None" using m(2) by simp
    from book_order.map_of_insert [OF this] True show ?thesis by simp
  next
    case False
    then have here: "map_of m p = Some (of_nat (f p))" using m(2) by simp
    have "omap_insert (before bs) p 0 m = m" by (rule book_order.insert_present [OF m(1) here])
    with here show ?thesis by (simp only: fun_upd_idem)
  qed
qed

lemma levels_match_write:
  assumes m: "levels_match bs m f" and n: "0 < n" "n < 2 ^ 32" "g (of_nat (f p)) = of_nat n"
  shows "levels_match bs (omap_update p g (omap_insert (before bs) p 0 m)) (f(p := n))"
  using levels_match_insert [OF m, of p] m n
  by (simp add: levels_match_def map_of_omap_update)

lemma levels_match_erase:
  assumes "levels_match bs m f" "f' = f(p := 0)"
  shows "levels_match bs (omap_erase p m) f'"
  using assms by (simp add: levels_match_def map_of_omap_erase ordered_map_erase)

lemma levels_match_update:
  assumes m: "levels_match bs m f" and n: "0 < f p" "0 < n" "n < 2 ^ 32" "g (of_nat (f p)) = of_nat n"
  shows "levels_match bs (omap_update p g m) (f(p := n))"
  using m n by (simp add: levels_match_def map_of_omap_update)

text \<open>One more order at a price.\<close>

definition plus_at :: "book_side \<Rightarrow> i32 \<Rightarrow> nat \<Rightarrow> (book_side \<Rightarrow> i32 \<Rightarrow> nat) \<Rightarrow> book_side \<Rightarrow> i32 \<Rightarrow> nat" where
  "plus_at bs0 p n f bs = (if bs = bs0 then (f bs)(p := f bs p + n) else f bs)"

definition sides_match :: "order_book \<Rightarrow> (book_side \<Rightarrow> i32 \<Rightarrow> nat) \<Rightarrow> bool" where
  "sides_match b f \<longleftrightarrow> (\<forall>bs. levels_match bs (ob_levels bs b) (f bs))"

lemma set_ob_levels_simps [simp]:
  "ob_orders (set_ob_levels bs m b) = ob_orders b"
  "ob_levels bs' (set_ob_levels bs m b) = (if bs' = bs then m else ob_levels bs' b)"
  "set_ob_levels bs m' (set_ob_levels bs m b) = set_ob_levels bs m' b"
  by (cases bs; cases bs'; simp)+

lemma ob_levels_orders [simp]: "ob_levels bs (b\<lparr>ob_orders := x\<rparr>) = ob_levels bs b"
  by (cases bs) simp_all

lemma sides_match_orders [simp]: "sides_match (b\<lparr>ob_orders := x\<rparr>) f = sides_match b f"
  by (simp add: sides_match_def)

lemma sides_match_set:
  assumes "sides_match b f" "levels_match bs0 m (f' bs0)" "\<And>bs. bs \<noteq> bs0 \<Longrightarrow> f' bs = f bs"
  shows "sides_match (set_ob_levels bs0 m b) f'"
  using assms by (simp add: sides_match_def)

lemma sides_match_at: "sides_match b f \<Longrightarrow> levels_match bs (ob_levels bs b) (f bs)"
  by (simp add: sides_match_def)

lemma level_add_match:
  assumes "sides_match b f" "0 < q" "f bs p + unat q < 2 ^ 32"
  shows "sides_match (level_add bs p q b) (plus_at bs p (unat q) f)"
  unfolding level_add_def
proof (rule sides_match_set [OF assms(1)])
  have "levels_match bs (omap_update p (\<lambda>x. x + q) (omap_insert (before bs) p 0 (ob_levels bs b)))
      ((f bs)(p := f bs p + unat q))"
    by (rule levels_match_write [OF sides_match_at [OF assms(1)]]) (use assms in \<open>auto simp: word_gt_0 unat_gt_0\<close>)
  then show "levels_match bs (omap_update p (\<lambda>x. x + q) (omap_insert (before bs) p 0 (ob_levels bs b)))
      (plus_at bs p (unat q) f bs)" by (simp add: plus_at_def)
qed (simp add: plus_at_def)

lemma level_sub_match:
  assumes "sides_match b (plus_at bs p (unat a) f)" "q < a"
  shows "sides_match (level_sub bs p q b) (plus_at bs p (unat (a - q)) f)"
  unfolding level_sub_def
proof (rule sides_match_set [OF assms(1)])
  have le: "unat q \<le> unat a" and diff: "unat (a - q) = unat a - unat q" "unat q < unat a"
    using assms(2) by (simp_all add: word_less_nat_alt unat_sub word_le_nat_alt)
  have top: "f bs p + unat a < 2 ^ 32" using sides_match_at [OF assms(1), of bs]
    by (auto simp: levels_match_def plus_at_def dest: spec [of _ p])
  have "levels_match bs (omap_update p (\<lambda>x. x - q) (omap_insert (before bs) p 0 (ob_levels bs b)))
      ((plus_at bs p (unat a) f bs)(p := f bs p + unat (a - q)))"
    by (rule levels_match_write [OF sides_match_at [OF assms(1)]])
      (use diff top in \<open>simp_all add: plus_at_def\<close>)
  then show "levels_match bs (omap_update p (\<lambda>x. x - q) (omap_insert (before bs) p 0 (ob_levels bs b)))
      (plus_at bs p (unat (a - q)) f bs)" by (simp add: plus_at_def)
qed (simp add: plus_at_def)

text \<open>Taking one order's whole quantity away from its price.\<close>

lemma plus_at_same [simp]: "(plus_at bs p n f bs) p = f bs p + n"
  by (simp add: plus_at_def)

lemma plus_at_upd [simp]: "(plus_at bs p n f bs)(p := k) = (f bs)(p := k)"
  by (simp add: plus_at_def)

lemma plus_at_other: "bs' \<noteq> bs \<Longrightarrow> plus_at bs p n f bs' = f bs'"
  by (simp add: plus_at_def)

lemma plus_at_level:
  assumes "sides_match b (plus_at bs p (unat q) f)" "0 < q"
  shows "map_of (ob_levels bs b) p = Some (of_nat (f bs p + unat q))" "f bs p + unat q < 2 ^ 32"
    "\<not> of_nat (f bs p + unat q) < q" "of_nat (f bs p + unat q) - q = (of_nat (f bs p) :: u32)"
proof -
  have "unat q \<noteq> 0" using assms(2) by (simp add: unat_gt_0)
  then show "map_of (ob_levels bs b) p = Some (of_nat (f bs p + unat q))" and top: "f bs p + unat q < 2 ^ 32"
    using sides_match_at [OF assms(1), of bs] unfolding levels_match_def by (auto dest: spec [of _ p])
  from top have "unat (of_nat (f bs p + unat q) :: u32) = f bs p + unat q"
    by (simp add: unat_of_nat del: of_nat_add)
  then show "\<not> of_nat (f bs p + unat q) < q"
    by (simp add: not_less word_le_nat_alt del: of_nat_add)
  show "of_nat (f bs p + unat q) - q = (of_nat (f bs p) :: u32)" by simp
qed

lemma of_nat_zero_u32: "n < 2 ^ 32 \<Longrightarrow> (of_nat n :: u32) = 0 \<longleftrightarrow> n = 0"
  by (simp add: unat_eq_0 [symmetric] unat_of_nat)

lemma sides_match_taken:
  assumes m: "sides_match b (plus_at bs p (unat q) f)"
    and m': "levels_match bs m' (f bs)"
  shows "sides_match (set_ob_levels bs m' b) f"
  by (rule sides_match_set [where f' = f, OF m m']) (simp add: plus_at_other)

lemma delete_from_levels_match:
  assumes "ob_orders b i = Some x" "0 < ob_quantity x"
    and m: "sides_match b (plus_at bs (ob_price x) (unat (ob_quantity x)) f)"
  shows "sides_match (delete_order_from_levels i bs b) f"
proof -
  let ?p = "ob_price x" and ?q = "ob_quantity x"
  note here = plus_at_level [OF m assms(2)]
  note match = sides_match_at [OF m, of bs]
  have top: "f bs ?p < 2 ^ 32" using here(2) by simp
  show ?thesis
  proof (cases "f bs ?p = 0")
    case True
    then have "f bs = (plus_at bs ?p (unat ?q) f bs)(?p := 0)" by (simp add: fun_upd_idem)
    from sides_match_taken [OF m levels_match_erase [OF match this]] show ?thesis
      using assms(1) here True by (simp add: delete_order_from_levels_def)
  next
    case False
    have "levels_match bs (omap_update ?p (\<lambda>y. y - ?q) (ob_levels bs b))
        ((plus_at bs ?p (unat ?q) f bs)(?p := f bs ?p))"
      by (rule levels_match_update [OF match]) (use False top in simp_all)
    then have "levels_match bs (omap_update ?p (\<lambda>y. y - ?q) (ob_levels bs b)) (f bs)"
      by (simp add: fun_upd_idem)
    from sides_match_taken [OF m this] show ?thesis
      using assms(1) here(1,3) False of_nat_zero_u32 [OF top] unfolding delete_order_from_levels_def
      by simp
  qed
qed

lemma level_sub_erase_match:
  assumes m: "sides_match b (plus_at bs p (unat q) f)" and q: "0 < q"
  shows "sides_match (level_sub_erase bs p q b) f"
proof -
  note here = plus_at_level [OF m q]
  note match = sides_match_at [OF m, of bs]
  have top: "f bs p < 2 ^ 32" using here(2) by simp
  have ins: "omap_insert (before bs) p 0 (ob_levels bs b) = ob_levels bs b"
    by (rule book_order.insert_present [OF _ here(1)]) (use match in \<open>simp add: levels_match_def\<close>)
  have new: "map_of (omap_update p (\<lambda>y. y - q) (ob_levels bs b)) p = Some (of_nat (f bs p))"
    by (simp add: map_of_omap_update here(1))
  show ?thesis
  proof (cases "f bs p = 0")
    case True
    have "omap_erase p (omap_update p g m) = omap_erase p m" for g :: "u32 \<Rightarrow> u32" and m
      by (induction m) auto
    moreover have "f bs = (plus_at bs p (unat q) f bs)(p := 0)" using True by (simp add: fun_upd_idem)
    from sides_match_taken [OF m levels_match_erase [OF match this]]
    have "sides_match (set_ob_levels bs (omap_erase p (ob_levels bs b)) b) f" .
    ultimately show ?thesis using new True
      by (simp add: level_sub_erase_def level_sub_def ins Let_def)
  next
    case False
    have "levels_match bs (omap_update p (\<lambda>y. y - q) (ob_levels bs b))
        ((plus_at bs p (unat q) f bs)(p := f bs p))"
      by (rule levels_match_update [OF match]) (use False top in simp_all)
    then have "levels_match bs (omap_update p (\<lambda>y. y - q) (ob_levels bs b)) (f bs)"
      by (simp add: fun_upd_idem)
    from sides_match_taken [OF m this] show ?thesis using new False of_nat_zero_u32 [OF top]
      by (simp add: level_sub_erase_def level_sub_def ins Let_def)
  qed
qed

section \<open>The book of a symbol shows the view\<close>

definition order_is :: "view_order \<Rightarrow> ob_order \<Rightarrow> bool" where
  "order_is r x \<longleftrightarrow> levels_of_side (ob_side x) = vo_side r \<and> ob_price x = vo_price r \<and>
     ob_quantity x = vo_quantity r"

definition shows_orders :: "u32 \<Rightarrow> order_book \<Rightarrow> view \<Rightarrow> bool" where
  "shows_orders y b v \<longleftrightarrow> (\<forall>i. case only y v i of None \<Rightarrow> ob_orders b i = None
     | Some r \<Rightarrow> \<exists>x. ob_orders b i = Some x \<and> order_is r x)"

definition shows_book :: "u32 \<Rightarrow> order_book \<Rightarrow> view \<Rightarrow> bool" where
  "shows_book y b v \<longleftrightarrow> shows_orders y b v \<and> sides_match b (level_total v y)"

lemma shows_ordersD: "shows_orders y b v \<Longrightarrow> case only y v i of None \<Rightarrow> ob_orders b i = None
     | Some r \<Rightarrow> \<exists>x. ob_orders b i = Some x \<and> order_is r x"
  unfolding shows_orders_def by (erule spec)

lemma level_total_plus:
  assumes "finite (dom v)" "v i = Some r" "vo_symbol r = y"
  shows "level_total v y = plus_at (vo_side r) (vo_price r) (unat (vo_quantity r)) (level_total (v(i := None)) y)"
  using level_total_remove [OF assms(1,2)] assms(3) by (auto simp: plus_at_def share_def fun_eq_iff)

lemma shows_book_other:
  assumes v: "finite (dom v)" "\<And>r. v i = Some r \<Longrightarrow> vo_symbol r \<noteq> y" and x: "\<And>r. x = Some r \<Longrightarrow> vo_symbol r \<noteq> y"
    and b: "shows_book y b v"
  shows "shows_book y b (v(i := x))"
proof -
  have old: "level_total v y bs p = level_total (v(i := None)) y bs p" for bs p
  proof (cases "v i")
    case None
    then show ?thesis by (simp add: fun_upd_idem)
  next
    case (Some r)
    with level_total_remove [OF v(1) this, of y bs p] v(2) show ?thesis by (simp add: share_def)
  qed
  have new: "level_total (v(i := x)) y bs p = level_total (v(i := None)) y bs p" for bs p
  proof (cases x)
    case (Some r)
    with level_total_add [OF v(1), of i r y bs p] x show ?thesis by (simp add: share_def)
  qed simp
  have "level_total (v(i := x)) y = level_total v y" using old new by (simp add: fun_eq_iff)
  moreover have "only y (v(i := x)) j = only y v j" for j
    using v(2) x by (cases x; cases "v i") (auto simp: only_def)
  ultimately show ?thesis using b by (simp add: shows_book_def shows_orders_def)
qed

lemma shows_orders_upd:
  assumes "shows_orders y b v" "ob_orders b' = (ob_orders b)(i := z)"
    "case x of None \<Rightarrow> z = None | Some r \<Rightarrow> vo_symbol r = y \<and> (\<exists>x. z = Some x \<and> order_is r x)"
  shows "shows_orders y b' (v(i := x))"
  unfolding shows_orders_def
proof
  fix j
  show "case only y (v(i := x)) j of None \<Rightarrow> ob_orders b' j = None
     | Some r \<Rightarrow> \<exists>x. ob_orders b' j = Some x \<and> order_is r x"
  proof (cases "j = i")
    case True
    then show ?thesis using assms(2,3) by (cases x) (simp_all add: only_def)
  next
    case False
    then have same: "only y (v(i := x)) j = only y v j" "ob_orders b' j = ob_orders b j"
      using assms(2) by (simp_all add: only_def)
    show ?thesis unfolding same by (rule shows_ordersD [OF assms(1)])
  qed
qed

lemma shows_orders_at:
  assumes "shows_orders y b v" "v i = Some r" "vo_symbol r = y"
  obtains x where "ob_orders b i = Some x" "order_is r x"
proof -
  have "only y v i = Some r" using assms(2,3) by (simp add: only_def)
  with shows_ordersD [OF assms(1), of i] that show thesis by auto
qed

lemma shows_orders_none: "shows_orders y b v \<Longrightarrow> v i = None \<Longrightarrow> ob_orders b i = None"
  using shows_ordersD [of y b v i] by (simp add: only_def)

lemma level_add_orders [simp]:
  "ob_orders (level_add bs p q b) = ob_orders b" "ob_orders (level_sub bs p q b) = ob_orders b"
  "ob_orders (level_sub_erase bs p q b) = ob_orders b"
  "ob_orders (delete_order_from_levels i bs b) = ob_orders b"
  by (auto simp: level_add_def level_sub_def level_sub_erase_def delete_order_from_levels_def Let_def
      split: option.split)

lemma on_side [simp]:
  "(if sd = BUY then f BuyLevels else f SellLevels) = f (levels_of_side sd)"
  "(if BUY = sd then f BuyLevels else f SellLevels) = f (levels_of_side sd)"
  by (auto simp: levels_of_side_def)

lemma ob_new_order_shows:
  assumes b: "shows_book y b v" and v: "v i = None" "0 < q" "view_ok v"
    and r: "r = \<lparr>vo_symbol = y, vo_side = levels_of_side sd, vo_price = p, vo_quantity = q\<rparr>"
      "view_ok (v(i \<mapsto> r))"
  shows "shows_book y (ob_new_order i sd q p fl b) (v(i \<mapsto> r))"
proof -
  have fin: "finite (dom v)" using v(3) by (simp add: view_ok_def)
  let ?x = "\<lparr>ob_side = sd, ob_price = p, ob_quantity = q\<rparr>"
  let ?b = "b\<lparr>ob_orders := (ob_orders b)(i \<mapsto> ?x)\<rparr>"
  have none: "ob_orders b i = None" using b v(1) shows_orders_none [of y b v i] by (simp add: shows_book_def)
  have run: "ob_new_order i sd q p fl b = level_add (levels_of_side sd) p q ?b"
    by (simp add: ob_new_order_def none Let_def levels_of_side_def)
  have "level_total (v(i \<mapsto> r)) y = plus_at (levels_of_side sd) p (unat q) (level_total v y)"
    using level_total_plus [of "v(i \<mapsto> r)" i r y] fin v(1) r(1) by (simp add: fun_upd_idem)
  moreover have "level_total v y (levels_of_side sd) p + unat q < 2 ^ 32"
  proof -
    have "level_total (v(i \<mapsto> r)) y (levels_of_side sd) p < 2 ^ 32" using r(2) unfolding view_ok_def by blast
    with calculation show ?thesis by simp
  qed
  moreover have "sides_match ?b (level_total v y)" using b by (simp add: shows_book_def)
  ultimately have "sides_match (level_add (levels_of_side sd) p q ?b) (level_total (v(i \<mapsto> r)) y)"
    using v(2) level_add_match by metis
  moreover have "shows_orders y (level_add (levels_of_side sd) p q ?b) (v(i \<mapsto> r))"
    by (rule shows_orders_upd [where z = "Some ?x"]) (use b r in \<open>simp_all add: shows_book_def order_is_def\<close>)
  ultimately show ?thesis by (simp add: run shows_book_def)
qed

lemma view_ok_finite: "view_ok v \<Longrightarrow> finite (dom v)"
  by (simp add: view_ok_def)

lemma shows_book_plus:
  assumes "shows_book y b v" "view_ok v" "v i = Some r" "vo_symbol r = y"
  obtains x where "ob_orders b i = Some x" "order_is r x" "0 < ob_quantity x"
    "sides_match b (plus_at (levels_of_side (ob_side x)) (ob_price x) (unat (ob_quantity x))
       (level_total (v(i := None)) y))"
proof -
  obtain x where x: "ob_orders b i = Some x" "order_is r x"
    using assms(1,3,4) shows_orders_at unfolding shows_book_def by blast
  moreover have "0 < ob_quantity x" using x(2) assms(2,3) by (simp add: view_ok_def order_is_def)
  ultimately show thesis using assms(1) level_total_plus [OF view_ok_finite [OF assms(2)] assms(3,4)]
    by (intro that [of x]) (simp_all add: order_is_def shows_book_def)
qed

lemma ob_delete_order_shows:
  assumes "shows_book y b v" "view_ok v" "v i = Some r" "vo_symbol r = y"
  shows "shows_book y (ob_delete_order i b) (v(i := None))"
proof -
  obtain x where x: "ob_orders b i = Some x" "order_is r x" "0 < ob_quantity x"
    "sides_match b (plus_at (levels_of_side (ob_side x)) (ob_price x) (unat (ob_quantity x))
       (level_total (v(i := None)) y))" by (rule shows_book_plus [OF assms])
  let ?b = "delete_order_from_levels i (levels_of_side (ob_side x)) b"
  have run: "ob_delete_order i b = ?b\<lparr>ob_orders := (ob_orders ?b)(i := None)\<rparr>"
    using x(1,3) by (simp add: ob_delete_order_def Let_def levels_of_side_def)
  have "sides_match ?b (level_total (v(i := None)) y)" by (rule delete_from_levels_match [OF x(1,3,4)])
  moreover have "shows_orders y (ob_delete_order i b) (v(i := None))"
    by (rule shows_orders_upd [where z = None and b = b])
      (use assms(1) in \<open>simp_all add: run shows_book_def\<close>)
  ultimately show ?thesis by (simp add: run shows_book_def)
qed

lemma ob_modify_order_shows:
  assumes b: "shows_book y b v" and v: "view_ok v" "v i = Some r0" "vo_symbol r0 = y" "0 < q"
    and r: "r = \<lparr>vo_symbol = y, vo_side = levels_of_side sd, vo_price = p, vo_quantity = q\<rparr>"
      "view_ok (v(i \<mapsto> r))"
  shows "shows_book y (ob_modify_order i sd q p b) (v(i \<mapsto> r))"
proof -
  obtain x where x: "ob_orders b i = Some x" "order_is r0 x" "0 < ob_quantity x"
    "sides_match b (plus_at (levels_of_side (ob_side x)) (ob_price x) (unat (ob_quantity x))
       (level_total (v(i := None)) y))" by (rule shows_book_plus [OF b v(1-3)])
  let ?f = "level_total (v(i := None)) y"
  let ?b1 = "delete_order_from_levels i (levels_of_side (ob_side x)) b"
  let ?b2 = "level_add (levels_of_side sd) p q ?b1"
  let ?x = "\<lparr>ob_side = sd, ob_price = p, ob_quantity = q\<rparr>"
  have run: "ob_modify_order i sd q p b = ?b2\<lparr>ob_orders := (ob_orders ?b2)(i \<mapsto> ?x)\<rparr>"
    using x(1) by (simp add: ob_modify_order_def Let_def levels_of_side_def)
  have total: "level_total (v(i \<mapsto> r)) y = plus_at (levels_of_side sd) p (unat q) ?f"
    using level_total_plus [of "v(i \<mapsto> r)" i r y] view_ok_finite [OF v(1)] r(1) by simp
  have "level_total (v(i \<mapsto> r)) y (levels_of_side sd) p < 2 ^ 32" using r(2) unfolding view_ok_def by blast
  then have room: "?f (levels_of_side sd) p + unat q < 2 ^ 32" by (simp add: total)
  have "sides_match ?b1 ?f" by (rule delete_from_levels_match [OF x(1,3,4)])
  then have "sides_match ?b2 (plus_at (levels_of_side sd) p (unat q) ?f)"
    using v(4) room by (rule level_add_match)
  moreover have "shows_orders y (ob_modify_order i sd q p b) (v(i \<mapsto> r))"
    by (rule shows_orders_upd [where z = "Some ?x" and b = b])
      (use b r in \<open>simp_all add: run shows_book_def order_is_def\<close>)
  ultimately show ?thesis by (simp add: run shows_book_def total)
qed

text \<open>
  A trade that leaves something of the order: the book does not touch freed memory.
\<close>

lemma order_trade_shows:
  assumes b: "shows_book y b v" and v: "view_ok v" "v i = Some r" "vo_symbol r = y"
    and q: "0 < q" "q < vo_quantity r"
  shows "shows_book y (order_trade freed i q p b) (v(i \<mapsto> r\<lparr>vo_quantity := vo_quantity r - q\<rparr>))"
proof -
  obtain x where x: "ob_orders b i = Some x" "order_is r x" "0 < ob_quantity x"
    "sides_match b (plus_at (levels_of_side (ob_side x)) (ob_price x) (unat (ob_quantity x))
       (level_total (v(i := None)) y))" by (rule shows_book_plus [OF b v(1-3)])
  let ?f = "level_total (v(i := None)) y" and ?bs = "levels_of_side (ob_side x)" and ?p = "ob_price x"
  have k: "ob_quantity x = vo_quantity r" "?bs = vo_side r" "?p = vo_price r" using x(2) by (simp_all add: order_is_def)
  let ?x = "x\<lparr>ob_quantity := ob_quantity x - q\<rparr>" and ?r = "r\<lparr>vo_quantity := vo_quantity r - q\<rparr>"
  let ?b = "b\<lparr>ob_orders := (ob_orders b)(i \<mapsto> ?x)\<rparr>"
  have lt: "q < ob_quantity x" using q(2) k(1) by simp
  then have run: "order_trade freed i q p b = level_sub ?bs ?p q ?b"
    using x(1) k(1) by (auto simp: order_trade_def Let_def levels_of_side_def)
  have "sides_match ?b (plus_at ?bs ?p (unat (ob_quantity x)) ?f)" using x(4) by simp
  then have "sides_match (level_sub ?bs ?p q ?b) (plus_at ?bs ?p (unat (ob_quantity x - q)) ?f)"
    using lt by (rule level_sub_match)
  moreover have "level_total (v(i \<mapsto> ?r)) y = plus_at ?bs ?p (unat (ob_quantity x - q)) ?f"
    using level_total_plus [of "v(i \<mapsto> ?r)" i ?r y] view_ok_finite [OF v(1)] v(3) k by simp
  moreover have "shows_orders y (order_trade freed i q p b) (v(i \<mapsto> ?r))"
    by (rule shows_orders_upd [where z = "Some ?x" and b = b])
      (use b x(2) v(3) in \<open>simp_all add: run shows_book_def order_is_def\<close>)
  ultimately show ?thesis by (simp add: run shows_book_def)
qed

section \<open>The orders alone\<close>

text \<open>
  Whatever is read from freed memory, the orders that a book knows are right: only the quantities at
  a price can go wrong.
\<close>

lemma shows_orders_other:
  assumes "\<And>r. v i = Some r \<Longrightarrow> vo_symbol r \<noteq> y" "\<And>r. x = Some r \<Longrightarrow> vo_symbol r \<noteq> y" "shows_orders y b v"
  shows "shows_orders y b (v(i := x))"
proof -
  have "only y (v(i := x)) j = only y v j" for j
    using assms(1,2) by (cases x; cases "v i") (auto simp: only_def)
  then show ?thesis using assms(3) by (simp add: shows_orders_def)
qed

lemma ob_new_order_orders:
  assumes b: "shows_orders y b v" "v i = None"
    and r: "r = \<lparr>vo_symbol = y, vo_side = levels_of_side sd, vo_price = p, vo_quantity = q\<rparr>"
  shows "shows_orders y (ob_new_order i sd q p fl b) (v(i \<mapsto> r))"
  by (rule shows_orders_upd [OF b(1), where z = "Some \<lparr>ob_side = sd, ob_price = p, ob_quantity = q\<rparr>"])
    (simp_all add: ob_new_order_def shows_orders_none [OF b] r order_is_def Let_def)

lemma ob_delete_order_orders:
  assumes "shows_orders y b v" "v i = Some r" "vo_symbol r = y"
  shows "shows_orders y (ob_delete_order i b) (v(i := None))"
proof -
  obtain x where x: "ob_orders b i = Some x" by (rule shows_orders_at [OF assms])
  show ?thesis by (rule shows_orders_upd [OF assms(1), where z = None])
      (simp_all add: ob_delete_order_def x Let_def)
qed

lemma ob_modify_order_orders:
  assumes b: "shows_orders y b v" "v i = Some r0" "vo_symbol r0 = y"
    and r: "r = \<lparr>vo_symbol = y, vo_side = levels_of_side sd, vo_price = p, vo_quantity = q\<rparr>"
  shows "shows_orders y (ob_modify_order i sd q p b) (v(i \<mapsto> r))"
proof -
  obtain x where x: "ob_orders b i = Some x" by (rule shows_orders_at [OF b])
  show ?thesis by (rule shows_orders_upd [OF b(1), where z = "Some \<lparr>ob_side = sd, ob_price = p, ob_quantity = q\<rparr>"])
      (simp_all add: ob_modify_order_def x r order_is_def Let_def)
qed

lemma order_trade_orders:
  assumes b: "shows_orders y b v" "v i = Some r" "vo_symbol r = y" and q: "q \<le> vo_quantity r"
  shows "shows_orders y (order_trade freed i q p b) (if vo_quantity r = q then v(i := None)
    else v(i \<mapsto> r\<lparr>vo_quantity := vo_quantity r - q\<rparr>))"
proof -
  obtain x where x: "ob_orders b i = Some x" "order_is r x" by (rule shows_orders_at [OF b])
  then have k: "ob_quantity x = vo_quantity r" "\<not> ob_quantity x < q" using q by (simp_all add: order_is_def)
  show ?thesis
  proof (cases "vo_quantity r = q")
    case True
    have "shows_orders y (order_trade freed i q p b) (v(i := None))"
      by (rule shows_orders_upd [OF b(1), where z = None])
        (use True k in \<open>simp_all add: order_trade_def x Let_def\<close>)
    then show ?thesis using True by simp
  next
    case False
    have "shows_orders y (order_trade freed i q p b) (v(i \<mapsto> r\<lparr>vo_quantity := vo_quantity r - q\<rparr>))"
      by (rule shows_orders_upd [OF b(1), where z = "Some (x\<lparr>ob_quantity := ob_quantity x - q\<rparr>)"])
        (use False k x(2) b(3) in \<open>simp_all add: order_trade_def x(1) Let_def order_is_def\<close>)
    then show ?thesis using False by simp
  qed
qed

section \<open>Readers that are order books\<close>

text \<open>
  A relation between the order books of the symbols and a view that every operation of a book keeps,
  for the messages that are \<open>readable\<close>.  It holds of the whole book as long as no trade uses an
  order up, and of its orders for all messages.
\<close>

locale book_relation =
  fixes shows_at :: "u32 \<Rightarrow> order_book \<Rightarrow> view \<Rightarrow> bool"
    and readable :: "md_msg \<Rightarrow> view \<Rightarrow> bool"
  assumes empty_shown: "shows_at y empty_order_book Map.empty"
    and other_shown: "finite (dom v) \<Longrightarrow> (\<And>r. v i = Some r \<Longrightarrow> vo_symbol r \<noteq> y) \<Longrightarrow>
      (\<And>r. x = Some r \<Longrightarrow> vo_symbol r \<noteq> y) \<Longrightarrow> shows_at y b v \<Longrightarrow> shows_at y b (v(i := x))"
    and new_shown: "shows_at y b v \<Longrightarrow> v i = None \<Longrightarrow> 0 < q \<Longrightarrow> view_ok v \<Longrightarrow>
      r = \<lparr>vo_symbol = y, vo_side = levels_of_side sd, vo_price = p, vo_quantity = q\<rparr> \<Longrightarrow>
      view_ok (v(i \<mapsto> r)) \<Longrightarrow> shows_at y (ob_new_order i sd q p fl b) (v(i \<mapsto> r))"
    and delete_shown: "shows_at y b v \<Longrightarrow> view_ok v \<Longrightarrow> v i = Some r0 \<Longrightarrow> vo_symbol r0 = y \<Longrightarrow>
      shows_at y (ob_delete_order i b) (v(i := None))"
    and modify_shown: "shows_at y b v \<Longrightarrow> view_ok v \<Longrightarrow> v i = Some r0 \<Longrightarrow> vo_symbol r0 = y \<Longrightarrow> 0 < q \<Longrightarrow>
      r = \<lparr>vo_symbol = y, vo_side = levels_of_side sd, vo_price = p, vo_quantity = q\<rparr> \<Longrightarrow>
      view_ok (v(i \<mapsto> r)) \<Longrightarrow> shows_at y (ob_modify_order i sd q p b) (v(i \<mapsto> r))"
    and trade_shown: "shows_at y b v \<Longrightarrow> view_ok v \<Longrightarrow> v i = Some r0 \<Longrightarrow> vo_symbol r0 = y \<Longrightarrow> 0 < q \<Longrightarrow>
      q \<le> vo_quantity r0 \<Longrightarrow> readable (Trade i q p) v \<Longrightarrow>
      shows_at y (order_trade freed i q p b) (if vo_quantity r0 = q then v(i := None)
        else v(i \<mapsto> r0\<lparr>vo_quantity := vo_quantity r0 - q\<rparr>))"
    and new_readable: "is_new_order m \<Longrightarrow> readable m v"

section \<open>Best prices\<close>

definition is_best :: "view \<Rightarrow> u32 \<Rightarrow> book_side \<Rightarrow> ob_price_level \<Rightarrow> bool" where
  "is_best v y bs l \<longleftrightarrow>
     (if \<forall>p. level_total v y bs p = 0 then l = \<lparr>opl_price = I32 0, opl_quantity = 0\<rparr>
      else 0 < opl_quantity l \<and> unat (opl_quantity l) = level_total v y bs (opl_price l) \<and>
        (\<forall>p. level_total v y bs p \<noteq> 0 \<longrightarrow> p = opl_price l \<or> before bs (opl_price l) p))"

lemma levels_match_best:
  assumes "levels_match bs m (level_total v y bs)"
  shows "is_best v y bs (case m of [] \<Rightarrow> \<lparr>opl_price = I32 0, opl_quantity = 0\<rparr>
    | (p, q) # _ \<Rightarrow> \<lparr>opl_price = p, opl_quantity = q\<rparr>)"
proof (cases m)
  case Nil
  then have "level_total v y bs p = 0" for p
    using assms by (auto simp: levels_match_def dest: spec [of _ p] split: if_splits)
  then show ?thesis using Nil by (simp add: is_best_def)
next
  case (Cons e m')
  obtain p q where e: "e = (p, q)" by (cases e)
  have at: "map_of m p' = (if level_total v y bs p' = 0 then None else Some (of_nat (level_total v y bs p')))"
    "level_total v y bs p' < 2 ^ 32" for p' using assms by (simp_all add: levels_match_def)
  have some: "level_total v y bs p \<noteq> 0" "q = of_nat (level_total v y bs p)"
    using at(1) [of p] by (auto simp: Cons e split: if_splits)
  then have "unat q = level_total v y bs p" using at(2) [of p] by (simp add: unat_of_nat)
  moreover have "p' = p \<or> before bs p p'" if "level_total v y bs p' \<noteq> 0" for p'
  proof -
    have "map_of m p' \<noteq> None" using at(1) [of p'] that by simp
    then have "p' \<in> fst ` set m" by (simp add: map_of_eq_None_iff)
    then show ?thesis using assms by (auto simp: Cons e levels_match_def)
  qed
  moreover have "0 < q" using some(1) calculation(1) by (auto simp: word_gt_0)
  ultimately show ?thesis using some(1) by (auto simp: is_best_def Cons e)
qed

lemma best_prices:
  assumes "shows_book y b v"
  shows "is_best v y BuyLevels (get_best_bid b)" "is_best v y SellLevels (get_best_ask b)"
proof -
  have m: "sides_match b (level_total v y)" using assms by (simp add: shows_book_def)
  show "is_best v y BuyLevels (get_best_bid b)" "is_best v y SellLevels (get_best_ask b)"
    unfolding get_best_bid_def get_best_ask_def
    using levels_match_best [OF sides_match_at [OF m, of BuyLevels]]
      levels_match_best [OF sides_match_at [OF m, of SellLevels]] by simp_all
qed

lemma empty_shows: "shows_book y empty_order_book Map.empty"
proof -
  have "ob_levels bs empty_order_book = []" for bs by (cases bs) (simp_all add: empty_order_book_def)
  then show ?thesis
    by (simp add: shows_book_def shows_orders_def only_def sides_match_def levels_match_def)
      (simp add: empty_order_book_def)
qed

lemma empty_orders: "shows_orders y empty_order_book Map.empty"
  using empty_shows [of y] by (simp add: shows_book_def)

interpretation book_orders: book_relation shows_orders "\<lambda>m v. True"
proof (unfold_locales, goal_cases)
  case 1 show ?case by (rule empty_orders)
next
  case 2 then show ?case by (intro shows_orders_other)
next
  case 3 then show ?case by (intro ob_new_order_orders)
next
  case 4 then show ?case by (intro ob_delete_order_orders)
next
  case 5 then show ?case by (intro ob_modify_order_orders)
next
  case 6 then show ?case by (intro order_trade_orders)
qed simp

interpretation whole_book: book_relation shows_book "\<lambda>m v. \<not> uses_up m v"
proof (unfold_locales, goal_cases)
  case 1 show ?case by (rule empty_shows)
next
  case 2 then show ?case by (intro shows_book_other)
next
  case 3 then show ?case by (intro ob_new_order_shows)
next
  case 4 then show ?case by (intro ob_delete_order_shows)
next
  case 5 then show ?case by (intro ob_modify_order_shows)
next
  case (6 y b v i r0 q p freed)
  then have "vo_quantity r0 \<noteq> q" by auto
  with 6 show ?case using order_trade_shows [of y b v i r0 q freed p] by simp
qed (simp add: new_orders_use_nothing)

end
