(* ===== verification/Md_Client.thy ===== *)
theory Md_Client imports
  Bot_Order_Book Publishers
begin

text \<open>
  \<open>bots/md_client.cpp\<close>: the market data client of the bots.  It builds an order book per symbol
  from the live feed, after a snapshot from the snapshot feed.
\<close>

section \<open>State\<close>

text \<open>
  What the client sees of the outside: the answers of \<open>recvfrom\<close> on its two non-blocking sockets,
  numbered by the calls made so far, whether the kernel lets it leave the snapshot group, and what
  a freed node of an order book still holds.
\<close>

datatype recv_answer = Received "u8 list" | NothingYet | RecvError

record md_env =
  me_live :: "nat \<Rightarrow> recv_answer"
  me_snapshot :: "nat \<Rightarrow> recv_answer"
  me_leaves_group :: bool
  me_freed :: "ob_order \<Rightarrow> ob_order"

text \<open>
  The ends of the client that are not a return: the exceptions it throws, and the undefined
  behaviour it can run into.  \<open>Overrun\<close> stands for going on with bytes that were not received, and
  \<open>DanglingHeader\<close> for using a header whose buffer was cleared by a nested recovery.
\<close>

datatype client_error =
    ReceiveFailed | SnapshotTooShort | InvalidMagic | LeaveFailed | Overrun | DanglingHeader

record md_client =
  mc_books :: "u32 \<rightharpoonup> order_book"
  mc_symbol_of :: "u64 \<rightharpoonup> u32"
  mc_last_seq :: u32
  mc_live_buffer :: "u8 list"
  mc_snapshot_buffer :: "u32 \<rightharpoonup> md_msg list"
  mc_complete :: "u32 \<rightharpoonup> bool"
  mc_last_snapshot_seq :: u32
  mc_recover_on_drops :: bool
  mc_listening :: bool
  mc_summaries :: "(u32 \<times> u32 \<times> i32 \<times> side) list"
  mc_live_reads :: nat
  mc_snapshot_reads :: nat

definition new_md_client :: "bool \<Rightarrow> md_client" where
  "new_md_client recover = \<lparr>mc_books = Map.empty, mc_symbol_of = Map.empty, mc_last_seq = 0,
     mc_live_buffer = [], mc_snapshot_buffer = Map.empty, mc_complete = Map.empty,
     mc_last_snapshot_seq = 0, mc_recover_on_drops = recover, mc_listening = False,
     mc_summaries = [], mc_live_reads = 0, mc_snapshot_reads = 0\<rparr>"

definition register_trade_summary_listener :: "md_client \<Rightarrow> md_client" where
  "register_trade_summary_listener c = c\<lparr>mc_listening := True\<rparr>"

text \<open>The client's receive buffer has \<open>sizeof(buf)\<close> bytes; a longer datagram is cut.\<close>

definition MD_BUF :: nat where "MD_BUF = 4096"

text \<open>\<open>unordered_map::operator[]\<close>: an absent entry is inserted with a value of zero.\<close>

definition subscript :: "'v \<Rightarrow> 'k \<Rightarrow> ('k \<rightharpoonup> 'v) \<Rightarrow> 'v \<times> ('k \<rightharpoonup> 'v)" where
  "subscript zero k m = (case m k of None \<Rightarrow> (zero, m(k \<mapsto> zero)) | Some x \<Rightarrow> (x, m))"

section \<open>One message\<close>

text \<open>
  The switch of \<open>process_message\<close>.  The first component tells whether the loop goes on; an early
  \<open>return\<close> drops the rest of the packet.
\<close>

definition book_at :: "u32 \<Rightarrow> md_client \<Rightarrow> order_book" where
  "book_at y c = (case mc_books c y of None \<Rightarrow> empty_order_book | Some b \<Rightarrow> b)"

definition add_order :: "u64 \<Rightarrow> u32 \<Rightarrow> side \<Rightarrow> u32 \<Rightarrow> i32 \<Rightarrow> u8 \<Rightarrow> md_client \<Rightarrow> md_client" where
  "add_order i y sd q p fl c =
     c\<lparr>mc_books := (mc_books c)(y \<mapsto> ob_new_order i sd q p fl (book_at y c)),
       mc_symbol_of := (mc_symbol_of c)(i \<mapsto> y)\<rparr>"

definition on_book_of :: "u64 \<Rightarrow> (order_book \<Rightarrow> order_book) \<Rightarrow> md_client \<Rightarrow> bool \<times> md_client" where
  "on_book_of i f c =
    (let (y, m) = subscript 0 i (mc_symbol_of c); c = c\<lparr>mc_symbol_of := m\<rparr>
     in case mc_books c y of
          None \<Rightarrow> (False, c)
        | Some b \<Rightarrow> (True, c\<lparr>mc_books := (mc_books c)(y \<mapsto> f b)\<rparr>))"

fun apply_md :: "md_env \<Rightarrow> md_msg \<Rightarrow> md_client \<Rightarrow> bool \<times> md_client" where
  "apply_md e (NewOrder i y sd q p fl) c = (True, add_order i y sd q p fl c)"
| "apply_md e (DeleteOrder i) c = on_book_of i (ob_delete_order i) c"
| "apply_md e (ModifyOrder i sd q p) c = on_book_of i (ob_modify_order i sd q p) c"
| "apply_md e (Trade i q p) c =
    (if mc_symbol_of c i = None then (False, c) else on_book_of i (order_trade (me_freed e) i q p) c)"
| "apply_md e (TradeSummary y sd q p) c =
    (case mc_books c y of
       None \<Rightarrow> (False, c)
     | Some _ \<Rightarrow> (True, if mc_listening c then c\<lparr>mc_summaries := mc_summaries c @ [(y, q, p, sd)]\<rparr> else c))"
| "apply_md e Heartbeat c = (True, c)"
| "apply_md e (SnapshotInfo y b a n) c = (False, c)"

definition handle_md :: "md_env \<Rightarrow> u8 list \<Rightarrow> md_client \<Rightarrow> bool \<times> md_client" where
  "handle_md e buf c = (case md_type_of_code (mh_msg_type (md_header_at buf)) of
      None \<Rightarrow> (False, c)
    | Some t \<Rightarrow>
        if t = MD_SNAPSHOT_INFO then (False, c)
        else if t \<noteq> MD_HEARTBEAT \<and> length buf < md_sizeof t then (False, c)
        else apply_md e (md_msg_at t buf) c)"

section \<open>A packet\<close>

text \<open>
  \<open>recover\<close> is what the client does about a gap when \<open>recover_on_drops\<close> is set.  A header of
  length zero is read again and again; a length beyond the packet makes the unsigned count of the
  remaining bytes wrap.
\<close>

definition start_over :: "md_client \<Rightarrow> md_client" where
  "start_over c = c\<lparr>mc_books := Map.empty, mc_symbol_of := Map.empty, mc_live_buffer := [],
     mc_snapshot_buffer := Map.empty, mc_complete := Map.empty, mc_last_snapshot_seq := 0\<rparr>"

partial_function (option) process_message ::
  "md_env \<Rightarrow> (md_client \<Rightarrow> (client_error + md_client) option) \<Rightarrow> u8 list \<Rightarrow> md_client
     \<Rightarrow> (client_error + md_client) option" where
  "process_message e recover buf c =
    (let h = md_header_at buf; n = unat (mh_length h) in
     if buf = [] then Some (Inr c)
     else if length buf < md_header_size then Some (Inr c)
     else if mh_magic_number h \<noteq> MAGIC_NUMBER then Some (Inr c)
     else if mh_seq_num h > mc_last_seq c + 1 then
       (if mc_recover_on_drops c then recover (start_over c) else Some (Inr c))
     else if mh_seq_num h \<le> mc_last_seq c then
       (if n > length buf then Some (Inl Overrun) else process_message e recover (drop n buf) c)
     else
       (let (go_on, c) = handle_md e buf (c\<lparr>mc_last_seq := mh_seq_num h\<rparr>)
        in if \<not> go_on then Some (Inr c)
           else if n > length buf then Some (Inl Overrun)
           else process_message e recover (drop n buf) c))"

section \<open>Waiting for a snapshot\<close>

text \<open>The numbers of orders still to come, by symbol.\<close>

record expected =
  ex_bids :: "u32 \<rightharpoonup> int"
  ex_asks :: "u32 \<rightharpoonup> int"

definition expect_at_first :: expected where
  "expect_at_first = \<lparr>ex_bids = [1 \<mapsto> -1, 2 \<mapsto> -1], ex_asks = [1 \<mapsto> -1, 2 \<mapsto> -1]\<rparr>"

definition still :: "(u32 \<rightharpoonup> int) \<Rightarrow> u32 \<Rightarrow> int" where
  "still m y = (case m y of None \<Rightarrow> 0 | Some n \<Rightarrow> n)"

definition check_complete :: "u32 \<Rightarrow> expected \<Rightarrow> md_client \<Rightarrow> md_client" where
  "check_complete y ex c = (if still (ex_bids ex) y = 0 \<and> still (ex_asks ex) y = 0
     then c\<lparr>mc_complete := (mc_complete c)(y \<mapsto> True)\<rparr> else c)"

text \<open>\<open>get_first_live_seq_num\<close>; it reads the header of whatever was received first.\<close>

definition get_first_live_seq_num :: "md_client \<Rightarrow> u32 option" where
  "get_first_live_seq_num c = (if mc_live_buffer c = [] then Some (- 1)
     else if length (mc_live_buffer c) < 14 then None
     else Some (mh_seq_num (md_header_at (mc_live_buffer c))))"

definition snapshot_start :: "u32 \<Rightarrow> u32 \<Rightarrow> u32 \<Rightarrow> u32 \<Rightarrow> expected \<Rightarrow> md_client \<Rightarrow> expected \<times> md_client" where
  "snapshot_start y bids asks n ex c =
    (let ex = ex\<lparr>ex_bids := (ex_bids ex)(y \<mapsto> int (unat bids)), ex_asks := (ex_asks ex)(y \<mapsto> int (unat asks))\<rparr>;
         c = c\<lparr>mc_last_snapshot_seq := n, mc_snapshot_buffer := (mc_snapshot_buffer c)(y \<mapsto> [])\<rparr>
     in (ex, check_complete y ex c))"

definition snapshot_order :: "md_msg \<Rightarrow> expected \<Rightarrow> md_client \<Rightarrow> expected \<times> md_client" where
  "snapshot_order m ex c =
    (let y = no_symbol m;
         ex = (if no_side m = BUY then ex\<lparr>ex_bids := (ex_bids ex)(y \<mapsto> still (ex_bids ex) y - 1)\<rparr>
               else ex\<lparr>ex_asks := (ex_asks ex)(y \<mapsto> still (ex_asks ex) y - 1)\<rparr>);
         ms = (case mc_snapshot_buffer c y of None \<Rightarrow> [] | Some ms \<Rightarrow> ms);
         c = c\<lparr>mc_snapshot_buffer := (mc_snapshot_buffer c)(y \<mapsto> ms @ [m])\<rparr>
     in (ex, check_complete y ex c))"

text \<open>
  The loop over a snapshot packet.  Here the count of the remaining bytes is signed, so a length
  beyond the packet ends the loop; a length of zero still repeats the same message forever.
\<close>

partial_function (option) read_snapshot ::
  "u8 list \<Rightarrow> expected \<Rightarrow> md_client \<Rightarrow> (client_error + expected \<times> md_client) option" where
  "read_snapshot buf ex c =
    (let h = md_header_at buf; n = unat (mh_length h) in
     if buf = [] then Some (Inr (ex, c))
     else if length buf < md_header_size then Some (Inl SnapshotTooShort)
     else if mh_magic_number h \<noteq> SNAPSHOT_MAGIC_NUMBER then Some (Inl InvalidMagic)
     else if mh_msg_type h = md_type_code MD_SNAPSHOT_INFO then
       (if length buf < md_sizeof MD_SNAPSHOT_INFO then Some (Inl Overrun)
        else let m = md_msg_at MD_SNAPSHOT_INFO buf in
          case get_first_live_seq_num c of
            None \<Rightarrow> Some (Inl Overrun)
          | Some live \<Rightarrow>
              if si_last_md_seq_num m \<le> live then Some (Inr (ex, c))
              else (case snapshot_start (si_symbol m) (si_bid_count m) (si_ask_count m) (si_last_md_seq_num m) ex c of
                (ex, c) \<Rightarrow> if n > length buf then Some (Inr (ex, c)) else read_snapshot (drop n buf) ex c))
     else if mh_msg_type h = md_type_code MD_NEW_ORDER then
       (if length buf < md_sizeof MD_NEW_ORDER then Some (Inl Overrun)
        else (case snapshot_order (md_msg_at MD_NEW_ORDER buf) ex c of
          (ex, c) \<Rightarrow> if n > length buf then Some (Inr (ex, c)) else read_snapshot (drop n buf) ex c))
     else (if n > length buf then Some (Inr (ex, c)) else read_snapshot (drop n buf) ex c))"

text \<open>
  The outer loop: one read of the live socket, kept for later, and, only when that gave something,
  one read of the snapshot socket.
\<close>

definition snapshot_done :: "md_client \<Rightarrow> bool" where
  "snapshot_done c \<longleftrightarrow> mc_complete c 1 = Some True \<and> mc_complete c 2 = Some True"

partial_function (option) wait_loop ::
  "md_env \<Rightarrow> expected \<Rightarrow> md_client \<Rightarrow> (client_error + md_client) option" where
  "wait_loop e ex c =
    (if snapshot_done c then Some (Inr c)
     else
       (case me_live e (mc_live_reads c) of
          NothingYet \<Rightarrow> wait_loop e ex (c\<lparr>mc_live_reads := mc_live_reads c + 1\<rparr>)
        | RecvError \<Rightarrow> Some (Inl ReceiveFailed)
        | Received bs \<Rightarrow>
            (let c = c\<lparr>mc_live_reads := mc_live_reads c + 1, mc_live_buffer := mc_live_buffer c @ take MD_BUF bs\<rparr>
             in case me_snapshot e (mc_snapshot_reads c) of
                  NothingYet \<Rightarrow> wait_loop e ex (c\<lparr>mc_snapshot_reads := mc_snapshot_reads c + 1\<rparr>)
                | RecvError \<Rightarrow> Some (Inl ReceiveFailed)
                | Received bs \<Rightarrow>
                    (case read_snapshot (take MD_BUF bs) ex (c\<lparr>mc_snapshot_reads := mc_snapshot_reads c + 1\<rparr>) of
                       None \<Rightarrow> None
                     | Some (Inl err) \<Rightarrow> Some (Inl err)
                     | Some (Inr (ex, c)) \<Rightarrow> wait_loop e ex c))))"

text \<open>The orders of the snapshot, symbol 1 and then symbol 2.\<close>

definition add_snapshot_order :: "md_msg \<Rightarrow> md_client \<Rightarrow> md_client" where
  "add_snapshot_order m c =
     add_order (no_order_id m) (no_symbol m) (no_side m) (no_quantity m) (no_price m) (no_flags m) c"

definition buffered :: "u32 \<Rightarrow> md_client \<Rightarrow> md_msg list" where
  "buffered y c = (case mc_snapshot_buffer c y of None \<Rightarrow> [] | Some ms \<Rightarrow> ms)"

definition apply_snapshot :: "md_client \<Rightarrow> md_client" where
  "apply_snapshot c = fold add_snapshot_order (buffered 1 c @ buffered 2 c) c"

text \<open>
  The live messages that were kept, from the first the snapshot does not cover.  Each round hands
  the whole rest of the buffer to \<open>process_message\<close> and then erases one message.  A gap met here
  starts a nested recovery, which clears the buffer that the outer loop is reading.
\<close>

partial_function (option) replay :: "md_env \<Rightarrow> md_client \<Rightarrow> (client_error + md_client) option" where
  "replay e c =
    (let live = mc_live_buffer c; h = md_header_at live; n = unat (mh_length h) in
     if live = [] then Some (Inr c)
     else if length live < 14 then Some (Inl Overrun)
     else if mh_seq_num h \<le> mc_last_snapshot_seq c then
       (if n > length live then Some (Inl Overrun) else replay e (c\<lparr>mc_live_buffer := drop n live\<rparr>))
     else
       (case process_message e (\<lambda>c. Some (Inl DanglingHeader)) live c of
          None \<Rightarrow> None
        | Some (Inl err) \<Rightarrow> Some (Inl err)
        | Some (Inr c) \<Rightarrow>
            if n > length live then Some (Inl Overrun) else replay e (c\<lparr>mc_live_buffer := drop n live\<rparr>)))"

definition unsubscribe :: "md_env \<Rightarrow> md_client \<Rightarrow> client_error + md_client" where
  "unsubscribe e c = (if \<not> mc_recover_on_drops c \<and> \<not> me_leaves_group e then Inl LeaveFailed else Inr c)"

definition wait_for_snapshot :: "md_env \<Rightarrow> md_client \<Rightarrow> (client_error + md_client) option" where
  "wait_for_snapshot e c =
    (case wait_loop e expect_at_first (c\<lparr>mc_complete := (mc_complete c)(1 \<mapsto> False, 2 \<mapsto> False)\<rparr>) of
       None \<Rightarrow> None
     | Some (Inl err) \<Rightarrow> Some (Inl err)
     | Some (Inr c) \<Rightarrow>
         (let c = apply_snapshot c; c = c\<lparr>mc_last_seq := mc_last_snapshot_seq c\<rparr>
          in case replay e c of
               None \<Rightarrow> None
             | Some (Inl err) \<Rightarrow> Some (Inl err)
             | Some (Inr c) \<Rightarrow> Some (unsubscribe e c)))"

section \<open>Following the feed\<close>

definition process_md :: "md_env \<Rightarrow> md_client \<Rightarrow> (client_error + md_client) option" where
  "process_md e c =
    (let a = me_live e (mc_live_reads c); c = c\<lparr>mc_live_reads := mc_live_reads c + 1\<rparr>
     in case a of
          NothingYet \<Rightarrow> Some (Inr c)
        | RecvError \<Rightarrow> Some (Inl ReceiveFailed)
        | Received bs \<Rightarrow> process_message e (wait_for_snapshot e) (take MD_BUF bs) c)"

definition client_best_bid :: "u32 \<Rightarrow> md_client \<Rightarrow> ob_price_level" where
  "client_best_bid y c = (case mc_books c y of
      None \<Rightarrow> \<lparr>opl_price = I32 0, opl_quantity = 0\<rparr> | Some b \<Rightarrow> get_best_bid b)"

definition client_best_ask :: "u32 \<Rightarrow> md_client \<Rightarrow> ob_price_level" where
  "client_best_ask y c = (case mc_books c y of
      None \<Rightarrow> \<lparr>opl_price = I32 0, opl_quantity = 0\<rparr> | Some b \<Rightarrow> get_best_ask b)"

end
