(* ===== verification/Client_Follows.thy ===== *)
theory Client_Follows imports
  Md_Client Broker_Feed
begin

text \<open>
  The bots' market data client as a reader of the feed: its order books show the view that the
  engine's messages describe, from the datagrams the engine sends.
\<close>

section \<open>Books of a client\<close>

text \<open>
  Every book of the client is in the relation \<open>S\<close> to the view, and the client knows the symbol of
  every order.
\<close>

definition client_shows :: "(u32 \<Rightarrow> order_book \<Rightarrow> view \<Rightarrow> bool) \<Rightarrow> md_client \<Rightarrow> view \<Rightarrow> bool" where
  "client_shows S c v \<longleftrightarrow> (\<forall>y. S y (book_at y c) v \<and>
       (mc_books c y = None \<longrightarrow> only y v = Map.empty)) \<and>
     (\<forall>i r. v i = Some r \<longrightarrow> mc_symbol_of c i = Some (vo_symbol r))"

text \<open>
  The client knows the orders of the view, with their sides, prices and quantities; and it has the
  quantities at each price, too.
\<close>

abbreviation tracks_client :: "md_client \<Rightarrow> view \<Rightarrow> bool" where
  "tracks_client \<equiv> client_shows shows_orders"

abbreviation shows_client :: "md_client \<Rightarrow> view \<Rightarrow> bool" where
  "shows_client \<equiv> client_shows shows_book"

lemma client_shows_book: "client_shows S c v \<Longrightarrow> S y (book_at y c) v"
  by (simp add: client_shows_def)

lemma shows_tracks: "shows_client c v \<Longrightarrow> tracks_client c v"
  by (simp add: client_shows_def shows_book_def)

lemma client_shows_known:
  assumes "client_shows S c v" "v i = Some r"
  shows "mc_symbol_of c i = Some (vo_symbol r)" "mc_books c (vo_symbol r) = Some (book_at (vo_symbol r) c)"
proof -
  show "mc_symbol_of c i = Some (vo_symbol r)" using assms by (simp add: client_shows_def)
  have "only (vo_symbol r) v i = Some r" using assms(2) by (simp add: only_def)
  then have "mc_books c (vo_symbol r) \<noteq> None" using assms(1) by (auto simp: client_shows_def)
  then show "mc_books c (vo_symbol r) = Some (book_at (vo_symbol r) c)" by (auto simp: book_at_def)
qed

lemma client_shows_seq [simp]: "client_shows S (c\<lparr>mc_last_seq := n\<rparr>) v = client_shows S c v"
  by (simp add: client_shows_def book_at_def)

text \<open>A message with its place in the sequence.\<close>

definition read_md :: "md_env \<Rightarrow> md_msg \<Rightarrow> md_client \<Rightarrow> md_client" where
  "read_md e m c = snd (apply_md e m (c\<lparr>mc_last_seq := mc_last_seq c + 1\<rparr>))"

section \<open>A client's books follow the feed\<close>

context book_relation
begin

lemma client_shows_upd:
  assumes c: "client_shows shows_at c v" "finite (dom v)"
    and x: "\<And>r. v i = Some r \<Longrightarrow> vo_symbol r = y" "\<And>r. x = Some r \<Longrightarrow> vo_symbol r = y"
    and b: "shows_at y b (v(i := x))" "mc_books c' = (mc_books c)(y \<mapsto> b)"
    and s: "x \<noteq> None \<Longrightarrow> mc_symbol_of c' i = Some y" "\<And>j. j \<noteq> i \<Longrightarrow> mc_symbol_of c' j = mc_symbol_of c j"
  shows "client_shows shows_at c' (v(i := x))"
  unfolding client_shows_def
proof (intro conjI allI impI)
  fix y'
  have at: "book_at y' c' = (if y' = y then b else book_at y' c)" by (simp add: book_at_def b(2))
  have "shows_at y' (book_at y' c) (v(i := x))" if "y' \<noteq> y"
    by (rule other_shown [OF c(2) _ _ client_shows_book [OF c(1)]]) (use x that in auto)
  then show "shows_at y' (book_at y' c') (v(i := x))" using b(1) at by simp
  assume "mc_books c' y' = None"
  then have y': "y' \<noteq> y" "mc_books c y' = None" using b(2) by (auto split: if_splits)
  have "own_order y i v" using x(1) by (simp add: own_order_def)
  from only_upd(2) [OF this, of x] x(2) y' c(1) show "only y' (v(i := x)) = Map.empty"
    by (simp add: same_others_def client_shows_def)
next
  fix j r assume "(v(i := x)) j = Some r"
  then show "mc_symbol_of c' j = Some (vo_symbol r)"
    using c(1) x(2) s by (cases "j = i") (auto simp: client_shows_def)
qed

lemma on_book_of_shows:
  assumes c: "client_shows shows_at c v" "finite (dom v)" "v i = Some r"
    and x: "\<And>r'. x = Some r' \<Longrightarrow> vo_symbol r' = vo_symbol r"
    and f: "shows_at (vo_symbol r) (f (book_at (vo_symbol r) c)) (v(i := x))"
  shows "\<exists>c'. on_book_of i f c = (True, c') \<and> client_shows shows_at c' (v(i := x)) \<and>
    mc_last_seq c' = mc_last_seq c"
proof -
  let ?y = "vo_symbol r"
  note known = client_shows_known [OF c(1,3)]
  let ?c = "c\<lparr>mc_books := (mc_books c)(?y \<mapsto> f (book_at ?y c))\<rparr>"
  have "on_book_of i f c = (True, ?c)" using known by (simp add: on_book_of_def subscript_def)
  moreover have "client_shows shows_at ?c (v(i := x))"
    by (rule client_shows_upd [OF c(1,2) _ x f]) (use c(3) known in auto)
  ultimately show ?thesis by simp
qed

lemma apply_md_shows:
  assumes c: "client_shows shows_at c v"
    and v: "view_ok v" "fits m v" "view_ok (view_step m v)" "readable m v"
  shows "\<exists>c'. apply_md e m c = (True, c') \<and> client_shows shows_at c' (view_step m v) \<and> mc_last_seq c' = mc_last_seq c"
proof (cases m)
  case Heartbeat
  then show ?thesis using c by simp
next
  case (NewOrder i y sd q p fl)
  let ?r = "\<lparr>vo_symbol = y, vo_side = levels_of_side sd, vo_price = p, vo_quantity = q\<rparr>"
  have new: "v i = None" "0 < q" "view_ok (v(i \<mapsto> ?r))" using v(2,3) NewOrder by simp_all
  have b: "shows_at y (ob_new_order i sd q p fl (book_at y c)) (v(i \<mapsto> ?r))"
    by (rule new_shown [OF client_shows_book [OF c] new(1,2) v(1) refl new(3)])
  have "client_shows shows_at (add_order i y sd q p fl c) (v(i \<mapsto> ?r))"
    by (rule client_shows_upd [OF c view_ok_finite [OF v(1)] _ _ b])
      (use new in \<open>auto simp: add_order_def\<close>)
  then show ?thesis using NewOrder by (simp add: add_order_def)
next
  case (DeleteOrder i)
  then obtain r where r: "v i = Some r" using v(2) by auto
  have "\<exists>c'. on_book_of i (ob_delete_order i) c = (True, c') \<and> client_shows shows_at c' (v(i := None)) \<and>
      mc_last_seq c' = mc_last_seq c"
    by (rule on_book_of_shows [OF c view_ok_finite [OF v(1)] r])
      (use delete_shown [OF client_shows_book [OF c] v(1) r refl] in simp_all)
  then show ?thesis using DeleteOrder by simp
next
  case (ModifyOrder i sd q p)
  then obtain r where r: "v i = Some r" and q: "0 < q" using v(2) by auto
  let ?r = "r\<lparr>vo_side := levels_of_side sd, vo_price := p, vo_quantity := q\<rparr>"
  have ok: "view_ok (v(i \<mapsto> ?r))" using v(3) ModifyOrder r by simp
  have eq: "?r = \<lparr>vo_symbol = vo_symbol r, vo_side = levels_of_side sd, vo_price = p, vo_quantity = q\<rparr>"
    by (cases r) simp
  have "\<exists>c'. on_book_of i (ob_modify_order i sd q p) c = (True, c') \<and> client_shows shows_at c' (v(i \<mapsto> ?r)) \<and>
      mc_last_seq c' = mc_last_seq c"
    by (rule on_book_of_shows [OF c view_ok_finite [OF v(1)] r])
      (use modify_shown [OF client_shows_book [OF c] v(1) r refl q eq ok] in simp_all)
  then show ?thesis using ModifyOrder r by simp
next
  case (Trade i q p)
  then obtain r where r: "v i = Some r" and q: "0 < q" "q \<le> vo_quantity r" using v(2) by auto
  let ?x = "if vo_quantity r = q then None else Some (r\<lparr>vo_quantity := vo_quantity r - q\<rparr>)"
  have step: "view_step m v = v(i := ?x)" using Trade r by simp
  have "shows_at (vo_symbol r) (order_trade (me_freed e) i q p (book_at (vo_symbol r) c)) (v(i := ?x))"
    using trade_shown [OF client_shows_book [OF c] v(1) r refl q, of p "me_freed e"] v(4)
    unfolding Trade by (cases "vo_quantity r = q") simp_all
  then have "\<exists>c'. on_book_of i (order_trade (me_freed e) i q p) c = (True, c') \<and>
      client_shows shows_at c' (v(i := ?x)) \<and> mc_last_seq c' = mc_last_seq c"
    by (intro on_book_of_shows [OF c view_ok_finite [OF v(1)] r]) (auto split: if_splits)
  then show ?thesis unfolding step using Trade client_shows_known [OF c r] by simp
next
  case (TradeSummary y sd q p)
  then obtain i r where r: "v i = Some r" "vo_symbol r = y" using v(2) by auto
  have "mc_books c y = Some (book_at y c)" using client_shows_known(2) [OF c r(1)] r(2) by simp
  moreover have "client_shows shows_at (c\<lparr>mc_summaries := xs\<rparr>) v" for xs
    using c by (simp add: client_shows_def book_at_def)
  ultimately show ?thesis using TradeSummary c by auto
next
  case (SnapshotInfo y b a n)
  then show ?thesis using v(2) by simp
qed

lemma new_client_shows: "client_shows shows_at (new_md_client r) Map.empty"
  using empty_shown by (simp add: client_shows_def new_md_client_def book_at_def only_def)

lemma read_md_shows:
  assumes "client_shows shows_at c v" "view_ok v" "fits m v" "view_ok (view_step m v)" "readable m v"
  shows "apply_md e m (c\<lparr>mc_last_seq := mc_last_seq c + 1\<rparr>) = (True, read_md e m c)"
    "client_shows shows_at (read_md e m c) (view_step m v)"
    "mc_last_seq (read_md e m c) = mc_last_seq c + 1"
proof -
  obtain c' where "apply_md e m (c\<lparr>mc_last_seq := mc_last_seq c + 1\<rparr>) = (True, c')"
    "client_shows shows_at c' (view_step m v)" "mc_last_seq c' = mc_last_seq c + 1"
    using apply_md_shows [of "c\<lparr>mc_last_seq := mc_last_seq c + 1\<rparr>" v m e] assms by auto
  then show "apply_md e m (c\<lparr>mc_last_seq := mc_last_seq c + 1\<rparr>) = (True, read_md e m c)"
    "client_shows shows_at (read_md e m c) (view_step m v)"
    "mc_last_seq (read_md e m c) = mc_last_seq c + 1"
    by (simp_all add: read_md_def)
qed

end

text \<open>The client is a reader of the feed.\<close>

sublocale book_relation \<subseteq> md_reader: feed_reader "read_md e" "client_shows shows_at" readable for e
  by unfold_locales (rule read_md_shows)

section \<open>Packets\<close>

lemma fits_not_snapshot: "fits m v \<Longrightarrow> md_type_of m \<noteq> MD_SNAPSHOT_INFO"
  by (cases m) auto

lemma unat_md_sizeof [simp]: "unat (of_nat (md_sizeof t) :: u16) = md_sizeof t"
  by (cases t) simp_all

lemma handle_md_encoded:
  assumes "fits m v" "md_msg_canonical m"
  shows "handle_md e (encode_md g n t m @ rest) c = apply_md e m c"
  using fits_not_snapshot [OF assms(1)] md_msg_at_encode_md [OF assms(2), of g n t rest]
  by (simp add: handle_md_def md_header_at_encode_md)

lemma process_message_Cons:
  assumes "fits m v" "md_msg_canonical m" "unat (mc_last_seq c) + 1 < 2 ^ 32"
    "apply_md e m (c\<lparr>mc_last_seq := mc_last_seq c + 1\<rparr>) = (True, c')"
  shows "process_message e recover (encode_md MAGIC_NUMBER (mc_last_seq c + 1) t m @ rest) c
    = process_message e recover rest c'"
proof -
  let ?buf = "encode_md MAGIC_NUMBER (mc_last_seq c + 1) t m @ rest"
  have "\<not> mc_last_seq c + 1 \<le> mc_last_seq c"
    using assms(3) by (simp add: word_le_nat_alt unat_word_ariths(1))
  moreover have "?buf \<noteq> []" "\<not> length ?buf < md_header_size"
    using md_sizeof_bounds(1) [of "md_type_of m"] by (auto simp: md_header_size_def not_less intro: trans_le_add1)
  ultimately show ?thesis
    by (subst process_message.simps)
      (simp add: Let_def md_header_at_encode_md handle_md_encoded [OF assms(1,2)] assms(4))
qed

lemma process_message_Nil [simp]: "process_message e recover [] c = Some (Inr c)"
  by (subst process_message.simps) simp

text \<open>\<open>n\<close> calls of \<open>process\<close>, and the packets that the live socket gives them.\<close>

fun process_times :: "md_env \<Rightarrow> nat \<Rightarrow> md_client \<Rightarrow> (client_error + md_client) option" where
  "process_times e 0 c = Some (Inr c)"
| "process_times e (Suc n) c = (case process_md e c of
      None \<Rightarrow> None | Some (Inl err) \<Rightarrow> Some (Inl err) | Some (Inr c) \<Rightarrow> process_times e n c)"

fun heard :: "md_env \<Rightarrow> nat \<Rightarrow> nat \<Rightarrow> u8 list list option" where
  "heard e k 0 = Some []"
| "heard e k (Suc n) = (case me_live e k of
      NothingYet \<Rightarrow> heard e (k + 1) n
    | Received b \<Rightarrow> map_option (Cons b) (heard e (k + 1) n)
    | RecvError \<Rightarrow> None)"

lemma apply_md_reads [simp]: "mc_live_reads (snd (apply_md e m c)) = mc_live_reads c"
  by (cases "(e, m, c)" rule: apply_md.cases)
    (auto simp: add_order_def on_book_of_def Let_def split: prod.split option.split)

lemma read_md_reads [simp]: "mc_live_reads (fold (read_md e) ms c) = mc_live_reads c"
  by (induction ms arbitrary: c) (simp_all add: read_md_def)

lemma client_shows_reads [simp]: "client_shows S (c\<lparr>mc_live_reads := k\<rparr>) v = client_shows S c v"
  by (simp add: client_shows_def book_at_def)

context book_relation
begin

lemma process_message_run:
  assumes "client_shows shows_at c v" "feed_ok (map snd ms) v" "\<forall>m \<in> snd ` set ms. md_msg_canonical m"
    "unat (mc_last_seq c) + length ms < 2 ^ 32" "all_along readable (map snd ms) v"
  shows "process_message e recover (encode_run (mc_last_seq c + 1) ms) c
    = Some (Inr (fold (read_md e) (map snd ms) c))"
  using assms
proof (induction ms arbitrary: c v)
  case (Cons tm ms)
  obtain t m where tm: "tm = (t, m)" by (cases tm)
  have ok: "view_ok v" "fits m v" "feed_ok (map snd ms) (view_step m v)"
    "readable m v" "all_along readable (map snd ms) (view_step m v)"
    using Cons.prems(2,5) by (simp_all add: tm)
  note rd = read_md_shows [OF Cons.prems(1) ok(1,2) feed_ok_view [OF ok(3)] ok(4), of e]
  let ?c = "read_md e m c"
  have "unat (mc_last_seq c + 1) = unat (mc_last_seq c) + 1"
    using Cons.prems(4) by (simp add: unat_word_ariths(1))
  then have "unat (mc_last_seq ?c) + length ms < 2 ^ 32" using Cons.prems(4) rd(3) by simp
  with Cons.IH [OF rd(2) ok(3) _ _ ok(5)] Cons.prems(3)
  have "process_message e recover (encode_run (mc_last_seq ?c + 1) ms) ?c
    = Some (Inr (fold (read_md e) (map snd ms) ?c))" by simp
  moreover have "process_message e recover (encode_run (mc_last_seq c + 1) (tm # ms)) c
      = process_message e recover (encode_run (mc_last_seq c + 1 + 1) ms) ?c"
    using process_message_Cons [OF ok(2) _ _ rd(1)] Cons.prems(3,4) by (simp add: tm)
  ultimately show ?case by (simp add: tm rd(3))
qed simp

lemma read_md_seq:
  assumes "client_shows shows_at c v" "feed_ok ms v" "all_along readable ms v"
  shows "mc_last_seq (fold (read_md e) ms c) = mc_last_seq c + of_nat (length ms)"
  using assms
proof (induction ms arbitrary: c v)
  case (Cons m ms)
  then have ok: "view_ok v" "fits m v" "feed_ok ms (view_step m v)"
    "readable m v" "all_along readable ms (view_step m v)" by simp_all
  note rd = read_md_shows [OF Cons.prems(1) ok(1,2) feed_ok_view [OF ok(3)] ok(4), of e]
  from Cons.IH [OF rd(2) ok(3,5)] rd(3) show ?case by (simp add: algebra_simps)
qed simp

lemma process_times_packets:
  assumes "client_shows shows_at c v" "feed_ok (map snd (concat gs)) v"
    "\<forall>m \<in> snd ` set (concat gs). md_msg_canonical m"
    "unat (mc_last_seq c) + length (concat gs) < 2 ^ 32"
    "heard e (mc_live_reads c) n = Some (packets_of (mc_last_seq c + 1) gs)"
    "\<forall>pkt \<in> set (packets_of (mc_last_seq c + 1) gs). length pkt \<le> MD_BUF"
    "all_along readable (map snd (concat gs)) v"
  shows "\<exists>c'. process_times e n c = Some (Inr c') \<and>
    client_shows shows_at c' (fold view_step (map snd (concat gs)) v) \<and>
    mc_last_seq c' = mc_last_seq c + of_nat (length (concat gs))"
  using assms
proof (induction n arbitrary: c v gs)
  case 0
  then have "gs = []" by (cases gs) simp_all
  then show ?case using "0.prems"(1) by simp
next
  case (Suc n)
  let ?c = "c\<lparr>mc_live_reads := mc_live_reads c + 1\<rparr>"
  show ?case
  proof (cases "me_live e (mc_live_reads c)")
    case RecvError
    with Suc.prems(5) show ?thesis by simp
  next
    case NothingYet
    then have run: "process_md e c = Some (Inr ?c)" by (simp add: process_md_def)
    have "\<exists>c'. process_times e n ?c = Some (Inr c') \<and>
        client_shows shows_at c' (fold view_step (map snd (concat gs)) v) \<and>
        mc_last_seq c' = mc_last_seq ?c + of_nat (length (concat gs))"
      by (rule Suc.IH) (use Suc.prems NothingYet in simp_all)
    then show ?thesis by (simp add: run)
  next
    case (Received b)
    then obtain pkts where pkts: "heard e (mc_live_reads c + 1) n = Some pkts"
      "packets_of (mc_last_seq c + 1) gs = b # pkts" using Suc.prems(5) by (auto split: option.splits)
    then obtain g gs' where gs: "gs = g # gs'" "b = encode_run (mc_last_seq c + 1) g"
      "pkts = packets_of (mc_last_seq c + 1 + of_nat (length g)) gs'" by (cases gs) simp_all
    have feed: "feed_ok (map snd g) v" "feed_ok (map snd (concat gs')) (fold view_step (map snd g) v)"
      using Suc.prems(2) by (simp_all add: gs feed_ok_append)
    have read: "all_along readable (map snd g) v" "all_along readable (map snd (concat gs')) (fold view_step (map snd g) v)"
      using Suc.prems(7) by (simp_all add: gs all_along_append)
    have now: "client_shows shows_at ?c v" using Suc.prems(1) by simp
    let ?c1 = "fold (read_md e) (map snd g) ?c"
    have whole: "take MD_BUF b = b" using Suc.prems(6) pkts(2) by simp
    have "process_message e (wait_for_snapshot e) b ?c = Some (Inr ?c1)"
      using process_message_run [OF now feed(1) _ _ read(1), of e "wait_for_snapshot e"] Suc.prems(3,4) gs by simp
    then have run: "process_md e c = Some (Inr ?c1)" using Received by (simp add: process_md_def Let_def whole)
    have next1: "client_shows shows_at ?c1 (fold view_step (map snd g) v)"
      using md_reader.feed_shows [OF now feed(1) read(1), of e] by simp
    have seq1: "mc_last_seq ?c1 = mc_last_seq c + of_nat (length g)"
      using read_md_seq [OF now feed(1) read(1), of e] by simp
    have "unat (mc_last_seq ?c1) = unat (mc_last_seq c) + length g"
      using Suc.prems(4) unfolding seq1 by (simp add: gs unat_word_ariths(1) unat_of_nat)
    then have room: "unat (mc_last_seq ?c1) + length (concat gs') < 2 ^ 32" using Suc.prems(4) by (simp add: gs)
    obtain c1 where c1: "c1 = ?c1" by blast
    have reads: "mc_live_reads c1 = mc_live_reads c + 1" by (simp add: c1)
    note c1_facts = next1 [folded c1] seq1 [folded c1] room [folded c1] run [folded c1]
    have pkts1: "pkts = packets_of (mc_last_seq c1 + 1) gs'" by (simp add: gs(3) c1_facts(2) ac_simps)
    have "\<exists>c'. process_times e n c1 = Some (Inr c') \<and>
        client_shows shows_at c' (fold view_step (map snd (concat gs')) (fold view_step (map snd g) v)) \<and>
        mc_last_seq c' = mc_last_seq c1 + of_nat (length (concat gs'))"
    proof (rule Suc.IH [OF c1_facts(1) feed(2) _ c1_facts(3)])
      show "\<forall>m \<in> snd ` set (concat gs'). md_msg_canonical m" using Suc.prems(3) by (simp add: gs(1))
      show "heard e (mc_live_reads c1) n = Some (packets_of (mc_last_seq c1 + 1) gs')"
        using pkts(1) reads pkts1 by simp
      show "\<forall>pkt \<in> set (packets_of (mc_last_seq c1 + 1) gs'). length pkt \<le> MD_BUF"
        using Suc.prems(6) pkts(2) pkts1 by simp
    qed (rule read(2))
    then show ?thesis by (simp add: c1_facts(2,4) gs(1) ac_simps)
  qed
qed

end

section \<open>The quantity at a price of the ladder\<close>

definition level_quantity :: "resting list \<Rightarrow> nat" where
  "level_quantity rs = sum_list (map (\<lambda>r. unat (r_quantity r)) rs)"

lemma level_total_only: "finite (dom v) \<Longrightarrow> level_total (only y v) y bs p = level_total v y bs p"
proof -
  assume fin: "finite (dom v)"
  have "(\<Sum>i \<in> dom (only y v). share y bs p (the (only y v i))) = (\<Sum>i \<in> dom v. share y bs p (the (v i)))"
  proof (rule sum.mono_neutral_cong_left [OF fin])
    show "dom (only y v) \<subseteq> dom v" by (auto simp: only_def split: option.splits)
    show "\<forall>i \<in> dom v - dom (only y v). share y bs p (the (v i)) = 0"
      by (auto simp: only_def share_def split: if_splits)
    show "share y bs p (the (only y v i)) = share y bs p (the (v i))" if "i \<in> dom (only y v)" for i
      using that by (auto simp: only_def split: option.splits if_splits)
  qed
  then show ?thesis by (simp add: level_total_def)
qed

lemma level_total_map_of: "distinct (map fst l) \<Longrightarrow>
    level_total (map_of l) y bs p = sum_list (map (\<lambda>e. share y bs p (snd e)) l)"
proof (induction l)
  case (Cons e l)
  obtain i r where e: "e = (i, r)" by (cases e)
  have fin: "finite (dom (map_of l))" by (rule finite_dom_map_of)
  have "map_of l i = None" using Cons.prems by (simp add: e map_of_eq_None_iff)
  then have "level_total ((map_of l)(i \<mapsto> r)) y bs p = level_total (map_of l) y bs p + share y bs p r"
    using level_total_add [OF fin, of i r y bs p] by (simp add: fun_upd_idem)
  moreover have "map_of (e # l) = (map_of l)(i \<mapsto> r)" by (simp add: e)
  ultimately have total: "level_total (map_of (e # l)) y bs p = level_total (map_of l) y bs p + share y bs p r"
    by (simp only:)
  have "level_total (map_of l) y bs p = sum_list (map (\<lambda>e. share y bs p (snd e)) l)" using Cons by simp
  then show ?case unfolding total by (simp add: e)
qed simp

lemma share_level: "sum_list (map (\<lambda>e. share y bs p (snd e)) (view_of_level y bs' (p', rs)))
    = (if bs' = bs \<and> p' = p then level_quantity rs else 0)"
  by (induction rs) (auto simp: level_quantity_def at_level_def share_def)

lemma share_levels:
  assumes "distinct (map fst m)"
  shows "sum_list (map (\<lambda>e. share y bs p (snd e)) (view_of_levels y bs' m)) = (if bs' = bs
    then (case map_of m p of None \<Rightarrow> 0 | Some rs \<Rightarrow> level_quantity rs) else 0)"
  using assms
proof (induction m)
  case (Cons e m)
  obtain p' rs where e: "e = (p', rs)" by (cases e)
  show ?case
  proof (cases "p' = p")
    case True
    then have "map_of m p = None" using Cons.prems by (simp add: e map_of_eq_None_iff)
    with Cons True show ?thesis by (simp add: e share_level)
  next
    case False
    with Cons show ?thesis by (simp add: e share_level)
  qed
qed simp

lemma level_total_of_book:
  assumes ok: "book_ok B" and v: "only y v = view_of y B" "finite (dom v)"
  shows "level_total v y bs p = (case map_of (B bs) p of None \<Rightarrow> 0 | Some rs \<Rightarrow> level_quantity rs)"
proof -
  have "distinct (map fst (view_of_book y B))"
    using ok unfolding fst_view_of_book by (simp add: book_ok_def)
  note sums = level_total_map_of [OF this, of y bs p]
  have prices: "distinct (map fst (B bs'))" for bs'
    using book_ok_levels [OF ok, of bs'] book_order.ordered_fst_distinct by (auto simp: levels_ok_def)
  have "level_total v y bs p = level_total (view_of y B) y bs p"
    using level_total_only [OF v(2), of y bs p] v(1) by simp
  also have "\<dots> = (case map_of (B bs) p of None \<Rightarrow> 0 | Some rs \<Rightarrow> level_quantity rs)"
    using sums share_levels [OF prices, of y bs p] unfolding view_of_def view_of_book_def
    by (cases bs) simp_all
  finally show ?thesis .
qed

text \<open>The best price of a side of the ladder's book, as the bots ask for it.\<close>

definition book_best :: "book_side \<Rightarrow> book \<Rightarrow> ob_price_level" where
  "book_best bs B = (case B bs of [] \<Rightarrow> \<lparr>opl_price = I32 0, opl_quantity = 0\<rparr>
     | (p, rs) # _ \<Rightarrow> \<lparr>opl_price = p, opl_quantity = of_nat (level_quantity rs)\<rparr>)"

lemma is_best_unique:
  assumes "is_best v y bs l" "is_best v y bs l'"
  shows "l = l'"
proof (cases "\<forall>p. level_total v y bs p = 0")
  case True
  with assms show ?thesis by (simp add: is_best_def)
next
  case False
  have nz: "level_total v y bs (opl_price l) \<noteq> 0" "level_total v y bs (opl_price l') \<noteq> 0"
    using assms False unat_gt_0 [of "opl_quantity l"] unat_gt_0 [of "opl_quantity l'"]
    unfolding is_best_def by (auto simp: word_gt_0)
  have "opl_price l = opl_price l'"
  proof (rule ccontr)
    assume "opl_price l \<noteq> opl_price l'"
    then have "before bs (opl_price l) (opl_price l')" "before bs (opl_price l') (opl_price l)"
      using assms False nz unfolding is_best_def by metis+
    then show False by (cases bs) auto
  qed
  moreover have "opl_quantity l = opl_quantity l'"
    using assms False calculation unfolding is_best_def by (auto intro: word_unat_eq_iff [THEN iffD2])
  ultimately show ?thesis by (cases l; cases l') simp
qed

lemma book_best_is_best:
  assumes ok: "book_ok B" and v: "only y v = view_of y B" "view_ok v"
  shows "is_best v y bs (book_best bs B)"
proof -
  note total = level_total_of_book [OF ok v(1) view_ok_finite [OF v(2)], of bs]
  have pos: "level_quantity rs \<noteq> 0" if "(p, rs) \<in> set (B bs)" for p rs
  proof -
    have "rs \<noteq> []" "\<forall>r \<in> set rs. r_quantity r \<noteq> 0"
      using book_ok_levels [OF ok, of bs] that by (auto simp: levels_ok_def resting_ok_def)
    then show ?thesis by (cases rs) (auto simp: level_quantity_def unat_eq_0)
  qed
  have ord: "ordered_map (before bs) (B bs)" using book_ok_levels [OF ok, of bs] by (simp add: levels_ok_def)
  show ?thesis
  proof (cases "B bs")
    case Nil
    then show ?thesis by (simp add: is_best_def book_best_def total)
  next
    case (Cons e m)
    obtain p rs where e: "e = (p, rs)" by (cases e)
    have here: "level_total v y bs p = level_quantity rs" by (simp add: total Cons e)
    have top: "level_quantity rs < 2 ^ 32" using v(2) here unfolding view_ok_def by metis
    have nz: "level_quantity rs \<noteq> 0" by (rule pos [of p]) (simp add: Cons e)
    have "p' = p \<or> before bs p p'" if "level_total v y bs p' \<noteq> 0" for p'
    proof -
      have "map_of (B bs) p' \<noteq> None" using that by (cases "map_of (B bs) p'") (auto simp: total)
      then have "p' \<in> fst ` set (B bs)" by (simp add: map_of_eq_None_iff)
      then show ?thesis using ord by (auto simp: Cons e)
    qed
    moreover have "0 < (of_nat (level_quantity rs) :: u32)"
      using nz of_nat_zero_u32 [OF top] by (simp add: word_gt_0)
    ultimately show ?thesis using here nz top
      by (auto simp: is_best_def book_best_def Cons e unat_of_nat)
  qed
qed

section \<open>The engine's messages on the wire\<close>

abbreviation named_side :: "side \<Rightarrow> bool" where
  "named_side sd \<equiv> sd \<notin> {SideByte 1, SideByte 2}"

lemma enter_messages:
  assumes "enter_order i sd y q price flags notify B = (left, B', cs)" "named_side sd"
  shows "\<forall>m \<in> set (concat (map md_of cs)). md_msg_canonical m"
proof -
  obtain m cs1 where fb: "fill_book i sd y price q (B (opposite_of_side sd)) = (left, m, cs1)"
    using assms(1) by (auto simp: enter_order_def Let_def split: prod.splits)
  then have cs: "cs = cs1 @ (if notify \<and> \<not> is_ioc flags then [OnNewOrder i y sd left price flags] else [])
      @ (if notify \<and> is_ioc flags \<and> left > 0 then [OnDeleteOrder i False] else [])"
    using assms(1) by (auto simp: enter_order_def Let_def)
  have "concat (map md_of cs)
      = (if notify \<and> \<not> is_ioc flags \<and> left > 0 then [NewOrder i y sd left price flags] else [])"
    unfolding cs map_append concat_append fill_book_no_md [OF fb] by simp
  then show ?thesis using assms(2) by simp
qed

lemma spec_op_canonical:
  assumes "named_side (py_side p)"
  shows "\<forall>m \<in> set (concat (map md_of (snd (spec_op p B)))). md_msg_canonical m"
proof -
  have new: "\<forall>m \<in> set (concat (map md_of (snd (spec_new_order i sd y q price flags B)))). md_msg_canonical m"
    if "named_side sd" for i sd y q price flags
    using enter_messages [OF _ that, of i y q price flags True B]
    by (cases "enter_order i sd y q price flags True B") (simp add: spec_new_order_def)
  have delete: "\<forall>m \<in> set (concat (map md_of (snd (spec_delete_order i B)))). md_msg_canonical m" for i
    by (simp add: spec_delete_order_def split: option.split)
  have modify: "\<forall>m \<in> set (concat (map md_of (snd (coded_modify_order i sd y q price B)))). md_msg_canonical m"
    if "named_side sd" for i sd y q price
  proof (cases "find_order i B")
    case (Some e)
    obtain p r where e: "e = (p, r)" by (cases e)
    obtain left B' cs where enter: "enter_order i sd y (q - r_filled r) price (r_flags r) False
      (remove_order i B) = (left, B', cs)" by (metis prod_cases3)
    show ?thesis using enter_messages [OF enter that] that
      by (simp add: coded_modify_order_def Some e enter ball_Un)
  qed (simp add: coded_modify_order_def)
  show ?thesis using new [OF assms] delete modify [OF assms]
    by (cases "py_msg_type p") (simp_all add: spec_op_def)
qed

lemma trade_messages_canonical:
  assumes "named_side aggressor"
  shows "\<forall>m \<in> set (trade_messages y aggressor (trade_msgs cs)). md_msg_canonical m"
proof -
  have "\<forall>m \<in> set (trade_of c). md_msg_canonical m" for c by (cases c) simp_all
  then show ?thesis using assms by (auto simp: trade_messages_def trade_msgs_def)
qed

lemma op_messages_canonical:
  assumes "named_side (py_side p)" "named_side aggressor \<or> trade_msgs (snd (spec_op p B)) = []"
  shows "\<forall>m \<in> set (op_messages y aggressor (snd (spec_op p B))). md_msg_canonical m"
proof -
  have "\<forall>m \<in> set (trade_messages y aggressor (trade_msgs (snd (spec_op p B)))). md_msg_canonical m"
    using assms(2) trade_messages_canonical [of aggressor y "snd (spec_op p B)"]
    by (elim disjE) (simp_all add: trade_messages_def)
  then show ?thesis using spec_op_canonical [OF assms(1), of B]
    by (simp add: op_messages_def ball_Un del: set_concat)
qed

lemma length_op_messages: "length (op_messages y aggressor cs) \<le> length cs + 1"
proof -
  have "length (concat (map md_of cs)) + length (trade_msgs cs) \<le> length cs"
  proof (induction cs)
    case (Cons c cs)
    have "length (md_of c) + length (trade_of c) \<le> 1" by (cases c) simp_all
    with Cons show ?case by simp
  qed simp
  then show ?thesis by (simp add: op_messages_def trade_messages_def)
qed

section \<open>The bots' prices are the engine's prices\<close>

text \<open>The datagrams of the feed that are in \<open>b'\<close> and not yet in \<open>b\<close>.\<close>

definition new_datagrams :: "broker \<Rightarrow> broker \<Rightarrow> u8 list list" where
  "new_datagrams b b' = (let fd = pub_fd (bk_publisher b)
     in drop (length (datagrams fd (bk_system b))) (datagrams fd (bk_system b')))"

definition same_prices :: "broker \<Rightarrow> md_client \<Rightarrow> bool" where
  "same_prices b c \<longleftrightarrow> (\<forall>y L. bk_ladders b y = Some L \<longrightarrow> (\<exists>B. represents L B \<and>
     client_best_bid y c = book_best BuyLevels B \<and> client_best_ask y c = book_best SellLevels B))"

lemma shows_same_prices:
  assumes "shows_engine b v" "shows_client c v" "view_ok v"
  shows "same_prices b c"
  unfolding same_prices_def
proof (intro allI impI)
  fix y L assume "bk_ladders b y = Some L"
  then obtain B where B: "represents L B" "book_ok B" "only y v = view_of y B"
    using assms(1) by (auto simp: shows_engine_def)
  note shown = best_prices [OF client_shows_book [OF assms(2), of y]]
  have "client_best_bid y c = get_best_bid (book_at y c)" "client_best_ask y c = get_best_ask (book_at y c)"
    by (auto simp: client_best_bid_def client_best_ask_def book_at_def get_best_bid_def get_best_ask_def
        empty_order_book_def split: option.split)
  then have "client_best_bid y c = book_best BuyLevels B \<and> client_best_ask y c = book_best SellLevels B"
    using is_best_unique [OF shown(1) book_best_is_best [OF B(2,3) assms(3)]]
      is_best_unique [OF shown(2) book_best_is_best [OF B(2,3) assms(3)]] by simp
  with B(1) show "\<exists>B. represents L B \<and> client_best_bid y c = book_best BuyLevels B \<and>
      client_best_ask y c = book_best SellLevels B" by blast
qed

text \<open>The client knows the orders of the engine's ladders, each with its side, price and quantity.\<close>

definition same_orders :: "broker \<Rightarrow> md_client \<Rightarrow> bool" where
  "same_orders b c \<longleftrightarrow> (\<forall>y L. bk_ladders b y = Some L \<longrightarrow> (\<exists>B. represents L B \<and>
     shows_orders y (book_at y c) (view_of y B)))"

lemma only_idem [simp]: "only y (only y v) = only y v"
  by (auto simp: only_def fun_eq_iff split: option.split)

lemma tracks_same_orders:
  assumes "shows_engine b v" "tracks_client c v"
  shows "same_orders b c"
  unfolding same_orders_def
proof (intro allI impI)
  fix y L assume "bk_ladders b y = Some L"
  then obtain B where B: "represents L B" "only y v = view_of y B"
    using assms(1) by (auto simp: shows_engine_def)
  have "shows_orders y (book_at y c) v" using assms(2) by (rule client_shows_book)
  then have "shows_orders y (book_at y c) (only y v)" by (simp add: shows_orders_def)
  with B show "\<exists>B. represents L B \<and> shows_orders y (book_at y c) (view_of y B)" by auto
qed

end
