(* ===== verification/Client_Props.thy ===== *)
theory Client_Props imports
  Client_Follows
begin

text \<open>
  Properties of the bots' market data client: it shows the engine's prices, and what a gap, a length
  of zero and the first message of a feed do to it.
\<close>

section \<open>The bots' prices are the engine's prices\<close>

text \<open>The packets of a payload: what they hold, and the books after them.\<close>

lemma payload_packets:
  assumes engine: "accepts e" "engine_ok b" "is_ladder_payload p" "acceptable p b"
    and v: "shows_engine b v" "view_ok v" "shown_well p b v" "named_side (py_side p)"
    and run: "process_payload e p b = Some (Inr b')"
  shows "\<exists>L L' gs. bk_ladders b (py_symbol p) = Some L \<and> ladder_op p (L\<lparr>l_calls := []\<rparr>) = Some (Inr L') \<and>
    new_datagrams b b' = packets_of (pub_seq_num (bk_publisher b)) gs \<and>
    (\<forall>pkt \<in> set (packets_of (pub_seq_num (bk_publisher b)) gs). length pkt \<le> BUFFER_SIZE) \<and>
    length (concat gs) \<le> length (l_calls L') + 1 \<and> (\<forall>m \<in> snd ` set (concat gs). md_msg_canonical m) \<and>
    feed_ok (map snd (concat gs)) v \<and> shows_engine b' (fold view_step (map snd (concat gs)) v) \<and>
    map snd (concat gs) = op_messages (py_symbol p) (bk_aggressor_side (at_work p b)) (l_calls L')"
proof -
  obtain L L' where L': "bk_ladders b (py_symbol p) = Some L"
    "ladder_op p (L\<lparr>l_calls := []\<rparr>) = Some (Inr L')" "bk_ladders b' = (bk_ladders b)(py_symbol p \<mapsto> L')"
    "emits [] (op_messages (py_symbol p) (bk_aggressor_side (at_work p b)) (l_calls L')) (feed b) [] (feed b')"
    using process_ladder_payload [OF engine] run unfolding op_messages_def trade_msgs_def
    by (metis Inr_inject option.inject)
  let ?ms = "op_messages (py_symbol p) (bk_aggressor_side (at_work p b)) (l_calls L')"
  obtain B where B: "represents L B" "book_ok B" "uncrossed B" "l_symbol L = py_symbol p"
    "only (py_symbol p) v = view_of (py_symbol p) B" using v(1) L'(1) by (auto simp: shows_engine_def)
  note sim = ladder_op_sim [OF engine(3,4) L'(1) B(1-4)]
  have new: "represents L' (fst (spec_op p B))" "l_calls L' = snd (spec_op p B)" "l_symbol L' = py_symbol p"
    using sim(1) L'(2) B(4) by (auto simp: refines_def)
  have lead: "feed_leads (py_symbol p) v ?ms (fst (spec_op p B))"
    unfolding new(2) by (rule spec_op_leads [OF engine(3,4) L'(1) B(1,2,5) v(2,3)])
  let ?v = "fold view_step ?ms v"
  have "only y ?v = only y v" if "y \<noteq> py_symbol p" for y
    using that lead by (simp add: feed_leads_def same_others_def)
  then have engine': "shows_engine b' ?v"
    using v(1) new sim(2,3) lead L'(3) by (auto simp: shows_engine_def feed_leads_def)
  obtain gs where gs: "new_datagrams b b' = packets_of (pub_seq_num (bk_publisher b)) gs"
    "map snd (concat gs) = ?ms"
    "\<forall>pkt \<in> set (packets_of (pub_seq_num (bk_publisher b)) gs). length pkt \<le> BUFFER_SIZE"
    using L'(4) by (auto simp: emits_def first_seq_def new_datagrams_def Let_def)
  have "named_side (bk_aggressor_side (at_work p b)) \<or> trade_msgs (snd (spec_op p B)) = []"
  proof (cases "py_msg_type p = OE_DELETE_ORDER")
    case True
    then show ?thesis by (simp add: spec_op_def spec_delete_order_def split: option.split)
  next
    case False
    then show ?thesis using engine(3) v(4) by (auto simp: at_work_def is_ladder_payload_def)
  qed
  then have "\<forall>m \<in> set ?ms. md_msg_canonical m"
    unfolding new(2) by (rule op_messages_canonical [OF v(4)])
  then have canonical: "\<forall>m \<in> snd ` set (concat gs). md_msg_canonical m" unfolding gs(2) [symmetric] by simp
  have "length (concat gs) = length ?ms" using gs(2) by (metis length_map)
  then have "length (concat gs) \<le> length (l_calls L') + 1"
    using length_op_messages [of "py_symbol p" "bk_aggressor_side (at_work p b)" "l_calls L'"] by linarith
  moreover have "feed_ok (map snd (concat gs)) v" using lead unfolding gs(2) by (simp add: feed_leads_def)
  moreover have "shows_engine b' (fold view_step (map snd (concat gs)) v)" using engine' unfolding gs(2) .
  ultimately show ?thesis using L'(1,2) gs(1-3) canonical by blast
qed

text \<open>C20: the bots see the engine's orders and prices.  When a client knows the orders of the engine's
  ladders, and it then reads the datagrams that the engine sends for a payload, in order and in as
  many polls as it takes, it knows exactly the orders that rest in the ladders after the payload,
  with their sides, prices and quantities.  If its prices were right and no trade of the payload uses
  up a whole resting order, then for every symbol its best bid and its best ask are the price and the
  whole quantity of the ladder's best levels.  The payload uses an id the feed does not show, the
  quantity at its price fits into 32 bits, and it does not modify in place an order that has been
  filled in part, which the feed reports with less than the ladder keeps; what the client's prices
  are after a trade that uses an order up is undefined, since it reads memory it has freed.\<close>

theorem bots_see_engine_prices:
  assumes engine: "accepts e" "engine_ok b" "is_ladder_payload p" "acceptable p b"
    and v: "shows_engine b v" "view_ok v" "shown_well p b v" "named_side (py_side p)"
    and c: "tracks_client c v" "mc_last_seq c + 1 = pub_seq_num (bk_publisher b)"
    and run: "process_payload e p b = Some (Inr b')"
    and op: "bk_ladders b (py_symbol p) = Some L" "ladder_op p (L\<lparr>l_calls := []\<rparr>) = Some (Inr L')"
    and room: "unat (mc_last_seq c) + length (l_calls L') + 1 < 2 ^ 32"
    and heard: "heard me (mc_live_reads c) n = Some (new_datagrams b b')"
  shows "\<exists>c'. process_times me n c = Some (Inr c') \<and> same_orders b' c' \<and>
    (shows_client c v \<and> none_used_up (op_messages (py_symbol p) (bk_aggressor_side (at_work p b)) (l_calls L')) v
      \<longrightarrow> same_prices b' c')"
proof -
  let ?ms = "op_messages (py_symbol p) (bk_aggressor_side (at_work p b)) (l_calls L')"
  obtain gs where
    gs: "new_datagrams b b' = packets_of (pub_seq_num (bk_publisher b)) gs"
      "\<forall>pkt \<in> set (packets_of (pub_seq_num (bk_publisher b)) gs). length pkt \<le> BUFFER_SIZE"
      "length (concat gs) \<le> length (l_calls L') + 1" "\<forall>m \<in> snd ` set (concat gs). md_msg_canonical m"
      "feed_ok (map snd (concat gs)) v" "shows_engine b' (fold view_step (map snd (concat gs)) v)"
      "map snd (concat gs) = ?ms"
    using payload_packets [OF engine v run] op by auto
  have room': "unat (mc_last_seq c) + length (concat gs) < 2 ^ 32" using room gs(3) by linarith
  have heard': "heard me (mc_live_reads c) n = Some (packets_of (mc_last_seq c + 1) gs)"
    using heard gs(1) c(2) by simp
  have short: "\<forall>pkt \<in> set (packets_of (mc_last_seq c + 1) gs). length pkt \<le> MD_BUF"
    using gs(2) c(2) by (auto simp: MD_BUF_def BUFFER_SIZE_def dest!: bspec)
  have "all_along (\<lambda>m v. True) (map snd (concat gs)) v" by simp
  with book_orders.process_times_packets [OF c(1) gs(5,4) room' heard' short]
  obtain c' where c': "process_times me n c = Some (Inr c')"
    "tracks_client c' (fold view_step (map snd (concat gs)) v)" by blast
  have "same_prices b' c'" if shown: "shows_client c v" "none_used_up ?ms v"
  proof -
    have "shows_client c' (fold view_step (map snd (concat gs)) v)"
      using whole_book.process_times_packets [OF shown(1) gs(5,4) room' heard' short shown(2) [folded gs(7)]] c'(1)
      by auto
    with shows_same_prices [OF gs(6)] feed_ok_end [OF gs(5)] show ?thesis by blast
  qed
  with tracks_same_orders [OF gs(6) c'(2)] c'(1) show ?thesis by blast
qed

text \<open>An engine that has sent one message, a client that knows it, and the socket between them.\<close>

definition warm_broker :: broker where
  "warm_broker = (started_broker [])\<lparr>bk_publisher := (bk_publisher (started_broker []))\<lparr>pub_seq_num := 1\<rparr>\<rparr>"

definition spoiled :: "ob_order \<Rightarrow> ob_order" where
  "spoiled x = x\<lparr>ob_price := I32 0\<rparr>"

definition replaying :: "u8 list list \<Rightarrow> md_env" where
  "replaying pkts = \<lparr>me_live = (\<lambda>k. if k < length pkts then Received (pkts ! k) else NothingYet),
     me_snapshot = (\<lambda>_. NothingYet), me_leaves_group = True, me_freed = spoiled\<rparr>"

lemma heard_replaying: "k \<le> length pkts \<Longrightarrow> heard (replaying pkts) k (length pkts - k) = Some (drop k pkts)"
proof (induction "length pkts - k" arbitrary: k)
  case (Suc n)
  then have "length pkts - k = Suc (length pkts - Suc k)" "k < length pkts" by simp_all
  with Suc.hyps(1) [of "Suc k"] Suc.hyps(2) show ?case
    by (simp add: replaying_def Cons_nth_drop_Suc)
qed simp

lemma warm_broker_simps [simp]:
  "bk_ladders warm_broker = [1 \<mapsto> empty_ladder 1]" "pub_seq_num (bk_publisher warm_broker) = 1"
  by (simp_all add: warm_broker_def started_broker_def add_symbol_def new_broker_def)

lemma warm_broker_ok: "engine_ok warm_broker" "shows_engine warm_broker Map.empty"
proof -
  show "engine_ok warm_broker" using started_ok [of "[]"]
    by (simp add: engine_ok_def warm_broker_def publisher_ready_def)
  have "bk_ladders warm_broker = bk_ladders (started_broker [])" by (simp add: warm_broker_def)
  then show "shows_engine warm_broker Map.empty"
    using started_shown [of "[]"] by (simp add: shows_engine_def)
qed

lemma buy_calls:
  assumes "ladder_op (buy_payload 7 3) ((empty_ladder 1)\<lparr>l_calls := []\<rparr>) = Some (Inr L')"
  shows "\<exists>i y sd q p fl. l_calls L' = [OnNewOrder i y sd q p fl]"
proof -
  have py: "is_ladder_payload (buy_payload 7 3)" by (simp add: is_ladder_payload_def)
  have at: "bk_ladders (started_broker []) (py_symbol (buy_payload 7 3)) = Some (empty_ladder 1)"
    by (simp add: started_broker_def add_symbol_def new_broker_def)
  have sym: "l_symbol (empty_ladder 1) = py_symbol (buy_payload 7 3)" by (simp add: empty_ladder_def)
  have un: "uncrossed (\<lambda>_. [])" by (simp add: uncrossed_def)
  note sim = ladder_op_sim(1) [OF py started_acceptable at represents_empty book_ok_empty un sym]
  then have "l_calls L' = snd (spec_op (buy_payload 7 3) (\<lambda>_. []))" using assms by (auto simp: refines_def)
  then show ?thesis
    by (simp add: spec_op_def spec_new_order_def enter_order_def Let_def buy_payload_def payload_def is_ioc_def)
qed

theorem bots_see_engine_prices_witness:
  "\<exists>b' n me c'. process_payload calm_env (buy_payload 7 3) warm_broker = Some (Inr b') \<and>
     process_times me n (new_md_client False) = Some (Inr c') \<and> same_orders b' c' \<and> same_prices b' c'"
proof -
  let ?p = "buy_payload 7 3" and ?c = "new_md_client False"
  have p: "is_ladder_payload ?p" "acceptable ?p warm_broker"
    using started_acceptable [of 7 3 "[]"]
    by (simp_all add: is_ladder_payload_def acceptable_def empty_ladder_def)
  obtain b' L L' where b': "process_payload calm_env ?p warm_broker = Some (Inr b')"
    and op: "bk_ladders warm_broker (py_symbol ?p) = Some L" "ladder_op ?p (L\<lparr>l_calls := []\<rparr>) = Some (Inr L')"
    using process_ladder_payload [OF calm_accepts warm_broker_ok(1) p] by metis
  have "L = empty_ladder 1" using op(1) by simp
  then obtain i y sd q pr fl where calls: "l_calls L' = [OnNewOrder i y sd q pr fl]" using buy_calls op(2) by blast
  let ?ms = "op_messages (py_symbol ?p) (bk_aggressor_side (at_work ?p warm_broker)) (l_calls L')"
  let ?new = "new_datagrams warm_broker b'"
  have c: "mc_last_seq ?c = 0" "mc_live_reads ?c = 0" by (simp_all add: new_md_client_def)
  have "heard (replaying ?new) (mc_live_reads ?c) (length ?new) = Some ?new"
    using heard_replaying [of 0 ?new] c by simp
  moreover have "shown_well ?p warm_broker Map.empty" by (simp add: shown_well_def Let_def fun_upd_idem)
  moreover have "named_side (py_side ?p)" by (simp add: buy_payload_def payload_def)
  moreover have "none_used_up ?ms Map.empty"
    by (simp add: calls op_messages_def trade_messages_def trade_msgs_def)
  ultimately have "\<exists>c'. process_times (replaying ?new) (length ?new) ?c = Some (Inr c') \<and> same_orders b' c' \<and> same_prices b' c'"
    using bots_see_engine_prices [where me = "replaying ?new" and n = "length ?new", OF calm_accepts warm_broker_ok(1) p warm_broker_ok(2) view_ok_empty _ _
        book_orders.new_client_shows [of False] _ b' op] whole_book.new_client_shows [of False] c calls by simp
  with b' show ?thesis by blast
qed

section \<open>What a client does not follow\<close>

text \<open>The publisher numbers its first message zero, and a new client takes number zero for one
  it has seen: the first message of a feed is skipped.\<close>

theorem first_message_is_skipped:
  "process_message e recover (encode_run (pub_seq_num (new_publisher fd)) ((t, m) # ms)) (new_md_client r)
    = process_message e recover (encode_run 1 ms) (new_md_client r)"
proof -
  let ?c = "new_md_client r" and ?rest = "encode_run 1 ms"
  have c: "mc_last_seq ?c = 0" by (simp add: new_md_client_def)
  have len: "\<not> length (encode_md MAGIC_NUMBER 0 t m @ ?rest) < md_header_size"
    using md_sizeof_bounds(1) [of "md_type_of m"] by (simp add: md_header_size_def not_less trans_le_add1)
  have "process_message e recover (encode_md MAGIC_NUMBER 0 t m @ ?rest) ?c = process_message e recover ?rest ?c"
    by (subst process_message.simps) (use len in \<open>simp add: Let_def md_header_at_encode_md c\<close>)
  then show ?thesis by (simp add: new_publisher_def)
qed

text \<open>A client that does not recover never closes a gap: once the packets it hears begin beyond
  the next number it expects, it applies none of their messages, however many it hears.\<close>

lemma gap_skips_packet:
  assumes "\<not> mc_recover_on_drops c" "mc_last_seq c + 1 < n" "g \<noteq> []"
  shows "process_message e recover (encode_run n g) c = Some (Inr c)"
proof -
  obtain t m g' where g: "g = (t, m) # g'" using assms(3) by (cases g) auto
  have len: "\<not> length (encode_run n g) < md_header_size"
    using md_sizeof_bounds(1) [of "md_type_of m"] by (simp add: g md_header_size_def not_less trans_le_add1)
  show ?thesis
    by (subst process_message.simps) (use assms len in \<open>simp add: Let_def g md_header_at_encode_md\<close>)
qed

theorem gap_is_never_closed:
  assumes "\<not> mc_recover_on_drops c" "mc_last_seq c + 1 < k" "\<forall>g \<in> set gs. g \<noteq> []"
    "unat k + length (concat gs) < 2 ^ 32" "heard e (mc_live_reads c) n = Some (packets_of k gs)"
    "\<forall>pkt \<in> set (packets_of k gs). length pkt \<le> MD_BUF"
  shows "process_times e n c = Some (Inr (c\<lparr>mc_live_reads := mc_live_reads c + n\<rparr>))"
  using assms
proof (induction n arbitrary: c k gs)
  case (Suc n)
  let ?c = "c\<lparr>mc_live_reads := mc_live_reads c + 1\<rparr>"
  have next_c: "process_times e n ?c = Some (Inr (?c\<lparr>mc_live_reads := mc_live_reads ?c + n\<rparr>))"
    if "mc_last_seq c + 1 < k'" "\<forall>g \<in> set gs'. g \<noteq> []" "unat k' + length (concat gs') < 2 ^ 32"
      "heard e (mc_live_reads c + 1) n = Some (packets_of k' gs')"
      "\<forall>pkt \<in> set (packets_of k' gs'). length pkt \<le> MD_BUF" for k' gs'
    by (rule Suc.IH) (use Suc.prems(1) that in simp_all)
  show ?case
  proof (cases "me_live e (mc_live_reads c)")
    case NothingYet
    then have "process_md e c = Some (Inr ?c)" by (simp add: process_md_def)
    with next_c [of k gs] Suc.prems NothingYet show ?thesis by simp
  next
    case (Received b)
    then obtain pkts where pkts: "heard e (mc_live_reads c + 1) n = Some pkts" "packets_of k gs = b # pkts"
      using Suc.prems(5) by (auto split: option.splits)
    then obtain g gs' where gs: "gs = g # gs'" "b = encode_run k g" "pkts = packets_of (k + of_nat (length g)) gs'"
      by (cases gs) simp_all
    have whole: "take MD_BUF b = b" using Suc.prems(6) pkts(2) by simp
    have "process_message e (wait_for_snapshot e) b ?c = Some (Inr ?c)"
      unfolding gs(2) by (rule gap_skips_packet) (use Suc.prems(1-3) gs in simp_all)
    then have run: "process_md e c = Some (Inr ?c)" using Received by (simp add: process_md_def Let_def whole)
    have k': "unat (k + of_nat (length g)) = unat k + length g"
      using Suc.prems(4) by (simp add: gs unat_word_ariths(1) unat_of_nat)
    then have "k \<le> k + of_nat (length g)" by (simp add: word_le_nat_alt)
    with Suc.prems(2) have "mc_last_seq c + 1 < k + of_nat (length g)" by (rule less_le_trans)
    from next_c [OF this, of gs'] k' Suc.prems(3,4,6) gs pkts run show ?thesis by simp
  qed (use Suc.prems(5) in simp)
qed simp

theorem gap_is_never_closed_witness:
  "process_times (replaying (packets_of 5 [[(0, Heartbeat)]])) 1 (new_md_client False)
    = Some (Inr ((new_md_client False)\<lparr>mc_live_reads := 1\<rparr>))"
proof -
  let ?pkts = "packets_of 5 [[(0, Heartbeat)]]" and ?c = "new_md_client False"
  have c: "\<not> mc_recover_on_drops ?c" "mc_last_seq ?c + 1 < 5" "mc_live_reads ?c = 0"
    by (simp_all add: new_md_client_def)
  have "heard (replaying ?pkts) 0 1 = Some ?pkts" using heard_replaying [of 0 ?pkts] by simp
  then show ?thesis
    using gap_is_never_closed [OF c(1,2), of "[[(0, Heartbeat)]]" "replaying ?pkts" 1] c(3)
    by (simp add: MD_BUF_def)
qed

text \<open>A message whose header says a length of zero is read again forever: the call never
  returns.\<close>

theorem zero_length_stops_client:
  assumes "md_header_size \<le> length buf" "mh_magic_number (md_header_at buf) = MAGIC_NUMBER"
    "mh_length (md_header_at buf) = 0" "mh_seq_num (md_header_at buf) \<le> mc_last_seq c"
    "mc_last_seq c \<noteq> - 1"
  shows "process_message e recover buf c = None"
proof -
  let ?stuck = "\<lambda>b c. b = buf \<and> mh_seq_num (md_header_at buf) \<le> mc_last_seq c \<and> mc_last_seq c \<noteq> - 1"
  have "\<not> ?stuck b c" if run: "process_message e recover b c = Some y" for e recover b c y
  proof (rule process_message.raw_induct [of "\<lambda>e recover b c y. \<not> ?stuck b c", OF _ run], goal_cases)
    case (1 loop e recover b c y)
    show ?case
    proof
      assume stuck: "?stuck b c"
      have "1 + mc_last_seq c \<noteq> 0" using stuck by (simp add: add_eq_0_iff)
      then have "unat (1 + mc_last_seq c) = Suc (unat (mc_last_seq c))" by (rule unatSuc)
      then have "mc_last_seq c \<le> mc_last_seq c + 1" by (simp add: word_le_nat_alt add.commute)
      then have "\<not> mh_seq_num (md_header_at buf) > mc_last_seq c + 1" using stuck by (meson not_le order_trans)
      moreover have "buf \<noteq> []" using assms(1) by (auto simp: md_header_size_def)
      ultimately have "loop e recover buf c = Some y"
        using 1(2) stuck assms(1-3) by (simp add: Let_def)
      from 1(1) [OF this] stuck show False by simp
    qed
  qed
  then show ?thesis using assms(4,5) by (cases "process_message e recover buf c") auto
qed

definition empty_header :: md_header where
  "empty_header = \<lparr>mh_magic_number = MAGIC_NUMBER, mh_length = 0, mh_seq_num = 0, mh_timestamp = 0,
     mh_msg_type = 0\<rparr>"

theorem zero_length_stops_client_witness:
  "process_message (replaying []) (wait_for_snapshot (replaying [])) (encode_md_header empty_header)
     (new_md_client True) = None"
  by (rule zero_length_stops_client)
    (simp_all add: md_header_at_encode [of _ "[]", simplified] empty_header_def md_header_size_def
      new_md_client_def)

end
