(* ===== verification/Snapshot_Recovery.thy ===== *)
theory Snapshot_Recovery imports
  Client_Follows
begin

text \<open>
  The client's way from a snapshot to the live feed: the snapshot packets it reads, the books it
  makes of them, and the kept live messages that it applies.
\<close>

section \<open>Kept live messages\<close>

text \<open>What applying messages leaves alone.\<close>

definition same_recovery :: "md_client \<Rightarrow> md_client \<Rightarrow> bool" where
  "same_recovery c c' \<longleftrightarrow> mc_live_buffer c' = mc_live_buffer c \<and>
     mc_snapshot_buffer c' = mc_snapshot_buffer c \<and> mc_last_snapshot_seq c' = mc_last_snapshot_seq c \<and>
     mc_recover_on_drops c' = mc_recover_on_drops c \<and> mc_complete c' = mc_complete c"

lemma same_recovery_apply: "same_recovery c (snd (apply_md e m c))"
  by (cases "(e, m, c)" rule: apply_md.cases)
    (auto simp: same_recovery_def add_order_def on_book_of_def Let_def split: prod.split option.split)

lemma same_recovery_reads: "same_recovery c (fold (read_md e) ms c)"
proof (induction ms arbitrary: c)
  case (Cons m ms)
  have "same_recovery (c\<lparr>mc_last_seq := mc_last_seq c + 1\<rparr>) (read_md e m c)"
    unfolding read_md_def by (rule same_recovery_apply)
  with Cons [of "read_md e m c"] show ?case by (simp add: same_recovery_def)
qed (simp add: same_recovery_def)

lemma encode_run_length:
  "ms \<noteq> [] \<Longrightarrow> 23 \<le> length (encode_run n ms)"
  by (cases ms) (auto simp: trans_le_add1 md_sizeof_bounds(1))

lemma old_seq:
  assumes "n \<le> l" "l \<noteq> - 1"
  shows "\<not> n > l + (1 :: u32)"
proof -
  have "1 + l \<noteq> 0" using assms(2) by (simp add: add_eq_0_iff)
  then have "unat (1 + l) = Suc (unat l)" by (rule unatSuc)
  then have "l \<le> l + 1" by (simp add: word_le_nat_alt add.commute)
  with assms(1) show ?thesis by (meson not_le order_trans)
qed

lemma next_seq:
  assumes "n \<le> l" "l \<noteq> - 1"
  shows "unat (n + 1) = Suc (unat (n :: u32))"
proof -
  have "n \<noteq> - 1" using assms by (metis word_order.extremum_uniqueI)
  then have "1 + n \<noteq> 0" by (simp add: add_eq_0_iff)
  then show ?thesis unfolding add.commute [of n 1] by (rule unatSuc)
qed

text \<open>A run of old messages changes nothing.\<close>

lemma process_old_run:
  assumes "unat n + length ms \<le> unat (mc_last_seq c) + 1" "mc_last_seq c \<noteq> - 1"
  shows "process_message e recover (encode_run n ms) c = Some (Inr c)"
  using assms(1)
proof (induction ms arbitrary: n)
  case (Cons tm ms)
  obtain t m where tm: "tm = (t, m)" by (cases tm)
  have le: "n \<le> mc_last_seq c" using Cons.prems by (simp add: word_le_nat_alt)
  have next_n: "unat (n + 1) + length ms \<le> unat (mc_last_seq c) + 1"
    using Cons.prems next_seq [OF le assms(2)] by simp
  have "\<not> length (encode_run n (tm # ms)) < md_header_size"
    using encode_run_length [of "tm # ms" n] by (simp add: md_header_size_def)
  then have "process_message e recover (encode_run n (tm # ms)) c = process_message e recover (encode_run (n + 1) ms) c"
    using le old_seq [OF le assms(2)]
    by (subst process_message.simps) (simp add: Let_def tm md_header_at_encode_md)
  then show ?case using Cons.IH [OF next_n] by simp
qed simp

lemma drop_first: "drop (md_sizeof (md_type_of m)) (encode_md g n t m @ rest) = rest"
  by simp

lemma replay_Nil [simp]: "mc_live_buffer c = [] \<Longrightarrow> replay e c = Some (Inr c)"
  by (subst replay.simps) simp

lemma replay_Cons_old:
  assumes "mc_live_buffer c = encode_run n ((t, m) # ms)" "n \<le> mc_last_snapshot_seq c"
  shows "replay e c = replay e (c\<lparr>mc_live_buffer := encode_run (n + 1) ms\<rparr>)"
proof -
  have "\<not> length (encode_run n ((t, m) # ms)) < 14" using encode_run_length [of "(t, m) # ms" n] by simp
  then show ?thesis using assms
    by (subst replay.simps) (simp add: Let_def md_header_at_encode_md)
qed

lemma replay_Cons_new:
  assumes "mc_live_buffer c = encode_run n ((t, m) # ms)" "\<not> n \<le> mc_last_snapshot_seq c"
    "process_message e (\<lambda>c. Some (Inl DanglingHeader)) (mc_live_buffer c) c = Some (Inr c')"
  shows "replay e c = replay e (c'\<lparr>mc_live_buffer := encode_run (n + 1) ms\<rparr>)"
proof -
  have "\<not> length (encode_run n ((t, m) # ms)) < 14" using encode_run_length [of "(t, m) # ms" n] by simp
  then show ?thesis using assms
    by (subst replay.simps) (simp add: Let_def md_header_at_encode_md)
qed

text \<open>After the first round of a replay the rest has been applied already.\<close>

lemma replay_applied:
  assumes "mc_live_buffer c = encode_run n ms" "unat n + length ms \<le> unat (mc_last_seq c) + 1"
    "mc_last_seq c \<noteq> - 1" "mc_last_snapshot_seq c < n"
  shows "replay e c = Some (Inr (c\<lparr>mc_live_buffer := []\<rparr>))"
  using assms
proof (induction ms arbitrary: c n)
  case (Cons tm ms)
  obtain t m where tm: "tm = (t, m)" by (cases tm)
  have "n \<le> mc_last_seq c" using Cons.prems(2) by (simp add: word_le_nat_alt)
  then have next_n: "unat (n + 1) = Suc (unat n)" using Cons.prems(3) by (rule next_seq)
  have "replay e c = replay e (c\<lparr>mc_live_buffer := encode_run (n + 1) ms\<rparr>)"
    by (rule replay_Cons_new) (use Cons.prems tm process_old_run [OF Cons.prems(2,3)] in \<open>simp_all add: not_le\<close>)
  moreover have "mc_last_snapshot_seq c < n + 1" using Cons.prems(4) next_n by (simp add: word_less_nat_alt)
  moreover have "unat (n + 1) + length ms \<le> unat (mc_last_seq c) + 1" using Cons.prems(2) next_n by simp
  ultimately show ?case using Cons.IH [of "c\<lparr>mc_live_buffer := encode_run (n + 1) ms\<rparr>" "n + 1"] Cons.prems(3)
    by simp
qed (simp add: md_client.surjective)

lemma replay_skips:
  assumes "mc_live_buffer c = encode_run n (xs @ ys)" "unat n + length xs = unat (mc_last_snapshot_seq c) + 1"
    "mc_last_snapshot_seq c \<noteq> - 1"
  shows "replay e c = replay e (c\<lparr>mc_live_buffer := encode_run (mc_last_snapshot_seq c + 1) ys\<rparr>)"
  using assms
proof (induction xs arbitrary: c n)
  case Nil
  have "1 + mc_last_snapshot_seq c \<noteq> 0" using Nil.prems(3) by (simp add: add_eq_0_iff)
  then have "unat (1 + mc_last_snapshot_seq c) = unat n" using Nil.prems(2) unatSuc by simp
  then have "n = mc_last_snapshot_seq c + 1" by (simp add: add.commute word_unat_eq_iff)
  with Nil.prems(1) have "c\<lparr>mc_live_buffer := encode_run (mc_last_snapshot_seq c + 1) ys\<rparr> = c" by (cases c) simp
  then show ?case by simp
next
  case (Cons tm xs)
  obtain t m where tm: "tm = (t, m)" by (cases tm)
  have le: "n \<le> mc_last_snapshot_seq c" using Cons.prems(2) by (simp add: word_le_nat_alt)
  note next_n = next_seq [OF le Cons.prems(3)]
  have "replay e c = replay e (c\<lparr>mc_live_buffer := encode_run (n + 1) (xs @ ys)\<rparr>)"
    by (rule replay_Cons_old [OF _ le]) (use Cons.prems(1) tm in simp)
  also have "\<dots> = replay e (c\<lparr>mc_live_buffer := encode_run (mc_last_snapshot_seq c + 1) ys\<rparr>)"
    using Cons.IH [of "c\<lparr>mc_live_buffer := encode_run (n + 1) (xs @ ys)\<rparr>" "n + 1"] Cons.prems(2,3) next_n
    by simp
  finally show ?case .
qed

section \<open>The books of a snapshot\<close>

lemma add_snapshot_order_apply: "is_new_order m \<Longrightarrow> apply_md e m c = (True, add_snapshot_order m c)"
  by (cases m) (simp_all add: add_snapshot_order_def)

lemma same_recovery_snapshot:
  "same_recovery c (fold add_snapshot_order ms c)" "mc_live_reads (fold add_snapshot_order ms c) = mc_live_reads c"
  by (induction ms arbitrary: c) (simp_all add: same_recovery_def add_snapshot_order_def add_order_def)

text \<open>
  The client after its loop has the orders of a snapshot for the state after message \<open>n\<close>, and has
  kept a run of live messages that reaches back to it: the books then show the feed.
\<close>

lemma unat_top [simp]: "unat (- 1 :: u32) = 4294967295"
  by (simp add: unsigned_minus_1_eq_mask mask_eq_exp_minus_1)

context book_relation
begin

lemma snapshot_orders_show:
  assumes "client_shows shows_at c v" "feed_ok ms v" "\<forall>m \<in> set ms. is_new_order m"
  shows "client_shows shows_at (fold add_snapshot_order ms c) (fold view_step ms v)"
  using assms
proof (induction ms arbitrary: c v)
  case (Cons m ms)
  then have ok: "view_ok v" "fits m v" "feed_ok ms (view_step m v)" by simp_all
  obtain c' where "apply_md e m c = (True, c')" "client_shows shows_at c' (view_step m v)"
    using apply_md_shows [OF Cons.prems(1) ok(1,2) feed_ok_view [OF ok(3)] new_readable, of e] Cons.prems(3) by auto
  with add_snapshot_order_apply Cons.prems(3) have "client_shows shows_at (add_snapshot_order m c) (view_step m v)" by auto
  with Cons.IH [OF _ ok(3)] Cons.prems(3) show ?case by simp
qed simp

lemma replay_shows:
  assumes c: "client_shows shows_at c v" "mc_last_seq c = mc_last_snapshot_seq c"
    and live: "mc_live_buffer c = encode_run k (xs @ ys)" "unat k + length xs = unat (mc_last_snapshot_seq c) + 1"
      "unat (mc_last_snapshot_seq c) + length ys + 1 < 2 ^ 32"
    and ys: "feed_ok (map snd ys) v" "\<forall>m \<in> snd ` set ys. md_msg_canonical m"
      "all_along readable (map snd ys) v"
  shows "\<exists>c'. replay e c = Some (Inr c') \<and> client_shows shows_at c' (fold view_step (map snd ys) v) \<and>
    mc_last_seq c' = mc_last_snapshot_seq c + of_nat (length ys) \<and> mc_live_buffer c' = [] \<and>
    mc_recover_on_drops c' = mc_recover_on_drops c"
proof -
  let ?n = "mc_last_snapshot_seq c"
  let ?c = "c\<lparr>mc_live_buffer := encode_run (?n + 1) ys\<rparr>"
  have "?n \<noteq> - 1" using live(3) by auto
  then have skip: "replay e c = replay e ?c" by (rule replay_skips [OF live(1,2)])
  have now: "client_shows shows_at ?c v" using c(1) by (simp add: client_shows_def book_at_def)
  show ?thesis
  proof (cases ys)
    case Nil
    then show ?thesis using skip c(2) now by simp
  next
    case (Cons tm zs)
    obtain t m where tm: "tm = (t, m)" by (cases tm)
    let ?c1 = "fold (read_md e) (map snd ys) ?c"
    have all: "process_message e (\<lambda>c. Some (Inl DanglingHeader)) (mc_live_buffer ?c) ?c = Some (Inr ?c1)"
      using process_message_run [OF now ys(1,2) _ ys(3), of e] live(3) c(2) by simp
    have n1: "unat (?n + 1) = unat ?n + 1" using live(3) Cons by (simp add: unat_word_ariths(1))
    then have new: "\<not> ?n + 1 \<le> mc_last_snapshot_seq ?c" by (simp add: word_le_nat_alt)
    have "replay e ?c = replay e (?c1\<lparr>mc_live_buffer := encode_run (?n + 1 + 1) zs\<rparr>)"
      by (rule replay_Cons_new [OF _ new all]) (simp add: Cons tm)
    moreover obtain c1 where c1: "c1 = ?c1" by blast
    have seq: "mc_last_seq c1 = ?n + of_nat (length ys)"
      unfolding c1 using read_md_seq [OF now ys(1,3), of e] c(2) by simp
    have useq: "unat (mc_last_seq c1) = unat ?n + length ys"
      using live(3) by (simp add: seq unat_word_ariths(1) unat_of_nat)
    have same: "same_recovery ?c c1" unfolding c1 by (rule same_recovery_reads)
    have "replay e (c1\<lparr>mc_live_buffer := encode_run (?n + 1 + 1) zs\<rparr>) = Some (Inr (c1\<lparr>mc_live_buffer := []\<rparr>))"
    proof (cases zs)
      case Nil
      then show ?thesis by simp
    next
      case (Cons tm' zs')
      have n2: "unat (?n + 1 + 1) = unat ?n + 2"
        unfolding unat_word_ariths(1) [of "?n + 1" 1] n1 using live(3) \<open>ys = tm # zs\<close> Cons by simp
      have "mc_last_seq c1 \<noteq> - 1" using useq live(3) by auto
      moreover have "?n < ?n + 1 + 1" using n2 by (simp add: word_less_nat_alt)
      ultimately show ?thesis
        using replay_applied [of "c1\<lparr>mc_live_buffer := encode_run (?n + 1 + 1) zs\<rparr>" "?n + 1 + 1" zs e]
          useq n2 same \<open>ys = tm # zs\<close> by (simp add: same_recovery_def)
    qed
    moreover have "client_shows shows_at c1 (fold view_step (map snd ys) v)"
      unfolding c1 using md_reader.feed_shows [OF now ys(1,3), of e] by simp
    ultimately show ?thesis using skip seq same unfolding c1 [symmetric]
      by (simp add: same_recovery_def client_shows_def book_at_def)
  qed
qed

end

end
