(* ===== verification/Snapshot_Writer.thy ===== *)
theory Snapshot_Writer imports
  Md_Client "HOL-Library.Multiset"
begin

text \<open>
  \<open>market_data/snapshot_client.cpp\<close> and \<open>market_data/snapshot_writer.cpp\<close>: the two threads of the
  snapshot process.  One listens to the live feed and passes its messages on through a queue; the
  other keeps the open orders from them and writes snapshots twice a second.
\<close>

section \<open>The queue between the threads\<close>

text \<open>\<open>md_payload\<close> of \<open>spsc_md_queue.H\<close>.\<close>

record md_payload =
  mp_msg_type :: md_msg_type
  mp_seq_num :: u32
  mp_order_id :: u64
  mp_symbol :: u32
  mp_side :: side
  mp_quantity :: u32
  mp_price :: i32
  mp_flags :: u8

definition md_payload_of ::
  "md_msg_type \<Rightarrow> u32 \<Rightarrow> u64 \<Rightarrow> u32 \<Rightarrow> side \<Rightarrow> u32 \<Rightarrow> i32 \<Rightarrow> u8 \<Rightarrow> md_payload" where
  "md_payload_of t n i y sd q p fl = \<lparr>mp_msg_type = t, mp_seq_num = n, mp_order_id = i, mp_symbol = y,
     mp_side = sd, mp_quantity = q, mp_price = p, mp_flags = fl\<rparr>"

section \<open>The listening thread\<close>

text \<open>
  \<open>sc_gaps\<close> are the out-of-order numbers it logs; a gap has no other effect.  The length of a header
  is not checked against the bytes that are left, nor is there a check that a whole header is left.
\<close>

record snapshot_client =
  sc_last_seq_num :: u32
  sc_queue :: "md_payload list"
  sc_gaps :: "(u32 \<times> u32) list"
  sc_reads :: nat

definition new_snapshot_client :: snapshot_client where
  "new_snapshot_client = \<lparr>sc_last_seq_num = 0, sc_queue = [], sc_gaps = [], sc_reads = 0\<rparr>"

definition pass_on :: "md_payload \<Rightarrow> snapshot_client \<Rightarrow> snapshot_client" where
  "pass_on p c = c\<lparr>sc_queue := sc_queue c @ [p]\<rparr>"

fun payload_of_msg :: "u32 \<Rightarrow> md_msg \<Rightarrow> md_payload option" where
  "payload_of_msg n (NewOrder i y sd q p fl) = Some (md_payload_of MD_NEW_ORDER n i y sd q p fl)"
| "payload_of_msg n (DeleteOrder i) = Some (md_payload_of MD_DELETE_ORDER n i 0 BUY 0 (I32 0) 0)"
| "payload_of_msg n (ModifyOrder i sd q p) = Some (md_payload_of MD_MODIFY_ORDER n i 0 sd q p 0)"
| "payload_of_msg n (Trade i q p) = Some (md_payload_of MD_TRADE n i 0 BUY q p 0)"
| "payload_of_msg n (TradeSummary y sd q p) = None"
| "payload_of_msg n Heartbeat = Some (md_payload_of MD_HEARTBEAT n 0 0 BUY 0 (I32 0) 0)"
| "payload_of_msg n (SnapshotInfo y b a k) = None"

definition hear_header :: "u32 \<Rightarrow> snapshot_client \<Rightarrow> snapshot_client" where
  "hear_header n c =
    (let c = (if n \<noteq> sc_last_seq_num c + 1 \<and> sc_last_seq_num c \<noteq> 0
        then c\<lparr>sc_gaps := sc_gaps c @ [(n, sc_last_seq_num c + 1)]\<rparr> else c)
     in c\<lparr>sc_last_seq_num := n\<rparr>)"

partial_function (option) hear_packet :: "u8 list \<Rightarrow> snapshot_client \<Rightarrow> (client_error + snapshot_client) option" where
  "hear_packet buf c =
    (let h = md_header_at buf; n = unat (mh_length h) in
     if buf = [] then Some (Inr c)
     else if length buf < md_header_size then Some (Inl Overrun)
     else if mh_magic_number h \<noteq> MAGIC_NUMBER then Some (Inr c)
     else
       let c = hear_header (mh_seq_num h) c; t = md_type_of_code (mh_msg_type h) in
       if t \<noteq> None \<and> t \<noteq> Some MD_SNAPSHOT_INFO \<and> length buf < md_sizeof (the t) then Some (Inr c)
       else let c = (if t = None then c
                else (case payload_of_msg (mh_seq_num h) (md_msg_at (the t) buf) of
                  None \<Rightarrow> c | Some p \<Rightarrow> pass_on p c))
         in if n > length buf then Some (Inl Overrun) else hear_packet (drop n buf) c)"

definition process_snapshot_client ::
  "(nat \<Rightarrow> recv_answer) \<Rightarrow> snapshot_client \<Rightarrow> (client_error + snapshot_client) option" where
  "process_snapshot_client live c =
    (let a = live (sc_reads c); c = c\<lparr>sc_reads := sc_reads c + 1\<rparr>
     in case a of
          NothingYet \<Rightarrow> Some (Inr c)
        | RecvError \<Rightarrow> Some (Inl ReceiveFailed)
        | Received bs \<Rightarrow> hear_packet (take MD_BUF bs) c)"

section \<open>The writing thread\<close>

text \<open>
  The vectors hold \<open>new_order\<close> structs, whose headers are constant.  A map from symbols is the list
  of its entries.
\<close>

record snapshot_writer =
  sw_fd :: sock
  sw_buffer :: "u8 list"
  sw_last_md_seq_num :: u32
  sw_last_snapshot_ts :: u64
  sw_queue :: "md_payload list"
  sw_bids :: "(u32 \<times> md_msg list) list"
  sw_asks :: "(u32 \<times> md_msg list) list"
  sw_symbol_of :: "u64 \<rightharpoonup> u32"
  sw_system :: system

definition SNAPSHOT_BUFFER :: nat where "SNAPSHOT_BUFFER = 1460"

definition SNAPSHOT_INTERVAL :: u64 where "SNAPSHOT_INTERVAL = 500000000"

definition new_snapshot_writer :: "sock \<Rightarrow> system \<Rightarrow> snapshot_writer" where
  "new_snapshot_writer fd s = \<lparr>sw_fd = fd, sw_buffer = [], sw_last_md_seq_num = 0,
     sw_last_snapshot_ts = 0, sw_queue = [], sw_bids = [(1, []), (2, [])], sw_asks = [(1, []), (2, [])],
     sw_symbol_of = Map.empty, sw_system = s\<rparr>"

definition orders_at :: "u32 \<Rightarrow> (u32 \<times> md_msg list) list \<Rightarrow> md_msg list" where
  "orders_at y m = (case map_of m y of None \<Rightarrow> [] | Some xs \<Rightarrow> xs)"

definition set_orders :: "u32 \<Rightarrow> md_msg list \<Rightarrow> (u32 \<times> md_msg list) list \<Rightarrow> (u32 \<times> md_msg list) list" where
  "set_orders y xs m = (if map_of m y = None then m @ [(y, xs)] else omap_update y (\<lambda>_. xs) m)"

definition set_bids :: "u32 \<Rightarrow> md_msg list \<Rightarrow> snapshot_writer \<Rightarrow> snapshot_writer" where
  "set_bids y xs w = w\<lparr>sw_bids := set_orders y xs (sw_bids w)\<rparr>"

definition set_asks :: "u32 \<Rightarrow> md_msg list \<Rightarrow> snapshot_writer \<Rightarrow> snapshot_writer" where
  "set_asks y xs w = w\<lparr>sw_asks := set_orders y xs (sw_asks w)\<rparr>"

definition on_new :: "md_payload \<Rightarrow> snapshot_writer \<Rightarrow> snapshot_writer" where
  "on_new p w =
    (let y = mp_symbol p;
         x = NewOrder (mp_order_id p) y (mp_side p) (mp_quantity p) (mp_price p) (mp_flags p)
     in if map_of (sw_bids w) y = None then w
        else (if mp_side p = BUY then set_bids y (orders_at y (sw_bids w) @ [x]) w
              else set_asks y (orders_at y (sw_asks w) @ [x]) w)
          \<lparr>sw_symbol_of := (sw_symbol_of w)(mp_order_id p \<mapsto> y)\<rparr>)"

definition on_delete :: "md_payload \<Rightarrow> snapshot_writer \<Rightarrow> snapshot_writer" where
  "on_delete p w = (case sw_symbol_of w (mp_order_id p) of
      None \<Rightarrow> w
    | Some y \<Rightarrow>
        let others = filter (\<lambda>x. no_order_id x \<noteq> mp_order_id p);
            w = set_bids y (others (orders_at y (sw_bids w))) w;
            w = set_asks y (others (orders_at y (sw_asks w))) w
        in w\<lparr>sw_symbol_of := (sw_symbol_of w)(mp_order_id p := None)\<rparr>)"

text \<open>\<open>find_if\<close>, with what stands before and after the order found.\<close>

fun find_order_in :: "u64 \<Rightarrow> md_msg list \<Rightarrow> (md_msg list \<times> md_msg \<times> md_msg list) option" where
  "find_order_in i [] = None"
| "find_order_in i (x # xs) = (if no_order_id x = i then Some ([], x, xs)
     else (case find_order_in i xs of None \<Rightarrow> None | Some (front, y, rear) \<Rightarrow> Some (x # front, y, rear)))"

fun change_order :: "u32 \<Rightarrow> i32 \<Rightarrow> u8 \<Rightarrow> md_msg \<Rightarrow> md_msg" where
  "change_order q p fl (NewOrder i y sd q' p' fl') = NewOrder i y sd q p fl"
| "change_order q p fl m = m"

definition on_modify :: "md_payload \<Rightarrow> snapshot_writer \<Rightarrow> snapshot_writer" where
  "on_modify p w = (case sw_symbol_of w (mp_order_id p) of
      None \<Rightarrow> w
    | Some y \<Rightarrow>
        let i = mp_order_id p; bids = orders_at y (sw_bids w); asks = orders_at y (sw_asks w);
            w = set_asks y asks (set_bids y bids w);
            change = change_order (mp_quantity p) (mp_price p) (mp_flags p);
            x = NewOrder i y (mp_side p) (mp_quantity p) (mp_price p) (mp_flags p)
        in case find_order_in i bids of
             Some (front, o', rear) \<Rightarrow>
               if mp_side p = BUY then set_bids y (front @ change o' # rear) w
               else set_asks y (asks @ [x]) (set_bids y (front @ rear) w)
           | None \<Rightarrow>
               (case find_order_in i asks of
                  Some (front, o', rear) \<Rightarrow>
                    if mp_side p = SELL then set_asks y (front @ change o' # rear) w
                    else set_bids y (bids @ [x]) (set_asks y (front @ rear) w)
                | None \<Rightarrow> w))"

fun reduce_order :: "u32 \<Rightarrow> md_msg \<Rightarrow> md_msg" where
  "reduce_order q (NewOrder i y sd q' p fl) = NewOrder i y sd (q' - q) p fl"
| "reduce_order q m = m"

definition trade_in :: "u32 \<Rightarrow> md_msg list \<times> md_msg \<times> md_msg list \<Rightarrow> md_msg list" where
  "trade_in q f = (case f of (front, o', rear) \<Rightarrow>
     if no_quantity o' < q then front @ o' # rear
     else if no_quantity o' - q = 0 then front @ rear
     else front @ reduce_order q o' # rear)"

definition on_trade :: "md_payload \<Rightarrow> snapshot_writer \<Rightarrow> snapshot_writer" where
  "on_trade p w = (case sw_symbol_of w (mp_order_id p) of
      None \<Rightarrow> w
    | Some y \<Rightarrow>
        let i = mp_order_id p; q = mp_quantity p; bids = orders_at y (sw_bids w);
            w = set_bids y bids w
        in case find_order_in i bids of
             Some f \<Rightarrow> set_bids y (trade_in q f) w
           | None \<Rightarrow>
               (let asks = orders_at y (sw_asks w); w = set_asks y asks w
                in case find_order_in i asks of
                     Some f \<Rightarrow> set_asks y (trade_in q f) w
                   | None \<Rightarrow> w))"

definition apply_payload :: "md_payload \<Rightarrow> snapshot_writer \<Rightarrow> snapshot_writer" where
  "apply_payload p w =
    (let w = w\<lparr>sw_last_md_seq_num := mp_seq_num p\<rparr>
     in case mp_msg_type p of
          MD_NEW_ORDER \<Rightarrow> on_new p w
        | MD_DELETE_ORDER \<Rightarrow> on_delete p w
        | MD_MODIFY_ORDER \<Rightarrow> on_modify p w
        | MD_TRADE \<Rightarrow> on_trade p w
        | _ \<Rightarrow> w)"

definition drain :: "snapshot_writer \<Rightarrow> snapshot_writer" where
  "drain w = (fold apply_payload (sw_queue w) w)\<lparr>sw_queue := []\<rparr>"

section \<open>Writing snapshots\<close>

datatype snapshot_error = SnapshotSendFailed | PartialSend

type_synonym writing = "(snapshot_error \<times> snapshot_writer) + snapshot_writer"

definition send_snapshot :: "env \<Rightarrow> snapshot_writer \<Rightarrow> writing" where
  "send_snapshot e w =
    (let c = SendtoCall (sw_fd w) (sw_buffer w);
         a = env_send e (s_calls (sw_system w)) c;
         w = w\<lparr>sw_system := sys_do c (sw_system w)\<rparr>
     in case a of
          Taken n \<Rightarrow> if n \<noteq> length (sw_buffer w) then Inl (PartialSend, w) else Inr (w\<lparr>sw_buffer := []\<rparr>)
        | _ \<Rightarrow> Inl (SnapshotSendFailed, w))"

definition append_snapshot :: "env \<Rightarrow> md_msg \<Rightarrow> snapshot_writer \<Rightarrow> snapshot_writer" where
  "append_snapshot e m w = (let (now, s) = nanotime e (sw_system w)
     in w\<lparr>sw_buffer := sw_buffer w @ encode_md SNAPSHOT_MAGIC_NUMBER 0 now m, sw_system := s\<rparr>)"

definition write_snapshot :: "env \<Rightarrow> md_msg \<Rightarrow> snapshot_writer \<Rightarrow> writing" where
  "write_snapshot e m w =
    (if length (sw_buffer w) + md_sizeof (md_type_of m) > SNAPSHOT_BUFFER
     then (case send_snapshot e w of Inl err \<Rightarrow> Inl err | Inr w \<Rightarrow> Inr (append_snapshot e m w))
     else Inr (append_snapshot e m w))"

definition write_order :: "env \<Rightarrow> md_msg \<Rightarrow> snapshot_writer \<Rightarrow> writing" where
  "write_order e x = write_snapshot e x"

definition write_snapshot_info :: "env \<Rightarrow> u32 \<Rightarrow> nat \<Rightarrow> nat \<Rightarrow> u32 \<Rightarrow> snapshot_writer \<Rightarrow> writing" where
  "write_snapshot_info e y bids asks n = write_snapshot e (SnapshotInfo y (of_nat bids) (of_nat asks) n)"

fun write_orders :: "env \<Rightarrow> md_msg list \<Rightarrow> snapshot_writer \<Rightarrow> writing" where
  "write_orders e [] w = Inr w"
| "write_orders e (x # xs) w = (case write_order e x w of
     Inl err \<Rightarrow> Inl err | Inr w \<Rightarrow> write_orders e xs w)"

definition write_symbol :: "env \<Rightarrow> u32 \<Rightarrow> snapshot_writer \<Rightarrow> writing" where
  "write_symbol e y w =
    (let bids = orders_at y (sw_bids w); asks = orders_at y (sw_asks w); w = set_asks y asks w
     in case write_snapshot_info e y (length bids) (length asks) (sw_last_md_seq_num w) w of
          Inl err \<Rightarrow> Inl err
        | Inr w \<Rightarrow>
            (case write_orders e bids w of
               Inl err \<Rightarrow> Inl err
             | Inr w \<Rightarrow>
                 (case write_orders e asks w of
                    Inl err \<Rightarrow> Inl err
                  | Inr w \<Rightarrow> send_snapshot e w)))"

fun write_symbols :: "env \<Rightarrow> u32 list \<Rightarrow> snapshot_writer \<Rightarrow> writing" where
  "write_symbols e [] w = Inr w"
| "write_symbols e (y # ys) w = (case write_symbol e y w of
     Inl err \<Rightarrow> Inl err | Inr w \<Rightarrow> write_symbols e ys w)"

text \<open>
  \<open>std::sort\<close> promises the order and not the places of equal elements, so what it does is a
  parameter \<open>srt\<close>, given the comparison; \<open>sorts srt\<close> is its promise for the two comparisons used.
\<close>

definition higher_price :: "md_msg \<Rightarrow> md_msg \<Rightarrow> bool" where
  "higher_price a b \<longleftrightarrow> no_price a > no_price b"

definition lower_price :: "md_msg \<Rightarrow> md_msg \<Rightarrow> bool" where
  "lower_price a b \<longleftrightarrow> no_price a < no_price b"

type_synonym sorter = "(md_msg \<Rightarrow> md_msg \<Rightarrow> bool) \<Rightarrow> md_msg list \<Rightarrow> md_msg list"

definition sorts :: "sorter \<Rightarrow> bool" where
  "sorts srt \<longleftrightarrow> (\<forall>less \<in> {higher_price, lower_price}. \<forall>xs.
     mset (srt less xs) = mset xs \<and> sorted_wrt (\<lambda>a b. \<not> less b a) (srt less xs))"

definition sort_sides :: "sorter \<Rightarrow> snapshot_writer \<Rightarrow> snapshot_writer" where
  "sort_sides srt w = w\<lparr>sw_bids := map (\<lambda>(y, xs). (y, srt higher_price xs)) (sw_bids w),
     sw_asks := map (\<lambda>(y, xs). (y, srt lower_price xs)) (sw_asks w)\<rparr>"

definition process_snapshot_writer :: "env \<Rightarrow> sorter \<Rightarrow> snapshot_writer \<Rightarrow> writing" where
  "process_snapshot_writer e srt w =
    (let w = drain w; (now, s) = nanotime e (sw_system w)
     in if now - sw_last_snapshot_ts w > SNAPSHOT_INTERVAL then
          (let (ts, s) = nanotime e s;
               w = sort_sides srt (w\<lparr>sw_last_snapshot_ts := ts, sw_system := s\<rparr>)
           in write_symbols e (map fst (iterate e (sw_bids w))) w)
        else Inr (w\<lparr>sw_system := s\<rparr>))"

end
