(* ===== verification/Snapshot_Orders.thy ===== *)
theory Snapshot_Orders imports
  Snapshot_Writer Feed_View
begin

text \<open>
  The snapshot process as a reader of the feed: the open orders that its writing thread keeps are
  the view's, side by side and symbol by symbol.
\<close>

section \<open>A list of orders\<close>

definition order_view :: "md_msg \<Rightarrow> view_order" where
  "order_view x = \<lparr>vo_symbol = no_symbol x, vo_side = levels_of_side (no_side x),
     vo_price = no_price x, vo_quantity = no_quantity x\<rparr>"

definition orders_view :: "md_msg list \<Rightarrow> view" where
  "orders_view xs = map_of (map (\<lambda>x. (no_order_id x, order_view x)) xs)"

fun side_name :: "book_side \<Rightarrow> side" where
  "side_name BuyLevels = BUY"
| "side_name SellLevels = SELL"

lemma levels_of_side_name [simp]: "levels_of_side (side_name bs) = bs"
  by (cases bs) (simp_all add: levels_of_side_def)

definition lists_orders :: "u32 \<Rightarrow> book_side \<Rightarrow> md_msg list \<Rightarrow> view \<Rightarrow> bool" where
  "lists_orders y bs xs v \<longleftrightarrow> distinct (map no_order_id xs) \<and> orders_view xs = v \<and>
     (\<forall>x \<in> set xs. is_new_order x \<and> no_symbol x = y \<and> no_side x = side_name bs)"

lemma orders_view_simps [simp]:
  "orders_view [] = Map.empty"
  "orders_view (x # xs) = (orders_view xs)(no_order_id x \<mapsto> order_view x)"
  "orders_view (xs @ ys) = orders_view ys ++ orders_view xs"
  by (simp_all add: orders_view_def)

lemma orders_view_None: "orders_view xs i = None \<longleftrightarrow> i \<notin> no_order_id ` set xs"
proof -
  have "map fst (map (\<lambda>x. (no_order_id x, order_view x)) xs) = map no_order_id xs" by simp
  then show ?thesis unfolding orders_view_def map_of_eq_None_iff by (metis list.set_map)
qed

lemma lists_orders_add:
  assumes "lists_orders y bs xs v" "v (no_order_id x) = None" "is_new_order x" "no_symbol x = y" "no_side x = side_name bs"
  shows "lists_orders y bs (xs @ [x]) (v(no_order_id x \<mapsto> order_view x))"
proof -
  have new: "no_order_id x \<notin> no_order_id ` set xs"
    using assms(1,2) orders_view_None [of xs "no_order_id x"] by (auto simp: lists_orders_def)
  moreover have "orders_view (xs @ [x]) = (orders_view xs)(no_order_id x \<mapsto> order_view x)"
  proof
    fix j
    show "orders_view (xs @ [x]) j = ((orders_view xs)(no_order_id x \<mapsto> order_view x)) j"
      using new orders_view_None [of xs "no_order_id x"]
      by (cases "j = no_order_id x") (auto simp: map_add_def split: option.split)
  qed
  ultimately show ?thesis using assms by (auto simp: lists_orders_def)
qed

lemma lists_orders_filter:
  assumes "lists_orders y bs xs v"
  shows "lists_orders y bs (filter (\<lambda>x. no_order_id x \<noteq> i) xs) (v(i := None))"
proof -
  have "orders_view (filter (\<lambda>x. no_order_id x \<noteq> i) xs) = (orders_view xs)(i := None)"
    by (induction xs) (auto simp: fun_eq_iff)
  moreover have "distinct (map no_order_id (filter P xs))" if "distinct (map no_order_id xs)" for P
    using that by (induction xs) auto
  ultimately show ?thesis using assms by (simp add: lists_orders_def)
qed

lemma find_order_in_None: "find_order_in i xs = None \<longleftrightarrow> i \<notin> no_order_id ` set xs"
  by (induction xs) (auto split: option.split)

lemma find_order_in_Some:
  "find_order_in i xs = Some (front, x, rear) \<Longrightarrow> xs = front @ x # rear \<and> no_order_id x = i"
  by (induction xs arbitrary: front) (auto split: if_splits option.splits)

lemma orders_view_split:
  assumes "distinct (map no_order_id (front @ x # rear))"
  shows "orders_view (front @ x # rear) = (orders_view (front @ rear))(no_order_id x \<mapsto> order_view x)"
proof
  fix j
  have "orders_view front (no_order_id x) = None" using assms by (auto simp: orders_view_None)
  then show "orders_view (front @ x # rear) j
      = ((orders_view (front @ rear))(no_order_id x \<mapsto> order_view x)) j"
    by (auto simp: map_add_def split: option.split)
qed

lemma lists_orders_found:
  assumes "lists_orders y bs (front @ x # rear) v"
  shows "v (no_order_id x) = Some (order_view x)"
    "lists_orders y bs (front @ rear) (v(no_order_id x := None))"
    "no_order_id x' = no_order_id x \<Longrightarrow> is_new_order x' \<Longrightarrow> no_symbol x' = y \<Longrightarrow> no_side x' = side_name bs \<Longrightarrow>
      lists_orders y bs (front @ x' # rear) (v(no_order_id x \<mapsto> order_view x'))"
proof -
  have dist: "distinct (map no_order_id (front @ x # rear))" using assms by (simp add: lists_orders_def)
  note split = orders_view_split [OF dist]
  have v: "v = orders_view (front @ x # rear)" using assms by (simp add: lists_orders_def)
  have "no_order_id x \<notin> no_order_id ` set (front @ rear)" using dist by auto
  then have none: "orders_view (front @ rear) (no_order_id x) = None" using orders_view_None by blast
  show "v (no_order_id x) = Some (order_view x)" unfolding v split by simp
  have "v(no_order_id x := None) = orders_view (front @ rear)" unfolding v split using none by (simp add: fun_upd_idem)
  then show "lists_orders y bs (front @ rear) (v(no_order_id x := None))"
    using assms by (simp add: lists_orders_def)
  assume x': "no_order_id x' = no_order_id x" "is_new_order x'" "no_symbol x' = y" "no_side x' = side_name bs"
  have "distinct (map no_order_id (front @ x' # rear))" using dist x'(1) by simp
  from orders_view_split [OF this] x'(1)
  have "orders_view (front @ x' # rear) = v(no_order_id x \<mapsto> order_view x')" unfolding v split by simp
  then show "lists_orders y bs (front @ x' # rear) (v(no_order_id x \<mapsto> order_view x'))"
    using assms x' by (simp add: lists_orders_def)
qed

section \<open>The writer's lists\<close>

definition part :: "u32 \<Rightarrow> book_side \<Rightarrow> view_order option \<Rightarrow> view_order option" where
  "part y bs z = (case z of None \<Rightarrow> None
     | Some r \<Rightarrow> if vo_symbol r = y \<and> vo_side r = bs then Some r else None)"

definition part_of :: "u32 \<Rightarrow> book_side \<Rightarrow> view \<Rightarrow> view" where
  "part_of y bs v = (\<lambda>i. part y bs (v i))"

lemma part_of_upd: "part_of y bs (v(i := z)) = (part_of y bs v)(i := part y bs z)"
  by (auto simp: part_of_def)

fun side_orders :: "book_side \<Rightarrow> u32 \<Rightarrow> snapshot_writer \<Rightarrow> md_msg list" where
  "side_orders BuyLevels y w = orders_at y (sw_bids w)"
| "side_orders SellLevels y w = orders_at y (sw_asks w)"

definition writer_keys :: "snapshot_writer \<Rightarrow> bool" where
  "writer_keys w \<longleftrightarrow> map fst (sw_bids w) = [1, 2] \<and> map fst (sw_asks w) = [1, 2]"

definition shows_writer :: "snapshot_writer \<Rightarrow> view \<Rightarrow> bool" where
  "shows_writer w v \<longleftrightarrow> writer_keys w \<and>
     (\<forall>i r. v i = Some r \<longrightarrow> vo_symbol r \<in> {1, 2} \<and> sw_symbol_of w i = Some (vo_symbol r)) \<and>
     (\<forall>y \<in> {1, 2}. \<forall>bs. lists_orders y bs (side_orders bs y w) (part_of y bs v))"

lemma keys_entry: "map fst m = [1, 2] \<Longrightarrow> y \<in> {1, 2 :: u32} \<Longrightarrow> map_of m y \<noteq> None"
proof -
  assume "map fst m = [1, 2]" "y \<in> {1, 2}"
  then have "y \<in> set (map fst m)" by auto
  then show "map_of m y \<noteq> None" by (simp add: map_of_eq_None_iff)
qed

lemma set_orders_keys:
  assumes "map fst m = [1, 2]" "y \<in> {1, 2}"
  shows "map fst (set_orders y xs m) = [1, 2]"
    "orders_at y' (set_orders y xs m) = (if y' = y then xs else orders_at y' m)"
  using assms keys_entry [OF assms]
  by (auto simp: set_orders_def orders_at_def map_of_omap_update split: option.split)

lemma set_side_simps [simp]:
  "sw_symbol_of (set_bids y xs w) = sw_symbol_of w" "sw_symbol_of (set_asks y xs w) = sw_symbol_of w"
  "sw_asks (set_bids y xs w) = sw_asks w" "sw_bids (set_asks y xs w) = sw_bids w"
  "sw_last_md_seq_num (set_bids y xs w) = sw_last_md_seq_num w"
  "sw_last_md_seq_num (set_asks y xs w) = sw_last_md_seq_num w"
  by (simp_all add: set_bids_def set_asks_def)

lemma set_side_orders:
  assumes "writer_keys w" "y \<in> {1, 2}"
  shows "writer_keys (set_bids y xs w)" "writer_keys (set_asks y xs w)"
    "side_orders bs y' (set_bids y xs w) = (if bs = BuyLevels \<and> y' = y then xs else side_orders bs y' w)"
    "side_orders bs y' (set_asks y xs w) = (if bs = SellLevels \<and> y' = y then xs else side_orders bs y' w)"
  using assms set_orders_keys by (cases bs; simp add: writer_keys_def set_bids_def set_asks_def)+

section \<open>The messages, one by one\<close>

lemma shows_writer_side:
  "shows_writer w v \<Longrightarrow> y \<in> {1, 2} \<Longrightarrow> lists_orders y bs (side_orders bs y w) (part_of y bs v)"
  unfolding shows_writer_def by blast

lemma shows_writer_known:
  "shows_writer w v \<Longrightarrow> v i = Some r \<Longrightarrow> vo_symbol r \<in> {1, 2} \<and> sw_symbol_of w i = Some (vo_symbol r)"
  unfolding shows_writer_def by blast

lemma shows_writer_upd:
  assumes w: "shows_writer w v" and keys: "writer_keys w'"
    and y: "y \<in> {1, 2}" "\<And>r. v i = Some r \<Longrightarrow> vo_symbol r = y" "\<And>r. z = Some r \<Longrightarrow> vo_symbol r = y"
    and at: "\<And>bs. lists_orders y bs (side_orders bs y w') ((part_of y bs v)(i := part y bs z))"
    and others: "\<And>bs y'. y' \<noteq> y \<Longrightarrow> side_orders bs y' w' = side_orders bs y' w"
    and s: "z \<noteq> None \<Longrightarrow> sw_symbol_of w' i = Some y" "\<And>j. j \<noteq> i \<Longrightarrow> sw_symbol_of w' j = sw_symbol_of w j"
  shows "shows_writer w' (v(i := z))"
  unfolding shows_writer_def
proof (intro conjI allI impI ballI)
  show "writer_keys w'" by (rule keys)
next
  fix j r assume "(v(i := z)) j = Some r"
  then show "vo_symbol r \<in> {1, 2}" "sw_symbol_of w' j = Some (vo_symbol r)"
    using shows_writer_known [OF w, of j r] y s by (cases "j = i"; auto)+
next
  fix y' bs assume y': "y' \<in> {1, 2 :: u32}"
  show "lists_orders y' bs (side_orders bs y' w') (part_of y' bs (v(i := z)))"
  proof (cases "y' = y")
    case True
    then show ?thesis using at by (simp add: part_of_upd)
  next
    case False
    have "part y' bs (v i) = None" "part y' bs z = None"
      using y(2,3) False by (auto simp: part_def split: option.split)
    then have "part_of y' bs (v(i := z)) = part_of y' bs v"
      unfolding part_of_upd by (auto simp: part_of_def fun_eq_iff)
    then show ?thesis using shows_writer_side [OF w y'] others [OF False] by simp
  qed
qed

lemma shows_writer_keys: "shows_writer w v \<Longrightarrow> writer_keys w"
  by (simp add: shows_writer_def)

lemma seq_simps [simp]:
  "writer_keys (w\<lparr>sw_last_md_seq_num := n\<rparr>) = writer_keys w"
  "side_orders bs y (w\<lparr>sw_last_md_seq_num := n\<rparr>) = side_orders bs y w"
  "writer_keys (w\<lparr>sw_symbol_of := m\<rparr>) = writer_keys w"
  "side_orders bs y (w\<lparr>sw_symbol_of := m\<rparr>) = side_orders bs y w"
  by (cases bs; simp add: writer_keys_def)+

lemma shows_writer_seq [simp]: "shows_writer (w\<lparr>sw_last_md_seq_num := n\<rparr>) v = shows_writer w v"
  by (simp add: shows_writer_def)

text \<open>From here on the lists are called by their side.\<close>

declare side_orders.simps [simp del]

lemma named_lists [simp]:
  "orders_at y (sw_bids w) = side_orders BuyLevels y w" "orders_at y (sw_asks w) = side_orders SellLevels y w"
  by (simp_all add: side_orders.simps)

lemma part_same: "(part_of y bs v)(i := part y bs (v i)) = part_of y bs v"
  by (simp add: part_of_def fun_upd_idem)

lemma found_side:
  assumes w: "shows_writer w v" "v i = Some r"
  obtains front x rear where
    "find_order_in i (side_orders (vo_side r) (vo_symbol r) w) = Some (front, x, rear)"
    "side_orders (vo_side r) (vo_symbol r) w = front @ x # rear" "no_order_id x = i" "order_view x = r"
    "is_new_order x" "no_symbol x = vo_symbol r" "no_side x = side_name (vo_side r)"
proof -
  let ?xs = "side_orders (vo_side r) (vo_symbol r) w"
  have y: "vo_symbol r \<in> {1, 2}" using shows_writer_known [OF w] by simp
  have lists: "lists_orders (vo_symbol r) (vo_side r) ?xs (part_of (vo_symbol r) (vo_side r) v)"
    by (rule shows_writer_side [OF w(1) y])
  have at: "part_of (vo_symbol r) (vo_side r) v i = Some r" by (simp add: part_of_def part_def w(2))
  then have "orders_view ?xs i = Some r" using lists by (simp add: lists_orders_def)
  then have "find_order_in i ?xs \<noteq> None" using orders_view_None [of ?xs i] find_order_in_None [of i ?xs] by simp
  then obtain front x rear where f: "find_order_in i ?xs = Some (front, x, rear)" by auto
  from find_order_in_Some [OF f] have x: "?xs = front @ x # rear" "no_order_id x = i" by auto
  from lists_orders_found(1) [OF lists [unfolded x(1)]] at x(2) have view: "order_view x = r" by simp
  have "x \<in> set ?xs" by (simp add: x(1))
  then have "is_new_order x" "no_symbol x = vo_symbol r" "no_side x = side_name (vo_side r)"
    using lists unfolding lists_orders_def by blast+
  then show thesis by (rule that [OF f x view])
qed

lemma not_other_side:
  assumes w: "shows_writer w v" "v i = Some r" "bs \<noteq> vo_side r"
  shows "find_order_in i (side_orders bs (vo_symbol r) w) = None" "part_of (vo_symbol r) bs v i = None"
proof -
  have y: "vo_symbol r \<in> {1, 2}" using shows_writer_known [OF w(1,2)] by simp
  show none: "part_of (vo_symbol r) bs v i = None" using w(2,3) by (simp add: part_of_def part_def)
  with shows_writer_side [OF w(1) y, of bs]
  show "find_order_in i (side_orders bs (vo_symbol r) w) = None"
    by (simp add: lists_orders_def find_order_in_None orders_view_None [symmetric])
qed

lemma on_delete_shows:
  assumes w: "shows_writer w v" "v i = Some r"
  shows "shows_writer (on_delete (md_payload_of MD_DELETE_ORDER n i 0 BUY 0 (I32 0) 0) w) (v(i := None))"
proof -
  let ?y = "vo_symbol r" and ?f = "filter (\<lambda>x. no_order_id x \<noteq> i)"
  have known: "?y \<in> {1, 2}" "sw_symbol_of w i = Some ?y" using shows_writer_known [OF w] by simp_all
  have keys: "writer_keys w" using w(1) by (rule shows_writer_keys)
  obtain w1 where w1: "w1 = set_bids ?y (?f (side_orders BuyLevels ?y w)) w" by blast
  obtain w2 where w2: "w2 = set_asks ?y (?f (side_orders SellLevels ?y w1)) w1" by blast
  obtain w' where w': "w' = w2\<lparr>sw_symbol_of := (sw_symbol_of w)(i := None)\<rparr>" by blast
  have keys1: "writer_keys w1" using set_side_orders(1) [OF keys known(1)] by (simp add: w1)
  have run: "on_delete (md_payload_of MD_DELETE_ORDER n i 0 BUY 0 (I32 0) 0) w = w'"
    using known(2) by (simp add: on_delete_def md_payload_of_def Let_def w' w2 w1)
  have side1: "side_orders bs y' w1 = (if bs = BuyLevels \<and> y' = ?y then ?f (side_orders bs y' w)
      else side_orders bs y' w)" for bs y'
    using set_side_orders(3) [OF keys known(1)] by (simp add: w1)
  have side: "side_orders bs y' w' = (if y' = ?y then ?f (side_orders bs y' w) else side_orders bs y' w)" for bs y'
    using set_side_orders(4) [OF keys1 known(1)] by (cases bs) (simp_all add: w' w2 side1)
  have symbols: "sw_symbol_of w' = (sw_symbol_of w)(i := None)" by (simp add: w')
  show ?thesis unfolding run
  proof (rule shows_writer_upd [OF w(1) _ known(1)])
    show "writer_keys w'" using set_side_orders(2) [OF keys1 known(1)] by (simp add: w' w2)
    show "lists_orders ?y bs (side_orders bs ?y w') ((part_of ?y bs v)(i := part ?y bs None))" for bs
      using lists_orders_filter [OF shows_writer_side [OF w(1) known(1), of bs]] by (simp add: side part_def)
  qed (use w(2) side symbols in auto)
qed

text \<open>Writing one list back, and leaving the others.\<close>

definition set_side :: "book_side \<Rightarrow> u32 \<Rightarrow> md_msg list \<Rightarrow> snapshot_writer \<Rightarrow> snapshot_writer" where
  "set_side bs y xs w = (if bs = BuyLevels then set_bids y xs w else set_asks y xs w)"

lemma set_side_facts:
  assumes "writer_keys w" "y \<in> {1, 2}"
  shows "writer_keys (set_side bs y xs w)"
    "side_orders bs' y' (set_side bs y xs w) = (if bs' = bs \<and> y' = y then xs else side_orders bs' y' w)"
    "sw_symbol_of (set_side bs y xs w) = sw_symbol_of w"
  using set_side_orders [OF assms] by (cases bs; cases bs'; simp add: set_side_def)+

lemma side_names [simp]:
  "set_bids y xs w = set_side BuyLevels y xs w" "set_asks y xs w = set_side SellLevels y xs w"
  by (simp_all add: set_side_def)

lemma shows_writer_same:
  assumes "shows_writer w v" "writer_keys w'" "\<And>bs y. side_orders bs y w' = side_orders bs y w"
    "sw_symbol_of w' = sw_symbol_of w"
  shows "shows_writer w' v"
  using assms unfolding shows_writer_def by metis

lemma set_same_side:
  assumes "shows_writer w v" "y \<in> {1, 2}"
  shows "shows_writer (set_side bs y (side_orders bs y w) w) v"
    "side_orders bs' y' (set_side bs y (side_orders bs y w) w) = side_orders bs' y' w"
    "sw_symbol_of (set_side bs y (side_orders bs y w) w) = sw_symbol_of w"
proof -
  note facts = set_side_facts [OF shows_writer_keys [OF assms(1)] assms(2)]
  show side: "side_orders bs' y' (set_side bs y (side_orders bs y w) w) = side_orders bs' y' w" for bs' y'
    by (simp add: facts)
  show "sw_symbol_of (set_side bs y (side_orders bs y w) w) = sw_symbol_of w" by (simp add: facts)
  show "shows_writer (set_side bs y (side_orders bs y w) w) v"
    by (rule shows_writer_same [OF assms(1)]) (simp_all add: facts side)
qed

lemma one_side_upd:
  assumes w: "shows_writer w v" "v i = Some r"
    and z: "\<And>r'. z = Some r' \<Longrightarrow> vo_symbol r' = vo_symbol r \<and> vo_side r' = vo_side r"
    and xs: "lists_orders (vo_symbol r) (vo_side r) xs ((part_of (vo_symbol r) (vo_side r) v)(i := z))"
  shows "shows_writer (set_side (vo_side r) (vo_symbol r) xs w) (v(i := z))"
proof -
  let ?y = "vo_symbol r" and ?bs = "vo_side r"
  have known: "?y \<in> {1, 2}" "sw_symbol_of w i = Some ?y" using shows_writer_known [OF w] by simp_all
  note facts = set_side_facts [OF shows_writer_keys [OF w(1)] known(1)]
  show ?thesis
  proof (rule shows_writer_upd [OF w(1) facts(1) known(1)])
    fix bs
    show "lists_orders ?y bs (side_orders bs ?y (set_side ?bs ?y xs w)) ((part_of ?y bs v)(i := part ?y bs z))"
    proof (cases "bs = ?bs")
      case True
      have "part ?y ?bs z = z" using z by (cases z) (simp_all add: part_def)
      then show ?thesis using xs by (simp add: True facts)
    next
      case False
      have "part ?y bs z = None" using z False by (cases z) (auto simp: part_def)
      then have "(part_of ?y bs v)(i := part ?y bs z) = part_of ?y bs v"
        using not_other_side(2) [OF w False] by (simp add: fun_upd_idem)
      then show ?thesis using shows_writer_side [OF w(1) known(1), of bs] False by (simp add: facts)
    qed
  qed (use w(2) z known in \<open>auto simp: facts\<close>)
qed

lemma reduce_order_simps:
  assumes "is_new_order x"
  shows "is_new_order (reduce_order q x)" "no_order_id (reduce_order q x) = no_order_id x"
    "no_symbol (reduce_order q x) = no_symbol x" "no_side (reduce_order q x) = no_side x"
    "order_view (reduce_order q x) = (order_view x)\<lparr>vo_quantity := no_quantity x - q\<rparr>"
    "is_new_order (change_order q p fl x)" "no_order_id (change_order q p fl x) = no_order_id x"
    "no_symbol (change_order q p fl x) = no_symbol x" "no_side (change_order q p fl x) = no_side x"
    "order_view (change_order q p fl x) = (order_view x)\<lparr>vo_price := p, vo_quantity := q\<rparr>"
  using assms by (cases x; simp add: order_view_def)+

lemma on_trade_shows:
  assumes w: "shows_writer w v" "v i = Some r" and q: "q \<le> vo_quantity r"
  shows "shows_writer (on_trade (md_payload_of MD_TRADE n i 0 BUY q p 0) w) (if vo_quantity r = q
    then v(i := None) else v(i \<mapsto> r\<lparr>vo_quantity := vo_quantity r - q\<rparr>))"
proof -
  let ?y = "vo_symbol r" and ?bs = "vo_side r"
  have known: "?y \<in> {1, 2}" "sw_symbol_of w i = Some ?y" using shows_writer_known [OF w] by simp_all
  obtain w1 where w1: "w1 = set_side BuyLevels ?y (side_orders BuyLevels ?y w) w" by blast
  note s1 = set_same_side [where bs = BuyLevels, OF w(1) known(1), folded w1]
  obtain w2 where w2: "w2 = set_side SellLevels ?y (side_orders SellLevels ?y w1) w1" by blast
  note s2 = set_same_side [where bs = SellLevels, OF s1(1) known(1), folded w2]
  obtain w0 where w0: "w0 = (if ?bs = BuyLevels then w1 else w2)" by blast
  have w0_shows: "shows_writer w0 v" "side_orders bs y w0 = side_orders bs y w" for bs y
    using s1 s2 by (simp_all add: w0)
  obtain front x rear where x: "find_order_in i (side_orders ?bs ?y w) = Some (front, x, rear)"
    "side_orders ?bs ?y w = front @ x # rear" "no_order_id x = i" "order_view x = r"
    "is_new_order x" "no_symbol x = ?y" "no_side x = side_name ?bs" by (rule found_side [OF w])
  let ?xs = "trade_in q (front, x, rear)"
  have run: "on_trade (md_payload_of MD_TRADE n i 0 BUY q p 0) w = set_side ?bs ?y ?xs w0"
  proof (cases ?bs)
    case BuyLevels
    with x(1) known(2) show ?thesis by (simp add: on_trade_def md_payload_of_def Let_def w0 w1)
  next
    case SellLevels
    then have "find_order_in i (side_orders BuyLevels ?y w) = None"
      using not_other_side(1) [OF w, of BuyLevels] by simp
    with x(1) known(2) SellLevels show ?thesis
      by (simp add: on_trade_def md_payload_of_def Let_def w0 w2 w1 [symmetric] s1(2))
  qed
  have quantity: "no_quantity x = vo_quantity r" using x(4) by (auto simp: order_view_def)
  have lists: "lists_orders ?y ?bs (front @ x # rear) (part_of ?y ?bs v)"
    using shows_writer_side [OF w(1) known(1), of ?bs] x(2) by simp
  note found = lists_orders_found [OF lists, unfolded x(3)]
  let ?r = "r\<lparr>vo_quantity := vo_quantity r - q\<rparr>"
  let ?z = "if vo_quantity r = q then None else Some ?r"
  have "lists_orders ?y ?bs ?xs ((part_of ?y ?bs v)(i := ?z))"
  proof (cases "vo_quantity r = q")
    case True
    then show ?thesis using found(2) quantity by (simp add: trade_in_def)
  next
    case False
    have "lists_orders ?y ?bs (front @ reduce_order q x # rear) ((part_of ?y ?bs v)(i \<mapsto> order_view (reduce_order q x)))"
      by (rule found(3)) (use reduce_order_simps [OF x(5)] x in simp_all)
    then show ?thesis using False quantity q x(4) reduce_order_simps(5) [OF x(5)]
      by (simp add: trade_in_def not_less [symmetric])
  qed
  then have "shows_writer (set_side ?bs ?y ?xs w0) (v(i := ?z))"
    by (intro one_side_upd [OF w0_shows(1) w(2)]) (auto split: if_splits)
  then show ?thesis unfolding run by (cases "vo_quantity r = q") simp_all
qed

text \<open>An order that is new to a side.\<close>

lemma add_side:
  assumes w: "shows_writer w v" "v i = None" and y: "y \<in> {1, 2}"
    and x: "is_new_order x" "no_order_id x = i" "no_symbol x = y" "no_side x = side_name bs"
    and w': "w' = (set_side bs y (side_orders bs y w @ [x]) w)\<lparr>sw_symbol_of := (sw_symbol_of w)(i \<mapsto> y)\<rparr>"
  shows "shows_writer w' (v(i \<mapsto> order_view x))"
proof -
  note facts = set_side_facts [OF shows_writer_keys [OF w(1)] y]
  have side: "side_orders bs' y' w' = (if bs' = bs \<and> y' = y then side_orders bs y w @ [x]
      else side_orders bs' y' w)" for bs' y' by (simp add: w' facts)
  have symbols: "sw_symbol_of w' = (sw_symbol_of w)(i \<mapsto> y)" by (simp add: w')
  have r: "vo_symbol (order_view x) = y" "vo_side (order_view x) = bs" using x by (simp_all add: order_view_def)
  show ?thesis
  proof (rule shows_writer_upd [OF w(1) _ y])
    show "writer_keys w'" using facts(1) by (simp add: w')
    fix bs'
    have here: "lists_orders y bs' (side_orders bs' y w) (part_of y bs' v)" by (rule shows_writer_side [OF w(1) y])
    have none: "part_of y bs' v i = None" using w(2) by (simp add: part_of_def part_def)
    show "lists_orders y bs' (side_orders bs' y w') ((part_of y bs' v)(i := part y bs' (Some (order_view x))))"
    proof (cases "bs' = bs")
      case True
      then have "part y bs' (Some (order_view x)) = Some (order_view x)" using r by (simp add: part_def)
      moreover have "lists_orders y bs (side_orders bs y w @ [x])
          ((part_of y bs v)(no_order_id x \<mapsto> order_view x))"
        using here none True x by (intro lists_orders_add) simp_all
      ultimately show ?thesis using True x(2) by (simp add: side)
    next
      case False
      then have "part y bs' (Some (order_view x)) = None" using r by (simp add: part_def)
      then show ?thesis using here False none by (simp add: side fun_upd_idem)
    qed
  qed (use w(2) side symbols r in auto)
qed

lemma on_new_shows:
  assumes w: "shows_writer w v" and new: "v i = None" "y \<in> {1, 2}" "sd \<in> {BUY, SELL}"
  shows "shows_writer (on_new (md_payload_of MD_NEW_ORDER n i y sd q p fl) w)
    (v(i \<mapsto> \<lparr>vo_symbol = y, vo_side = levels_of_side sd, vo_price = p, vo_quantity = q\<rparr>))"
proof -
  let ?x = "NewOrder i y sd q p fl" and ?bs = "levels_of_side sd"
  obtain w' where w': "w' = (set_side ?bs y (side_orders ?bs y w @ [?x]) w)\<lparr>sw_symbol_of := (sw_symbol_of w)(i \<mapsto> y)\<rparr>"
    by blast
  have "map_of (sw_bids w) y \<noteq> None"
    using shows_writer_keys [OF w] new(2) by (intro keys_entry) (simp_all add: writer_keys_def)
  then have run: "on_new (md_payload_of MD_NEW_ORDER n i y sd q p fl) w = w'"
    by (auto simp: on_new_def md_payload_of_def Let_def w' levels_of_side_def)
  have "no_side ?x = side_name ?bs" using new(3) by (auto simp: levels_of_side_def)
  from add_side [OF w new(1,2) _ _ _ this w'] show ?thesis by (simp add: run order_view_def)
qed

lemma on_modify_shows:
  assumes w: "shows_writer w v" "v i = Some r" and sd: "sd \<in> {BUY, SELL}"
  shows "shows_writer (on_modify (md_payload_of MD_MODIFY_ORDER n i 0 sd q p 0) w)
    (v(i \<mapsto> r\<lparr>vo_side := levels_of_side sd, vo_price := p, vo_quantity := q\<rparr>))"
proof -
  let ?y = "vo_symbol r" and ?bs = "vo_side r" and ?new = "levels_of_side sd"
  let ?r = "r\<lparr>vo_side := ?new, vo_price := p, vo_quantity := q\<rparr>"
  have known: "?y \<in> {1, 2}" "sw_symbol_of w i = Some ?y" using shows_writer_known [OF w] by simp_all
  obtain w1 where w1: "w1 = set_side BuyLevels ?y (side_orders BuyLevels ?y w) w" by blast
  note s1 = set_same_side [where bs = BuyLevels, OF w(1) known(1), folded w1]
  obtain w2 where w2: "w2 = set_side SellLevels ?y (side_orders SellLevels ?y w1) w1" by blast
  note s2 = set_same_side [where bs = SellLevels, OF s1(1) known(1), folded w2]
  have same: "shows_writer w2 v" "side_orders bs y w2 = side_orders bs y w" "sw_symbol_of w2 = sw_symbol_of w" for bs y
    using s1 s2 by simp_all
  obtain front x rear where x: "find_order_in i (side_orders ?bs ?y w) = Some (front, x, rear)"
    "side_orders ?bs ?y w = front @ x # rear" "no_order_id x = i" "order_view x = r"
    "is_new_order x" "no_symbol x = ?y" "no_side x = side_name ?bs" by (rule found_side [OF w])
  let ?x = "NewOrder i ?y sd q p 0" and ?c = "change_order q p 0 x"
  let ?gone = "set_side ?bs ?y (front @ rear) w2"
  have run: "on_modify (md_payload_of MD_MODIFY_ORDER n i 0 sd q p 0) w = (if ?new = ?bs
      then set_side ?bs ?y (front @ ?c # rear) w2
      else set_side ?new ?y (side_orders ?new ?y w @ [?x]) ?gone)"
  proof (cases ?bs)
    case BuyLevels
    with x(1) known(2) sd show ?thesis
      by (auto simp: on_modify_def md_payload_of_def Let_def levels_of_side_def w1 w2 s1(2) [unfolded w1])
  next
    case SellLevels
    then have "find_order_in i (side_orders BuyLevels ?y w) = None"
      using not_other_side(1) [OF w, of BuyLevels] by simp
    with x(1) known(2) sd SellLevels show ?thesis
      by (auto simp: on_modify_def md_payload_of_def Let_def levels_of_side_def w1 w2 s1(2) [unfolded w1])
  qed
  have lists: "lists_orders ?y ?bs (front @ x # rear) (part_of ?y ?bs v)"
    using shows_writer_side [OF w(1) known(1), of ?bs] x(2) by simp
  note found = lists_orders_found [OF lists, unfolded x(3)]
  show ?thesis
  proof (cases "?new = ?bs")
    case True
    have "lists_orders ?y ?bs (front @ ?c # rear) ((part_of ?y ?bs v)(i \<mapsto> order_view ?c))"
      by (rule found(3)) (use reduce_order_simps [OF x(5)] x in simp_all)
    moreover obtain r' where r': "r' = ?r" by blast
    moreover have "order_view ?c = r'" using reduce_order_simps(10) [OF x(5)] x(4) True r' by simp
    ultimately have "lists_orders ?y ?bs (front @ ?c # rear) ((part_of ?y ?bs v)(i := Some r'))" by simp
    moreover have "vo_symbol r' = ?y \<and> vo_side r' = ?bs" using r' True by simp
    ultimately have "shows_writer (set_side ?bs ?y (front @ ?c # rear) w2) (v(i := Some r'))"
      by (intro one_side_upd [OF same(1) w(2)]) auto
    then have "shows_writer (set_side ?bs ?y (front @ ?c # rear) w2) (v(i := Some ?r))" unfolding r' .
    then show ?thesis using True by (simp add: run)
  next
    case False
    have gone: "shows_writer ?gone (v(i := None))"
      using found(2) by (intro one_side_upd [OF same(1) w(2)]) simp_all
    note facts = set_side_facts [where bs = ?bs and xs = "front @ rear", OF shows_writer_keys [OF same(1)] known(1)]
    note facts' = set_side_facts [OF shows_writer_keys [OF gone] known(1)]
    let ?w' = "set_side ?new ?y (side_orders ?new ?y ?gone @ [?x]) ?gone"
    have side: "side_orders ?new ?y ?gone = side_orders ?new ?y w" using False by (simp add: facts same)
    have "(sw_symbol_of ?gone)(i \<mapsto> ?y) = sw_symbol_of ?w'"
      using known(2) by (simp add: facts(3) facts'(3) same fun_upd_idem)
    then have w': "?w' = ?w'\<lparr>sw_symbol_of := (sw_symbol_of ?gone)(i \<mapsto> ?y)\<rparr>" by simp
    have "no_side ?x = side_name ?new" using sd by (auto simp: levels_of_side_def)
    from add_side [OF gone _ known(1) _ _ _ this w']
    have "shows_writer ?w' ((v(i := None))(i \<mapsto> order_view ?x))" by simp
    moreover have "order_view ?x = ?r" by (cases r) (simp add: order_view_def)
    ultimately show ?thesis using False side by (simp add: run)
  qed
qed

section \<open>The process as a reader\<close>

text \<open>
  The writing thread knows the symbols 1 and 2 only, and has a list for each named side.  The second
  component is the number of the next message.
\<close>

fun snapshot_readable :: "md_msg \<Rightarrow> bool" where
  "snapshot_readable (NewOrder i y sd q p fl) \<longleftrightarrow> y \<in> {1, 2} \<and> sd \<in> {BUY, SELL}"
| "snapshot_readable (ModifyOrder i sd q p) \<longleftrightarrow> sd \<in> {BUY, SELL}"
| "snapshot_readable m \<longleftrightarrow> True"

fun read_writer :: "md_msg \<Rightarrow> snapshot_writer \<times> u32 \<Rightarrow> snapshot_writer \<times> u32" where
  "read_writer m (w, n) = (case payload_of_msg n m of None \<Rightarrow> w | Some p \<Rightarrow> apply_payload p w, n + 1)"

lemma apply_payload_simps [simp]:
  "apply_payload (md_payload_of MD_NEW_ORDER n i y sd q p fl) w
    = on_new (md_payload_of MD_NEW_ORDER n i y sd q p fl) (w\<lparr>sw_last_md_seq_num := n\<rparr>)"
  "apply_payload (md_payload_of MD_DELETE_ORDER n i y sd q p fl) w
    = on_delete (md_payload_of MD_DELETE_ORDER n i y sd q p fl) (w\<lparr>sw_last_md_seq_num := n\<rparr>)"
  "apply_payload (md_payload_of MD_MODIFY_ORDER n i y sd q p fl) w
    = on_modify (md_payload_of MD_MODIFY_ORDER n i y sd q p fl) (w\<lparr>sw_last_md_seq_num := n\<rparr>)"
  "apply_payload (md_payload_of MD_TRADE n i y sd q p fl) w
    = on_trade (md_payload_of MD_TRADE n i y sd q p fl) (w\<lparr>sw_last_md_seq_num := n\<rparr>)"
  "apply_payload (md_payload_of MD_HEARTBEAT n i y sd q p fl) w = w\<lparr>sw_last_md_seq_num := n\<rparr>"
  by (simp_all add: apply_payload_def md_payload_of_def)

lemma read_writer_shows:
  assumes w: "shows_writer (fst wn) v" and v: "fits m v" "snapshot_readable m"
  shows "shows_writer (fst (read_writer m wn)) (view_step m v)"
proof -
  obtain w n where wn: "wn = (w, n)" by (cases wn)
  have now: "shows_writer (w\<lparr>sw_last_md_seq_num := n\<rparr>) v" using assms(1) by (simp add: wn)
  show ?thesis
  proof (cases m)
    case (NewOrder i y sd q p fl)
    then show ?thesis using v on_new_shows [OF now, of i y sd] by (simp add: wn)
  next
    case (DeleteOrder i)
    then obtain r where "v i = Some r" using v(1) by auto
    with on_delete_shows [OF now this] DeleteOrder show ?thesis by (simp add: wn)
  next
    case (ModifyOrder i sd q p)
    then obtain r where r: "v i = Some r" using v(1) by auto
    have "sd \<in> {BUY, SELL}" using v(2) ModifyOrder by simp
    with on_modify_shows [OF now r] ModifyOrder r show ?thesis by (simp add: wn)
  next
    case (Trade i q p)
    then obtain r where "v i = Some r" "q \<le> vo_quantity r" using v(1) by auto
    with on_trade_shows [OF now this] Trade show ?thesis by (simp add: wn)
  qed (use v assms(1) in \<open>simp_all add: wn\<close>)
qed

interpretation snapshot_reader: feed_reader read_writer "\<lambda>wn. shows_writer (fst wn)" "\<lambda>m v. snapshot_readable m"
  by unfold_locales (rule read_writer_shows)

section \<open>The feed of all symbols\<close>

text \<open>
  The writer has lists for symbols 1 and 2 only, and passes over the orders of the other symbols of
  the exchange: its lists are the listed part of the view.
\<close>

definition listed :: "view \<Rightarrow> view" where
  "listed v = (\<lambda>i. case v i of None \<Rightarrow> None | Some r \<Rightarrow> if vo_symbol r \<in> {1, 2} then Some r else None)"

definition knows_listed :: "snapshot_writer \<Rightarrow> bool" where
  "knows_listed w \<longleftrightarrow> (\<forall>i y. sw_symbol_of w i = Some y \<longrightarrow> y \<in> {1, 2})"

definition lists_view :: "snapshot_writer \<Rightarrow> view \<Rightarrow> bool" where
  "lists_view w v \<longleftrightarrow> knows_listed w \<and> shows_writer w (listed v)"

text \<open>The side of an order is BUY or SELL.\<close>

fun sided :: "md_msg \<Rightarrow> bool" where
  "sided (NewOrder i y sd q p fl) \<longleftrightarrow> sd \<in> {BUY, SELL}"
| "sided (ModifyOrder i sd q p) \<longleftrightarrow> sd \<in> {BUY, SELL}"
| "sided m \<longleftrightarrow> True"

lemma listed_upd: "listed (v(i := z)) = (listed v)(i := (case z of None \<Rightarrow> None
    | Some r \<Rightarrow> if vo_symbol r \<in> {1, 2} then Some r else None))"
  by (simp add: listed_def fun_eq_iff)

lemma set_side_symbols [simp]: "sw_symbol_of (set_side bs y xs w) = sw_symbol_of w"
  by (cases bs) (simp_all add: set_side_def set_bids_def set_asks_def del: side_names)

lemma listed_None: "v i = None \<Longrightarrow> listed v i = None"
  by (simp add: listed_def)

lemma listed_Some: "v i = Some r \<Longrightarrow> listed v i = (if vo_symbol r \<in> {1, 2} then Some r else None)"
  by (simp add: listed_def)

lemma listed_empty [simp]: "listed Map.empty = Map.empty"
  by (simp add: listed_def)

lemma listed_id: "(\<And>i r. v i = Some r \<Longrightarrow> vo_symbol r \<in> {1, 2}) \<Longrightarrow> listed v = v"
  by (rule ext) (auto simp: listed_def split: option.split)

text \<open>Messages about an order that is not in the lists change nothing there.\<close>

lemma shows_writer_kept:
  assumes "shows_writer w v" "writer_keys w'" "\<And>bs y. side_orders bs y w' = side_orders bs y w"
    "\<And>i r. v i = Some r \<Longrightarrow> sw_symbol_of w' i = sw_symbol_of w i"
  shows "shows_writer w' v"
  using assms by (simp add: shows_writer_def)

lemma not_in_lists:
  assumes "shows_writer w v" "v i = None" "y \<in> {1, 2}"
  shows "i \<notin> no_order_id ` set (side_orders bs y w)"
proof -
  have "orders_view (side_orders bs y w) i = None"
    using shows_writer_side [OF assms(1,3), of bs] assms(2) by (simp add: lists_orders_def part_of_def part_def)
  then show ?thesis by (simp add: orders_view_None)
qed

text \<open>Both lists of a symbol written back.\<close>

definition both_again :: "u32 \<Rightarrow> snapshot_writer \<Rightarrow> snapshot_writer" where
  "both_again y w = (let w1 = set_side BuyLevels y (side_orders BuyLevels y w) w
     in set_side SellLevels y (side_orders SellLevels y w1) w1)"

lemma both_again_shows:
  assumes "shows_writer w v" "y \<in> {1, 2}"
  shows "shows_writer (both_again y w) v"
    "side_orders SellLevels y (set_side BuyLevels y (side_orders BuyLevels y w) w) = side_orders SellLevels y w"
  unfolding both_again_def Let_def
  using set_same_side [OF set_same_side(1) [OF assms] assms(2)] set_same_side(2) [OF assms] by simp_all

lemma on_delete_unlisted:
  assumes w: "shows_writer w v" "knows_listed w" "v i = None"
  shows "shows_writer (on_delete (md_payload_of MD_DELETE_ORDER n i y0 sd q p fl) w) v"
proof (cases "sw_symbol_of w i")
  case None
  then show ?thesis using w(1) by (simp add: on_delete_def md_payload_of_def)
next
  case (Some y)
  then have y: "y \<in> {1, 2}" using w(2) unfolding knows_listed_def by blast
  have "x \<in> set (side_orders bs y w) \<Longrightarrow> no_order_id x \<noteq> i" for x bs
    using not_in_lists [OF w(1,3) y, of bs] by auto
  then have same: "filter (\<lambda>x. no_order_id x \<noteq> i) (side_orders bs y w) = side_orders bs y w" for bs
    by (simp add: filter_id_conv)
  note both = both_again_shows [OF w(1) y]
  have run: "on_delete (md_payload_of MD_DELETE_ORDER n i y0 sd q p fl) w
      = (both_again y w)\<lparr>sw_symbol_of := (sw_symbol_of w)(i := None)\<rparr>"
    using Some same both(2) by (simp add: on_delete_def md_payload_of_def Let_def both_again_def)
  show ?thesis unfolding run
    by (rule shows_writer_kept [OF both(1)])
      (use shows_writer_keys [OF both(1)] shows_writer_known [OF w(1)] shows_writer_known [OF both(1)] w(3) in auto)
qed

lemma on_modify_unlisted:
  assumes w: "shows_writer w v" "knows_listed w" "v i = None"
  shows "shows_writer (on_modify (md_payload_of MD_MODIFY_ORDER n i y0 sd q p fl) w) v"
proof (cases "sw_symbol_of w i")
  case None
  then show ?thesis using w(1) by (simp add: on_modify_def md_payload_of_def)
next
  case (Some y)
  then have y: "y \<in> {1, 2}" using w(2) unfolding knows_listed_def by blast
  have "find_order_in i (side_orders bs y w) = None" for bs
    using not_in_lists [OF w(1,3) y, of bs] by (simp add: find_order_in_None)
  then have "on_modify (md_payload_of MD_MODIFY_ORDER n i y0 sd q p fl) w = both_again y w"
    using Some both_again_shows(2) [OF w(1) y]
    by (simp add: on_modify_def md_payload_of_def Let_def both_again_def)
  then show ?thesis using both_again_shows(1) [OF w(1) y] by simp
qed

lemma on_trade_unlisted:
  assumes w: "shows_writer w v" "knows_listed w" "v i = None"
  shows "shows_writer (on_trade (md_payload_of MD_TRADE n i y0 sd q p fl) w) v"
proof (cases "sw_symbol_of w i")
  case None
  then show ?thesis using w(1) by (simp add: on_trade_def md_payload_of_def)
next
  case (Some y)
  then have y: "y \<in> {1, 2}" using w(2) unfolding knows_listed_def by blast
  have "find_order_in i (side_orders bs y w) = None" for bs
    using not_in_lists [OF w(1,3) y, of bs] by (simp add: find_order_in_None)
  then have "on_trade (md_payload_of MD_TRADE n i y0 sd q p fl) w = both_again y w"
    using Some both_again_shows(2) [OF w(1) y]
    by (simp add: on_trade_def md_payload_of_def Let_def both_again_def)
  then show ?thesis using both_again_shows(1) [OF w(1) y] by simp
qed

lemma on_new_unlisted:
  assumes "shows_writer w v" "mp_symbol p \<notin> {1, 2}"
  shows "on_new p w = w"
proof -
  have "map fst (sw_bids w) = [1, 2]" using shows_writer_keys [OF assms(1)] by (simp add: writer_keys_def)
  then have "mp_symbol p \<notin> fst ` set (sw_bids w)" using assms(2) by (metis list.set_map list.set(1,2))
  then have "map_of (sw_bids w) (mp_symbol p) = None" by (simp add: map_of_eq_None_iff)
  then show ?thesis by (simp add: on_new_def)
qed

lemma symbols_after:
  "sw_symbol_of (on_delete p w) = (sw_symbol_of w)(mp_order_id p := None)"
  "sw_symbol_of (on_modify p w) = sw_symbol_of w" "sw_symbol_of (on_trade p w) = sw_symbol_of w"
  "sw_symbol_of (on_new p w) = (if map_of (sw_bids w) (mp_symbol p) = None then sw_symbol_of w
     else (sw_symbol_of w)(mp_order_id p \<mapsto> mp_symbol p))"
  by (auto simp: on_delete_def on_modify_def on_trade_def on_new_def Let_def fun_upd_idem
      simp del: named_lists split: option.split prod.split)

lemma apply_payload_listed:
  assumes "knows_listed w" "writer_keys w"
  shows "knows_listed (apply_payload p w)"
proof -
  have keys: "y \<in> {1, 2}" if "map_of (sw_bids w) y \<noteq> None" for y
  proof -
    have "set (map fst (sw_bids w)) = set [1, 2]" using assms(2) by (simp only: writer_keys_def)
    then have "fst ` set (sw_bids w) = {1, 2}" by simp
    moreover have "y \<in> fst ` set (sw_bids w)" using that by (simp add: map_of_eq_None_iff)
    ultimately show ?thesis by simp
  qed
  let ?w = "w\<lparr>sw_last_md_seq_num := mp_seq_num p\<rparr>"
  have "knows_listed ?w" using assms(1) by (simp add: knows_listed_def)
  moreover have "knows_listed (on_new p ?w)"
    unfolding knows_listed_def symbols_after
    using assms(1) keys [of "mp_symbol p"] by (auto simp: knows_listed_def)
  moreover have "knows_listed (on_delete p ?w)" "knows_listed (on_modify p ?w)" "knows_listed (on_trade p ?w)"
    unfolding knows_listed_def symbols_after using assms(1) by (auto simp: knows_listed_def)
  ultimately show ?thesis by (simp add: apply_payload_def Let_def split: md_msg_type.split)
qed

lemma read_writer_lists:
  assumes w: "lists_view (fst wn) v" and v: "fits m v" "sided m"
  shows "lists_view (fst (read_writer m wn)) (view_step m v)"
proof -
  obtain w n where wn: "wn = (w, n)" by (cases wn)
  let ?w = "w\<lparr>sw_last_md_seq_num := n\<rparr>"
  have l: "knows_listed w" "shows_writer w (listed v)" using w by (simp_all add: wn lists_view_def)
  then have now: "knows_listed ?w" "shows_writer ?w (listed v)" by (simp_all add: knows_listed_def)
  have "knows_listed (fst (read_writer m wn))"
    using l(1) shows_writer_keys [OF l(2)] by (auto simp: wn split: option.split intro: apply_payload_listed)
  moreover have "shows_writer (fst (read_writer m wn)) (listed (view_step m v))"
  proof (cases m)
    case (NewOrder i y sd q p fl)
    have new: "v i = None" "0 < q" using v(1) NewOrder by simp_all
    show ?thesis
    proof (cases "y \<in> {1, 2}")
      case True
      have "fits m (listed v)" "snapshot_readable m" using new v(2) True by (simp_all add: NewOrder listed_None)
      from read_writer_shows [of wn "listed v", OF _ this] l(2) True show ?thesis
        by (simp add: wn NewOrder listed_upd)
    next
      case False
      have "(listed v)(i := None) = listed v" using listed_None [of v i, OF new(1)] by (simp add: fun_upd_idem)
      then have "listed (view_step m v) = listed v" using False by (simp add: NewOrder listed_upd)
      then show ?thesis using on_new_unlisted [OF now(2)] now(2) False
        by (simp add: wn NewOrder md_payload_of_def apply_payload_def)
    qed
  next
    case (DeleteOrder i)
    then obtain r where r: "v i = Some r" using v(1) by auto
    show ?thesis
    proof (cases "vo_symbol r \<in> {1, 2}")
      case True
      then have "fits m (listed v)" "snapshot_readable m" by (simp_all add: DeleteOrder r listed_Some)
      from read_writer_shows [of wn "listed v", OF _ this] l(2) show ?thesis
        by (simp add: wn DeleteOrder listed_upd)
    next
      case False
      then have none: "listed v i = None" using listed_Some [of v i r] r by simp
      then have "listed (view_step m v) = listed v"
        by (simp add: DeleteOrder listed_upd fun_upd_idem)
      then show ?thesis using on_delete_unlisted [OF now(2,1) none] by (simp add: wn DeleteOrder)
    qed
  next
    case (ModifyOrder i sd q p)
    then obtain r where r: "v i = Some r" and q: "0 < q" using v(1) by auto
    show ?thesis
    proof (cases "vo_symbol r \<in> {1, 2}")
      case True
      then have at: "listed v i = Some r" using listed_Some [of v i r] r by simp
      then have "fits m (listed v)" "snapshot_readable m" using v(2) q by (simp_all add: ModifyOrder)
      from read_writer_shows [of wn "listed v", OF _ this] l(2) at r True show ?thesis
        by (simp add: wn ModifyOrder listed_upd)
    next
      case False
      then have none: "listed v i = None" using listed_Some [of v i r] r by simp
      have "listed (view_step m v) = (listed v)(i := None)"
        using r False by (simp add: ModifyOrder listed_upd)
      then have "listed (view_step m v) = listed v" using none by (simp add: fun_upd_idem)
      then show ?thesis using on_modify_unlisted [OF now(2,1) none] by (simp add: wn ModifyOrder)
    qed
  next
    case (Trade i q p)
    then obtain r where r: "v i = Some r" "0 < q" "q \<le> vo_quantity r" using v(1) by auto
    show ?thesis
    proof (cases "vo_symbol r \<in> {1, 2}")
      case True
      then have at: "listed v i = Some r" using listed_Some [of v i r] r by simp
      then have "fits m (listed v)" "snapshot_readable m" using r by (simp_all add: Trade)
      from read_writer_shows [of wn "listed v", OF _ this] l(2)
      have "shows_writer (fst (read_writer m wn)) (view_step m (listed v))" by (simp add: wn)
      moreover have "view_step m (listed v) = listed (view_step m v)"
        using at r(1) True by (simp add: Trade listed_upd)
      ultimately show ?thesis by simp
    next
      case False
      then have none: "listed v i = None" using listed_Some [of v i r] r by simp
      have "listed (view_step m v) = (listed v)(i := None)"
        using r(1) False by (simp add: Trade listed_upd)
      then have "listed (view_step m v) = listed v" using none by (simp add: fun_upd_idem)
      then show ?thesis using on_trade_unlisted [OF now(2,1) none] by (simp add: wn Trade)
    qed
  qed (use l(2) v in \<open>simp_all add: wn\<close>)
  ultimately show ?thesis by (simp add: lists_view_def)
qed

interpretation lists_reader: feed_reader read_writer "\<lambda>wn. lists_view (fst wn)" "\<lambda>m v. sided m"
  by unfold_locales (rule read_writer_lists)

end
