(* ===== verification/Snapshot_Props.thy ===== *)
theory Snapshot_Props imports
  Snapshot_Orders Snapshot_Recovery
begin

text \<open>
  Properties of the snapshot process and of a client's recovery: from the live feed to the writer's
  lists, from the lists to the snapshot datagrams, and from these to the client's books.
\<close>

section \<open>From the live feed to the lists\<close>

fun payloads_of :: "u32 \<Rightarrow> md_msg list \<Rightarrow> md_payload list" where
  "payloads_of n [] = []"
| "payloads_of n (m # ms) = (case payload_of_msg n m of None \<Rightarrow> [] | Some p \<Rightarrow> [p]) @ payloads_of (n + 1) ms"

lemma hear_packet_run:
  assumes "\<forall>m \<in> snd ` set ms. md_msg_canonical m \<and> md_type_of m \<noteq> MD_SNAPSHOT_INFO"
  shows "\<exists>c'. hear_packet (encode_run n ms) c = Some (Inr c') \<and>
    sc_queue c' = sc_queue c @ payloads_of n (map snd ms)"
  using assms
proof (induction ms arbitrary: n c)
  case Nil
  then show ?case by (subst hear_packet.simps) simp
next
  case (Cons tm ms)
  obtain t m where tm: "tm = (t, m)" by (cases tm)
  let ?rest = "encode_run (n + 1) ms"
  let ?c = "case payload_of_msg n m of None \<Rightarrow> hear_header n c | Some p \<Rightarrow> pass_on p (hear_header n c)"
  have m: "md_msg_canonical m" "md_type_of m \<noteq> MD_SNAPSHOT_INFO" using Cons.prems by (simp_all add: tm)
  have "\<not> length (encode_run n (tm # ms)) < md_header_size"
    using encode_run_length [of "tm # ms" n] by (simp add: md_header_size_def)
  then have "hear_packet (encode_run n (tm # ms)) c = hear_packet ?rest ?c"
    using m(2) md_msg_at_encode_md [OF m(1), of MAGIC_NUMBER n t ?rest]
    by (subst hear_packet.simps) (simp add: Let_def tm md_header_at_encode_md)
  moreover have "sc_queue (hear_header n c) = sc_queue c" by (simp add: hear_header_def Let_def)
  then have "sc_queue ?c = sc_queue c @ (case payload_of_msg n m of None \<Rightarrow> [] | Some p \<Rightarrow> [p])"
    by (simp add: pass_on_def split: option.split)
  moreover have "\<exists>c'. hear_packet ?rest ?c = Some (Inr c') \<and> sc_queue c' = sc_queue ?c @ payloads_of (n + 1) (map snd ms)"
    by (rule Cons.IH) (use Cons.prems in simp)
  ultimately show ?case by (simp add: tm)
qed

lemma apply_payloads: "fold apply_payload (payloads_of n ms) w = fst (fold read_writer ms (w, n))"
  by (induction ms arbitrary: n w) (auto split: option.split)

lemma shows_writer_queue [simp]: "shows_writer (w\<lparr>sw_queue := q\<rparr>) v = shows_writer w v"
proof -
  have "side_orders bs y (w\<lparr>sw_queue := q\<rparr>) = side_orders bs y w" for bs y
    by (cases bs) (simp_all add: side_orders.simps del: named_lists)
  then show ?thesis by (simp add: shows_writer_def writer_keys_def)
qed

lemma lists_view_queue [simp]: "lists_view (w\<lparr>sw_queue := q\<rparr>) v = lists_view w v"
  by (simp add: lists_view_def knows_listed_def)

text \<open>C21: the snapshot process follows the feed of all symbols.  What its listening thread passes on
  for a packet of the live feed, and its writing thread applies, makes the writer's lists of bids
  and asks of symbols 1 and 2 the open orders of these two symbols after the packet; the orders of
  the exchange's other symbols are passed over and are in no list.  The orders have the sides BUY or
  SELL, as the messages of the feed name them.\<close>

theorem snapshot_process_follows_feed:
  assumes "lists_view w v" "feed_ok (map snd ms) v" "sc_queue c = []"
    "\<forall>m \<in> snd ` set ms. md_msg_canonical m \<and> sided m"
  shows "\<exists>c'. hear_packet (encode_run n ms) c = Some (Inr c') \<and>
    lists_view (drain (w\<lparr>sw_queue := sc_queue c'\<rparr>)) (fold view_step (map snd ms) v)"
proof -
  have fits: "md_type_of m \<noteq> MD_SNAPSHOT_INFO" if "feed_ok ms v" "m \<in> set ms" for m ms v
    using that by (induction ms arbitrary: v) (auto dest: fits_not_snapshot)
  then have "\<forall>m \<in> snd ` set ms. md_msg_canonical m \<and> md_type_of m \<noteq> MD_SNAPSHOT_INFO"
    using assms(2,4) by (metis list.set_map)
  from hear_packet_run [OF this, of n c] obtain c' where c': "hear_packet (encode_run n ms) c = Some (Inr c')"
    "sc_queue c' = payloads_of n (map snd ms)" using assms(3) by auto
  let ?w = "w\<lparr>sw_queue := sc_queue c'\<rparr>"
  have "lists_view (fst (fold read_writer (map snd ms) (?w, n))) (fold view_step (map snd ms) v)"
    by (rule lists_reader.feed_shows) (use assms in simp_all)
  then have "lists_view (drain ?w) (fold view_step (map snd ms) v)"
    by (simp add: drain_def c'(2) apply_payloads)
  with c'(1) show ?thesis by blast
qed

lemma new_writer_shows: "shows_writer (new_snapshot_writer fd s) Map.empty"
proof -
  have "side_orders bs y (new_snapshot_writer fd s) = []" if "y \<in> {1, 2}" for bs y
    using that by (cases bs) (auto simp: side_orders.simps new_snapshot_writer_def orders_at_def simp del: named_lists)
  moreover have "part_of y bs Map.empty = Map.empty" for y bs by (simp add: part_of_def part_def)
  ultimately show ?thesis
    by (auto simp: shows_writer_def lists_orders_def writer_keys_def new_snapshot_writer_def)
qed

text \<open>A bid of symbol 1 and an ask of symbol 3: the second is in no list.\<close>

theorem snapshot_process_follows_feed_witness:
  "\<exists>c' w. hear_packet (encode_run 1 [(5, NewOrder 7 1 BUY 10 (I32 100) 0), (6, NewOrder 8 3 SELL 2 (I32 90) 0)])
      new_snapshot_client = Some (Inr c') \<and>
    w = drain ((new_snapshot_writer 3 no_calls)\<lparr>sw_queue := sc_queue c'\<rparr>) \<and>
    shows_writer w [7 \<mapsto> \<lparr>vo_symbol = 1, vo_side = BuyLevels, vo_price = I32 100, vo_quantity = 10\<rparr>]"
proof -
  let ?m = "NewOrder 7 1 BUY 10 (I32 100) 0" and ?k = "NewOrder 8 3 SELL 2 (I32 90) 0"
  let ?r = "\<lparr>vo_symbol = 1, vo_side = BuyLevels, vo_price = I32 100, vo_quantity = 10\<rparr> :: view_order"
  let ?s = "\<lparr>vo_symbol = 3, vo_side = SellLevels, vo_price = I32 90, vo_quantity = 2\<rparr> :: view_order"
  have ok: "view_ok Map.empty" by (simp add: view_ok_def)
  have ok1: "view_ok (Map.empty(7 \<mapsto> ?r))"
    by (rule view_ok_upd [OF ok]) simp_all
  have "level_total (Map.empty(7 \<mapsto> ?r)) 3 SellLevels p = 0" for p
    using level_total_add [of "Map.empty" 7 ?r 3 SellLevels p] by (simp add: share_def)
  then have "view_ok ((Map.empty(7 \<mapsto> ?r))(8 \<mapsto> ?s))"
    by (intro view_ok_upd [OF ok1]) (simp_all add: fun_upd_idem)
  then have feed: "feed_ok (map snd [(5 :: u64, ?m), (6, ?k)]) Map.empty"
    using ok ok1 by (simp add: levels_of_side_def)
  have new: "lists_view (new_snapshot_writer 3 no_calls) Map.empty"
    using new_writer_shows [of 3 no_calls] by (simp add: lists_view_def knows_listed_def new_snapshot_writer_def)
  from snapshot_process_follows_feed [OF new feed, of new_snapshot_client 1] show ?thesis
    by (simp add: new_snapshot_client_def levels_of_side_def lists_view_def listed_upd) blast
qed

section \<open>From the lists to the datagrams\<close>

definition snapshot_run :: "stamped list \<Rightarrow> u8 list" where
  "snapshot_run g = concat (map (\<lambda>(t, m). encode_md SNAPSHOT_MAGIC_NUMBER 0 t m) g)"

lemma snapshot_run_simps [simp]:
  "snapshot_run [] = []" "snapshot_run ((t, m) # g) = encode_md SNAPSHOT_MAGIC_NUMBER 0 t m @ snapshot_run g"
  "snapshot_run (g @ h) = snapshot_run g @ snapshot_run h"
  by (simp_all add: snapshot_run_def)

text \<open>
  \<open>writes g ms w g' w'\<close>: from a buffer that holds \<open>g\<close>, the messages \<open>ms\<close> are written; whole packets
  are sent, \<open>g'\<close> is left in the buffer, and the lists are what they were.
\<close>

definition same_lists :: "snapshot_writer \<Rightarrow> snapshot_writer \<Rightarrow> bool" where
  "same_lists w w' \<longleftrightarrow> writer_keys w' \<and> (\<forall>bs y. side_orders bs y w' = side_orders bs y w) \<and>
     sw_symbol_of w' = sw_symbol_of w \<and> sw_last_md_seq_num w' = sw_last_md_seq_num w \<and> sw_fd w' = sw_fd w"

definition holds_run_of :: "snapshot_writer \<Rightarrow> stamped list \<Rightarrow> bool" where
  "holds_run_of w g \<longleftrightarrow> sw_buffer w = snapshot_run g \<and> length (sw_buffer w) \<le> SNAPSHOT_BUFFER \<and> writer_keys w"

definition writes ::
  "stamped list \<Rightarrow> md_msg list \<Rightarrow> snapshot_writer \<Rightarrow> stamped list \<Rightarrow> snapshot_writer \<Rightarrow> bool" where
  "writes g ms w g' w' \<longleftrightarrow> same_lists w w' \<and> holds_run_of w' g' \<and> (\<exists>gs new.
     datagrams (sw_fd w) (sw_system w') = datagrams (sw_fd w) (sw_system w) @ map snapshot_run gs \<and>
     g @ new = concat gs @ g' \<and> map snd new = ms \<and>
     (\<forall>h \<in> set gs. h \<noteq> [] \<and> length (snapshot_run h) \<le> SNAPSHOT_BUFFER))"

lemma writes_refl: "holds_run_of w g \<Longrightarrow> writes g [] w g w"
  unfolding writes_def by (auto simp: same_lists_def holds_run_of_def intro!: exI [of _ "[]"])

lemma writes_trans:
  assumes "writes g ms w g1 w1" "writes g1 ms' w1 g2 w2"
  shows "writes g (ms @ ms') w g2 w2"
proof -
  obtain gs new where 1: "datagrams (sw_fd w) (sw_system w1) = datagrams (sw_fd w) (sw_system w) @ map snapshot_run gs"
    "g @ new = concat gs @ g1" "map snd new = ms"
    "\<forall>h \<in> set gs. h \<noteq> [] \<and> length (snapshot_run h) \<le> SNAPSHOT_BUFFER" "same_lists w w1"
    using assms(1) by (auto simp: writes_def)
  obtain gs' new' where 2: "datagrams (sw_fd w1) (sw_system w2) = datagrams (sw_fd w1) (sw_system w1) @ map snapshot_run gs'"
    "g1 @ new' = concat gs' @ g2" "map snd new' = ms'"
    "\<forall>h \<in> set gs'. h \<noteq> [] \<and> length (snapshot_run h) \<le> SNAPSHOT_BUFFER" "same_lists w1 w2" "holds_run_of w2 g2"
    using assms(2) by (auto simp: writes_def)
  have "g @ new @ new' = concat (gs @ gs') @ g2" using 1(2) 2(2) by (metis append.assoc concat_append)
  moreover have "sw_fd w1 = sw_fd w" using 1(5) by (simp add: same_lists_def)
  ultimately show ?thesis unfolding writes_def using 1 2
    by (intro conjI exI [of _ "gs @ gs'"] exI [of _ "new @ new'"]) (auto simp: same_lists_def)
qed

definition whole_sends :: "env \<Rightarrow> bool" where
  "whole_sends e \<longleftrightarrow> (\<forall>cs fd b. env_send e cs (SendtoCall fd b) = Taken (length b))"

lemma side_orders_system [simp]:
  "side_orders bs y (w\<lparr>sw_system := s\<rparr>) = side_orders bs y w" "writer_keys (w\<lparr>sw_system := s\<rparr>) = writer_keys w"
  "side_orders bs y (w\<lparr>sw_buffer := x\<rparr>) = side_orders bs y w" "writer_keys (w\<lparr>sw_buffer := x\<rparr>) = writer_keys w"
  by (cases bs; simp add: writer_keys_def side_orders.simps del: named_lists)+

lemma send_snapshot_writes:
  assumes "whole_sends e" "holds_run_of w g" "g \<noteq> []"
  shows "\<exists>w'. send_snapshot e w = Inr w' \<and> writes g [] w [] w'"
proof -
  let ?s = "sys_do (SendtoCall (sw_fd w) (sw_buffer w)) (sw_system w)"
  let ?w = "w\<lparr>sw_system := ?s, sw_buffer := []\<rparr>"
  have "send_snapshot e w = Inr ?w" using assms(1) by (simp add: send_snapshot_def Let_def whole_sends_def)
  moreover have "writes g [] w [] ?w" unfolding writes_def
    using assms(2,3) by (intro conjI exI [of _ "[g]"] exI [of _ "[]"]) (auto simp: same_lists_def holds_run_of_def)
  ultimately show ?thesis by blast
qed

lemma datagrams_now: "nanotime e s = (t, s') \<Longrightarrow> datagrams fd s' = datagrams fd s"
  by (auto simp: nanotime_clock datagrams_def)

lemma append_snapshot_writes:
  assumes "holds_run_of w g" "length (sw_buffer w) + md_sizeof (md_type_of m) \<le> SNAPSHOT_BUFFER"
  shows "\<exists>g'. writes g [m] w g' (append_snapshot e m w) \<and> g' \<noteq> []"
proof -
  obtain t s where now: "nanotime e (sw_system w) = (t, s)" by fastforce
  let ?w = "append_snapshot e m w"
  have w: "?w = w\<lparr>sw_buffer := sw_buffer w @ encode_md SNAPSHOT_MAGIC_NUMBER 0 t m, sw_system := s\<rparr>"
    by (simp add: append_snapshot_def now)
  have "writes g [m] w (g @ [(t, m)]) ?w" unfolding writes_def w
    using assms datagrams_now [OF now]
    by (intro conjI exI [of _ "[]"] exI [of _ "[(t, m)]"]) (auto simp: same_lists_def holds_run_of_def)
  then show ?thesis by blast
qed

lemma write_snapshot_writes:
  assumes e: "whole_sends e" and w: "holds_run_of w g"
  shows "\<exists>w' g'. write_snapshot e m w = Inr w' \<and> writes g [m] w g' w' \<and> g' \<noteq> []"
proof (cases "length (sw_buffer w) + md_sizeof (md_type_of m) > SNAPSHOT_BUFFER")
  case False
  then show ?thesis using append_snapshot_writes [OF w, of m e] by (auto simp: write_snapshot_def)
next
  case True
  then have "g \<noteq> []" using w md_sizeof_bounds(2) [of "md_type_of m"]
    by (auto simp: holds_run_of_def SNAPSHOT_BUFFER_def)
  then obtain w1 where w1: "send_snapshot e w = Inr w1" "writes g [] w [] w1"
    using send_snapshot_writes [OF e w] by blast
  then have "holds_run_of w1 []" by (simp add: writes_def)
  moreover from this have "length (sw_buffer w1) + md_sizeof (md_type_of m) \<le> SNAPSHOT_BUFFER"
    using md_sizeof_bounds(2) [of "md_type_of m"] by (simp add: holds_run_of_def SNAPSHOT_BUFFER_def)
  ultimately obtain g' where "writes [] [m] w1 g' (append_snapshot e m w1)" "g' \<noteq> []"
    using append_snapshot_writes by blast
  with writes_trans [OF w1(2)] w1(1) True show ?thesis by (auto simp: write_snapshot_def)
qed

lemma writes_holds: "writes g ms w g' w' \<Longrightarrow> holds_run_of w' g'"
  by (simp add: writes_def)

lemma write_orders_writes:
  assumes "whole_sends e" "holds_run_of w g" "g \<noteq> []"
  shows "\<exists>w' g'. write_orders e xs w = Inr w' \<and> writes g xs w g' w' \<and> g' \<noteq> []"
  using assms(2,3)
proof (induction xs arbitrary: w g)
  case Nil
  then show ?case using writes_refl by auto
next
  case (Cons x xs)
  obtain w1 g1 where w1: "write_snapshot e x w = Inr w1" "writes g [x] w g1 w1" "g1 \<noteq> []"
    using write_snapshot_writes [OF assms(1) Cons.prems(1)] by blast
  then obtain w2 g2 where "write_orders e xs w1 = Inr w2" "writes g1 xs w1 g2 w2" "g2 \<noteq> []"
    using Cons.IH [OF writes_holds] by blast
  with w1 writes_trans [OF w1(2)] show ?case by (fastforce simp: write_order_def)
qed

lemma set_side_fields [simp]:
  "sw_fd (set_side bs y xs w) = sw_fd w" "sw_buffer (set_side bs y xs w) = sw_buffer w"
  "sw_system (set_side bs y xs w) = sw_system w"
  "sw_last_md_seq_num (set_side bs y xs w) = sw_last_md_seq_num w"
  "sw_symbol_of (set_side bs y xs w) = sw_symbol_of w"
  unfolding set_side_def set_bids_def set_asks_def by simp_all

text \<open>The messages of one symbol.\<close>

definition symbol_messages :: "snapshot_writer \<Rightarrow> u32 \<Rightarrow> md_msg list" where
  "symbol_messages w y = SnapshotInfo y (of_nat (length (side_orders BuyLevels y w)))
       (of_nat (length (side_orders SellLevels y w))) (sw_last_md_seq_num w)
     # side_orders BuyLevels y w @ side_orders SellLevels y w"

lemma symbol_messages_same: "same_lists w w' \<Longrightarrow> symbol_messages w' y = symbol_messages w y"
  by (simp add: same_lists_def symbol_messages_def)

lemma write_symbol_writes:
  assumes e: "whole_sends e" and w: "holds_run_of w []" and y: "y \<in> {1, 2}"
  shows "\<exists>w'. write_symbol e y w = Inr w' \<and> writes [] (symbol_messages w y) w [] w'"
proof -
  let ?bids = "side_orders BuyLevels y w" and ?asks = "side_orders SellLevels y w"
  let ?info = "SnapshotInfo y (of_nat (length ?bids)) (of_nat (length ?asks)) (sw_last_md_seq_num w)"
  have keys: "writer_keys w" using w by (simp add: holds_run_of_def)
  obtain w0 where w0: "w0 = set_side SellLevels y ?asks w" by blast
  note facts = set_side_facts [OF keys y]
  have "writes [] [] w [] w0" unfolding writes_def using w facts
    by (intro conjI exI [of _ "[]"]) (auto simp: w0 same_lists_def holds_run_of_def set_asks_def)
  note start = this
  obtain w1 g1 where w1: "write_snapshot e ?info w0 = Inr w1" "writes [] [?info] w0 g1 w1" "g1 \<noteq> []"
    using write_snapshot_writes [OF e writes_holds [OF start]] by blast
  obtain w2 g2 where w2: "write_orders e ?bids w1 = Inr w2" "writes g1 ?bids w1 g2 w2" "g2 \<noteq> []"
    using write_orders_writes [OF e writes_holds [OF w1(2)] w1(3)] by blast
  obtain w3 g3 where w3: "write_orders e ?asks w2 = Inr w3" "writes g2 ?asks w2 g3 w3" "g3 \<noteq> []"
    using write_orders_writes [OF e writes_holds [OF w2(2)] w2(3)] by blast
  obtain w4 where w4: "send_snapshot e w3 = Inr w4" "writes g3 [] w3 [] w4"
    using send_snapshot_writes [OF e writes_holds [OF w3(2)] w3(3)] by blast
  have "sw_last_md_seq_num w0 = sw_last_md_seq_num w" by (simp add: w0)
  then have "write_symbol e y w = Inr w4" using w1(1) w2(1) w3(1) w4(1)
    by (simp add: write_symbol_def Let_def write_snapshot_info_def w0 [symmetric])
  moreover have "writes [] (symbol_messages w y) w [] w4"
    using writes_trans [OF writes_trans [OF writes_trans [OF writes_trans [OF start w1(2)] w2(2)] w3(2)] w4(2)]
    by (simp add: symbol_messages_def)
  ultimately show ?thesis by blast
qed

lemma write_symbols_writes:
  assumes "whole_sends e" "holds_run_of w []" "set ys \<subseteq> {1, 2}"
  shows "\<exists>w'. write_symbols e ys w = Inr w' \<and> writes [] (concat (map (symbol_messages w) ys)) w [] w'"
  using assms(2,3)
proof (induction ys arbitrary: w)
  case Nil
  then show ?case using writes_refl by simp
next
  case (Cons y ys)
  then obtain w1 where w1: "write_symbol e y w = Inr w1" "writes [] (symbol_messages w y) w [] w1"
    using write_symbol_writes [OF assms(1)] by (metis insert_subset list.simps(15))
  obtain w2 where w2: "write_symbols e ys w1 = Inr w2"
    "writes [] (concat (map (symbol_messages w1) ys)) w1 [] w2"
    using Cons.IH [OF writes_holds [OF w1(2)]] Cons.prems(2) by auto
  have "symbol_messages w1 = symbol_messages w"
    using symbol_messages_same w1(2) unfolding writes_def by blast
  with w1 w2 writes_trans [OF w1(2) w2(2)] show ?case by simp
qed

text \<open>Sorting keeps the lists' orders.\<close>

lemma lists_orders_mset:
  assumes "lists_orders y bs xs v" "mset xs' = mset xs"
  shows "lists_orders y bs xs' v"
proof -
  have same: "set xs' = set xs" "distinct (map no_order_id xs') = distinct (map no_order_id xs)"
    using assms(2) by (metis set_mset_mset, metis mset_eq_imp_distinct_iff mset_map)
  moreover have "orders_view xs' = orders_view xs"
  proof -
    let ?f = "\<lambda>x. (no_order_id x, order_view x)"
    have "map fst (map ?f zs) = map no_order_id zs" for zs by simp
    then have "distinct (map fst (map ?f xs))" "distinct (map fst (map ?f xs'))"
      using assms(1) same(2) unfolding lists_orders_def by metis+
    moreover have "set (map ?f xs') = set (map ?f xs)" using same(1) by simp
    ultimately show ?thesis unfolding orders_view_def using map_of_inject_set by metis
  qed
  ultimately show ?thesis using assms(1) by (simp add: lists_orders_def)
qed

lemma orders_at_map:
  "map_of m y \<noteq> None \<Longrightarrow> orders_at y (map (\<lambda>(y, xs). (y, f xs)) m) = f (orders_at y m)"
  by (induction m) (auto simp: orders_at_def split: option.splits)

fun price_order :: "book_side \<Rightarrow> md_msg \<Rightarrow> md_msg \<Rightarrow> bool" where
  "price_order BuyLevels = higher_price"
| "price_order SellLevels = lower_price"

lemma sort_sides_orders:
  assumes "writer_keys w" "y \<in> {1, 2}"
  shows "side_orders bs y (sort_sides srt w) = srt (price_order bs) (side_orders bs y w)"
proof -
  have "map_of (sw_bids w) y \<noteq> None" "map_of (sw_asks w) y \<noteq> None"
    using assms by (auto simp: writer_keys_def dest: keys_entry)
  from orders_at_map [OF this(1)] orders_at_map [OF this(2)] show ?thesis
    by (cases bs) (simp_all add: side_orders.simps sort_sides_def del: named_lists)
qed

lemma sort_sides_shows:
  assumes "sorts srt" "shows_writer w v"
  shows "shows_writer (sort_sides srt w) v"
proof -
  have keys: "writer_keys w" using assms(2) by (rule shows_writer_keys)
  have "writer_keys (sort_sides srt w)"
    using keys by (simp add: writer_keys_def sort_sides_def o_def split_def)
  moreover have "lists_orders y bs (side_orders bs y (sort_sides srt w)) (part_of y bs v)" if "y \<in> {1, 2}" for y bs
  proof -
    have "mset (srt (price_order bs) (side_orders bs y w)) = mset (side_orders bs y w)"
      using assms(1) by (cases bs) (simp_all add: sorts_def)
    then show ?thesis unfolding sort_sides_orders [OF keys that]
      by (intro lists_orders_mset [OF shows_writer_side [OF assms(2) that]])
  qed
  moreover have "sw_symbol_of (sort_sides srt w) = sw_symbol_of w" by (simp add: sort_sides_def)
  ultimately show ?thesis using assms(2) by (simp add: shows_writer_def)
qed

definition snapshot_due :: "env \<Rightarrow> snapshot_writer \<Rightarrow> bool" where
  "snapshot_due e w \<longleftrightarrow> fst (nanotime e (sw_system w)) - sw_last_snapshot_ts w > SNAPSHOT_INTERVAL"

lemma apply_payload_keeps:
  "sw_system (apply_payload p w) = sw_system w \<and> sw_last_snapshot_ts (apply_payload p w) = sw_last_snapshot_ts w \<and>
   sw_buffer (apply_payload p w) = sw_buffer w \<and> sw_fd (apply_payload p w) = sw_fd w"
  by (cases "mp_msg_type p")
    (auto simp: apply_payload_def on_new_def on_delete_def on_modify_def on_trade_def Let_def set_bids_def
      set_asks_def simp del: side_names split: option.split prod.split)

lemma drain_keeps [simp]:
  "sw_system (drain w) = sw_system w" "sw_last_snapshot_ts (drain w) = sw_last_snapshot_ts w"
  "sw_buffer (drain w) = sw_buffer w" "sw_fd (drain w) = sw_fd w"
proof -
  have "sw_system (fold apply_payload ps w) = sw_system w \<and>
      sw_last_snapshot_ts (fold apply_payload ps w) = sw_last_snapshot_ts w \<and>
      sw_buffer (fold apply_payload ps w) = sw_buffer w \<and> sw_fd (fold apply_payload ps w) = sw_fd w" for ps
    by (induction ps arbitrary: w) (simp_all add: apply_payload_keeps)
  then show "sw_system (drain w) = sw_system w" "sw_last_snapshot_ts (drain w) = sw_last_snapshot_ts w"
    "sw_buffer (drain w) = sw_buffer w" "sw_fd (drain w) = sw_fd w" by (simp_all add: drain_def)
qed

definition snapshot_of :: "sorter \<Rightarrow> snapshot_writer \<Rightarrow> u32 list \<Rightarrow> md_msg list" where
  "snapshot_of srt w ys = concat (map (\<lambda>y. SnapshotInfo y (of_nat (length (side_orders BuyLevels y w)))
       (of_nat (length (side_orders SellLevels y w))) (sw_last_md_seq_num w)
     # srt higher_price (side_orders BuyLevels y w) @ srt lower_price (side_orders SellLevels y w)) ys)"

lemma sorted_messages:
  assumes "sorts srt" "writer_keys w" "y \<in> {1, 2}"
  shows "symbol_messages (sort_sides srt w) y =
    SnapshotInfo y (of_nat (length (side_orders BuyLevels y w))) (of_nat (length (side_orders SellLevels y w)))
      (sw_last_md_seq_num w)
    # srt higher_price (side_orders BuyLevels y w) @ srt lower_price (side_orders SellLevels y w)"
proof -
  have "length (srt (price_order bs) xs) = length xs" for bs xs
  proof -
    have "mset (srt (price_order bs) xs) = mset xs" using assms(1) by (cases bs) (simp_all add: sorts_def)
    then show ?thesis by (metis size_mset)
  qed
  from this [of BuyLevels] this [of SellLevels] show ?thesis
    by (simp add: symbol_messages_def sort_sides_orders [OF assms(2,3)]) (simp add: sort_sides_def)
qed

lemma two_places:
  assumes "distinct l" "set l = {..<2 :: nat}"
  shows "l = [0, 1] \<or> l = [1, 0]"
proof -
  have "length l = 2" using assms distinct_card by fastforce
  then obtain a b where l: "l = [a, b]" by (auto simp: length_Suc_conv numeral_2_eq_2)
  have "a \<noteq> b" "a < 2" "b < 2" using assms by (auto simp: l)
  then have "a = 0 \<and> b = 1 \<or> a = 1 \<and> b = 0" by arith
  then show ?thesis by (auto simp: l)
qed

lemma iterated_symbols:
  assumes "fair_iteration e" "writer_keys w"
  shows "map fst (iterate e (sw_bids w)) = [1, 2] \<or> map fst (iterate e (sw_bids w)) = [2, 1]"
proof -
  have "map fst (sw_bids w) = [1, 2]" using assms(2) by (simp add: writer_keys_def)
  then obtain a b where bids: "sw_bids w = [(1, a), (2, b)]" by (auto simp: map_eq_Cons_conv)
  have "env_shuffle e 2 = [0, 1] \<or> env_shuffle e 2 = [1, 0]"
    using assms(1) by (intro two_places) (simp_all add: fair_iteration_def)
  moreover have two: "length (sw_bids w) = 2" by (simp add: bids)
  ultimately show ?thesis unfolding iterate_def two unfolding bids by auto
qed

text \<open>C22: the snapshot.  When the interval is over, the writing thread first applies what has been
  passed on, and then sends, for each of its symbols once, the numbers of its orders with the number
  of the last message applied, followed by its bids from the highest price down and its asks from
  the lowest price up: nothing more, nothing less, in packets of at most 1460 bytes.\<close>

theorem snapshot_is_written:
  assumes e: "whole_sends e" "fair_iteration e" "sorts srt"
    and w: "shows_writer (drain w) v" "sw_buffer w = []" "snapshot_due e w"
  shows "\<exists>w' gs ys. process_snapshot_writer e srt w = Inr w' \<and>
    datagrams (sw_fd w) (sw_system w') = datagrams (sw_fd w) (sw_system w) @ map snapshot_run gs \<and>
    map snd (concat gs) = snapshot_of srt (drain w) ys \<and> ys \<in> {[1, 2], [2, 1]} \<and>
    (\<forall>g \<in> set gs. g \<noteq> [] \<and> length (snapshot_run g) \<le> SNAPSHOT_BUFFER) \<and>
    shows_writer w' v \<and> sw_buffer w' = []"
proof -
  obtain now s1 where now: "nanotime e (sw_system w) = (now, s1)" by fastforce
  obtain ts s2 where ts: "nanotime e s1 = (ts, s2)" by fastforce
  let ?timed = "(drain w)\<lparr>sw_last_snapshot_ts := ts, sw_system := s2\<rparr>"
  have side: "side_orders bs y ?timed = side_orders bs y (drain w)" for bs y
    by (cases bs) (simp_all add: side_orders.simps del: named_lists)
  have timed: "shows_writer ?timed v"
    by (rule shows_writer_same [OF w(1)]) (use side shows_writer_keys [OF w(1)] in \<open>simp_all add: writer_keys_def\<close>)
  obtain w1 where w1: "w1 = sort_sides srt ?timed" by blast
  have w1_shows: "shows_writer w1 v" unfolding w1 by (rule sort_sides_shows [OF e(3) timed])
  note keys = shows_writer_keys [OF w1_shows]
  let ?ys = "map fst (iterate e (sw_bids w1))"
  have ys: "?ys \<in> {[1, 2], [2, 1]}" using iterated_symbols [OF e(2) keys] by simp
  have fields: "sw_buffer w1 = []" "sw_fd w1 = sw_fd w" "sw_system w1 = s2"
    "sw_last_md_seq_num w1 = sw_last_md_seq_num (drain w)"
    using w(2) by (simp_all add: w1 sort_sides_def)
  have "holds_run_of w1 []" using fields keys by (simp add: holds_run_of_def)
  moreover have "set ?ys \<subseteq> {1, 2}" using ys by auto
  ultimately obtain w' where w': "write_symbols e ?ys w1 = Inr w'"
    "writes [] (concat (map (symbol_messages w1) ?ys)) w1 [] w'"
    using write_symbols_writes [OF e(1)] by blast
  have "process_snapshot_writer e srt w = Inr w'"
    using w(3) now ts w'(1) by (simp add: process_snapshot_writer_def Let_def snapshot_due_def w1)
  moreover have "concat (map (symbol_messages w1) ?ys) = snapshot_of srt (drain w) ?ys"
    using sorted_messages [OF e(3) shows_writer_keys [OF timed]] ys side unfolding w1 by (auto simp: snapshot_of_def)
  moreover have "datagrams (sw_fd w) s2 = datagrams (sw_fd w) (sw_system w)"
    using datagrams_now [OF now] datagrams_now [OF ts] by simp
  moreover have "shows_writer w' v"
    using w'(2) by (intro shows_writer_same [OF w1_shows]) (auto simp: writes_def same_lists_def)
  moreover have "sw_buffer w' = []" using w'(2) by (simp add: writes_def holds_run_of_def)
  ultimately show ?thesis using w'(2) ys fields unfolding writes_def
    by (auto intro!: exI [of _ w'] exI [of _ ?ys])
qed


text \<open>A sort that keeps its promise.\<close>

fun insert_by :: "(md_msg \<Rightarrow> md_msg \<Rightarrow> bool) \<Rightarrow> md_msg \<Rightarrow> md_msg list \<Rightarrow> md_msg list" where
  "insert_by lt x [] = [x]"
| "insert_by lt x (y # ys) = (if lt y x then y # insert_by lt x ys else x # y # ys)"

definition sort_by :: sorter where
  "sort_by lt xs = foldr (insert_by lt) xs []"

lemma mset_insert_by [simp]: "mset (insert_by lt x xs) = add_mset x (mset xs)"
  by (induction xs) auto

lemma set_insert_by [simp]: "set (insert_by lt x xs) = insert x (set xs)"
  using mset_insert_by [of lt x xs] by (metis set_mset_add_mset_insert set_mset_mset)

lemma sorted_insert_by:
  assumes "\<And>a b. lt a b \<Longrightarrow> \<not> lt b a" "\<And>a b c. \<not> lt a b \<Longrightarrow> \<not> lt b c \<Longrightarrow> \<not> lt a c"
    "sorted_wrt (\<lambda>a b. \<not> lt b a) xs"
  shows "sorted_wrt (\<lambda>a b. \<not> lt b a) (insert_by lt x xs)"
  using assms(3)
proof (induction xs)
  case (Cons a xs)
  then show ?case using assms(1) [of a x] assms(2) [of _ a x] by auto
qed simp

lemma sorts_sort_by: "sorts sort_by"
proof -
  have "mset (sort_by lt xs) = mset xs" for lt xs by (induction xs) (simp_all add: sort_by_def)
  moreover have "sorted_wrt (\<lambda>a b. \<not> lt b a) (sort_by lt xs)" if "lt \<in> {higher_price, lower_price}" for lt xs
  proof -
    have "sorted_wrt (\<lambda>a b. \<not> lt b a) (insert_by lt x xs)" if "sorted_wrt (\<lambda>a b. \<not> lt b a) xs" for x xs
      by (rule sorted_insert_by [OF _ _ that])
        (use \<open>lt \<in> _\<close> in \<open>auto simp: higher_price_def lower_price_def\<close>)
    then show ?thesis unfolding sort_by_def by (induction xs) simp_all
  qed
  ultimately show ?thesis by (simp add: sorts_def)
qed

theorem snapshot_is_written_witness:
  "\<exists>w' gs ys. process_snapshot_writer (calm_env\<lparr>env_monotonic := \<lambda>_. (1, 0)\<rparr>) sort_by
      ((new_snapshot_writer 3 no_calls)\<lparr>sw_queue := payloads_of 1 [NewOrder 7 1 BUY 10 (I32 100) 0]\<rparr>) = Inr w' \<and>
    datagrams 3 (sw_system w') = map snapshot_run gs \<and> ys \<in> {[1, 2], [2, 1]} \<and>
    shows_writer w' [7 \<mapsto> \<lparr>vo_symbol = 1, vo_side = BuyLevels, vo_price = I32 100, vo_quantity = 10\<rparr>]"
proof -
  let ?e = "calm_env\<lparr>env_monotonic := \<lambda>_. (1, 0)\<rparr>" and ?m = "NewOrder 7 1 BUY 10 (I32 100) 0"
  let ?w = "(new_snapshot_writer 3 no_calls)\<lparr>sw_queue := payloads_of 1 [?m]\<rparr>"
  let ?r = "\<lparr>vo_symbol = 1, vo_side = BuyLevels, vo_price = I32 100, vo_quantity = 10\<rparr> :: view_order"
  have ok: "view_ok Map.empty" by (simp add: view_ok_def)
  have "view_ok (Map.empty(7 \<mapsto> ?r))" by (rule view_ok_upd [OF ok]) simp_all
  then have feed: "feed_ok [?m] Map.empty" using ok by (simp add: levels_of_side_def)
  have "shows_writer (fst (fold read_writer [?m] (?w, 1))) (fold view_step [?m] Map.empty)"
    by (rule snapshot_reader.feed_shows) (use feed new_writer_shows [of 3 no_calls] in simp_all)
  then have "shows_writer (drain ?w) (Map.empty(7 \<mapsto> ?r))"
    by (simp add: drain_def apply_payloads levels_of_side_def)
  moreover have "whole_sends ?e" by (simp add: whole_sends_def calm_env_def)
  moreover have "fair_iteration ?e" by (auto simp: fair_iteration_def calm_env_def)
  moreover have "nanoseconds 1 0 = 1000000000"
    by (simp add: nanoseconds_def round_double_def Let_def spare_bits.simps [of 1000000000])
  then have "snapshot_due ?e ?w"
    by (simp add: snapshot_due_def nanotime_def new_snapshot_writer_def SNAPSHOT_INTERVAL_def)
  moreover have "sw_buffer ?w = []" "sw_fd ?w = 3" "datagrams 3 (sw_system ?w) = []"
    by (simp_all add: new_snapshot_writer_def no_calls_def datagrams_def)
  ultimately show ?thesis
    using snapshot_is_written [of ?e sort_by ?w "Map.empty(7 \<mapsto> ?r)"] sorts_sort_by by auto
qed

end
