(* ===== verification/Snapshot_Catchup.thy ===== *)
theory Snapshot_Catchup imports
  Snapshot_Props
begin

text \<open>
  A client that waits for a snapshot: from the datagrams of the snapshot process to order books that
  show the live feed, and what goes wrong when the snapshots of two rounds are mixed.
\<close>

section \<open>Reading snapshot packets\<close>

type_synonym waiting = "expected \<times> md_client"

fun take_snapshot :: "md_msg \<Rightarrow> waiting \<Rightarrow> waiting" where
  "take_snapshot (SnapshotInfo y b a n) (ex, c) = snapshot_start y b a n ex c"
| "take_snapshot (NewOrder i y sd q p fl) (ex, c) = snapshot_order (NewOrder i y sd q p fl) ex c"
| "take_snapshot m x = x"

fun snapshot_msg_ok :: "u32 \<Rightarrow> md_msg \<Rightarrow> bool" where
  "snapshot_msg_ok live (SnapshotInfo y b a n) \<longleftrightarrow> live < n"
| "snapshot_msg_ok live (NewOrder i y sd q p fl) \<longleftrightarrow> md_msg_canonical (NewOrder i y sd q p fl)"
| "snapshot_msg_ok live m \<longleftrightarrow> False"

lemma check_complete_live [simp]:
  "mc_live_buffer (check_complete y ex c) = mc_live_buffer c"
  "mc_snapshot_buffer (check_complete y ex c) = mc_snapshot_buffer c"
  "mc_last_snapshot_seq (check_complete y ex c) = mc_last_snapshot_seq c"
  "mc_live_reads (check_complete y ex c) = mc_live_reads c"
  "mc_snapshot_reads (check_complete y ex c) = mc_snapshot_reads c"
  "mc_books (check_complete y ex c) = mc_books c" "mc_symbol_of (check_complete y ex c) = mc_symbol_of c"
  "mc_recover_on_drops (check_complete y ex c) = mc_recover_on_drops c"
  by (simp_all add: check_complete_def)

lemma take_snapshot_live [simp]: "mc_live_buffer (snd (take_snapshot m x)) = mc_live_buffer (snd x)"
  by (cases "(m, x)" rule: take_snapshot.cases)
    (simp_all add: snapshot_start_def snapshot_order_def Let_def)

lemma first_live_cong:
  "mc_live_buffer c = mc_live_buffer c' \<Longrightarrow> get_first_live_seq_num c = get_first_live_seq_num c'"
  by (simp only: get_first_live_seq_num_def)

lemma first_live_take [simp]:
  "get_first_live_seq_num (snd (take_snapshot m x)) = get_first_live_seq_num (snd x)"
  by (rule first_live_cong) simp

lemma read_snapshot_Nil [simp]: "read_snapshot [] ex c = Some (Inr (ex, c))"
  by (subst read_snapshot.simps) simp

lemma read_snapshot_Cons:
  assumes m: "snapshot_msg_ok live m" and c: "get_first_live_seq_num c = Some live"
  shows "read_snapshot (encode_md SNAPSHOT_MAGIC_NUMBER 0 t m @ rest) ex c
    = (case take_snapshot m (ex, c) of (ex, c) \<Rightarrow> read_snapshot rest ex c)"
proof -
  let ?buf = "encode_md SNAPSHOT_MAGIC_NUMBER 0 t m @ rest"
  have "?buf \<noteq> []" "\<not> length ?buf < md_header_size"
    using md_sizeof_bounds(1) [of "md_type_of m"] by (auto simp: md_header_size_def not_less trans_le_add1)
  moreover have "md_msg_canonical m" using m by (cases m) simp_all
  note at = md_msg_at_encode_md [OF this, of SNAPSHOT_MAGIC_NUMBER 0 t rest]
  moreover have "\<not> si_last_md_seq_num m \<le> live" if "md_type_of m = MD_SNAPSHOT_INFO"
    using m that by (cases m) (simp_all add: not_le)
  ultimately show ?thesis using m c at
    by (subst read_snapshot.simps, cases m) (simp_all add: Let_def md_header_at_encode_md split_beta)
qed

lemma read_snapshot_run:
  assumes "\<forall>m \<in> snd ` set g. snapshot_msg_ok live m" "get_first_live_seq_num c = Some live"
  shows "read_snapshot (snapshot_run g) ex c = Some (Inr (fold take_snapshot (map snd g) (ex, c)))"
  using assms
proof (induction g arbitrary: ex c)
  case (Cons tm g)
  obtain t m where tm: "tm = (t, m)" by (cases tm)
  obtain ex' c' where x: "take_snapshot m (ex, c) = (ex', c')" by fastforce
  have "get_first_live_seq_num c' = Some live"
    using first_live_take [of m "(ex, c)"] Cons.prems(2) by (simp add: x)
  with Cons.IH [of c' ex'] Cons.prems(1)
  have "read_snapshot (snapshot_run g) ex' c' = Some (Inr (fold take_snapshot (map snd g) (ex', c')))" by simp
  moreover have "snapshot_msg_ok live m" using Cons.prems(1) by (simp add: tm)
  ultimately show ?case using read_snapshot_Cons [OF _ Cons.prems(2), of m t "snapshot_run g" ex]
    by (simp add: tm x)
qed simp

section \<open>One round of the loop\<close>

lemma wait_loop_round:
  assumes "\<not> snapshot_done c" "me_live e (mc_live_reads c) = Received l"
    "me_snapshot e (mc_snapshot_reads c) = Received (snapshot_run g)"
    "length l \<le> MD_BUF" "length (snapshot_run g) \<le> MD_BUF"
    "\<forall>m \<in> snd ` set g. snapshot_msg_ok live m"
    "get_first_live_seq_num (c\<lparr>mc_live_buffer := mc_live_buffer c @ l\<rparr>) = Some live"
  shows "wait_loop e ex c = (case fold take_snapshot (map snd g) (ex, c\<lparr>mc_live_reads := mc_live_reads c + 1,
      mc_live_buffer := mc_live_buffer c @ l, mc_snapshot_reads := mc_snapshot_reads c + 1\<rparr>)
    of (ex, c) \<Rightarrow> wait_loop e ex c)"
proof -
  let ?c = "c\<lparr>mc_live_reads := mc_live_reads c + 1, mc_live_buffer := mc_live_buffer c @ l,
    mc_snapshot_reads := mc_snapshot_reads c + 1\<rparr>"
  have "get_first_live_seq_num ?c = get_first_live_seq_num (c\<lparr>mc_live_buffer := mc_live_buffer c @ l\<rparr>)"
    by (rule first_live_cong) simp
  then have "get_first_live_seq_num ?c = Some live" using assms(7) by simp
  from read_snapshot_run [OF assms(6) this, of ex] show ?thesis
    using assms(1-5) by (subst wait_loop.simps) (simp add: Let_def split_beta)
qed

lemma wait_loop_idle:
  assumes "\<not> snapshot_done c" "me_live e (mc_live_reads c) = NothingYet"
  shows "wait_loop e ex c = wait_loop e ex (c\<lparr>mc_live_reads := mc_live_reads c + 1\<rparr>)"
  using assms by (subst wait_loop.simps) simp

lemma wait_loop_live_only:
  assumes "\<not> snapshot_done c" "me_live e (mc_live_reads c) = Received l" "length l \<le> MD_BUF"
    "me_snapshot e (mc_snapshot_reads c) = NothingYet"
  shows "wait_loop e ex c = wait_loop e ex (c\<lparr>mc_live_reads := mc_live_reads c + 1,
      mc_live_buffer := mc_live_buffer c @ l, mc_snapshot_reads := mc_snapshot_reads c + 1\<rparr>)"
  using assms by (subst wait_loop.simps) (simp add: Let_def)

section \<open>The rounds of the loop\<close>

text \<open>
  What the loop hears: nothing, a live packet alone, or a live packet and a snapshot packet.  The
  live packets are a run of messages from number \<open>k\<close>.
\<close>

datatype hearing = Silence | LiveOnly "stamped list" | LiveAndSnapshot "stamped list" "stamped list"

fun live_part :: "hearing \<Rightarrow> stamped list" where
  "live_part Silence = []" | "live_part (LiveOnly l) = l" | "live_part (LiveAndSnapshot l g) = l"

fun snapshot_part :: "hearing \<Rightarrow> stamped list" where
  "snapshot_part Silence = []" | "snapshot_part (LiveOnly l) = []" | "snapshot_part (LiveAndSnapshot l g) = g"

definition live_heard :: "hearing list \<Rightarrow> stamped list" where
  "live_heard rs = concat (map live_part rs)"

definition snapshot_heard :: "hearing list \<Rightarrow> md_msg list" where
  "snapshot_heard rs = map snd (concat (map snapshot_part rs))"

lemma heard_simps [simp]:
  "live_heard [] = []" "live_heard (r # rs) = live_part r @ live_heard rs"
  "snapshot_heard [] = []" "snapshot_heard (r # rs) = map snd (snapshot_part r) @ snapshot_heard rs"
  by (simp_all add: live_heard_def snapshot_heard_def)

fun hears :: "md_env \<Rightarrow> nat \<Rightarrow> nat \<Rightarrow> u32 \<Rightarrow> hearing list \<Rightarrow> bool" where
  "hears e i j k [] \<longleftrightarrow> True"
| "hears e i j k (Silence # rs) \<longleftrightarrow> me_live e i = NothingYet \<and> hears e (i + 1) j k rs"
| "hears e i j k (LiveOnly l # rs) \<longleftrightarrow> l \<noteq> [] \<and> me_live e i = Received (encode_run k l) \<and>
     length (encode_run k l) \<le> MD_BUF \<and> me_snapshot e j = NothingYet \<and>
     hears e (i + 1) (j + 1) (k + of_nat (length l)) rs"
| "hears e i j k (LiveAndSnapshot l g # rs) \<longleftrightarrow> l \<noteq> [] \<and> me_live e i = Received (encode_run k l) \<and>
     length (encode_run k l) \<le> MD_BUF \<and> me_snapshot e j = Received (snapshot_run g) \<and>
     length (snapshot_run g) \<le> MD_BUF \<and> hears e (i + 1) (j + 1) (k + of_nat (length l)) rs"

fun snapshot_reads :: "hearing list \<Rightarrow> nat" where
  "snapshot_reads [] = 0"
| "snapshot_reads (Silence # rs) = snapshot_reads rs"
| "snapshot_reads (r # rs) = snapshot_reads rs + 1"

definition has_heard :: "nat \<Rightarrow> u8 list \<Rightarrow> nat \<Rightarrow> md_client \<Rightarrow> md_client" where
  "has_heard i b j c = c\<lparr>mc_live_reads := i, mc_live_buffer := b, mc_snapshot_reads := j\<rparr>"

lemma take_snapshot_has_heard:
  "take_snapshot m (ex, has_heard i b j c) = map_prod id (has_heard i b j) (take_snapshot m (ex, c))"
  by (cases m) (auto simp: snapshot_start_def snapshot_order_def check_complete_def has_heard_def Let_def
    split: option.split)

lemma fold_snapshot_has_heard:
  "fold take_snapshot ms (ex, has_heard i b j c) = map_prod id (has_heard i b j) (fold take_snapshot ms (ex, c))"
proof (induction ms arbitrary: ex c)
  case (Cons m ms)
  obtain ex' c' where "take_snapshot m (ex, c) = (ex', c')" by fastforce
  then show ?case by (simp add: take_snapshot_has_heard Cons)
qed simp

lemma first_live_run:
  "xs \<noteq> [] \<Longrightarrow> mc_live_buffer c = encode_run k xs \<Longrightarrow> get_first_live_seq_num c = Some k"
  using encode_run_length [of xs k]
  by (cases xs) (auto simp: get_first_live_seq_num_def md_header_at_encode_md)

lemma has_heard_has_heard [simp]: "has_heard i b j (has_heard i' b' j' c) = has_heard i b j c"
  by (simp add: has_heard_def)

lemma has_heard_fields [simp]:
  "mc_live_reads (has_heard i b j c) = i" "mc_live_buffer (has_heard i b j c) = b"
  "mc_snapshot_reads (has_heard i b j c) = j" "mc_complete (has_heard i b j c) = mc_complete c"
  "mc_snapshot_buffer (has_heard i b j c) = mc_snapshot_buffer c"
  "mc_last_snapshot_seq (has_heard i b j c) = mc_last_snapshot_seq c"
  "snapshot_done (has_heard i b j c) = snapshot_done c"
  by (simp_all add: has_heard_def snapshot_done_def)

lemma has_heard_same [simp]: "has_heard (mc_live_reads c) (mc_live_buffer c) (mc_snapshot_reads c) c = c"
  by (simp add: has_heard_def)

lemma take_snapshot_reads:
  assumes "take_snapshot m (ex, c) = (ex', c')"
  shows "mc_live_reads c' = mc_live_reads c \<and> mc_live_buffer c' = mc_live_buffer c \<and>
    mc_snapshot_reads c' = mc_snapshot_reads c \<and> mc_books c' = mc_books c \<and>
    mc_symbol_of c' = mc_symbol_of c \<and> mc_recover_on_drops c' = mc_recover_on_drops c"
  using assms by (cases m) (auto simp: snapshot_start_def snapshot_order_def Let_def)

lemma fold_snapshot_reads:
  assumes "fold take_snapshot ms (ex, c) = (ex', c')"
  shows "mc_live_reads c' = mc_live_reads c \<and> mc_live_buffer c' = mc_live_buffer c \<and>
    mc_snapshot_reads c' = mc_snapshot_reads c \<and> mc_books c' = mc_books c \<and>
    mc_symbol_of c' = mc_symbol_of c \<and> mc_recover_on_drops c' = mc_recover_on_drops c"
  using assms
proof (induction ms arbitrary: ex c)
  case (Cons m ms)
  obtain ex1 c1 where "take_snapshot m (ex, c) = (ex1, c1)" by fastforce
  with Cons.IH [of ex1 c1] Cons.prems take_snapshot_reads [OF this] show ?case by simp
qed simp

lemma wait_loop_hears:
  assumes "\<not> snapshot_done c" "mc_live_buffer c = encode_run k old"
    "hears e (mc_live_reads c) (mc_snapshot_reads c) (k + of_nat (length old)) [r]"
    "\<forall>m \<in> snd ` set (snapshot_part r). snapshot_msg_ok k m"
  shows "wait_loop e ex c = (case fold take_snapshot (map snd (snapshot_part r)) (ex, c) of (ex', c') \<Rightarrow>
    wait_loop e ex' (has_heard (mc_live_reads c + 1) (encode_run k (old @ live_part r))
      (mc_snapshot_reads c + snapshot_reads [r]) c'))"
proof (cases r)
  case Silence
  have "has_heard i (encode_run k old) j c = c\<lparr>mc_live_reads := i, mc_snapshot_reads := j\<rparr>" for i j
    unfolding has_heard_def assms(2) [symmetric] by (cases c) simp
  with Silence assms show ?thesis by (simp add: wait_loop_idle)
next
  case (LiveOnly l)
  with assms show ?thesis by (simp add: wait_loop_live_only has_heard_def)
next
  case (LiveAndSnapshot l g)
  let ?l = "encode_run (k + of_nat (length old)) l"
  have r: "l \<noteq> []" "me_live e (mc_live_reads c) = Received ?l" "length ?l \<le> MD_BUF"
    "me_snapshot e (mc_snapshot_reads c) = Received (snapshot_run g)" "length (snapshot_run g) \<le> MD_BUF"
    using assms(3) by (simp_all add: LiveAndSnapshot)
  have live: "get_first_live_seq_num (c\<lparr>mc_live_buffer := mc_live_buffer c @ ?l\<rparr>) = Some k"
    by (rule first_live_run [of "old @ l"]) (use r(1) assms(2) in simp_all)
  have "c\<lparr>mc_live_reads := mc_live_reads c + 1, mc_live_buffer := mc_live_buffer c @ ?l,
      mc_snapshot_reads := mc_snapshot_reads c + 1\<rparr>
    = has_heard (mc_live_reads c + 1) (encode_run k (old @ l)) (mc_snapshot_reads c + 1) c"
    using assms(2) by (simp add: has_heard_def)
  with wait_loop_round [OF assms(1) r(2,4,3,5) _ live, of ex] assms(4) show ?thesis
    by (simp add: LiveAndSnapshot fold_snapshot_has_heard split_beta)
qed

lemma hears_Cons:
  "hears e i j k (r # rs) \<longleftrightarrow> hears e i j k [r] \<and>
     hears e (i + 1) (j + snapshot_reads [r]) (k + of_nat (length (live_part r))) rs"
  by (cases r) auto

lemma snapshot_reads_Cons: "snapshot_reads (r # rs) = snapshot_reads [r] + snapshot_reads rs"
  by (cases r) auto

lemma heard_nonempty: "rs \<noteq> [] \<Longrightarrow> snapshot_part (last rs) \<noteq> [] \<Longrightarrow> snapshot_heard rs \<noteq> []"
  by (induction rs) (auto split: if_splits)

lemma wait_rounds:
  assumes "hears e (mc_live_reads c) (mc_snapshot_reads c) (k + of_nat (length old)) rs"
    "mc_live_buffer c = encode_run k old" "\<forall>m \<in> set (snapshot_heard rs). snapshot_msg_ok k m"
    "\<And>p q. snapshot_heard rs = p @ q \<Longrightarrow> q \<noteq> [] \<Longrightarrow> \<not> snapshot_done (snd (fold take_snapshot p (ex, c)))"
    "rs = [] \<or> snapshot_part (last rs) \<noteq> []"
  shows "wait_loop e ex c = (case fold take_snapshot (snapshot_heard rs) (ex, c) of (ex', c') \<Rightarrow>
    wait_loop e ex' (has_heard (mc_live_reads c + length rs) (encode_run k (old @ live_heard rs))
      (mc_snapshot_reads c + snapshot_reads rs) c'))"
  using assms
proof (induction rs arbitrary: ex c old)
  case Nil
  then show ?case using has_heard_same [of c] by simp
next
  case (Cons r rs)
  let ?s = "map snd (snapshot_part r)"
  have "snapshot_heard (r # rs) \<noteq> []" using Cons.prems(5) by (intro heard_nonempty) auto
  with Cons.prems(4) [of "[]"] have "\<not> snapshot_done c" by simp
  moreover obtain ex1 c1 where c1: "fold take_snapshot ?s (ex, c) = (ex1, c1)" by fastforce
  let ?c1 = "has_heard (mc_live_reads c + 1) (encode_run k (old @ live_part r))
      (mc_snapshot_reads c + snapshot_reads [r]) c1"
  note hears = Cons.prems(1) [unfolded hears_Cons [of _ _ _ _ r rs]]
  ultimately have "wait_loop e ex c = wait_loop e ex1 ?c1"
    using wait_loop_hears [of c k old e r ex] Cons.prems(2,3) hears by (simp add: c1)
  also have "\<dots> = (case fold take_snapshot (snapshot_heard rs) (ex1, ?c1) of (ex', c') \<Rightarrow>
    wait_loop e ex' (has_heard (mc_live_reads ?c1 + length rs) (encode_run k ((old @ live_part r) @ live_heard rs))
      (mc_snapshot_reads ?c1 + snapshot_reads rs) c'))"
  proof (rule Cons.IH)
    show "hears e (mc_live_reads ?c1) (mc_snapshot_reads ?c1) (k + of_nat (length (old @ live_part r))) rs"
      using hears by (simp add: algebra_simps)
    show "\<not> snapshot_done (snd (fold take_snapshot p (ex1, ?c1)))" if "snapshot_heard rs = p @ q" "q \<noteq> []" for p q
      using Cons.prems(4) [of "?s @ p" q] that by (simp add: fold_snapshot_has_heard c1)
    show "rs = [] \<or> snapshot_part (last rs) \<noteq> []" using Cons.prems(5) by auto
  qed (use Cons.prems(3) in simp_all)
  finally show ?case
    by (simp add: c1 fold_snapshot_has_heard split_beta snapshot_reads_Cons [of r rs] add.assoc)
qed

end
