(* ===== verification/Catchup_Props.thy ===== *)
theory Catchup_Props imports
  Snapshot_Catchup
begin

text \<open>
  Properties of a client's recovery: from the snapshot datagrams of the snapshot process and the
  live packets kept meanwhile to order books that show the live feed, and what is lost when the
  snapshots of two rounds are mixed.
\<close>

section \<open>The orders of one symbol\<close>

text \<open>
  The state of the wait for a symbol: the orders \<open>got\<close> of its snapshot are there, \<open>rest\<close> are to come.
\<close>

definition arriving :: "u32 \<Rightarrow> md_msg list \<Rightarrow> md_msg list \<Rightarrow> waiting \<Rightarrow> bool" where
  "arriving y got rest x \<longleftrightarrow>
     still (ex_bids (fst x)) y = int (length (filter (\<lambda>m. no_side m = BUY) rest)) \<and>
     still (ex_asks (fst x)) y = int (length (filter (\<lambda>m. no_side m \<noteq> BUY) rest)) \<and>
     mc_snapshot_buffer (snd x) y = Some got \<and> (mc_complete (snd x) y = Some True \<longleftrightarrow> rest = [])"

fun snapshot_symbol :: "md_msg \<Rightarrow> u32" where
  "snapshot_symbol (SnapshotInfo y b a n) = y"
| "snapshot_symbol m = no_symbol m"

definition orders_of :: "u32 \<Rightarrow> md_msg list \<Rightarrow> bool" where
  "orders_of y ms \<longleftrightarrow> (\<forall>m \<in> set ms. is_new_order m \<and> no_symbol m = y)"

lemma orders_of_simps [simp]:
  "orders_of y []" "orders_of y (m # ms) \<longleftrightarrow> is_new_order m \<and> no_symbol m = y \<and> orders_of y ms"
  "orders_of y (ms @ ms') \<longleftrightarrow> orders_of y ms \<and> orders_of y ms'"
  by (auto simp: orders_of_def)

definition info_of :: "u32 \<Rightarrow> u32 \<Rightarrow> md_msg list \<Rightarrow> md_msg" where
  "info_of n y ms = SnapshotInfo y (of_nat (length (filter (\<lambda>m. no_side m = BUY) ms)))
     (of_nat (length (filter (\<lambda>m. no_side m \<noteq> BUY) ms))) n"

lemma still_upd [simp]: "still (m(y \<mapsto> k)) y' = (if y' = y then k else still m y')"
  by (simp add: still_def)

lemma no_orders_left:
  "filter (\<lambda>m. no_side m = BUY) rest = [] \<Longrightarrow> filter (\<lambda>m. no_side m \<noteq> BUY) rest = [] \<longleftrightarrow> rest = []"
  by (cases rest) (auto split: if_splits)

lemma arriving_start:
  assumes "length ms < 2 ^ 32" "mc_complete (snd x) y \<noteq> Some True"
  shows "arriving y [] ms (take_snapshot (info_of n y ms) x)"
proof -
  obtain ex c where x: "x = (ex, c)" by (cases x)
  have "unat (of_nat (length (filter P ms)) :: u32) = length (filter P ms)" for P
    using le_less_trans [OF length_filter_le assms(1)] by (simp add: unat_of_nat)
  with assms(2) show ?thesis unfolding x
    by (auto simp: arriving_def info_of_def snapshot_start_def check_complete_def Let_def no_orders_left)
qed

lemma arriving_step:
  assumes "arriving y got (m # rest) x" "is_new_order m" "no_symbol m = y"
  shows "arriving y (got @ [m]) rest (take_snapshot m x)"
proof -
  obtain ex c where x: "x = (ex, c)" by (cases x)
  have "take_snapshot m x = snapshot_order m ex c" using assms(2) unfolding x by (cases m) simp_all
  with assms show ?thesis unfolding x
    by (auto simp: arriving_def snapshot_order_def check_complete_def Let_def no_orders_left)
qed

lemma arriving_orders:
  assumes "arriving y got (ms @ rest) x" "orders_of y ms"
  shows "arriving y (got @ ms) rest (fold take_snapshot ms x)"
  using assms
proof (induction ms arbitrary: got x)
  case (Cons m ms)
  then have "arriving y (got @ [m]) (ms @ rest) (take_snapshot m x)" by (intro arriving_step) simp_all
  from Cons.IH [OF this] Cons.prems(2) show ?case by simp
qed simp

lemma other_symbol:
  assumes "snapshot_symbol m \<noteq> y"
  shows "arriving y got rest (take_snapshot m x) \<longleftrightarrow> arriving y got rest x"
    "mc_complete (snd (take_snapshot m x)) y = mc_complete (snd x) y"
proof -
  obtain ex c where x: "x = (ex, c)" by (cases x)
  show "arriving y got rest (take_snapshot m x) \<longleftrightarrow> arriving y got rest x"
    "mc_complete (snd (take_snapshot m x)) y = mc_complete (snd x) y"
    using assms unfolding x
    by (cases m; simp add: arriving_def snapshot_start_def snapshot_order_def check_complete_def Let_def)+
qed

lemma other_symbols:
  assumes "\<forall>m \<in> set ms. snapshot_symbol m \<noteq> y"
  shows "arriving y got rest (fold take_snapshot ms x) \<longleftrightarrow> arriving y got rest x"
    "mc_complete (snd (fold take_snapshot ms x)) y = mc_complete (snd x) y"
  using assms by (induction ms arbitrary: x) (simp_all add: other_symbol)

lemma orders_symbol: "orders_of y ms \<Longrightarrow> \<forall>m \<in> set ms. snapshot_symbol m = y"
  by (induction ms) (auto elim: is_new_order.elims)

section \<open>A whole snapshot\<close>

text \<open>
  The messages of two symbols, one after the other; in one round of the writer \<open>n1 = n2\<close>.
\<close>

definition round_of :: "u32 \<Rightarrow> u32 \<Rightarrow> md_msg list \<Rightarrow> u32 \<Rightarrow> u32 \<Rightarrow> md_msg list \<Rightarrow> md_msg list" where
  "round_of n1 y1 ms1 n2 y2 ms2 = info_of n1 y1 ms1 # ms1 @ info_of n2 y2 ms2 # ms2"

lemma round_arrived:
  assumes "y1 \<noteq> y2" "orders_of y1 ms1" "orders_of y2 ms2" "length ms1 < 2 ^ 32" "length ms2 < 2 ^ 32"
    "mc_complete (snd x) y1 \<noteq> Some True" "mc_complete (snd x) y2 \<noteq> Some True"
  shows "arriving y1 ms1 [] (fold take_snapshot (round_of n1 y1 ms1 n2 y2 ms2) x)"
    "arriving y2 ms2 [] (fold take_snapshot (round_of n1 y1 ms1 n2 y2 ms2) x)"
proof -
  let ?x1 = "fold take_snapshot (info_of n1 y1 ms1 # ms1) x"
  let ?x2 = "take_snapshot (info_of n2 y2 ms2) ?x1"
  have all: "fold take_snapshot (round_of n1 y1 ms1 n2 y2 ms2) x = fold take_snapshot ms2 ?x2"
    by (simp add: round_of_def)
  have one: "\<forall>m \<in> set (info_of n1 y1 ms1 # ms1). snapshot_symbol m \<noteq> y2"
    using assms(1) orders_symbol [OF assms(2)] by (auto simp: info_of_def)
  have "arriving y1 [] (ms1 @ []) (take_snapshot (info_of n1 y1 ms1) x)"
    using arriving_start [OF assms(4,6)] by simp
  from arriving_orders [OF this assms(2)] have "arriving y1 ms1 [] ?x1" by simp
  moreover have "\<forall>m \<in> set (info_of n2 y2 ms2 # ms2). snapshot_symbol m \<noteq> y1"
    using assms(1) orders_symbol [OF assms(3)] by (auto simp: info_of_def)
  from other_symbols(1) [OF this, of ms1 "[]" ?x1]
  have "arriving y1 ms1 [] (fold take_snapshot ms2 ?x2) \<longleftrightarrow> arriving y1 ms1 [] ?x1" by simp
  ultimately show "arriving y1 ms1 [] (fold take_snapshot (round_of n1 y1 ms1 n2 y2 ms2) x)" unfolding all by blast
  have "mc_complete (snd ?x1) y2 \<noteq> Some True" using other_symbols(2) [OF one] assms(7) by metis
  from arriving_start [OF assms(5) this] have "arriving y2 [] (ms2 @ []) ?x2" by simp
  from arriving_orders [OF this assms(3)]
  show "arriving y2 ms2 [] (fold take_snapshot (round_of n1 y1 ms1 n2 y2 ms2) x)" unfolding all by simp
qed

text \<open>Before its last message the round is not complete.\<close>

lemma round_not_done:
  assumes "round_of n1 y1 ms1 n2 y2 ms2 = p @ q" "q \<noteq> []" "y1 \<noteq> y2" "orders_of y1 ms1" "orders_of y2 ms2"
    "length ms2 < 2 ^ 32" "mc_complete (snd x) y2 \<noteq> Some True"
  shows "mc_complete (snd (fold take_snapshot p x)) y2 \<noteq> Some True"
proof -
  let ?one = "info_of n1 y1 ms1 # ms1"
  have one: "\<forall>m \<in> set ?one. snapshot_symbol m \<noteq> y2"
    using assms(3) orders_symbol [OF assms(4)] by (auto simp: info_of_def)
  have "?one @ (info_of n2 y2 ms2 # ms2) = p @ q" using assms(1) by (simp add: round_of_def)
  then consider us where "?one = p @ us" | us where "p = ?one @ us" "us \<noteq> []" "info_of n2 y2 ms2 # ms2 = us @ q"
    unfolding append_eq_append_conv2 by (metis append_Nil2)
  then show ?thesis
  proof cases
    case (1 us)
    then have "\<forall>m \<in> set p. snapshot_symbol m \<noteq> y2" using one by (metis UnCI set_append)
    from other_symbols(2) [OF this] assms(7) show ?thesis by simp
  next
    case (2 us)
    then obtain os where os: "us = info_of n2 y2 ms2 # os" "ms2 = os @ q" by (cases us) auto
    let ?x1 = "fold take_snapshot ?one x"
    have "mc_complete (snd ?x1) y2 \<noteq> Some True" using other_symbols(2) [OF one] assms(7) by metis
    from arriving_start [OF assms(6) this] have "arriving y2 [] (os @ q) (take_snapshot (info_of n2 y2 ms2) ?x1)"
      by (simp add: os)
    moreover have "orders_of y2 os" using assms(5) os(2) by simp
    ultimately have "arriving y2 os q (fold take_snapshot p x)"
      unfolding 2(1) os(1) using arriving_orders [of y2 "[]" os q] by simp
    then show ?thesis using assms(2) by (simp add: arriving_def)
  qed
qed

section \<open>The orders of a snapshot make up the view\<close>

lemma view_ok_sub:
  assumes "view_ok v" "u \<subseteq>\<^sub>m v"
  shows "view_ok u"
proof -
  have dom: "dom u \<subseteq> dom v" "finite (dom v)"
    using assms by (simp_all add: view_ok_def map_le_implies_dom_le)
  have "level_total u y bs p \<le> level_total v y bs p" for y bs p
  proof -
    have "level_total u y bs p = (\<Sum>i \<in> dom u. share y bs p (the (v i)))"
      unfolding level_total_def using assms(2) by (intro sum.cong) (auto simp: map_le_def)
    also have "\<dots> \<le> level_total v y bs p"
      unfolding level_total_def using dom by (intro sum_mono2) auto
    finally show ?thesis .
  qed
  then have "level_total u y bs p < 2 ^ 32" for y bs p
    using assms(1) le_less_trans unfolding view_ok_def by blast
  moreover have "0 < vo_quantity r" if "u i = Some r" for i r
  proof -
    have "v i = Some r" using assms(2) that unfolding map_le_def by (metis domI)
    then show ?thesis using assms(1) unfolding view_ok_def by blast
  qed
  moreover have "finite (dom u)" using dom by (rule finite_subset)
  ultimately show ?thesis unfolding view_ok_def by blast
qed

lemma view_step_new: "is_new_order x \<Longrightarrow> view_step x u = u(no_order_id x \<mapsto> order_view x)"
  by (cases x) (simp_all add: order_view_def)

lemma new_orders_feed:
  assumes "view_ok v" "orders_view xs ++ u \<subseteq>\<^sub>m v" "distinct (map no_order_id xs)"
    "\<forall>x \<in> set xs. is_new_order x \<and> u (no_order_id x) = None"
  shows "feed_ok xs u \<and> fold view_step xs u = orders_view xs ++ u"
  using assms(2-4)
proof (induction xs arbitrary: u)
  case Nil
  then show ?case using view_ok_sub [OF assms(1)] by simp
next
  case (Cons x xs)
  let ?u = "u(no_order_id x \<mapsto> order_view x)"
  have new: "is_new_order x" "u (no_order_id x) = None" using Cons.prems(3) by simp_all
  have absent: "orders_view xs (no_order_id x) = None"
    using Cons.prems(2) by (simp add: orders_view_None)
  have same: "orders_view (x # xs) ++ u = orders_view xs ++ ?u"
    using new(2) absent by (auto simp: map_add_def fun_eq_iff split: option.split)
  have rest: "feed_ok xs ?u \<and> fold view_step xs ?u = orders_view xs ++ ?u"
  proof (rule Cons.IH)
    show "orders_view xs ++ ?u \<subseteq>\<^sub>m v" using Cons.prems(1) unfolding same .
    show "\<forall>y \<in> set xs. is_new_order y \<and> ?u (no_order_id y) = None"
      using Cons.prems(2,3) by auto (metis imageI)
  qed (use Cons.prems(2) in simp)
  have "?u \<subseteq>\<^sub>m v" using Cons.prems(1) same map_le_map_add map_le_trans by metis
  from view_ok_sub [OF assms(1) this] have ok: "view_ok ?u" .
  have "u \<subseteq>\<^sub>m ?u" using new(2) by (auto simp: map_le_def)
  from view_ok_sub [OF ok this] have "view_ok u" .
  moreover have "?u (no_order_id x) = Some (order_view x)" by simp
  then have "0 < vo_quantity (order_view x)" using ok unfolding view_ok_def by blast
  then have "0 < no_quantity x" by (simp add: order_view_def)
  then have "fits x u" using new by (cases x) simp_all
  ultimately show ?case using rest new(1) unfolding same by (simp add: view_step_new)
qed

text \<open>The sorted lists of the writer, per symbol.\<close>

definition sorted_orders :: "sorter \<Rightarrow> snapshot_writer \<Rightarrow> u32 \<Rightarrow> md_msg list" where
  "sorted_orders srt w y = srt higher_price (side_orders BuyLevels y w) @ srt lower_price (side_orders SellLevels y w)"

lemma sorted_side:
  assumes "sorts srt" "shows_writer w v" "y \<in> {1, 2}"
  shows "lists_orders y BuyLevels (srt higher_price (side_orders BuyLevels y w)) (part_of y BuyLevels v)"
    "lists_orders y SellLevels (srt lower_price (side_orders SellLevels y w)) (part_of y SellLevels v)"
  using assms(1) by (auto simp: sorts_def intro: lists_orders_mset [OF shows_writer_side [OF assms(2,3)]])

lemma sorted_orders_of:
  assumes "sorts srt" "shows_writer w v" "y \<in> {1, 2}"
  shows "orders_of y (sorted_orders srt w y)"
  using sorted_side [OF assms] by (auto simp: lists_orders_def orders_of_def sorted_orders_def)

lemma sorted_canonical:
  assumes "sorts srt" "shows_writer w v" "y \<in> {1, 2}"
  shows "\<forall>m \<in> set (sorted_orders srt w y). md_msg_canonical m"
proof
  fix m
  assume "m \<in> set (sorted_orders srt w y)"
  then have "is_new_order m" "no_side m = BUY \<or> no_side m = SELL"
    using sorted_side [OF assms] by (auto simp: lists_orders_def sorted_orders_def)
  then show "md_msg_canonical m" by (cases m) auto
qed

lemma lists_orders_id:
  "lists_orders y bs xs (part_of y bs v) \<Longrightarrow> i \<in> no_order_id ` set xs \<longleftrightarrow>
     (\<exists>r. v i = Some r \<and> vo_symbol r = y \<and> vo_side r = bs)"
  using orders_view_None [of xs i]
  by (auto simp: lists_orders_def part_of_def part_def split: option.splits if_splits)

text \<open>The orders of one symbol.\<close>

lemma symbol_orders:
  assumes "sorts srt" "shows_writer w v" "y \<in> {1, 2}"
  shows "distinct (map no_order_id (sorted_orders srt w y))" "orders_view (sorted_orders srt w y) = only y v"
proof -
  let ?b = "srt higher_price (side_orders BuyLevels y w)" and ?a = "srt lower_price (side_orders SellLevels y w)"
  note l = sorted_side [OF assms]
  have False if "i \<in> no_order_id ` set ?b" "i \<in> no_order_id ` set ?a" for i
    using that unfolding lists_orders_id [OF l(1)] lists_orders_id [OF l(2)] by auto
  then have "no_order_id ` set ?b \<inter> no_order_id ` set ?a = {}" by blast
  then show "distinct (map no_order_id (sorted_orders srt w y))"
    using l by (simp add: lists_orders_def sorted_orders_def)
  have "orders_view ?b i = part y BuyLevels (v i)" "orders_view ?a i = part y SellLevels (v i)" for i
    using l by (simp_all add: lists_orders_def part_of_def)
  then have "orders_view (sorted_orders srt w y) i = only y v i" for i
    unfolding sorted_orders_def orders_view_simps
    by (cases "v i"; cases "vo_side (the (v i))") (simp_all add: map_add_def part_def only_def)
  then show "orders_view (sorted_orders srt w y) = only y v" ..
qed

lemma snapshot_of_symbol:
  assumes "sorts srt" "shows_writer w v" "y \<in> {1, 2}"
  shows "snapshot_of srt w [y] = info_of (sw_last_md_seq_num w) y (sorted_orders srt w y) # sorted_orders srt w y"
proof -
  let ?b = "srt higher_price (side_orders BuyLevels y w)" and ?a = "srt lower_price (side_orders SellLevels y w)"
  have "filter (\<lambda>m. no_side m = BUY) ?b = ?b" "filter (\<lambda>m. no_side m \<noteq> BUY) ?b = []"
    "filter (\<lambda>m. no_side m = BUY) ?a = []" "filter (\<lambda>m. no_side m \<noteq> BUY) ?a = ?a"
    using sorted_side [OF assms] by (auto simp: lists_orders_def filter_id_conv filter_empty_conv)
  moreover have "mset ?b = mset (side_orders BuyLevels y w)" "mset ?a = mset (side_orders SellLevels y w)"
    using assms(1) by (simp_all add: sorts_def)
  then have "length ?b = length (side_orders BuyLevels y w)" "length ?a = length (side_orders SellLevels y w)"
    by (metis size_mset)+
  ultimately show ?thesis by (simp add: snapshot_of_def info_of_def sorted_orders_def)
qed

lemma two_symbols_feed:
  assumes "sorts srt" "shows_writer w1 v1" "shows_writer w2 v2" "y1 \<noteq> y2" "{y1, y2} = {1, 2}"
    "dom (only y1 v1) \<inter> dom (only y2 v2) = {}" "view_ok (only y1 v1 ++ only y2 v2)"
    "mc_snapshot_buffer c y1 = Some (sorted_orders srt w1 y1)" "mc_snapshot_buffer c y2 = Some (sorted_orders srt w2 y2)"
  shows "feed_ok (buffered 1 c @ buffered 2 c) Map.empty \<and>
    (\<forall>m \<in> set (buffered 1 c @ buffered 2 c). is_new_order m) \<and>
    fold view_step (buffered 1 c @ buffered 2 c) Map.empty = only y1 v1 ++ only y2 v2"
proof -
  let ?o1 = "sorted_orders srt w1 y1" and ?o2 = "sorted_orders srt w2 y2"
  have y: "y1 \<in> {1, 2}" "y2 \<in> {1, 2}" using assms(5) by auto
  note s1 = symbol_orders [OF assms(1,2) y(1)] and s2 = symbol_orders [OF assms(1,3) y(2)]
  have new: "\<forall>x \<in> set ?o1 \<union> set ?o2. is_new_order x"
    using sorted_orders_of [OF assms(1,2) y(1)] sorted_orders_of [OF assms(1,3) y(2)] by (auto simp: orders_of_def)
  have "no_order_id ` set ?o1 \<inter> no_order_id ` set ?o2 = {}"
  proof -
    have "i \<in> no_order_id ` set ?o1 \<longleftrightarrow> i \<in> dom (only y1 v1)" "i \<in> no_order_id ` set ?o2 \<longleftrightarrow> i \<in> dom (only y2 v2)" for i
      using orders_view_None [of ?o1 i] orders_view_None [of ?o2 i] unfolding s1(2) s2(2) by auto
    then show ?thesis using assms(6) by blast
  qed
  then have dist: "distinct (map no_order_id (?o1 @ ?o2))" "distinct (map no_order_id (?o2 @ ?o1))" using s1(1) s2(1) by auto
  have comm: "only y1 v1 ++ only y2 v2 = only y2 v2 ++ only y1 v1" using assms(6) by (rule map_add_comm)
  have ov: "orders_view (?o1 @ ?o2) = only y1 v1 ++ only y2 v2" "orders_view (?o2 @ ?o1) = only y1 v1 ++ only y2 v2"
    unfolding orders_view_simps s1(2) s2(2) comm by simp_all
  obtain os where os: "buffered 1 c @ buffered 2 c = os" by blast
  have either: "os = ?o1 @ ?o2 \<or> os = ?o2 @ ?o1"
    using assms(4,5,8,9) unfolding os [symmetric] by (auto simp: buffered_def doubleton_eq_iff)
  have os_dist: "distinct (map no_order_id os)" using either dist by metis
  have os_view: "orders_view os = only y1 v1 ++ only y2 v2" using either ov by metis
  have os_new: "\<forall>x \<in> set os. is_new_order x" using either new by auto
  have "orders_view os ++ Map.empty \<subseteq>\<^sub>m only y1 v1 ++ only y2 v2" unfolding os_view by simp
  from new_orders_feed [OF assms(7) this os_dist] os_view os_new show ?thesis unfolding os by simp
qed

section \<open>Recovery\<close>

lemma orders_last_seq:
  "orders_of y ms \<Longrightarrow> mc_last_snapshot_seq (snd (fold take_snapshot ms x)) = mc_last_snapshot_seq (snd x)"
proof (induction ms arbitrary: x)
  case (Cons m ms)
  obtain ex c where x: "x = (ex, c)" by (cases x)
  have "mc_last_snapshot_seq (snd (take_snapshot m x)) = mc_last_snapshot_seq (snd x)"
    using Cons.prems unfolding x by (cases m) (simp_all add: snapshot_order_def Let_def)
  with Cons show ?case by simp
qed simp

lemma round_last_seq:
  assumes "orders_of y2 ms2"
  shows "mc_last_snapshot_seq (snd (fold take_snapshot (round_of n1 y1 ms1 n2 y2 ms2) x)) = n2"
proof -
  obtain ex c where "fold take_snapshot (info_of n1 y1 ms1 # ms1) x = (ex, c)" by fastforce
  then have "fold take_snapshot (round_of n1 y1 ms1 n2 y2 ms2) x
      = fold take_snapshot ms2 (take_snapshot (info_of n2 y2 ms2) (ex, c))"
    by (simp add: round_of_def)
  then show ?thesis using orders_last_seq [OF assms] by (simp add: info_of_def snapshot_start_def Let_def)
qed

text \<open>The loop ends with a whole round in its buffers, and with the live packets it has kept.\<close>

lemma wait_loop_round_heard:
  assumes ys: "y1 \<noteq> y2" "{y1, y2} = {1, 2}" "orders_of y1 ms1" "orders_of y2 ms2" "length ms1 < 2 ^ 32" "length ms2 < 2 ^ 32"
    "\<forall>m \<in> set ms1 \<union> set ms2. md_msg_canonical m"
    and heard: "hears e (mc_live_reads c) (mc_snapshot_reads c) k rs" "rs \<noteq> []" "snapshot_part (last rs) \<noteq> []"
      "snapshot_heard rs = round_of n1 y1 ms1 n2 y2 ms2" "k < n1" "k < n2"
    and c: "mc_complete c 1 = Some False" "mc_complete c 2 = Some False" "mc_live_buffer c = []"
  shows "\<exists>c'. wait_loop e ex c = Some (Inr c') \<and> mc_live_buffer c' = encode_run k (live_heard rs) \<and>
    mc_snapshot_buffer c' y1 = Some ms1 \<and> mc_snapshot_buffer c' y2 = Some ms2 \<and>
    mc_last_snapshot_seq c' = n2 \<and> mc_books c' = mc_books c \<and> mc_symbol_of c' = mc_symbol_of c \<and>
    mc_recover_on_drops c' = mc_recover_on_drops c"
proof -
  let ?r = "round_of n1 y1 ms1 n2 y2 ms2"
  have complete: "mc_complete c y1 \<noteq> Some True" "mc_complete c y2 \<noteq> Some True"
    using ys(2) c(1,2) by (auto simp: doubleton_eq_iff)
  have ok: "\<forall>m \<in> set ?r. snapshot_msg_ok k m"
  proof
    fix m
    assume "m \<in> set ?r"
    then have "m = info_of n1 y1 ms1 \<or> m = info_of n2 y2 ms2 \<or> is_new_order m \<and> md_msg_canonical m"
      using ys(3,4,7) by (auto simp: round_of_def orders_of_def)
    then show "snapshot_msg_ok k m" using heard(5,6) by (cases m) (auto simp: info_of_def)
  qed
  have open_end: "\<not> snapshot_done (snd (fold take_snapshot p (ex, c)))" if "?r = p @ q" "q \<noteq> []" for p q
    using round_not_done [OF that ys(1,3,4,6), of "(ex, c)"] complete(2) ys(2)
    by (auto simp: snapshot_done_def doubleton_eq_iff)
  obtain ex' c' where c': "fold take_snapshot ?r (ex, c) = (ex', c')" by fastforce
  note arrived = round_arrived [OF ys(1,3,4,5,6), of "(ex, c)" n1 n2, unfolded c', simplified, OF complete]
  have complete_now: "snapshot_done c'" using arrived ys(2) by (auto simp: arriving_def snapshot_done_def doubleton_eq_iff)
  let ?c = "has_heard (mc_live_reads c + length rs) (encode_run k (live_heard rs))
    (mc_snapshot_reads c + snapshot_reads rs) c'"
  have "wait_loop e ex c = wait_loop e ex' ?c"
    using wait_rounds [of e c k "[]" rs ex] heard(1-4) c(3) ok open_end by (simp add: c')
  also have "\<dots> = Some (Inr ?c)" using complete_now by (subst wait_loop.simps) simp
  finally have "wait_loop e ex c = Some (Inr ?c)" .
  moreover have "mc_last_snapshot_seq c' = n2" using round_last_seq [OF ys(4), of n1 y1 ms1 n2 "(ex, c)"] by (simp add: c')
  ultimately show ?thesis using arrived fold_snapshot_reads [OF c']
    by (intro exI [of _ ?c]) (auto simp: arriving_def has_heard_def)
qed

lemma length_sorted_orders:
  assumes "sorts srt"
  shows "length (sorted_orders srt w y) = length (side_orders BuyLevels y w) + length (side_orders SellLevels y w)"
proof -
  have "mset (srt higher_price xs) = mset xs" "mset (srt lower_price xs) = mset xs" for xs
    using assms by (simp_all add: sorts_def)
  then show ?thesis unfolding sorted_orders_def by (metis length_append size_mset)
qed

text \<open>
  What the client hears when it gets the snapshot of symbol \<open>y1\<close> from the writer's state \<open>w1\<close>, that
  of \<open>y2\<close> from \<open>w2\<close>, and live packets that reach back to before both.
\<close>

definition catching_up :: "sorter \<Rightarrow> u32 \<Rightarrow> snapshot_writer \<Rightarrow> u32 \<Rightarrow> snapshot_writer \<Rightarrow> md_env \<Rightarrow> md_client \<Rightarrow>
    u32 \<Rightarrow> hearing list \<Rightarrow> bool" where
  "catching_up srt y1 w1 y2 w2 e c k rs \<longleftrightarrow> hears e (mc_live_reads c) (mc_snapshot_reads c) k rs \<and>
     rs \<noteq> [] \<and> snapshot_part (last rs) \<noteq> [] \<and>
     snapshot_heard rs = snapshot_of srt w1 [y1] @ snapshot_of srt w2 [y2] \<and>
     k < sw_last_md_seq_num w1 \<and> k < sw_last_md_seq_num w2 \<and>
     (\<forall>y. \<forall>w \<in> {w1, w2}. length (side_orders BuyLevels y w) + length (side_orders SellLevels y w) < 2 ^ 32)"

text \<open>From there to the books.\<close>

context book_relation
begin

lemma recovery_from_loop:
  assumes c: "client_shows shows_at c Map.empty" "mc_live_buffer c = encode_run k (xs @ ms)"
      "unat k + length xs = unat (mc_last_snapshot_seq c) + 1"
      "unat (mc_last_snapshot_seq c) + length ms + 1 < 2 ^ 32"
    and os: "feed_ok (buffered 1 c @ buffered 2 c) Map.empty" "\<forall>m \<in> set (buffered 1 c @ buffered 2 c). is_new_order m"
      "fold view_step (buffered 1 c @ buffered 2 c) Map.empty = v"
    and ms: "feed_ok (map snd ms) v" "\<forall>m \<in> snd ` set ms. md_msg_canonical m"
      "all_along readable (map snd ms) v"
  shows "\<exists>c'. replay e ((apply_snapshot c)\<lparr>mc_last_seq := mc_last_snapshot_seq (apply_snapshot c)\<rparr>) = Some (Inr c') \<and>
    client_shows shows_at c' (fold view_step (map snd ms) v) \<and>
    mc_last_seq c' = mc_last_snapshot_seq c + of_nat (length ms) \<and> mc_recover_on_drops c' = mc_recover_on_drops c"
proof -
  let ?c = "(apply_snapshot c)\<lparr>mc_last_seq := mc_last_snapshot_seq (apply_snapshot c)\<rparr>"
  have same: "same_recovery c (apply_snapshot c)"
    unfolding apply_snapshot_def by (rule same_recovery_snapshot)
  then have fields: "mc_live_buffer ?c = mc_live_buffer c" "mc_last_snapshot_seq ?c = mc_last_snapshot_seq c"
    "mc_recover_on_drops ?c = mc_recover_on_drops c" "mc_last_seq ?c = mc_last_snapshot_seq ?c"
    by (simp_all add: same_recovery_def)
  have "client_shows shows_at (apply_snapshot c) v"
    unfolding apply_snapshot_def os(3) [symmetric] by (rule snapshot_orders_show [OF c(1) os(1,2)])
  then have "client_shows shows_at ?c v" by (simp add: client_shows_seq)
  from replay_shows [OF this fields(4)] c(2-4) ms show ?thesis unfolding fields by blast
qed

lemma two_snapshots_recovered:
  assumes w: "sorts srt" "shows_writer w1 v1" "shows_writer w2 v2" "y1 \<noteq> y2" "{y1, y2} = {1, 2}"
      "dom (only y1 v1) \<inter> dom (only y2 v2) = {}"
    and heard: "catching_up srt y1 w1 y2 w2 e c k rs"
    and live: "live_heard rs = xs @ ms" "unat k + length xs = unat (sw_last_md_seq_num w2) + 1"
      "unat (sw_last_md_seq_num w2) + length ms + 1 < 2 ^ 32"
      "feed_ok (map snd ms) (only y1 v1 ++ only y2 v2)" "\<forall>m \<in> snd ` set ms. md_msg_canonical m"
      "all_along readable (map snd ms) (only y1 v1 ++ only y2 v2)"
    and c: "client_shows shows_at c Map.empty" "mc_live_buffer c = []"
    and e: "mc_recover_on_drops c \<or> me_leaves_group e"
  shows "\<exists>c'. wait_for_snapshot e c = Some (Inr c') \<and>
    client_shows shows_at c' (fold view_step (map snd ms) (only y1 v1 ++ only y2 v2)) \<and>
    mc_last_seq c' = sw_last_md_seq_num w2 + of_nat (length ms)"
proof -
  let ?n = "sw_last_md_seq_num w2" and ?o1 = "sorted_orders srt w1 y1" and ?o2 = "sorted_orders srt w2 y2"
  let ?v = "only y1 v1 ++ only y2 v2"
  let ?c = "c\<lparr>mc_complete := (mc_complete c)(1 \<mapsto> False, 2 \<mapsto> False)\<rparr>"
  have y: "y1 \<in> {1, 2}" "y2 \<in> {1, 2}" using w(5) by auto
  note os = sorted_orders_of [OF w(1,2) y(1)] sorted_orders_of [OF w(1,3) y(2)]
  have small: "length ?o1 < 2 ^ 32" "length ?o2 < 2 ^ 32"
    using heard length_sorted_orders [OF w(1)] by (auto simp: catching_up_def)
  have canonical: "\<forall>m \<in> set ?o1 \<union> set ?o2. md_msg_canonical m"
    using sorted_canonical [OF w(1,2) y(1)] sorted_canonical [OF w(1,3) y(2)] by blast
  have "snapshot_heard rs = round_of (sw_last_md_seq_num w1) y1 ?o1 ?n y2 ?o2"
    using heard snapshot_of_symbol [OF w(1,2) y(1)] snapshot_of_symbol [OF w(1,3) y(2)]
    by (simp add: catching_up_def round_of_def)
  then obtain c1 where c1: "wait_loop e expect_at_first ?c = Some (Inr c1)" "mc_live_buffer c1 = encode_run k (live_heard rs)"
    "mc_snapshot_buffer c1 y1 = Some ?o1" "mc_snapshot_buffer c1 y2 = Some ?o2" "mc_last_snapshot_seq c1 = ?n"
    "mc_books c1 = mc_books c" "mc_symbol_of c1 = mc_symbol_of c" "mc_recover_on_drops c1 = mc_recover_on_drops c"
    using wait_loop_round_heard [OF w(4,5) os small canonical, of e ?c k rs "sw_last_md_seq_num w1" ?n expect_at_first]
      heard c(2) by (auto simp: catching_up_def)
  have show1: "client_shows shows_at c1 Map.empty" using c(1) c1(6,7) by (simp add: client_shows_def book_at_def)
  have buffer1: "mc_live_buffer c1 = encode_run k (xs @ ms)" using c1(2) live(1) by simp
  have books: "feed_ok (buffered 1 c1 @ buffered 2 c1) Map.empty" "\<forall>m \<in> set (buffered 1 c1 @ buffered 2 c1). is_new_order m"
    "fold view_step (buffered 1 c1 @ buffered 2 c1) Map.empty = ?v"
    using two_symbols_feed [OF w(1-6) feed_ok_view [OF live(4)], of c1] c1(3,4) by blast+
  obtain c2 where c2: "replay e ((apply_snapshot c1)\<lparr>mc_last_seq := mc_last_snapshot_seq (apply_snapshot c1)\<rparr>) = Some (Inr c2)"
    "client_shows shows_at c2 (fold view_step (map snd ms) ?v)" "mc_last_seq c2 = ?n + of_nat (length ms)"
    "mc_recover_on_drops c2 = mc_recover_on_drops c"
    using recovery_from_loop [OF show1 buffer1 _ _ books live(4-6)] live(2,3) unfolding c1(5,8) by blast
  have "wait_for_snapshot e c = Some (Inr c2)"
    using c1(1) c2(1,4) e by (simp add: wait_for_snapshot_def unsubscribe_def Let_def)
  with c2(2,3) show ?thesis by blast
qed

end

lemma only_symbols:
  assumes "shows_writer w v" "{y1, y2} = {1, 2}"
  shows "only y1 v ++ only y2 v = v"
proof
  fix i
  show "(only y1 v ++ only y2 v) i = v i"
    using assms by (cases "v i") (auto simp: map_add_def only_def shows_writer_def doubleton_eq_iff)
qed

text \<open>Both readings of the books at once: the client's step is one function.\<close>

lemma two_snapshots_both:
  assumes w: "sorts srt" "shows_writer w1 v1" "shows_writer w2 v2" "y1 \<noteq> y2" "{y1, y2} = {1, 2}"
      "dom (only y1 v1) \<inter> dom (only y2 v2) = {}"
    and heard: "catching_up srt y1 w1 y2 w2 e c k rs"
    and live: "live_heard rs = xs @ ms" "unat k + length xs = unat (sw_last_md_seq_num w2) + 1"
      "unat (sw_last_md_seq_num w2) + length ms + 1 < 2 ^ 32"
      "feed_ok (map snd ms) (only y1 v1 ++ only y2 v2)" "\<forall>m \<in> snd ` set ms. md_msg_canonical m"
    and c: "shows_client c Map.empty" "mc_live_buffer c = []"
    and e: "mc_recover_on_drops c \<or> me_leaves_group e"
  shows "\<exists>c'. wait_for_snapshot e c = Some (Inr c') \<and>
    tracks_client c' (fold view_step (map snd ms) (only y1 v1 ++ only y2 v2)) \<and>
    (none_used_up (map snd ms) (only y1 v1 ++ only y2 v2) \<longrightarrow>
      shows_client c' (fold view_step (map snd ms) (only y1 v1 ++ only y2 v2))) \<and>
    mc_last_seq c' = sw_last_md_seq_num w2 + of_nat (length ms)"
proof -
  let ?v = "only y1 v1 ++ only y2 v2"
  obtain c' where c': "wait_for_snapshot e c = Some (Inr c')" "tracks_client c' (fold view_step (map snd ms) ?v)"
    "mc_last_seq c' = sw_last_md_seq_num w2 + of_nat (length ms)"
    using book_orders.two_snapshots_recovered [OF w heard live _ shows_tracks [OF c(1)] c(2) e] by auto
  moreover have "shows_client c' (fold view_step (map snd ms) ?v)" if "none_used_up (map snd ms) ?v"
    using whole_book.two_snapshots_recovered [OF w heard live that c e] c'(1) by auto
  ultimately show ?thesis by blast
qed

text \<open>C23: recovery.  A client without books waits while it hears live packets, and the datagrams of
  one snapshot of symbols 1 and 2, the only ones the snapshot process lists, in the order the writer
  sends them.  If the live packets reach back to before the snapshot, and are about orders of the
  snapshot or orders they enter themselves, the wait ends, and the client then knows exactly the
  open orders, with their sides, prices and quantities, as the live feed has left them at the last
  message kept: no order of the snapshot and no later update is lost or counted twice.  The
  quantities at the prices are right, too, if none of the kept trades uses up the whole order it
  names; what such a trade does to them is undefined, since the client reads memory it has freed.\<close>

theorem snapshot_recovery_shows_feed:
  assumes w: "sorts srt" "shows_writer w v" "y1 \<noteq> y2" "{y1, y2} = {1, 2}"
    and heard: "catching_up srt y1 w y2 w e c k rs"
    and live: "live_heard rs = xs @ ms" "unat k + length xs = unat (sw_last_md_seq_num w) + 1"
      "unat (sw_last_md_seq_num w) + length ms + 1 < 2 ^ 32"
      "feed_ok (map snd ms) v" "\<forall>m \<in> snd ` set ms. md_msg_canonical m"
    and c: "shows_client c Map.empty" "mc_live_buffer c = []"
    and e: "mc_recover_on_drops c \<or> me_leaves_group e"
  shows "\<exists>c'. wait_for_snapshot e c = Some (Inr c') \<and> tracks_client c' (fold view_step (map snd ms) v) \<and>
    (none_used_up (map snd ms) v \<longrightarrow> shows_client c' (fold view_step (map snd ms) v)) \<and>
    mc_last_seq c' = sw_last_md_seq_num w + of_nat (length ms)"
proof -
  have "dom (only y1 v) \<inter> dom (only y2 v) = {}"
    using w(3) by (auto simp: only_def split: option.splits if_splits)
  from two_snapshots_both [OF w(1,2,2,3,4) this heard live(1-3) _ live(5) c e] live(4)
  show ?thesis unfolding only_symbols [OF w(2,4)] by blast
qed

text \<open>The two snapshots need not be of one round.  If the client hears the snapshot of one
  symbol, and then that of the other from a later round, it takes the later number for both: the
  updates to the first symbol in between are neither in its snapshot nor replayed, and its book of
  that symbol stays at the old state.\<close>

theorem mixed_snapshots_miss_updates:
  assumes w: "sorts srt" "shows_writer w1 v1" "shows_writer w2 v2" "y1 \<noteq> y2" "{y1, y2} = {1, 2}"
      "dom (only y1 v1) \<inter> dom (only y2 v2) = {}"
    and heard: "catching_up srt y1 w1 y2 w2 e c k rs"
    and live: "live_heard rs = xs @ ms" "unat k + length xs = unat (sw_last_md_seq_num w2) + 1"
      "unat (sw_last_md_seq_num w2) + length ms + 1 < 2 ^ 32"
      "feed_ok (map snd ms) (only y1 v1 ++ only y2 v2)" "\<forall>m \<in> snd ` set ms. md_msg_canonical m"
    and c: "shows_client c Map.empty" "mc_live_buffer c = []"
    and e: "mc_recover_on_drops c \<or> me_leaves_group e"
  shows "\<exists>c'. wait_for_snapshot e c = Some (Inr c') \<and>
    tracks_client c' (fold view_step (map snd ms) (only y1 v1 ++ only y2 v2)) \<and>
    mc_last_seq c' = sw_last_md_seq_num w2 + of_nat (length ms)"
  using two_snapshots_both [OF w heard live c e] by blast

text \<open>A writer that has seen one order, and a client that hears its snapshot with one live packet.\<close>

definition one_bid :: md_msg where "one_bid = NewOrder 7 1 BUY 10 (I32 100) 0"

definition one_bid_writer :: snapshot_writer where
  "one_bid_writer = drain ((new_snapshot_writer 3 no_calls)\<lparr>sw_queue := payloads_of 1 [one_bid, Heartbeat]\<rparr>)"

definition one_bid_view :: view where
  "one_bid_view = [7 \<mapsto> \<lparr>vo_symbol = 1, vo_side = BuyLevels, vo_price = I32 100, vo_quantity = 10\<rparr>]"

definition live_three :: "stamped list" where
  "live_three = [(5, one_bid), (6, Heartbeat), (7, Trade 7 4 (I32 100))]"

definition hearing_snapshot :: "(ob_order \<Rightarrow> ob_order) \<Rightarrow> u8 list \<Rightarrow> stamped list \<Rightarrow> md_env" where
  "hearing_snapshot freed l g = \<lparr>me_live = (\<lambda>i. if i = 0 then Received l else NothingYet),
     me_snapshot = (\<lambda>i. if i = 0 then Received (snapshot_run g) else NothingYet),
     me_leaves_group = True, me_freed = freed\<rparr>"

lemma one_bid_view_ok: "view_ok one_bid_view"
  unfolding one_bid_view_def by (rule view_ok_upd) (simp_all add: view_ok_def)

lemma one_bid_writer_shows: "shows_writer one_bid_writer one_bid_view"
proof -
  let ?w = "(new_snapshot_writer 3 no_calls)\<lparr>sw_queue := payloads_of 1 [one_bid, Heartbeat]\<rparr>"
  have "feed_ok [one_bid, Heartbeat] Map.empty"
    using one_bid_view_ok view_ok_empty by (simp add: one_bid_def one_bid_view_def levels_of_side_def)
  then have "shows_writer (fst (fold read_writer [one_bid, Heartbeat] (?w, 1))) (fold view_step [one_bid, Heartbeat] Map.empty)"
    using new_writer_shows [of 3 no_calls] by (intro snapshot_reader.feed_shows) (simp_all add: one_bid_def)
  then show ?thesis
    by (simp add: one_bid_writer_def one_bid_view_def drain_def apply_payloads one_bid_def levels_of_side_def)
qed

lemma one_bid_writer_lists:
  "sw_last_md_seq_num one_bid_writer = 2" "sw_bids one_bid_writer = [(1, [one_bid]), (2, [])]"
  "sw_asks one_bid_writer = [(1, []), (2, [])]"
proof -
  let ?w = "(new_snapshot_writer 3 no_calls)\<lparr>sw_queue := payloads_of 1 [one_bid, Heartbeat]\<rparr>"
  have w: "one_bid_writer = (fst (fold read_writer [one_bid, Heartbeat] (?w, 1)))\<lparr>sw_queue := []\<rparr>"
    by (simp add: one_bid_writer_def drain_def apply_payloads one_bid_def)
  show "sw_last_md_seq_num one_bid_writer = 2" "sw_bids one_bid_writer = [(1, [one_bid]), (2, [])]"
    "sw_asks one_bid_writer = [(1, []), (2, [])]"
    unfolding w by (simp_all add: one_bid_def apply_payload_def md_payload_of_def on_new_def new_snapshot_writer_def
      set_bids_def set_asks_def set_orders_def orders_at_def del: named_lists side_names)
qed

lemma one_bid_writer_small:
  "length (side_orders BuyLevels y one_bid_writer) + length (side_orders SellLevels y one_bid_writer) < 4294967296"
  by (simp add: one_bid_writer_lists side_orders.simps orders_at_def del: named_lists)

lemma one_bid_snapshot:
  "snapshot_of sort_by one_bid_writer [1] = [SnapshotInfo 1 1 0 2, one_bid]"
  "snapshot_of sort_by one_bid_writer [2] = [SnapshotInfo 2 0 0 2]"
  by (simp_all add: snapshot_of_def one_bid_writer_lists side_orders.simps orders_at_def sort_by_def del: named_lists)

lemma hearing_hears:
  assumes "l \<noteq> []" "length (encode_run k l) \<le> MD_BUF" "length (snapshot_run g) \<le> MD_BUF"
  shows "hears (hearing_snapshot freed (encode_run k l) g) (mc_live_reads (new_md_client r))
    (mc_snapshot_reads (new_md_client r)) k [LiveAndSnapshot l g]"
  using assms by (simp add: hearing_snapshot_def new_md_client_def)

theorem snapshot_recovery_shows_feed_witness:
  "\<exists>e c'. wait_for_snapshot e (new_md_client False) = Some (Inr c') \<and> mc_last_seq c' = 3 \<and>
     shows_client c' [7 \<mapsto> \<lparr>vo_symbol = 1, vo_side = BuyLevels, vo_price = I32 100, vo_quantity = 6\<rparr>]"
proof -
  let ?g = "map (Pair 9) [SnapshotInfo 1 1 0 2, one_bid, SnapshotInfo 2 0 0 2]"
  let ?e = "hearing_snapshot (\<lambda>x. x\<lparr>ob_price := I32 0\<rparr>) (encode_run 1 live_three) ?g" and ?c = "new_md_client False"
  have "hears ?e (mc_live_reads ?c) (mc_snapshot_reads ?c) 1 [LiveAndSnapshot live_three ?g]"
    by (rule hearing_hears) (simp_all add: live_three_def one_bid_def MD_BUF_def)
  then have h: "catching_up sort_by 1 one_bid_writer 2 one_bid_writer ?e ?c 1 [LiveAndSnapshot live_three ?g]"
    by (simp add: catching_up_def one_bid_snapshot one_bid_writer_lists one_bid_writer_small)
  have live: "live_heard [LiveAndSnapshot live_three ?g] = [(5, one_bid), (6, Heartbeat)] @ [(7, Trade 7 4 (I32 100))]"
    by (simp add: live_three_def)
  have "view_ok (one_bid_view(7 \<mapsto> \<lparr>vo_symbol = 1, vo_side = BuyLevels, vo_price = I32 100, vo_quantity = 6\<rparr>))"
    by (rule view_ok_upd [OF one_bid_view_ok]) (simp_all add: one_bid_view_def fun_upd_def [symmetric])
  then have feed: "feed_ok (map snd [(7 :: u64, Trade 7 4 (I32 100))]) one_bid_view"
    using one_bid_view_ok by (simp add: one_bid_view_def)
  have c: "shows_client ?c Map.empty" "mc_live_buffer ?c = []"
    by (rule whole_book.new_client_shows, simp add: new_md_client_def)
  have e: "me_leaves_group ?e" by (simp add: hearing_snapshot_def)
  have left: "none_used_up (map snd [(7 :: u64, Trade 7 4 (I32 100))]) one_bid_view" by (simp add: one_bid_view_def)
  obtain c' where "wait_for_snapshot ?e ?c = Some (Inr c')" "mc_last_seq c' = sw_last_md_seq_num one_bid_writer + of_nat 1"
    "shows_client c' (fold view_step (map snd [(7 :: u64, Trade 7 4 (I32 100))]) one_bid_view)"
    using snapshot_recovery_shows_feed [OF sorts_sort_by one_bid_writer_shows _ _ h live _ _ feed _ c] e left
    by (auto simp: one_bid_writer_lists)
  then show ?thesis by (auto simp: one_bid_writer_lists one_bid_view_def)
qed

text \<open>The same writer after the order has been deleted, and a client that hears both.\<close>

definition emptied_writer :: snapshot_writer where
  "emptied_writer = drain (one_bid_writer\<lparr>sw_queue := payloads_of 3 [DeleteOrder 7]\<rparr>)"

lemma emptied_writer_shows: "shows_writer emptied_writer Map.empty"
proof -
  let ?w = "one_bid_writer\<lparr>sw_queue := payloads_of 3 [DeleteOrder 7]\<rparr>"
  have "feed_ok [DeleteOrder 7] one_bid_view" using one_bid_view_ok by (simp add: one_bid_view_def)
  then have "shows_writer (fst (fold read_writer [DeleteOrder 7] (?w, 3))) (fold view_step [DeleteOrder 7] one_bid_view)"
    using one_bid_writer_shows by (intro snapshot_reader.feed_shows) simp_all
  then show ?thesis by (simp add: emptied_writer_def one_bid_view_def drain_def apply_payloads)
qed

lemma emptied_writer_lists: "sw_last_md_seq_num emptied_writer = 3" "side_orders bs y emptied_writer = []"
proof -
  show "sw_last_md_seq_num emptied_writer = 3"
    by (simp add: emptied_writer_def drain_def apply_payload_def md_payload_of_def on_delete_def Let_def split: option.split)
  have "only y Map.empty = Map.empty" for y by (simp add: only_def)
  have "lists_orders y bs (side_orders bs y emptied_writer) (part_of y bs Map.empty)" if "y \<in> {1, 2}" for y bs
    using shows_writer_side [OF emptied_writer_shows that] .
  then have "i \<notin> no_order_id ` set (side_orders bs y emptied_writer)" if "y \<in> {1, 2}" for i y bs
    using that orders_view_None [of "side_orders bs y emptied_writer" i]
    by (simp add: lists_orders_def part_of_def part_def)
  then have known: "side_orders bs y emptied_writer = []" if "y \<in> {1, 2}" for y bs
    using that by (meson ex_in_conv image_is_empty set_empty)
  have "side_orders bs y emptied_writer = []" if "y \<notin> {1, 2}" for y bs
  proof -
    have "map fst (sw_bids emptied_writer) = [1, 2]" "map fst (sw_asks emptied_writer) = [1, 2]"
      using shows_writer_keys [OF emptied_writer_shows] by (simp_all add: writer_keys_def)
    then have "map_of (sw_bids emptied_writer) y = None" "map_of (sw_asks emptied_writer) y = None"
      using that by (metis insertCI list.simps(15) map_of_eq_None_iff set_map singletonD insertE empty_iff list.set(1))+
    then show ?thesis by (cases bs) (simp_all add: side_orders.simps orders_at_def del: named_lists)
  qed
  with known show "side_orders bs y emptied_writer = []" by blast
qed

text \<open>
  The order is deleted in message 3, which the second snapshot covers; the client has message 3 but
  skips it, and keeps the order of the first snapshot.
\<close>

theorem mixed_snapshots_miss_updates_witness:
  "\<exists>e c'. wait_for_snapshot e (new_md_client False) = Some (Inr c') \<and> mc_last_seq c' = 3 \<and>
     tracks_client c' one_bid_view \<and> fold view_step [one_bid, Heartbeat, DeleteOrder 7] Map.empty = Map.empty"
proof -
  let ?l1 = "[(5, one_bid), (6, Heartbeat)] :: stamped list" and ?l2 = "[(7, DeleteOrder 7)] :: stamped list"
  let ?g1 = "map (Pair 9) [SnapshotInfo 1 1 0 2, one_bid]" and ?g2 = "[(11, SnapshotInfo 2 0 0 3)]"
  let ?e = "\<lparr>me_live = (\<lambda>i. if i = 0 then Received (encode_run 1 ?l1) else Received (encode_run 3 ?l2)),
     me_snapshot = (\<lambda>i. if i = 0 then Received (snapshot_run ?g1) else Received (snapshot_run ?g2)),
     me_leaves_group = True, me_freed = (\<lambda>x. x)\<rparr>"
  let ?c = "new_md_client False" and ?rs = "[LiveAndSnapshot ?l1 ?g1, LiveAndSnapshot ?l2 ?g2]"
  have "snapshot_of sort_by emptied_writer [2] = [SnapshotInfo 2 0 0 3]"
    by (simp add: snapshot_of_def emptied_writer_lists sort_by_def)
  then have h: "catching_up sort_by 1 one_bid_writer 2 emptied_writer ?e ?c 1 ?rs"
    by (simp add: catching_up_def one_bid_snapshot one_bid_writer_lists one_bid_writer_small emptied_writer_lists
        new_md_client_def one_bid_def MD_BUF_def)
  have live: "live_heard ?rs = (?l1 @ ?l2) @ []" by simp
  have v: "only 1 one_bid_view ++ only 2 Map.empty = one_bid_view"
    by (auto simp: only_def one_bid_view_def fun_eq_iff map_add_def split: option.split)
  have feed: "feed_ok (map snd ([] :: stamped list)) (only 1 one_bid_view ++ only 2 Map.empty)"
    unfolding v using one_bid_view_ok by simp
  have dom: "dom (only 1 one_bid_view) \<inter> dom (only 2 Map.empty) = {}" by (simp add: only_def)
  have c: "shows_client ?c Map.empty" "mc_live_buffer ?c = []"
    by (rule whole_book.new_client_shows, simp add: new_md_client_def)
  obtain c' where "wait_for_snapshot ?e ?c = Some (Inr c')" "mc_last_seq c' = 3" "tracks_client c' one_bid_view"
    using mixed_snapshots_miss_updates [OF sorts_sort_by one_bid_writer_shows emptied_writer_shows _ _ dom h live _ _ feed _ c]
    unfolding v by (auto simp: emptied_writer_lists)
  then show ?thesis by (auto simp: one_bid_def)
qed

end
