(* ===== verification/Clearing_Client.thy ===== *)
theory Clearing_Client imports
  Md_Client Publishers
begin

text \<open>
  \<open>web_data/clearing_client.cpp\<close>: a listener of the clearing feed that keeps the position, the
  turnover and the raw profit of every client and symbol.
\<close>

section \<open>State\<close>

text \<open>
  \<open>unordered_map<uint32_t, unordered_map<uint32_t, T>>\<close>, by client and symbol.  \<open>m[c][y]\<close> inserts
  an empty map and a zero where there is none, also when it is only read.
\<close>

type_synonym 'a ledger = "u32 \<rightharpoonup> (u32 \<rightharpoonup> 'a)"

definition ledger_at :: "'a \<Rightarrow> 'a ledger \<Rightarrow> u32 \<Rightarrow> u32 \<Rightarrow> 'a" where
  "ledger_at zero m c y = fst (subscript zero y (fst (subscript Map.empty c m)))"

definition entry_upd :: "'a \<Rightarrow> u32 \<Rightarrow> u32 \<Rightarrow> ('a \<Rightarrow> 'a) \<Rightarrow> 'a ledger \<Rightarrow> 'a ledger" where
  "entry_upd zero c y f m =
    (let row = fst (subscript Map.empty c m); x = fst (subscript zero y row)
     in m(c \<mapsto> row(y \<mapsto> f x)))"

record clearing_client =
  cc_last_seq :: u64
  cc_positions :: "i32 ledger"
  cc_raw_pnl :: "i32 ledger"
  cc_total_buy :: "u32 ledger"
  cc_total_sell :: "u32 ledger"
  cc_volume :: "u32 ledger"

datatype clearing_error = ClearingReceiveFailed | ClearingInvalidMagic

definition new_clearing_client :: clearing_client where
  "new_clearing_client = \<lparr>cc_last_seq = 0, cc_positions = Map.empty, cc_raw_pnl = Map.empty,
     cc_total_buy = Map.empty, cc_total_sell = Map.empty, cc_volume = Map.empty\<rparr>"
text \<open>What the web page asks for.\<close>

definition get_positions :: "clearing_client \<Rightarrow> i32 ledger" where "get_positions k = cc_positions k"

definition get_raw_pnl :: "clearing_client \<Rightarrow> i32 ledger" where "get_raw_pnl k = cc_raw_pnl k"

definition get_volume :: "clearing_client \<Rightarrow> u32 ledger" where "get_volume k = cc_volume k"

section \<open>A datagram\<close>

text \<open>
  A signed entry and an unsigned quantity are added as unsigned numbers.  The product of the
  quantity and the price is one of unsigned numbers too.
\<close>

definition add_i32 :: "u32 \<Rightarrow> i32 \<Rightarrow> i32" where
  "add_i32 q x = I32 (i32_bits x + q)"

definition sub_i32 :: "u32 \<Rightarrow> i32 \<Rightarrow> i32" where
  "sub_i32 q x = I32 (i32_bits x - q)"

definition bought :: "u32 \<Rightarrow> u32 \<Rightarrow> u32 \<Rightarrow> i32 \<Rightarrow> clearing_client \<Rightarrow> clearing_client" where
  "bought c y q p k = k\<lparr>cc_positions := entry_upd (I32 0) c y (add_i32 q) (cc_positions k),
     cc_total_buy := entry_upd 0 c y (\<lambda>t. t + q * i32_bits p) (cc_total_buy k)\<rparr>"

definition sold :: "u32 \<Rightarrow> u32 \<Rightarrow> u32 \<Rightarrow> i32 \<Rightarrow> clearing_client \<Rightarrow> clearing_client" where
  "sold c y q p k = k\<lparr>cc_positions := entry_upd (I32 0) c y (sub_i32 q) (cc_positions k),
     cc_total_sell := entry_upd 0 c y (\<lambda>t. t + q * i32_bits p) (cc_total_sell k)\<rparr>"

definition booked :: "u32 \<Rightarrow> u32 \<Rightarrow> u32 \<Rightarrow> clearing_client \<Rightarrow> clearing_client" where
  "booked c y q k =
    (let sell = ledger_at 0 (cc_total_sell k) c y; buy = ledger_at 0 (cc_total_buy k) c y
     in k\<lparr>cc_volume := entry_upd 0 c y (\<lambda>v. v + q) (cc_volume k),
          cc_total_sell := entry_upd 0 c y (\<lambda>t. t) (cc_total_sell k),
          cc_total_buy := entry_upd 0 c y (\<lambda>t. t) (cc_total_buy k),
          cc_raw_pnl := entry_upd (I32 0) c y (\<lambda>_. I32 (sell - buy)) (cc_raw_pnl k)\<rparr>)"

definition book_fill :: "fill \<Rightarrow> clearing_client \<Rightarrow> clearing_client" where
  "book_fill f k =
    (let c = fl_client_id f; y = fl_symbol f; q = fl_quantity f
     in case fl_side f of
          BUY \<Rightarrow> booked c y q (bought c y q (fl_price f) k)
        | SELL \<Rightarrow> booked c y q (sold c y q (fl_price f) k)
        | SideByte b \<Rightarrow> k)"

text \<open>
  \<open>buf\<close> is the whole receive buffer and \<open>n\<close> what \<open>recvfrom\<close> has put into its front; the header is
  read whatever \<open>n\<close> is, behind it from the previous datagrams.
\<close>

definition hear_clearing :: "u8 list \<Rightarrow> nat \<Rightarrow> clearing_client \<Rightarrow> clearing_error + clearing_client" where
  "hear_clearing buf n k =
    (let f = fill_at buf; k' = k\<lparr>cc_last_seq := ucast (ch_seq_num f)\<rparr>
     in if ch_magic_number f \<noteq> CLEARING_MAGIC_NUMBER then Inl ClearingInvalidMagic
        else if cc_last_seq k \<noteq> 0 \<and> ucast (ch_seq_num f) \<noteq> cc_last_seq k + 1 then Inr k
        else if ch_msg_type f = clearing_type_code CLEARING_FILL then
          (if n < fill_size then Inr k' else Inr (book_fill f k'))
        else Inr k')"

definition CLEARING_BUF :: nat where "CLEARING_BUF = 4096"

definition process_clearing ::
  "recv_answer \<Rightarrow> u8 list \<times> clearing_client \<Rightarrow> clearing_error + (u8 list \<times> clearing_client)" where
  "process_clearing a bk = (case a of
      NothingYet \<Rightarrow> Inr bk
    | RecvError \<Rightarrow> Inl ClearingReceiveFailed
    | Received bs \<Rightarrow>
        (let bs = take CLEARING_BUF bs; buf = bs @ drop (length bs) (fst bk)
         in map_sum id (Pair buf) (hear_clearing buf (length bs) (snd bk))))"

section \<open>What a fill changes\<close>

lemma ledger_at_upd [simp]:
  "ledger_at z (entry_upd z c y f m) c' y' = (if c' = c \<and> y' = y then f (ledger_at z m c y) else ledger_at z m c' y')"
  by (auto simp: ledger_at_def entry_upd_def subscript_def Let_def split: option.splits)

lemma ledger_at_empty [simp]: "ledger_at z Map.empty c y = z"
  by (simp add: ledger_at_def subscript_def)

text \<open>The signed quantity of a fill, as an unsigned number that wraps.\<close>

definition signed_quantity :: "side \<Rightarrow> u32 \<Rightarrow> u32" where
  "signed_quantity sd q = (case sd of BUY \<Rightarrow> q | SELL \<Rightarrow> - q | SideByte b \<Rightarrow> 0)"

definition position :: "clearing_client \<Rightarrow> u32 \<Rightarrow> u32 \<Rightarrow> u32" where
  "position k c y = i32_bits (ledger_at (I32 0) (cc_positions k) c y)"

lemma book_fill_position:
  "position (book_fill f k) c y = position k c y +
     (if c = fl_client_id f \<and> y = fl_symbol f then signed_quantity (fl_side f) (fl_quantity f) else 0)"
  by (simp add: position_def book_fill_def booked_def bought_def sold_def Let_def signed_quantity_def
      add_i32_def sub_i32_def split: side.split)

lemma book_fill_profit:
  assumes "fl_side f \<in> {BUY, SELL}" "c = fl_client_id f" "y = fl_symbol f"
  shows "i32_bits (ledger_at (I32 0) (cc_raw_pnl (book_fill f k)) c y) =
    ledger_at 0 (cc_total_sell (book_fill f k)) c y - ledger_at 0 (cc_total_buy (book_fill f k)) c y"
  using assms by (auto simp: book_fill_def booked_def bought_def sold_def Let_def)

lemma book_fill_seq [simp]: "cc_last_seq (book_fill f k) = cc_last_seq k"
  by (simp add: book_fill_def booked_def bought_def sold_def Let_def split: side.split)

end
