(* ===== verification/Clearing_Props.thy ===== *)
theory Clearing_Props imports
  Clearing_Client Broker_Props
begin

text \<open>
  The clearing feed from the engine to its listeners: every fill of a payload is published, a
  listener books it, and the positions of all clients in a symbol keep adding up to what they were.
\<close>

section \<open>The fills a broker publishes\<close>

text \<open>A fill as it is booked: client, symbol, quantity, price and side.\<close>

type_synonym booking = "u32 \<times> u32 \<times> u32 \<times> i32 \<times> side"

fun bookings :: "u32 \<Rightarrow> (u32 \<rightharpoonup> u32) \<Rightarrow> call \<Rightarrow> booking list" where
  "bookings c ids (OnFill i y s q p f active) = [(if active then c else the (ids (client_key i)), y, q, p, s)]"
| "bookings c ids _ = []"

fun numbered_fill :: "u32 \<Rightarrow> booking \<Rightarrow> fill" where
  "numbered_fill n (c, y, q, p, s) = \<lparr>ch_magic_number = CLEARING_MAGIC_NUMBER, ch_length = of_nat fill_size,
     ch_seq_num = n, ch_msg_type = clearing_type_code CLEARING_FILL, fl_client_id = c, fl_symbol = y,
     fl_quantity = q, fl_price = p, fl_side = s\<rparr>"

fun fill_datagrams :: "u32 \<Rightarrow> booking list \<Rightarrow> u8 list list" where
  "fill_datagrams n [] = []"
| "fill_datagrams n (x # xs) = encode_fill (numbered_fill n x) # fill_datagrams (n + 1) xs"

lemma fill_datagrams_append [simp]:
  "fill_datagrams n (xs @ ys) = fill_datagrams n xs @ fill_datagrams (n + of_nat (length xs)) ys"
  by (induction xs arbitrary: n) (simp_all add: algebra_simps)

abbreviation clearing_seq :: "broker \<Rightarrow> u32" where
  "clearing_seq b \<equiv> ch_seq_num (cp_fill_msg (bk_clearing b))"

definition clearing_ready :: "broker \<Rightarrow> bool" where
  "clearing_ready b \<longleftrightarrow> ch_magic_number (cp_fill_msg (bk_clearing b)) = CLEARING_MAGIC_NUMBER \<and>
     cp_fd (bk_clearing b) \<noteq> pub_fd (bk_publisher b)"

definition clears :: "broker \<Rightarrow> booking list \<Rightarrow> broker \<Rightarrow> bool" where
  "clears b xs b' \<longleftrightarrow> (let fd = cp_fd (bk_clearing b) in
     datagrams fd (bk_system b') = datagrams fd (bk_system b) @ fill_datagrams (clearing_seq b + 1) xs \<and>
     clearing_seq b' = clearing_seq b + of_nat (length xs) \<and> clearing_ready b' \<and>
     cp_fd (bk_clearing b') = fd \<and> bk_client_id b' = bk_client_id b \<and> bk_client_of b' = bk_client_of b)"

lemma clears_refl: "clearing_ready b \<Longrightarrow> clears b [] b"
  by (simp add: clears_def)

lemma clears_trans: "clears b xs b1 \<Longrightarrow> clears b1 ys b2 \<Longrightarrow> clears b (xs @ ys) b2"
  by (simp add: clears_def Let_def algebra_simps)

text \<open>The market data publisher leaves the datagrams of other sockets alone.\<close>

definition elsewhere :: "sock \<Rightarrow> publisher \<Rightarrow> system \<Rightarrow> publishing \<Rightarrow> bool" where
  "elsewhere fd p s r = (case r of Inl err \<Rightarrow> True
     | Inr (p', s') \<Rightarrow> pub_fd p' = pub_fd p \<and> datagrams fd s' = datagrams fd s)"

lemma elsewhere_simps [simp]:
  "elsewhere fd p s (Inl err)"
  "elsewhere fd p s (Inr (p', s')) \<longleftrightarrow> pub_fd p' = pub_fd p \<and> datagrams fd s' = datagrams fd s"
  by (simp_all add: elsewhere_def)

lemma elsewhere_trans:
  "elsewhere fd p s (Inr (p1, s1)) \<Longrightarrow> elsewhere fd p1 s1 r \<Longrightarrow> elsewhere fd p s r"
  by (cases r) auto

lemma send_packet_elsewhere: "fd \<noteq> pub_fd p \<Longrightarrow> elsewhere fd p s (send_packet e p s)"
  by (simp add: send_packet_def Let_def)

lemma append_msg_elsewhere: "elsewhere fd p s (Inr (append_msg e m p s))"
  by (auto simp: append_msg_def datagrams_nanotime split: prod.splits)

lemma write_md_elsewhere:
  assumes "fd \<noteq> pub_fd p"
  shows "elsewhere fd p s (write_md e m p s)"
proof (cases "send_packet e p s")
  case (Inr ps)
  obtain p1 s1 where ps: "ps = (p1, s1)" by (cases ps)
  have "elsewhere fd p s (Inr (p1, s1))" using send_packet_elsewhere [OF assms, of s e] Inr ps by simp
  from elsewhere_trans [OF this append_msg_elsewhere] append_msg_elsewhere show ?thesis
    by (simp add: write_md_def Inr ps)
qed (use append_msg_elsewhere in \<open>simp add: write_md_def split: prod.split\<close>)

lemma write_mds_elsewhere: "fd \<noteq> pub_fd p \<Longrightarrow> elsewhere fd p s (write_mds e ms p s)"
proof (induction ms arbitrary: p s)
  case (Cons m ms)
  show ?case
  proof (cases "write_md e m p s")
    case (Inr ps)
    obtain p1 s1 where ps: "ps = (p1, s1)" by (cases ps)
    have first: "elsewhere fd p s (Inr (p1, s1))" using write_md_elsewhere [OF Cons.prems, of s e m] Inr ps by simp
    then have "elsewhere fd p1 s1 (write_mds e ms p1 s1)" using Cons by simp
    from elsewhere_trans [OF first this] show ?thesis by (simp add: Inr ps)
  qed simp
qed simp

lemma write_and_send_elsewhere:
  assumes "fd \<noteq> pub_fd p"
  shows "elsewhere fd p s (write_and_send e m p s)"
proof (cases "write_md e m p s")
  case (Inr ps)
  obtain p1 s1 where ps: "ps = (p1, s1)" by (cases ps)
  have first: "elsewhere fd p s (Inr (p1, s1))" using write_md_elsewhere [OF assms, of s e m] Inr ps by simp
  then have "elsewhere fd p1 s1 (send_packet e p1 s1)" using assms by (intro send_packet_elsewhere) simp
  from elsewhere_trans [OF first this] show ?thesis by (simp add: write_and_send_def Inr ps)
qed (simp add: write_and_send_def)

lemma publish_queued_trades_elsewhere:
  assumes "fd \<noteq> pub_fd p"
  shows "elsewhere fd p s (publish_queued_trades e y a p s)"
proof (cases "publish_queued_trades e y a p s")
  case (Inr ps)
  obtain p' s' where ps: "ps = (p', s')" by (cases ps)
  let ?ts = "pub_queued_trades p"
  let ?m = "TradeSummary y a (trades_total ?ts) (trades_last_price ?ts)"
  show ?thesis
  proof (cases "?ts = []")
    case False
    then obtain p1 s1 p2 s2 where 1: "write_md e ?m p s = Inr (p1, s1)" "write_mds e ?ts p1 s1 = Inr (p2, s2)"
      "send_packet e (p2\<lparr>pub_queued_trades := []\<rparr>) s2 = Inr (p', s')"
      using Inr ps by (auto simp: publish_queued_trades_def Let_def split: sum.splits)
    have 2: "pub_fd p1 = pub_fd p" "datagrams fd s1 = datagrams fd s"
      using write_md_elsewhere [OF assms, of s e ?m] 1(1) by simp_all
    then have 3: "pub_fd p2 = pub_fd p" "datagrams fd s2 = datagrams fd s"
      using write_mds_elsewhere [of fd p1 s1 e ?ts] 1(2) assms by simp_all
    then show ?thesis
      using send_packet_elsewhere [of fd "p2\<lparr>pub_queued_trades := []\<rparr>" s2 e] 1(3) assms Inr ps by simp
  qed (simp add: publish_queued_trades_def)
qed simp

lemma with_publisher_clears:
  assumes "clearing_ready b" "map_sum id (stamp e) (with_publisher f b) = Inr b'"
    "\<And>fd p s. fd \<noteq> pub_fd p \<Longrightarrow> elsewhere fd p s (f p s)"
  shows "clears b [] b'"
proof -
  obtain p s where p: "f (bk_publisher b) (bk_system b) = Inr (p, s)"
    "b' = stamp e (b\<lparr>bk_publisher := p, bk_system := s\<rparr>)"
    using assms(2) by (auto simp: with_publisher_def split: sum.splits)
  have "pub_fd p = pub_fd (bk_publisher b)"
    "datagrams (cp_fd (bk_clearing b)) s = datagrams (cp_fd (bk_clearing b)) (bk_system b)"
    using assms(1) assms(3) [of "cp_fd (bk_clearing b)" "bk_publisher b" "bk_system b"] p(1)
    by (simp_all add: clearing_ready_def)
  then show ?thesis using assms(1) by (simp add: clears_def p(2) clearing_ready_def)
qed

lemma emplace_clears: "clears b xs b' \<Longrightarrow> clears b xs (emplace r b')"
  by (simp add: clears_def emplace_def clearing_ready_def)

lemma fill_msg_fields: "ch_magic_number f = CLEARING_MAGIC_NUMBER \<Longrightarrow>
    f\<lparr>ch_length := l, ch_msg_type := t, ch_seq_num := n, fl_client_id := c, fl_symbol := y,
      fl_quantity := q, fl_price := p, fl_side := s\<rparr>
    = \<lparr>ch_magic_number = CLEARING_MAGIC_NUMBER, ch_length = l, ch_seq_num = n, ch_msg_type = t,
       fl_client_id = c, fl_symbol = y, fl_quantity = q, fl_price = p, fl_side = s\<rparr>"
  by (cases f) simp

lemma publish_fill_clears:
  assumes "clearing_ready b" "publish_fill e i c y q p s (bk_clearing b) (bk_system b) = Inr (cp, sys)"
  shows "clears b [(c, y, q, p, s)] (b\<lparr>bk_clearing := cp, bk_system := sys\<rparr>)"
  using assms
  by (auto simp: publish_fill_def Let_def clears_def clearing_ready_def fill_msg_fields split: if_splits)

lemma on_call_clears:
  assumes ready: "clearing_ready b" and run: "on_call e x b = Inr b'"
  shows "clears b (bookings (bk_client_id b) (bk_client_of b) x) b'"
proof (cases x)
  case (OnNewOrder i y s q p f)
  have "onNewOrder e i y s q p f b = Inr b'" using run OnNewOrder by simp
  then obtain b1 r where b1: "(if q > 0
      then map_sum id (stamp e) (with_publisher (write_and_send e (NewOrder i y s q p f)) b)
      else Inr b) = Inr b1" "b' = emplace r b1"
    unfolding onNewOrder_def publish_defs by (auto split: sum.splits)
  have "clears b [] b1"
    using b1(1) with_publisher_clears [OF ready _ write_and_send_elsewhere] clears_refl [OF ready]
    by (cases "q > 0") simp_all
  then show ?thesis using emplace_clears OnNewOrder b1(2) by simp
next
  case (OnModifyOrder i y s q p)
  from run OnModifyOrder obtain b1 r where b1:
    "map_sum id (stamp e) (with_publisher (write_and_send e (ModifyOrder i s q p)) b) = Inr b1"
    "b' = emplace r b1"
    by (auto simp: onModifyOrder_def publish_defs split: sum.splits)
  from with_publisher_clears [OF ready b1(1) write_and_send_elsewhere] show ?thesis
    using emplace_clears OnModifyOrder b1(2) by simp
next
  case (OnDeleteOrder i pub)
  have "onDeleteOrder e i pub b = Inr b'" using run OnDeleteOrder by simp
  then obtain b1 r where b1: "(if pub
      then map_sum id (stamp e) (with_publisher (write_and_send e (DeleteOrder i)) b)
      else Inr b) = Inr b1" "b' = emplace r b1"
    unfolding onDeleteOrder_def publish_defs by (auto split: sum.splits)
  have "clears b [] b1"
    using b1(1) with_publisher_clears [OF ready _ write_and_send_elsewhere] clears_refl [OF ready]
    by (cases pub) simp_all
  then show ?thesis using emplace_clears OnDeleteOrder b1(2) by simp
next
  case (OnCancelReject i)
  with run emplace_clears [OF clears_refl [OF ready]] show ?thesis by (auto simp: onCancelReject_def)
next
  case (OnTrade i q p)
  with run ready show ?thesis
    by (auto simp: onTrade_def clears_def queue_trade_def clearing_ready_def)
next
  case (OnFill i y s q p f active)
  then obtain c where c: "(if active then Some (bk_client_id b) else bk_client_of b (client_key i)) = Some c"
    using run by (auto simp: onFill_def Let_def split: option.splits)
  obtain r where fill: "\<exists>cp sys. publish_fill e i c y q p s (bk_clearing (emplace r b)) (bk_system (emplace r b))
      = Inr (cp, sys) \<and> b' = (emplace r b)\<lparr>bk_clearing := cp, bk_system := sys\<rparr>"
    using run OnFill c by (auto simp: onFill_def Let_def split: sum.splits)
  have "clears b [] (emplace r b)" by (rule emplace_clears [OF clears_refl [OF ready]])
  moreover have "clearing_ready (emplace r b)" using calculation by (simp add: clears_def Let_def)
  ultimately show ?thesis
    using fill publish_fill_clears [of "emplace r b" e i c y q p s] clears_trans [of b "[]"] OnFill c
    by (auto split: if_splits)
qed

lemma on_calls_clears:
  "clearing_ready b \<Longrightarrow> on_calls e xs b = Inr b' \<Longrightarrow>
   clears b (concat (map (bookings (bk_client_id b) (bk_client_of b)) xs)) b'"
proof (induction xs arbitrary: b)
  case Nil
  then show ?case using clears_refl by simp
next
  case (Cons x xs)
  then obtain b1 where b1: "on_call e x b = Inr b1" "on_calls e xs b1 = Inr b'" by (auto split: sum.splits)
  note first = on_call_clears [OF Cons.prems(1) b1(1)]
  then have same: "clearing_ready b1" "bk_client_id b1 = bk_client_id b" "bk_client_of b1 = bk_client_of b"
    by (simp_all add: clears_def Let_def)
  from clears_trans [OF first Cons.IH [OF same(1) b1(2)]] same(2,3) show ?case by simp
qed

text \<open>A whole payload.\<close>

lemma process_payload_clears:
  assumes ready: "clearing_ready b" and p: "is_ladder_payload p" "bk_ladders b (py_symbol p) = Some L"
    and L: "ladder_op p (L\<lparr>l_calls := []\<rparr>) = Some (Inr L')"
    and run: "process_payload e p b = Some (Inr b')"
  shows "clears (at_work p b)
    (concat (map (bookings (py_client_id p) (bk_client_of (at_work p b))) (l_calls L'))) b'"
proof -
  have "handle_payload e p b = run_ladder e (py_symbol p) (ladder_op p) (at_work p b)"
    using p by (intro handle_payload_ladder) simp_all
  also have "\<dots> = Some (on_calls e (l_calls L') ((at_work p b)\<lparr>bk_ladders := (bk_ladders b)(py_symbol p \<mapsto> L')\<rparr>))"
    using p(2) L by (simp add: run_ladder_def)
  finally obtain b1 b2 where b1: "on_calls e (l_calls L') ((at_work p b)\<lparr>bk_ladders := (bk_ladders b)(py_symbol p \<mapsto> L')\<rparr>)
      = Inr b1" "finished_packet e (py_symbol p) b1 = Inr b2" "b' = b2\<lparr>bk_from_client := tl (bk_from_client b2)\<rparr>"
    using run by (auto simp: process_payload_def split: option.splits sum.splits)
  let ?b = "(at_work p b)\<lparr>bk_ladders := (bk_ladders b)(py_symbol p \<mapsto> L')\<rparr>"
  have "clearing_ready ?b" using ready by (simp add: clearing_ready_def)
  from on_calls_clears [OF this b1(1)]
  have 1: "clears ?b (concat (map (bookings (py_client_id p) (bk_client_of (at_work p b))) (l_calls L'))) b1"
    by simp
  then have "clearing_ready b1" by (simp add: clears_def Let_def)
  from with_publisher_clears [OF this b1(2) [unfolded finished_packet_def] publish_queued_trades_elsewhere]
  have "clears b1 [] b2" .
  from clears_trans [OF 1 this] show ?thesis by (simp add: clears_def b1(3) clearing_ready_def)
qed

section \<open>The sides of resting orders\<close>

definition proper_side :: "side \<Rightarrow> bool" where
  "proper_side sd \<longleftrightarrow> sd = BUY \<or> sd = SELL"

definition level_sides :: "book_levels \<Rightarrow> side set" where
  "level_sides m = (\<Union>(p, rs) \<in> set m. r_side ` set rs)"

definition proper_book :: "book \<Rightarrow> bool" where
  "proper_book B \<longleftrightarrow> (\<forall>bs. \<forall>sd \<in> level_sides (B bs). proper_side sd)"

lemma level_sides_simps [simp]:
  "level_sides [] = {}" "level_sides ((p, rs) # m) = r_side ` set rs \<union> level_sides m"
  "level_sides (m @ m') = level_sides m \<union> level_sides m'"
  by (auto simp: level_sides_def)

lemma served_sides: "served rs rs' \<Longrightarrow> r_side ` set rs' \<subseteq> r_side ` set rs"
  using set_drop_subset by (fastforce simp: served_def subset_iff)

lemma served_book_sides: "served_book m m' \<Longrightarrow> level_sides m' \<subseteq> level_sides m"
  using served_sides by (fastforce simp: served_book_def)

lemma book_insert_sides:
  assumes "levels_ok bs m"
  shows "level_sides (book_insert bs p r m) \<subseteq> insert (r_side r) (level_sides m)"
proof -
  obtain m1 rs m2 where ins: "book_insert bs p r m = m1 @ (p, rs @ [r]) # m2"
    and "m = m1 @ (p, rs) # m2 \<or> rs = [] \<and> m = m1 @ m2 \<and>
      (\<forall>e \<in> set m1. before bs (fst e) p) \<and> (\<forall>e \<in> set m2. before bs p (fst e))"
    by (rule book_insert_split [OF assms])
  then show ?thesis unfolding ins by auto
qed

lemma book_remove_sides: "level_sides (book_remove i m) \<subseteq> level_sides m"
  by (induction m) (auto simp: book_remove_def)

lemma book_modify_sides:
  assumes "\<And>r. r_side (f r) = r_side r"
  shows "level_sides (book_modify i f m) = level_sides m"
proof -
  have "map r_side (map (\<lambda>r. if r_order_id r = i then f r else r) rs) = map r_side rs" for rs
    using assms by simp
  then have "r_side ` set (map (\<lambda>r. if r_order_id r = i then f r else r) rs) = r_side ` set rs" for rs
    by (metis list.set_map)
  note same = this
  show ?thesis
  proof (induction m)
    case (Cons e m)
    obtain p rs where "e = (p, rs)" by (cases e)
    with Cons same [of rs] show ?case by (simp add: book_modify_def del: set_map)
  qed (simp add: book_modify_def)
qed

lemma proper_remove: "proper_book B \<Longrightarrow> proper_book (remove_order i B)"
  using book_remove_sides by (fastforce simp: proper_book_def remove_order_def)

lemma proper_enter:
  assumes "book_ok B" "proper_book B" "proper_side sd"
    "enter_order i sd y q price flags notify B = (left, B', cs)"
  shows "proper_book B'"
proof -
  let ?opp = "opposite_of_side sd" and ?own = "levels_of_side sd"
  obtain left' m cs' where fb: "fill_book i sd y price q (B ?opp) = (left', m, cs')" by (metis prod_cases3)
  from served_book_sides [OF fill_book_served [OF fb]] have m: "level_sides m \<subseteq> level_sides (B ?opp)" .
  have ins: "level_sides (book_insert ?own price r (B ?own)) \<subseteq> insert (r_side r) (level_sides (B ?own))" for r
    by (rule book_insert_sides [OF book_ok_levels [OF assms(1)]])
  show ?thesis
    using assms(2-4) m ins fb unfolding proper_book_def
    by (fastforce simp: enter_order_def Let_def split: if_splits)
qed

lemma proper_find:
  assumes "proper_book B" "find_order i B = Some (p, r)"
  shows "proper_side (r_side r)"
proof -
  obtain bs where "book_find i (B bs) = Some (p, r)"
    using assms(2) by (auto simp: find_order_def split: option.splits)
  then obtain m1 rs1 rs2 m2 where "B bs = m1 @ (p, rs1 @ r # rs2) # m2" by (rule book_find_SomeE)
  then have "r_side r \<in> level_sides (B bs)" by simp
  then show ?thesis using assms(1) by (auto simp: proper_book_def)
qed

lemma proper_op:
  assumes "book_ok B" "proper_book B" "proper_side (py_side p)"
  shows "proper_book (fst (spec_op p B))"
proof -
  have new: "proper_book (fst (spec_new_order i sd y q price flags B))" if "proper_side sd" for i sd y q price flags
    using proper_enter [OF assms(1,2) that, of i y q price flags True]
    by (cases "enter_order i sd y q price flags True B") (simp add: spec_new_order_def)
  have delete: "proper_book (fst (spec_delete_order i B))" for i
    using proper_remove [OF assms(2)] assms(2) by (simp add: spec_delete_order_def split: option.split)
  have modify: "proper_book (fst (coded_modify_order i sd y q price B))" if "proper_side sd" for i sd y q price
  proof (cases "find_order i B")
    case (Some e)
    obtain p r where e: "e = (p, r)" by (cases e)
    obtain left B' cs where enter: "enter_order i sd y (q - r_filled r) price (r_flags r) False
      (remove_order i B) = (left, B', cs)" by (metis prod_cases3)
    have "proper_book B'"
      by (rule proper_enter [OF book_ok_remove [OF assms(1)] proper_remove [OF assms(2)] that enter])
    moreover have "proper_book (\<lambda>bs. book_modify i (\<lambda>r. r\<lparr>r_quantity := q\<rparr>) (B bs))"
      using assms(2) by (simp add: proper_book_def book_modify_sides)
    ultimately show ?thesis using proper_remove [OF assms(2)]
      by (simp add: coded_modify_order_def Some e enter)
  qed (simp add: coded_modify_order_def assms(2))
  show ?thesis using new [OF assms(3)] delete modify [OF assms(3)]
    by (cases "py_msg_type p") (simp_all add: spec_op_def)
qed

section \<open>Every trade has two sides\<close>

text \<open>The signed quantity that bookings add to a symbol.\<close>

definition booked_in :: "u32 \<Rightarrow> booking list \<Rightarrow> u32" where
  "booked_in y xs = (\<Sum>(c, y', q, p, s) \<leftarrow> xs. if y' = y then signed_quantity s q else 0)"

abbreviation all_bookings :: "u32 \<Rightarrow> (u32 \<rightharpoonup> u32) \<Rightarrow> call list \<Rightarrow> booking list" where
  "all_bookings c ids cs \<equiv> concat (map (bookings c ids) cs)"

lemma booked_in_simps [simp]: "booked_in y [] = 0" "booked_in y (xs @ ys) = booked_in y xs + booked_in y ys"
  "booked_in y (x # xs) = booked_in y [x] + booked_in y xs"
  by (simp_all add: booked_in_def)

declare booked_in_simps(3) [simp del]

text \<open>Bookings that move quantity between clients but make none, on sides that can be sent.\<close>

fun canonical_booking :: "booking \<Rightarrow> bool" where
  "canonical_booking (c, y, q, p, s) \<longleftrightarrow> s \<notin> {SideByte 1, SideByte 2}"

definition balanced :: "booking list \<Rightarrow> bool" where
  "balanced xs \<longleftrightarrow> (\<forall>y. booked_in y xs = 0) \<and> (\<forall>x \<in> set xs. canonical_booking x)"

lemma balanced_simps [simp]: "balanced []" "balanced xs \<Longrightarrow> balanced ys \<Longrightarrow> balanced (xs @ ys)"
  by (auto simp: balanced_def)

lemma balanced_pair:
  assumes "proper_side sd" "proper_side sd'" "levels_of_side sd' = opposite_of_side sd"
  shows "balanced [(c, y, q, p, sd'), (c', y, q, p, sd)]"
  using assms
  by (auto simp: balanced_def booked_in_def proper_side_def levels_of_side_def opposite_of_side_def signed_quantity_def)

definition faces :: "side \<Rightarrow> resting list \<Rightarrow> bool" where
  "faces sd rs \<longleftrightarrow> (\<forall>r \<in> set rs. proper_side (r_side r) \<and> levels_of_side (r_side r) = opposite_of_side sd)"

lemma fill_level_balanced:
  "fill_level iid sd y p q rs = (q', rs', cs) \<Longrightarrow> proper_side sd \<Longrightarrow> faces sd rs \<Longrightarrow>
   balanced (all_bookings c ids cs)"
proof (induction rs arbitrary: q q' rs' cs)
  case (Cons r rs)
  have pair: "balanced [(c1, y, k, p, r_side r), (c2, y, k, p, sd)]" for c1 c2 k
    using Cons.prems by (intro balanced_pair) (simp_all add: faces_def)
  show ?case
  proof (cases "q = 0 \<or> \<not> r_quantity r \<le> q")
    case True
    with Cons.prems(1) pair show ?thesis by (auto simp: partial_fill_calls_def split: if_splits)
  next
    case False
    obtain q1 rs1 cs1 where fl: "fill_level iid sd y p (q - r_quantity r) rs = (q1, rs1, cs1)"
      by (metis prod_cases3)
    with False Cons.prems(1) have cs: "cs = full_fill_calls iid sd y p r (q - r_quantity r) @ cs1" by simp
    have "balanced (all_bookings c ids cs1)" using Cons.IH [OF fl] Cons.prems by (simp add: faces_def)
    moreover have "balanced (all_bookings c ids (full_fill_calls iid sd y p r (q - r_quantity r)))"
      using pair by (simp add: full_fill_calls_def)
    ultimately show ?thesis unfolding cs map_append concat_append by simp
  qed
qed simp

lemma fill_book_balanced:
  "fill_book iid sd y price q m = (q', m', cs) \<Longrightarrow> proper_side sd \<Longrightarrow> \<forall>e \<in> set m. faces sd (snd e) \<Longrightarrow>
   balanced (all_bookings c ids cs)"
proof (induction m arbitrary: q q' m' cs)
  case (Cons e m)
  obtain p rs where e: "e = (p, rs)" by (cases e)
  show ?case
  proof (cases "q = 0 \<or> \<not> crosses sd price p")
    case False
    obtain q1 rs' cs1 where fl: "fill_level iid sd y p q rs = (q1, rs', cs1)" by (metis prod_cases3)
    have level: "balanced (all_bookings c ids cs1)"
      using fill_level_balanced [OF fl Cons.prems(2)] Cons.prems(3) e by simp
    obtain q2 m2 cs2 where fb: "fill_book iid sd y price q1 m = (q2, m2, cs2)" by (metis prod_cases3)
    have "balanced (all_bookings c ids cs2)" using Cons.IH [OF fb Cons.prems(2)] Cons.prems(3) by simp
    moreover have "cs = cs1 @ (if rs' = [] then cs2 else [])" using Cons.prems(1) False e fl fb by auto
    ultimately show ?thesis using level by simp
  qed (use Cons.prems e in auto)
qed simp

lemma enter_balanced:
  assumes "book_ok B" "proper_book B" "proper_side sd"
    "enter_order i sd y q price flags notify B = (left, B', cs)"
  shows "balanced (all_bookings c ids cs)"
proof -
  let ?opp = "opposite_of_side sd"
  obtain left' m cs' where fb: "fill_book i sd y price q (B ?opp) = (left', m, cs')" by (metis prod_cases3)
  have "faces sd rs" if "(p, rs) \<in> set (B ?opp)" for p rs
    unfolding faces_def
  proof (intro ballI conjI)
    fix r
    assume "r \<in> set rs"
    then have "r_side r \<in> level_sides (B ?opp)" using that by (force simp: level_sides_def)
    then show "proper_side (r_side r)" using assms(2) by (auto simp: proper_book_def)
    show "levels_of_side (r_side r) = ?opp"
      using book_ok_levels [OF assms(1), of ?opp] that \<open>r \<in> set rs\<close>
      by (fastforce simp: levels_ok_def resting_ok_def)
  qed
  then have "balanced (all_bookings c ids cs')" by (intro fill_book_balanced [OF fb assms(3)]) auto
  moreover have "all_bookings c ids cs = all_bookings c ids cs'"
    using assms(4) fb by (auto simp: enter_order_def Let_def)
  ultimately show ?thesis by simp
qed

lemma op_balanced:
  assumes "book_ok B" "proper_book B" "proper_side (py_side p)"
  shows "balanced (all_bookings c ids (snd (spec_op p B)))"
proof -
  have new: "balanced (all_bookings c ids (snd (spec_new_order i sd y q price flags B)))"
    if "proper_side sd" for i sd y q price flags
    using enter_balanced [OF assms(1,2) that, of i y q price flags True]
    by (cases "enter_order i sd y q price flags True B") (simp add: spec_new_order_def)
  have delete: "balanced (all_bookings c ids (snd (spec_delete_order i B)))" for i
    by (simp add: spec_delete_order_def split: option.split)
  have modify: "balanced (all_bookings c ids (snd (coded_modify_order i sd y q price B)))"
    if "proper_side sd" for i sd y q price
  proof (cases "find_order i B")
    case (Some e)
    obtain p r where e: "e = (p, r)" by (cases e)
    obtain left B' cs where enter: "enter_order i sd y (q - r_filled r) price (r_flags r) False
      (remove_order i B) = (left, B', cs)" by (metis prod_cases3)
    from enter_balanced [OF book_ok_remove [OF assms(1)] proper_remove [OF assms(2)] that enter]
    show ?thesis by (simp add: coded_modify_order_def Some e enter)
  qed (simp add: coded_modify_order_def)
  show ?thesis using new [OF assms(3)] delete modify [OF assms(3)]
    by (cases "py_msg_type p") (simp_all add: spec_op_def)
qed

text \<open>The same condition on the orders that the ladders hold.\<close>

definition proper_ladder :: "ladder \<Rightarrow> bool" where
  "proper_ladder L \<longleftrightarrow> (\<forall>i x. order_at L i = Some x \<longrightarrow> proper_side (o_side x))"

definition proper_ladders :: "broker \<Rightarrow> bool" where
  "proper_ladders b \<longleftrightarrow> (\<forall>y L. bk_ladders b y = Some L \<longrightarrow> proper_ladder L)"

lemma found_in_side:
  assumes "book_ok B" "(p, rs) \<in> set (B bs)" "r \<in> set rs"
  shows "find_order (r_order_id r) B = Some (p, r)"
proof -
  obtain m1 m2 where m: "B bs = m1 @ (p, rs) # m2" by (metis assms(2) split_list)
  obtain rs1 rs2 where rs: "rs = rs1 @ r # rs2" by (metis assms(3) split_list)
  note ids = book_ok_ids(1) [OF assms(1), of bs]
  have found: "book_find (r_order_id r) (B bs) = Some (p, r)"
    unfolding m rs using ids by (intro book_find_at) (auto simp: m rs)
  show ?thesis
  proof (cases bs)
    case SellLevels
    have "r_order_id r \<in> set (resting_ids (B bs))" by (simp add: m rs)
    then have "r_order_id r \<notin> set (resting_ids (B BuyLevels))"
      using book_ok_ids(2) [OF assms(1), of BuyLevels bs] SellLevels by auto
    then show ?thesis using found SellLevels by (simp add: find_order_def book_find_None [THEN iffD2])
  qed (use found in \<open>simp add: find_order_def\<close>)
qed

lemma proper_ladder_book:
  assumes "represents L B" "book_ok B"
  shows "proper_ladder L \<longleftrightarrow> proper_book B"
proof
  assume L: "proper_ladder L"
  show "proper_book B" unfolding proper_book_def
  proof (intro allI ballI)
    fix bs sd
    assume "sd \<in> level_sides (B bs)"
    then obtain p rs r where r: "(p, rs) \<in> set (B bs)" "r \<in> set rs" "sd = r_side r"
      by (auto simp: level_sides_def)
    from found_in_side [OF assms(2) r(1,2)] obtain x where "order_at L (r_order_id r) = Some x" "abs_order x = r"
      by (rule order_at_SomeE [OF assms])
    then show "proper_side sd" using L r(3) by (auto simp: proper_ladder_def)
  qed
next
  assume "proper_book B"
  then show "proper_ladder L" unfolding proper_ladder_def
    using proper_find order_at_represents [OF assms] by (fastforce simp: abs_order_def)
qed

section \<open>A listener of the feed\<close>

fun hear_datagrams ::
  "u8 list list \<Rightarrow> u8 list \<times> clearing_client \<Rightarrow> clearing_error + (u8 list \<times> clearing_client)" where
  "hear_datagrams [] bk = Inr bk"
| "hear_datagrams (d # ds) bk = (case process_clearing (Received d) bk of
      Inl err \<Rightarrow> Inl err | Inr bk \<Rightarrow> hear_datagrams ds bk)"

lemma canonical_fill [simp]: "canonical_booking x \<Longrightarrow> fl_side (numbered_fill n x) \<notin> {SideByte 1, SideByte 2}"
  by (cases x) simp

lemma ucast_suc: "unat n + 1 < 2 ^ 32 \<Longrightarrow> (ucast (n + 1 :: u32) :: u64) = ucast n + 1"
  by (simp add: word_unat_eq_iff unsigned_ucast_eq unat_word_ariths take_bit_eq_mod)

lemma hear_fill:
  assumes "canonical_booking x" "cc_last_seq k = ucast n" "unat n + 1 < 2 ^ 32"
  shows "process_clearing (Received (encode_fill (numbered_fill (n + 1) x))) (buf, k) =
    Inr (encode_fill (numbered_fill (n + 1) x) @ drop fill_size buf,
      book_fill (numbered_fill (n + 1) x) (k\<lparr>cc_last_seq := ucast (n + 1)\<rparr>))"
proof -
  have "take CLEARING_BUF (encode_fill f) = encode_fill f" for f by (simp add: CLEARING_BUF_def fill_size_def)
  moreover have "fill_at (encode_fill (numbered_fill (n + 1) x) @ rest) = numbered_fill (n + 1) x" for rest
    using assms(1) by (intro fill_at_encode canonical_fill)
  ultimately show ?thesis using assms(2) ucast_suc [OF assms(3)]
    by (cases x) (simp add: process_clearing_def hear_clearing_def Let_def)
qed

definition books_into :: "booking list \<Rightarrow> clearing_client \<Rightarrow> clearing_client \<Rightarrow> bool" where
  "books_into xs k k' \<longleftrightarrow> (\<forall>c y. position k' c y = position k c y +
      booked_in y (filter (\<lambda>x. fst x = c) xs)) \<and>
    dom (cc_positions k') \<subseteq> dom (cc_positions k) \<union> fst ` set xs"

lemma book_fill_fields:
  "position (book_fill (numbered_fill n x) k) c y = position k c y + (if fst x = c then booked_in y [x] else 0)"
  by (cases x) (simp add: book_fill_position booked_in_def)

lemma book_fill_clients:
  "dom (cc_positions (book_fill (numbered_fill n x) k)) \<subseteq> insert (fst x) (dom (cc_positions k))"
  by (cases x) (auto simp: book_fill_def booked_def bought_def sold_def entry_upd_def Let_def split: side.split)

lemma books_into_step:
  assumes "books_into xs (book_fill (numbered_fill n x) k) k'"
  shows "books_into (x # xs) k k'"
  unfolding books_into_def
proof (intro conjI allI)
  fix c y
  have "booked_in y (x # filter (\<lambda>x. fst x = c) xs) = booked_in y [x] + booked_in y (filter (\<lambda>x. fst x = c) xs)"
    by (rule booked_in_simps)
  with assms show "position k' c y = position k c y + booked_in y (filter (\<lambda>x. fst x = c) (x # xs))"
    by (simp add: books_into_def book_fill_fields)
  show "dom (cc_positions k') \<subseteq> dom (cc_positions k) \<union> fst ` set (x # xs)"
  proof -
    have "dom (cc_positions k') \<subseteq> dom (cc_positions (book_fill (numbered_fill n x) k)) \<union> fst ` set xs"
      using assms unfolding books_into_def by (rule conjunct2)
    also have "\<dots> \<subseteq> insert (fst x) (dom (cc_positions k)) \<union> fst ` set xs"
      by (rule Un_mono [OF book_fill_clients subset_refl])
    finally show ?thesis by simp
  qed
qed

lemma hear_fills:
  "\<forall>x \<in> set xs. canonical_booking x \<Longrightarrow> cc_last_seq k = ucast n \<Longrightarrow> unat n + length xs < 2 ^ 32 \<Longrightarrow>
   \<exists>buf' k'. hear_datagrams (fill_datagrams (n + 1) xs) (buf, k) = Inr (buf', k') \<and>
     cc_last_seq k' = ucast (n + of_nat (length xs)) \<and> books_into xs k k'"
proof (induction xs arbitrary: n buf k)
  case Nil
  then show ?case by (simp add: books_into_def)
next
  case (Cons x xs)
  let ?f = "numbered_fill (n + 1) x"
  let ?k = "book_fill ?f (k\<lparr>cc_last_seq := ucast (n + 1)\<rparr>)"
  have small: "unat n + 1 < 2 ^ 32" using Cons.prems(3) by simp
  have n: "unat (n + 1) = unat n + 1" using small by (simp add: unat_word_ariths)
  have "\<exists>buf' k'. hear_datagrams (fill_datagrams (n + 1 + 1) xs) (encode_fill ?f @ drop fill_size buf, ?k) = Inr (buf', k') \<and>
      cc_last_seq k' = ucast (n + 1 + of_nat (length xs)) \<and> books_into xs ?k k'"
    using Cons.prems n by (intro Cons.IH) simp_all
  then obtain buf' k' where k': "hear_datagrams (fill_datagrams (n + 1 + 1) xs)
      (encode_fill ?f @ drop fill_size buf, ?k) = Inr (buf', k')"
    "cc_last_seq k' = ucast (n + 1 + of_nat (length xs))" "books_into xs ?k k'" by blast
  have "books_into (x # xs) (k\<lparr>cc_last_seq := ucast (n + 1)\<rparr>) k'" by (rule books_into_step [OF k'(3)])
  then have "books_into (x # xs) k k'" by (simp add: books_into_def position_def)
  with k'(1,2) hear_fill [OF _ Cons.prems(2) small, of x buf] Cons.prems(1) show ?case
    by (auto simp: add.assoc)
qed

section \<open>The sum of all positions\<close>

definition total_position :: "clearing_client \<Rightarrow> u32 \<Rightarrow> u32" where
  "total_position k y = (\<Sum>c \<in> dom (cc_positions k). position k c y)"

lemma position_absent: "c \<notin> dom (cc_positions k) \<Longrightarrow> position k c y = 0"
  by (auto simp: position_def ledger_at_def subscript_def split: option.split)

lemma total_over: "finite A \<Longrightarrow> dom (cc_positions k) \<subseteq> A \<Longrightarrow> total_position k y = (\<Sum>c \<in> A. position k c y)"
  unfolding total_position_def by (rule sum.mono_neutral_left) (auto simp: position_absent)

lemma booked_by_clients:
  "finite A \<Longrightarrow> fst ` set xs \<subseteq> A \<Longrightarrow> (\<Sum>c \<in> A. booked_in y (filter (\<lambda>x. fst x = c) xs)) = booked_in y xs"
proof (induction xs)
  case (Cons x xs)
  have "booked_in y (filter (\<lambda>x. fst x = c) (x # xs)) =
      (if fst x = c then booked_in y [x] else 0) + booked_in y (filter (\<lambda>x. fst x = c) xs)" for c
    using booked_in_simps(3) [of y x "filter (\<lambda>x. fst x = c) xs"] by simp
  then have "(\<Sum>c \<in> A. booked_in y (filter (\<lambda>x. fst x = c) (x # xs))) =
      booked_in y [x] + (\<Sum>c \<in> A. booked_in y (filter (\<lambda>x. fst x = c) xs))"
    using Cons.prems by (simp add: sum.distrib sum.delta')
  then show ?case using Cons by (simp add: booked_in_simps(3) [of y x xs])
qed simp

lemma total_books:
  assumes "books_into xs k k'" "finite (dom (cc_positions k))"
  shows "total_position k' y = total_position k y + booked_in y xs" "finite (dom (cc_positions k'))"
proof -
  let ?A = "dom (cc_positions k) \<union> fst ` set xs"
  have A: "finite ?A" "dom (cc_positions k') \<subseteq> ?A" using assms by (auto simp: books_into_def)
  then show "finite (dom (cc_positions k'))" by (rule finite_subset [rotated])
  have "total_position k' y = (\<Sum>c \<in> ?A. position k c y + booked_in y (filter (\<lambda>x. fst x = c) xs))"
    unfolding total_over [OF A] using assms(1) by (simp add: books_into_def)
  also have "\<dots> = total_position k y + booked_in y xs"
    unfolding sum.distrib total_over [OF A(1) Un_upper1] using booked_by_clients [OF A(1) Un_upper2] by simp
  finally show "total_position k' y = total_position k y + booked_in y xs" .
qed

section \<open>From a payload to the positions\<close>

abbreviation clearing_datagrams :: "broker \<Rightarrow> broker \<Rightarrow> u8 list list" where
  "clearing_datagrams b b' \<equiv> datagrams (cp_fd (bk_clearing b)) (bk_system b')"

lemma payload_bookings:
  assumes engine: "accepts e" "engine_ok b" "clearing_ready b" "proper_ladders b"
    and p: "is_ladder_payload p" "acceptable p b" "proper_side (py_side p)"
  obtains L L' b' xs where "bk_ladders b (py_symbol p) = Some L" "process_payload e p b = Some (Inr b')"
    "ladder_op p (L\<lparr>l_calls := []\<rparr>) = Some (Inr L')"
    "xs = all_bookings (py_client_id p) (bk_client_of (at_work p b)) (l_calls L')"
    "clearing_datagrams b b' = clearing_datagrams b b @ fill_datagrams (clearing_seq b + 1) xs"
    "clearing_seq b' = clearing_seq b + of_nat (length xs)" "clearing_ready b'" "proper_ladders b'"
    "engine_ok b'" "balanced xs" "bk_ladders b' = (bk_ladders b)(py_symbol p \<mapsto> L')"
    "bk_client_of b' = bk_client_of (at_work p b)"
proof -
  obtain L L' b' where b': "bk_ladders b (py_symbol p) = Some L"
    "ladder_op p (L\<lparr>l_calls := []\<rparr>) = Some (Inr L')" "process_payload e p b = Some (Inr b')"
    "engine_ok b'" "bk_ladders b' = (bk_ladders b)(py_symbol p \<mapsto> L')"
    by (rule process_ladder_payload [OF engine(1,2) p(1,2)]) blast
  obtain B where B: "represents L B" "book_ok B" "uncrossed B" "l_symbol L = py_symbol p"
    using engine(2) b'(1) unfolding engine_ok_def by (blast elim: ladders_okE)
  note sim = ladder_op_sim [OF p(1,2) b'(1) B]
  have L': "represents L' (fst (spec_op p B))" "l_calls L' = snd (spec_op p B)"
    using sim(1) b'(2) by (auto simp: refines_def)
  have proper: "proper_book B"
    using engine(4) b'(1) proper_ladder_book [OF B(1,2)] by (auto simp: proper_ladders_def)
  then have "proper_ladder L'"
    using proper_op [OF B(2) proper p(3)] proper_ladder_book [OF L'(1) sim(2)] by blast
  then have "proper_ladders b'" using engine(4) b'(5) by (simp add: proper_ladders_def)
  moreover have "balanced (all_bookings (py_client_id p) (bk_client_of (at_work p b)) (l_calls L'))"
    unfolding L'(2) by (rule op_balanced [OF B(2) proper p(3)])
  moreover note process_payload_clears [OF engine(3) p(1) b'(1,2,3)]
  ultimately show thesis
    using b' by (intro that [of L b' L' "all_bookings (py_client_id p) (bk_client_of (at_work p b)) (l_calls L')"])
      (simp_all add: clears_def Let_def)
qed

lemma length_fill_datagrams [simp]: "length (fill_datagrams n xs) = length xs"
  by (induction xs arbitrary: n) simp_all

text \<open>C25: a clearing client that has heard every fill so far, and hears the datagrams of one more
  payload, changes the position of every client and symbol by the signed quantities of the fills
  that the ladder reported, and has again heard every fill.\<close>

theorem clearing_follows_engine:
  assumes "accepts e" "engine_ok b" "clearing_ready b" "proper_ladders b"
    "is_ladder_payload p" "acceptable p b" "proper_side (py_side p)" "cc_last_seq k = ucast (clearing_seq b)"
  shows "\<exists>L L' b' xs. bk_ladders b (py_symbol p) = Some L \<and> ladder_op p (L\<lparr>l_calls := []\<rparr>) = Some (Inr L') \<and>
    xs = all_bookings (py_client_id p) (bk_client_of (at_work p b)) (l_calls L') \<and>
    process_payload e p b = Some (Inr b') \<and>
    clearing_datagrams b b' = clearing_datagrams b b @ fill_datagrams (clearing_seq b + 1) xs \<and>
    (unat (clearing_seq b) + length xs < 2 ^ 32 \<longrightarrow>
      (\<exists>buf' k'. hear_datagrams (fill_datagrams (clearing_seq b + 1) xs) (buf, k) = Inr (buf', k') \<and>
        cc_last_seq k' = ucast (clearing_seq b') \<and>
        (\<forall>c y. position k' c y = position k c y + booked_in y (filter (\<lambda>x. fst x = c) xs))))"
proof -
  obtain L L' b' xs where b': "bk_ladders b (py_symbol p) = Some L" "process_payload e p b = Some (Inr b')"
    "ladder_op p (L\<lparr>l_calls := []\<rparr>) = Some (Inr L')"
    "xs = all_bookings (py_client_id p) (bk_client_of (at_work p b)) (l_calls L')"
    "clearing_datagrams b b' = clearing_datagrams b b @ fill_datagrams (clearing_seq b + 1) xs"
    "clearing_seq b' = clearing_seq b + of_nat (length xs)" "balanced xs"
    by (rule payload_bookings [OF assms(1-7)])
  have "\<exists>buf' k'. hear_datagrams (fill_datagrams (clearing_seq b + 1) xs) (buf, k) = Inr (buf', k') \<and>
      cc_last_seq k' = ucast (clearing_seq b') \<and> books_into xs k k'"
    if "unat (clearing_seq b) + length xs < 2 ^ 32"
    unfolding b'(6) using b'(7) assms(8) that by (intro hear_fills) (simp_all add: balanced_def)
  then show ?thesis using b'(1-5) unfolding books_into_def by blast
qed

text \<open>C24: if the side of every resting order and of the payload is BUY or SELL (the validator does not
  check it), clearing is zero-sum: for a listener that is in step with the engine and misses no datagram,
  in every symbol the positions of all clients add up, modulo \<open>2^32\<close>, to what they added up to before
  the payload; and the conditions on the exchange and the listener hold again afterwards, so that the
  sum stays over any sequence of such payloads of less than \<open>2^32\<close> fills.\<close>

theorem positions_stay_balanced:
  assumes "accepts e" "engine_ok b" "clearing_ready b" "proper_ladders b"
    "is_ladder_payload p" "acceptable p b" "proper_side (py_side p)" "cc_last_seq k = ucast (clearing_seq b)"
    "finite (dom (cc_positions k))"
  shows "\<exists>b' ds. process_payload e p b = Some (Inr b') \<and> engine_ok b' \<and> clearing_ready b' \<and> proper_ladders b' \<and>
    clearing_datagrams b b' = clearing_datagrams b b @ ds \<and>
    (unat (clearing_seq b) + length ds < 2 ^ 32 \<longrightarrow>
      (\<exists>buf' k'. hear_datagrams ds (buf, k) = Inr (buf', k') \<and> cc_last_seq k' = ucast (clearing_seq b') \<and>
        finite (dom (cc_positions k')) \<and> (\<forall>y. total_position k' y = total_position k y)))"
proof -
  obtain b' xs where b': "process_payload e p b = Some (Inr b')" "engine_ok b'" "clearing_ready b'" "proper_ladders b'"
    "clearing_datagrams b b' = clearing_datagrams b b @ fill_datagrams (clearing_seq b + 1) xs"
    "clearing_seq b' = clearing_seq b + of_nat (length xs)" "balanced xs"
    by (rule payload_bookings [OF assms(1-7)])
  have "\<exists>buf' k'. hear_datagrams (fill_datagrams (clearing_seq b + 1) xs) (buf, k) = Inr (buf', k') \<and>
      cc_last_seq k' = ucast (clearing_seq b') \<and> finite (dom (cc_positions k')) \<and>
      (\<forall>y. total_position k' y = total_position k y)"
    if room: "unat (clearing_seq b) + length xs < 2 ^ 32"
  proof -
    obtain buf' k' where k': "hear_datagrams (fill_datagrams (clearing_seq b + 1) xs) (buf, k) = Inr (buf', k')"
      "cc_last_seq k' = ucast (clearing_seq b + of_nat (length xs))" "books_into xs k k'"
      using hear_fills [OF _ assms(8) room, of buf] b'(7) unfolding balanced_def by blast
    with total_books [OF k'(3) assms(9)] b'(7) show ?thesis unfolding b'(6) by (auto simp: balanced_def)
  qed
  with b'(1-5) show ?thesis unfolding length_fill_datagrams [symmetric, of xs "clearing_seq b + 1"] by blast
qed

text \<open>Two orders that trade: client 3 buys, then client 4 sells.\<close>

definition sell_payload :: oe_payload where
  "sell_payload = payload OE_NEW_ORDER 9 1 6 4 SELL 10 (I32 100) 0"

lemma sell_payload_fields [simp]:
  "py_msg_type sell_payload = OE_NEW_ORDER" "py_exch_order_id sell_payload = 9"
  "py_symbol sell_payload = 1" "py_client_id sell_payload = 4" "py_side sell_payload = SELL"
  "py_quantity sell_payload = 10" "py_price sell_payload = 100" "py_flags sell_payload = 0"
  by (simp_all add: sell_payload_def payload_def)

definition one_buy :: resting where
  "one_buy = \<lparr>r_order_id = 7, r_quantity = 10, r_filled = 0, r_side = BUY, r_flags = 0\<rparr>"

lemma started_clearing: "clearing_ready (started_broker [])" "proper_ladders (started_broker [])"
  "clearing_seq (started_broker []) = 0"
  by (auto simp: started_broker_def add_symbol_def new_broker_def clearing_ready_def new_publisher_def
      new_clearing_publisher_def proper_ladders_def proper_ladder_def order_at_def empty_ladder_def)

lemma one_buy_rests:
  obtains b1 L1 where "engine_ok b1" "clearing_ready b1" "proper_ladders b1" "bk_ladders b1 1 = Some L1"
    "represents L1 ((\<lambda>bs. [])(BuyLevels := [(I32 100, [one_buy])]))" "clearing_seq b1 = 0"
    "bk_client_of b1 7 = Some 3" "l_symbol L1 = 1"
proof -
  let ?b = "started_broker []" and ?p = "buy_payload 7 3" and ?B = "\<lambda>bs :: book_side. [] :: book_levels"
  have p: "is_ladder_payload ?p" "proper_side (py_side ?p)"
    by (simp_all add: is_ladder_payload_def proper_side_def buy_payload_def payload_def)
  obtain L L' b' xs where b': "bk_ladders ?b (py_symbol ?p) = Some L" "ladder_op ?p (L\<lparr>l_calls := []\<rparr>) = Some (Inr L')"
    "xs = all_bookings (py_client_id ?p) (bk_client_of (at_work ?p ?b)) (l_calls L')"
    "clearing_seq b' = clearing_seq ?b + of_nat (length xs)" "clearing_ready b'" "proper_ladders b'"
    "engine_ok b'" "bk_ladders b' = (bk_ladders ?b)(py_symbol ?p \<mapsto> L')" "bk_client_of b' = bk_client_of (at_work ?p ?b)"
    by (rule payload_bookings [OF calm_accepts started_ok started_clearing(1,2) p(1) started_acceptable p(2)])
  have L: "L = empty_ladder 1" using b'(1) by (simp add: started_broker_def add_symbol_def new_broker_def)
  have B: "represents L ?B" "book_ok ?B" "uncrossed ?B" "l_symbol L = py_symbol ?p"
    using represents_empty [of 1] book_ok_empty by (simp_all add: L uncrossed_def empty_ladder_def)
  note sim = ladder_op_sim [OF p(1) started_acceptable b'(1) B]
  have spec: "spec_op ?p ?B = (?B(BuyLevels := [(I32 100, [one_buy])]), [OnNewOrder 7 1 BUY 10 (I32 100) 0])"
    by (simp add: spec_op_def buy_payload_def payload_def spec_new_order_def enter_order_def
        opposite_of_side_def levels_of_side_def book_insert_def is_ioc_def IOC_def one_buy_def fun_eq_iff)
  have L': "represents L' (?B(BuyLevels := [(I32 100, [one_buy])]))" "l_calls L' = [OnNewOrder 7 1 BUY 10 (I32 100) 0]"
    "l_symbol L' = 1"
    using sim(1) b'(2) B(4) by (simp_all add: refines_def spec)
  show thesis
    by (rule that [of b' L'])
      (use b' L' started_clearing(3) in \<open>simp_all add: at_work_def buy_payload_def payload_def client_key_def\<close>)
qed

lemma one_buy_sold:
  assumes L1: "represents L1 ((\<lambda>bs. [])(BuyLevels := [(I32 100, [one_buy])]))" "bk_ladders b1 1 = Some L1"
    "l_symbol L1 = 1"
  shows "acceptable sell_payload b1"
    "ladder_op sell_payload (L1\<lparr>l_calls := []\<rparr>) = Some (Inr L') \<Longrightarrow>
      all_bookings 4 ids (l_calls L') = [(the (ids 7), 1, 10, I32 100, BUY), (4, 1, 10, I32 100, SELL)]"
proof -
  let ?B = "(\<lambda>bs. [])(BuyLevels := [(I32 100, [one_buy])])"
  have B: "book_ok ?B" "uncrossed ?B"
    by (simp_all add: book_ok_def all_book_sides resting_ok_def one_buy_def levels_of_side_def is_ioc_def IOC_def
        uncrossed_def)
  show acceptable: "acceptable sell_payload b1"
    using L1(2) represents_index [OF L1(1), of 9]
    by (simp add: acceptable_def book_ids_def one_buy_def)
  have p: "is_ladder_payload sell_payload" by (simp add: is_ladder_payload_def)
  have here: "bk_ladders b1 (py_symbol sell_payload) = Some L1" "l_symbol L1 = py_symbol sell_payload"
    using L1(2,3) by simp_all
  have "snd (spec_op sell_payload ?B) = [OnTrade 7 10 (I32 100), OnFill 7 1 BUY 10 (I32 100) CLOSED False,
      OnFill 9 1 SELL 10 (I32 100) CLOSED True, OnNewOrder 9 1 SELL 0 (I32 100) 0]"
    by (simp add: spec_op_def spec_new_order_def enter_order_def opposite_of_side_def levels_of_side_def
        crosses_def full_fill_calls_def one_buy_def is_ioc_def IOC_def)
  moreover assume "ladder_op sell_payload (L1\<lparr>l_calls := []\<rparr>) = Some (Inr L')"
  then have "l_calls L' = snd (spec_op sell_payload ?B)"
    using ladder_op_sim(1) [OF p acceptable here(1) L1(1) B here(2)] by (simp add: refines_def)
  ultimately show "all_bookings 4 ids (l_calls L') = [(the (ids 7), 1, 10, I32 100, BUY), (4, 1, 10, I32 100, SELL)]"
    by (simp add: client_key_def)
qed

theorem clearing_follows_engine_witness:
  "\<exists>b b' xs buf' k'. process_payload calm_env sell_payload b = Some (Inr b') \<and>
     clearing_datagrams b b' = clearing_datagrams b b @ fill_datagrams (clearing_seq b + 1) xs \<and>
     hear_datagrams (fill_datagrams (clearing_seq b + 1) xs) ([], new_clearing_client) = Inr (buf', k') \<and>
     position k' 3 1 = 10 \<and> position k' 4 1 = - 10"
proof -
  obtain b1 L1 where b1: "engine_ok b1" "clearing_ready b1" "proper_ladders b1" "bk_ladders b1 1 = Some L1"
    "represents L1 ((\<lambda>bs. [])(BuyLevels := [(I32 100, [one_buy])]))" "clearing_seq b1 = 0"
    "bk_client_of b1 7 = Some 3" "l_symbol L1 = 1" by (rule one_buy_rests)
  note sold = one_buy_sold [OF b1(5,4,8)]
  have p: "is_ladder_payload sell_payload" "proper_side (py_side sell_payload)"
    by (simp_all add: is_ladder_payload_def proper_side_def)
  have seq: "cc_last_seq new_clearing_client = ucast (clearing_seq b1)" by (simp add: b1(6) new_clearing_client_def)
  obtain L L' b' xs where w: "bk_ladders b1 (py_symbol sell_payload) = Some L"
    "ladder_op sell_payload (L\<lparr>l_calls := []\<rparr>) = Some (Inr L')"
    "xs = all_bookings (py_client_id sell_payload) (bk_client_of (at_work sell_payload b1)) (l_calls L')"
    "process_payload calm_env sell_payload b1 = Some (Inr b')"
    "clearing_datagrams b1 b' = clearing_datagrams b1 b1 @ fill_datagrams (clearing_seq b1 + 1) xs"
    "unat (clearing_seq b1) + length xs < 2 ^ 32 \<longrightarrow>
      (\<exists>buf' k'. hear_datagrams (fill_datagrams (clearing_seq b1 + 1) xs) ([], new_clearing_client) = Inr (buf', k') \<and>
        cc_last_seq k' = ucast (clearing_seq b') \<and>
        (\<forall>c y. position k' c y = position new_clearing_client c y + booked_in y (filter (\<lambda>x. fst x = c) xs)))"
    using clearing_follows_engine [OF calm_accepts b1(1-3) p(1) sold(1) p(2) seq, of "[]"] by blast
  have "L = L1" using w(1) b1(4) by simp
  then have xs: "xs = [(3, 1, 10, I32 100, BUY), (4, 1, 10, I32 100, SELL)]"
    using w(3) sold(2) w(2) b1(7) by (simp add: at_work_def client_key_def)
  have new: "position new_clearing_client c y = 0" for c y by (simp add: position_def new_clearing_client_def)
  have "unat (clearing_seq b1) + length xs < 2 ^ 32" by (simp add: b1(6) xs)
  with w(6) obtain buf' k' where k': "hear_datagrams (fill_datagrams (clearing_seq b1 + 1) xs) ([], new_clearing_client)
      = Inr (buf', k')" "\<forall>c y. position k' c y = booked_in y (filter (\<lambda>x. fst x = c) xs)" unfolding new by auto
  have "position k' 3 1 = 10" "position k' 4 1 = - 10"
    unfolding k'(2) [rule_format] by (simp_all add: xs booked_in_def signed_quantity_def)
  with w(4,5) k'(1) show ?thesis by blast
qed

theorem positions_stay_balanced_witness:
  "\<exists>b b' ds. process_payload calm_env sell_payload b = Some (Inr b') \<and>
     clearing_datagrams b b' = clearing_datagrams b b @ ds \<and>
     (length ds < 2 ^ 32 \<longrightarrow> (\<exists>buf' k'. hear_datagrams ds ([], new_clearing_client) = Inr (buf', k') \<and>
        total_position k' 1 = 0))"
proof -
  obtain b1 L1 where b1: "engine_ok b1" "clearing_ready b1" "proper_ladders b1" "bk_ladders b1 1 = Some L1"
    "represents L1 ((\<lambda>bs. [])(BuyLevels := [(I32 100, [one_buy])]))" "clearing_seq b1 = 0"
    "bk_client_of b1 7 = Some 3" "l_symbol L1 = 1" by (rule one_buy_rests)
  have p: "is_ladder_payload sell_payload" "proper_side (py_side sell_payload)"
    by (simp_all add: is_ladder_payload_def proper_side_def)
  have k: "cc_last_seq new_clearing_client = ucast (clearing_seq b1)" "finite (dom (cc_positions new_clearing_client))"
    "total_position new_clearing_client 1 = 0"
    by (simp_all add: b1(6) new_clearing_client_def total_position_def)
  obtain b' ds where w: "process_payload calm_env sell_payload b1 = Some (Inr b')"
    "clearing_datagrams b1 b' = clearing_datagrams b1 b1 @ ds"
    "unat (clearing_seq b1) + length ds < 2 ^ 32 \<longrightarrow>
      (\<exists>buf' k'. hear_datagrams ds ([], new_clearing_client) = Inr (buf', k') \<and> cc_last_seq k' = ucast (clearing_seq b') \<and>
        finite (dom (cc_positions k')) \<and> (\<forall>y. total_position k' y = total_position new_clearing_client y))"
    using positions_stay_balanced [OF calm_accepts b1(1-3) p(1) one_buy_sold(1) [OF b1(5,4,8)] p(2) k(1,2), of "[]"]
    by blast
  have "length ds < 2 ^ 32 \<longrightarrow> (\<exists>buf' k'. hear_datagrams ds ([], new_clearing_client) = Inr (buf', k') \<and>
      total_position k' 1 = 0)"
    using w(3) k(3) unfolding b1(6) by (metis add_0 unsigned_0)
  with w(1,2) show ?thesis by blast
qed



end
