(* ===== verification/Oe_Client.thy ===== *)
theory Oe_Client imports
  Stream_Parser Md_Client Clearing_Client Client_Handler
begin

text \<open>
  \<open>bots/oe_client.cpp\<close>: the bots' end of an order entry connection.  It logs in, writes orders,
  and follows its positions from the responses.
\<close>

section \<open>State\<close>

record sent_order =
  so_side :: side
  so_symbol :: u32

record oe_client =
  oc_sock :: sock
  oc_buffer :: "u8 list"
  oc_client_seq :: u32
  oc_session_id :: u64
  oc_username :: "u8 list"
  oc_password :: "u8 list"
  oc_client_id :: u32
  oc_positions :: "u32 \<rightharpoonup> i32"
  oc_open_orders :: "u32 \<rightharpoonup> sent_order"
  oc_reads :: nat

text \<open>
  What the client sees of its socket: whether it could be connected, the answers of \<open>read\<close>, by the
  number of the call, and the bytes that an object on the stack holds before it is written.
\<close>

datatype connecting = NoSocket | NotConnected sock | NoFlags sock | Connected sock

record oe_client_env =
  oe_connect :: connecting
  oe_read :: "nat \<Rightarrow> recv_answer"
  oe_stack :: "nat \<Rightarrow> u8"

datatype oe_client_error = ErrorResponse "u8 list" | UnknownResponse u8 | EraseTooMuch

definition new_oe_client :: "u8 list \<Rightarrow> u8 list \<Rightarrow> u32 \<Rightarrow> oe_client" where
  "new_oe_client username password client_id = \<lparr>oc_sock = 0, oc_buffer = [], oc_client_seq = 0,
     oc_session_id = 0, oc_username = username, oc_password = password, oc_client_id = client_id,
     oc_positions = Map.empty, oc_open_orders = Map.empty, oc_reads = 0\<rparr>"

definition get_position :: "u32 \<Rightarrow> oe_client \<Rightarrow> i32" where
  "get_position y c = (case oc_positions c y of Some p \<Rightarrow> p | None \<Rightarrow> I32 0)"

section \<open>Requests\<close>

text \<open>
  A request's header, with the next number of the client.  What \<open>write\<close> answers is only logged: a
  request that was not written, or only in part, counts as sent.
\<close>

definition request_header :: "oe_msg_type \<Rightarrow> u64 \<Rightarrow> oe_client \<Rightarrow> oe_request_header" where
  "request_header t session c = \<lparr>rq_length = of_nat (oe_request_sizeof t), rq_msg_type = oe_type_code t,
     rq_version = OE_PROTOCOL_VERSION, rq_seq_num = oc_client_seq c, rq_client_id = oc_client_id c,
     rq_session_id = session\<rparr>"

definition write_request :: "u64 \<Rightarrow> oe_request \<Rightarrow> oe_client \<times> system \<Rightarrow> oe_client \<times> system" where
  "write_request session m cs = (case cs of (c, s) \<Rightarrow>
     (c\<lparr>oc_client_seq := oc_client_seq c + 1\<rparr>,
      sys_do (WriteCall (oc_sock c) (encode_oe_request (request_header (oe_request_type m) session c) m)) s))"

definition send_order ::
  "u32 \<Rightarrow> u64 \<Rightarrow> side \<Rightarrow> u32 \<Rightarrow> i32 \<Rightarrow> u8 \<Rightarrow> oe_client \<times> system \<Rightarrow> oe_client \<times> system" where
  "send_order y i sd q p flags cs = (case cs of (c, s) \<Rightarrow>
     write_request (oc_session_id c) (OeNewOrder i y sd q p flags)
       (c\<lparr>oc_open_orders := (oc_open_orders c)(ucast i \<mapsto> \<lparr>so_side = sd, so_symbol = y\<rparr>)\<rparr>, s))"

definition cancel_order :: "u64 \<Rightarrow> oe_client \<times> system \<Rightarrow> oe_client \<times> system" where
  "cancel_order i cs = write_request (oc_session_id (fst cs)) (OeDeleteOrder i) cs"

definition send_modify_order ::
  "u64 \<Rightarrow> side \<Rightarrow> u32 \<Rightarrow> i32 \<Rightarrow> oe_client \<times> system \<Rightarrow> oe_client \<times> system" where
  "send_modify_order i sd q p cs = write_request (oc_session_id (fst cs)) (OeModifyOrder i sd q p) cs"

section \<open>Login\<close>

text \<open>
  \<open>strncpy\<close> copies a C string and fills the rest with zeros.  The session id of the header is never
  set.  The read is repeated for as long as the socket would block; a response that arrives in
  part, or the end of the stream, leaves the rest of the object as it was on the stack, and the
  type of the response is not looked at.
\<close>

definition strncpy :: "nat \<Rightarrow> u8 list \<Rightarrow> u8 list" where
  "strncpy n bytes = take n (c_str bytes @ replicate n 0)"

partial_function (option) await_read :: "(nat \<Rightarrow> recv_answer) \<Rightarrow> nat \<Rightarrow> (u8 list option \<times> nat) option" where
  "await_read rd k = (case rd k of
      NothingYet \<Rightarrow> await_read rd (Suc k)
    | RecvError \<Rightarrow> Some (None, Suc k)
    | Received bs \<Rightarrow> Some (Some bs, Suc k))"

definition login_on :: "env \<Rightarrow> oe_client_env \<Rightarrow> oe_client \<times> system \<Rightarrow> (bool \<times> oe_client \<times> system) option" where
  "login_on e oe cs = (case cs of (c0, s0) \<Rightarrow>
    (let m = Login (strncpy 16 (oc_username c0)) (strncpy 16 (oc_password c0));
         session = env_indeterminate e (2 * length (s_calls s0));
         call = WriteCall (oc_sock c0) (encode_oe_request (request_header OE_LOGIN session c0) m);
         (c, s) = write_request session m (c0, s0);
         size = oe_response_sizeof OE_LOGIN_RESPONSE
     in if env_send e (s_calls s0) call \<in> {WouldBlock, NotSocket, SendError} then Some (False, c, s)
        else
          (case await_read (oe_read oe) (oc_reads c) of
             None \<Rightarrow> None
           | Some (None, k) \<Rightarrow> Some (False, c\<lparr>oc_reads := k\<rparr>, s)
           | Some (Some bs, k) \<Rightarrow>
               (let c = c\<lparr>oc_reads := k\<rparr>; bs = take size bs;
                    response = bs @ map (oe_stack oe) [length bs..<size]
                in case oe_response_at OE_LOGIN_RESPONSE response of
                     Some (LoginResponse session_id status) \<Rightarrow>
                       (if status \<noteq> login_code LoginSuccess then Some (False, c, s)
                        else Some (True, c\<lparr>oc_session_id := session_id\<rparr>, s))
                   | _ \<Rightarrow> Some (False, c, s)))))"

definition login :: "env \<Rightarrow> oe_client_env \<Rightarrow> oe_client \<times> system \<Rightarrow> (bool \<times> oe_client \<times> system) option" where
  "login e oe cs = (case cs of (c, s) \<Rightarrow> (case oe_connect oe of
      NoSocket \<Rightarrow> Some (False, c\<lparr>oc_sock := -1\<rparr>, s)
    | NotConnected fd \<Rightarrow> Some (False, c\<lparr>oc_sock := fd\<rparr>, s)
    | NoFlags fd \<Rightarrow> Some (False, c\<lparr>oc_sock := fd\<rparr>, s)
    | Connected fd \<Rightarrow> login_on e oe (c\<lparr>oc_sock := fd\<rparr>, s)))"

section \<open>Responses\<close>

definition response_type :: "u8 \<Rightarrow> oe_msg_type option" where
  "response_type code = (if code = oe_type_code OE_ACK then Some OE_ACK
     else if code = oe_type_code OE_REJECT then Some OE_REJECT
     else if code = oe_type_code OE_CLOSE then Some OE_CLOSE
     else if code = oe_type_code OE_FILL then Some OE_FILL
     else if code = oe_type_code OE_ERROR then Some OE_ERROR else None)"

text \<open>
  A fill of an order that is not open inserts an entry for it whose symbol is 0 and whose side is
  neither of the two, and counts as a sale.
\<close>

definition no_order :: sent_order where
  "no_order = \<lparr>so_side = side_of_byte 0, so_symbol = 0\<rparr>"

definition on_fill :: "u64 \<Rightarrow> u32 \<Rightarrow> oe_client \<Rightarrow> oe_client" where
  "on_fill i q c =
    (let (x, orders) = subscript no_order (ucast i) (oc_open_orders c);
         (p, positions) = subscript (I32 0) (so_symbol x) (oc_positions c);
         p = (if so_side x = BUY then add_i32 q p else sub_i32 q p)
     in c\<lparr>oc_open_orders := orders, oc_positions := positions(so_symbol x \<mapsto> p)\<rparr>)"

fun on_response :: "oe_response \<Rightarrow> oe_client \<Rightarrow> oe_client_error + oe_client" where
  "on_response (OrderClosed i) c = Inr (c\<lparr>oc_open_orders := (oc_open_orders c)(ucast i := None)\<rparr>)"
| "on_response (OrderFill i q p flags) c = Inr (on_fill i q c)"
| "on_response (ErrorMessage code n msg) c = Inl (ErrorResponse (c_str msg))"
| "on_response _ c = Inr c"

partial_function (option) read_responses :: "oe_client \<Rightarrow> (oe_client_error + oe_client) option" where
  "read_responses c =
    (let buf = oc_buffer c; h = oe_response_header_at buf; n = unat (rs_length h)
     in if length buf < oe_response_header_size then Some (Inr c)
        else
          (case response_type (rs_msg_type h) of
             None \<Rightarrow> Some (Inl (UnknownResponse (rs_msg_type h)))
           | Some t \<Rightarrow>
               if length buf < oe_response_sizeof t then Some (Inr c)
               else
                 (case on_response (the (oe_response_at t buf)) c of
                    Inl err \<Rightarrow> Some (Inl err)
                  | Inr c' \<Rightarrow>
                      if length buf < n then Some (Inl EraseTooMuch)
                      else read_responses (c'\<lparr>oc_buffer := drop n buf\<rparr>))))"

definition OE_BUF :: nat where "OE_BUF = 1500"

definition process_oe :: "oe_client_env \<Rightarrow> oe_client \<Rightarrow> (oe_client_error + oe_client) option" where
  "process_oe oe c0 =
    (let c = c0\<lparr>oc_reads := Suc (oc_reads c0)\<rparr>
     in case oe_read oe (oc_reads c0) of
          NothingYet \<Rightarrow> Some (Inr c)
        | RecvError \<Rightarrow> Some (Inr c)
        | Received bs \<Rightarrow> read_responses (c\<lparr>oc_buffer := oc_buffer c @ take OE_BUF bs\<rparr>))"

end
