(* ===== verification/Oe_Client_Props.thy ===== *)
theory Oe_Client_Props imports
  Oe_Client
begin

text \<open>
  Properties of the bots' order entry client: what it writes is what the exchange's parser delivers,
  and its positions are the sums of its fills, however the responses are cut on their way.
\<close>

section \<open>From the client to the exchange\<close>

datatype command =
    SendOrder u32 u64 side u32 i32 u8
  | CancelOrder u64
  | ChangeOrder u64 side u32 i32

fun run_command :: "command \<Rightarrow> oe_client \<times> system \<Rightarrow> oe_client \<times> system" where
  "run_command (SendOrder y i sd q p flags) cs = send_order y i sd q p flags cs"
| "run_command (CancelOrder i) cs = cancel_order i cs"
| "run_command (ChangeOrder i sd q p) cs = send_modify_order i sd q p cs"

fun command_request :: "command \<Rightarrow> oe_request" where
  "command_request (SendOrder y i sd q p flags) = OeNewOrder i y sd q p flags"
| "command_request (CancelOrder i) = OeDeleteOrder i"
| "command_request (ChangeOrder i sd q p) = OeModifyOrder i sd q p"

text \<open>The requests of a session: consecutive numbers, one client and one session id.\<close>

fun session_requests :: "u32 \<Rightarrow> u32 \<Rightarrow> u64 \<Rightarrow> oe_request list \<Rightarrow> (oe_request_header \<times> oe_request) list" where
  "session_requests n c session [] = []"
| "session_requests n c session (m # ms) =
     (\<lparr>rq_length = of_nat (oe_request_sizeof (oe_request_type m)), rq_msg_type = oe_type_code (oe_request_type m),
       rq_version = OE_PROTOCOL_VERSION, rq_seq_num = n, rq_client_id = c, rq_session_id = session\<rparr>, m)
     # session_requests (n + 1) c session ms"

text \<open>The bytes written to a socket.\<close>

fun written_by :: "sock \<Rightarrow> sys_call \<Rightarrow> u8 list" where
  "written_by fd (WriteCall fd' b) = (if fd' = fd then b else [])"
| "written_by fd _ = []"

definition written :: "sock \<Rightarrow> system \<Rightarrow> u8 list" where
  "written fd s = concat (map (written_by fd) (s_calls s))"

lemma written_do [simp]: "written fd (sys_do c s) = written fd s @ written_by fd c"
  by (simp add: written_def sys_do_def)

lemma run_command_writes:
  assumes "run_command m (c, s) = (c', s')"
  shows "written (oc_sock c) s' = written (oc_sock c) s @ encode_stream
      (session_requests (oc_client_seq c) (oc_client_id c) (oc_session_id c) [command_request m])"
    "oc_client_seq c' = oc_client_seq c + 1" "oc_client_id c' = oc_client_id c"
    "oc_session_id c' = oc_session_id c" "oc_sock c' = oc_sock c"
  using assms
  by (cases m; auto simp: send_order_def cancel_order_def send_modify_order_def write_request_def request_header_def)+

lemma run_commands_write:
  "fold run_command ms (c, s) = (c', s') \<Longrightarrow>
   written (oc_sock c) s' = written (oc_sock c) s @ encode_stream
      (session_requests (oc_client_seq c) (oc_client_id c) (oc_session_id c) (map command_request ms))"
proof (induction ms arbitrary: c s)
  case (Cons m ms)
  obtain c1 s1 where one: "run_command m (c, s) = (c1, s1)" by fastforce
  with Cons.prems have rest: "fold run_command ms (c1, s1) = (c', s')" by simp
  note w = run_command_writes [OF one]
  show ?case using Cons.IH [OF rest] unfolding w(2-5) w(1) by simp
qed simp

lemma session_requests_well_formed:
  "\<forall>m \<in> set ms. oe_request_canonical m \<Longrightarrow> \<forall>r \<in> set (session_requests n c session ms). well_formed r"
  by (induction ms arbitrary: n) (simp_all add: well_formed_def)

text \<open>C28: from a bot's calls to the exchange's handler: the bytes that the calls write are requests
  numbered without a gap, under the client's id and session, and the exchange's parser, unless its rate
  limit stops it, hands exactly
  these requests, in the order of the calls, to its handler.\<close>

theorem commands_reach_handler:
  assumes "fold run_command ms (c, s) = (c', s')" "\<forall>m \<in> set ms. oe_request_canonical (command_request m)"
    "written (oc_sock c) s' = written (oc_sock c) s @ bytes"
    "length (drop_old (fst (nanotime e (sp_system p))) (sp_timestamps p fd)) \<le> MAX_MSGS_PER_SECOND"
    "sp_partial p fd = []"
    "deliver ops fd (session_requests (oc_client_seq c) (oc_client_id c) (oc_session_id c) (map command_request ms))
       (sp_handler p, snd (nanotime e (sp_system p))) = Some (h', t')"
  shows "\<exists>p'. parse_bytes e ops fd bytes p = Some p' \<and> sp_handler p' = h' \<and> sp_system p' = t' \<and> sp_partial p' fd = []"
proof -
  let ?rs = "session_requests (oc_client_seq c) (oc_client_id c) (oc_session_id c) (map command_request ms)"
  have wf: "\<forall>r \<in> set ?rs. well_formed r" using assms(2) by (intro session_requests_well_formed) simp
  have bytes: "sp_partial p fd @ bytes = encode_stream ?rs @ []"
    using run_commands_write [OF assms(1)] assms(3,5) by simp
  have "incomplete []" by (simp add: incomplete_def oe_request_header_size_def)
  from parse_bytes_stream [OF assms(4) wf bytes this, of ops] assms(6) show ?thesis by (auto simp: advanced_def)
qed

definition logged_in :: oe_client where
  "logged_in = (new_oe_client [65] [66] 3)\<lparr>oc_sock := 6, oc_client_seq := 1, oc_session_id := 9\<rparr>"

theorem commands_reach_handler_witness:
  "\<exists>c' s' bytes p'. fold run_command [SendOrder 1 7 BUY 10 (I32 100) 0, CancelOrder 7] (logged_in, no_calls) = (c', s') \<and>
     written 6 s' = bytes \<and> parse_bytes calm_env recorder 8 bytes (new_parser [] no_calls) = Some p' \<and>
     sp_handler p' = [OeNewOrder 7 1 BUY 10 (I32 100) 0, OeDeleteOrder 7]"
proof -
  let ?ms = "[SendOrder 1 7 BUY 10 (I32 100) 0, CancelOrder 7]" and ?p = "new_parser [] no_calls"
  obtain c' s' where run: "fold run_command ?ms (logged_in, no_calls) = (c', s')" by (metis surj_pair)
  have none: "written (oc_sock logged_in) no_calls = []" by (simp add: written_def no_calls_def)
  have canonical: "\<forall>m \<in> set ?ms. oe_request_canonical (command_request m)" by simp
  have recent: "length (drop_old (fst (nanotime calm_env (sp_system ?p))) (sp_timestamps ?p 8)) \<le> MAX_MSGS_PER_SECOND"
    by (simp add: new_parser_def drop_old_def)
  have "deliver recorder 8 (session_requests (oc_client_seq logged_in) (oc_client_id logged_in) (oc_session_id logged_in)
      (map command_request ?ms)) (sp_handler ?p, snd (nanotime calm_env (sp_system ?p)))
    = Some ([OeNewOrder 7 1 BUY 10 (I32 100) 0, OeDeleteOrder 7], snd (nanotime calm_env (sp_system ?p)))"
    by (simp add: recorder_def Let_def new_parser_def)
  from commands_reach_handler [OF run canonical _ recent _ this, of "written 6 s'"] none
  show ?thesis using run by (auto simp: logged_in_def new_parser_def)
qed

section \<open>From the exchange to the client\<close>

type_synonym stamped_response = "oe_response_header \<times> oe_response"

text \<open>A response as the exchange writes it, of the kinds that do not end the client.\<close>

fun regular :: "stamped_response \<Rightarrow> bool" where
  "regular (h, m) \<longleftrightarrow> rs_length h = of_nat (oe_response_sizeof (oe_response_type m)) \<and>
     rs_msg_type h = oe_type_code (oe_response_type m) \<and>
     oe_response_type m \<in> {OE_ACK, OE_REJECT, OE_FILL, OE_CLOSE}"

fun encode_responses :: "stamped_response list \<Rightarrow> u8 list" where
  "encode_responses [] = []"
| "encode_responses ((h, m) # rs) = encode_oe_response h m @ encode_responses rs"

lemma encode_responses_append [simp]: "encode_responses (rs @ rs') = encode_responses rs @ encode_responses rs'"
  by (induction rs rule: encode_responses.induct) simp_all

fun follow :: "oe_response \<Rightarrow> oe_client \<Rightarrow> oe_client" where
  "follow (OrderClosed i) c = c\<lparr>oc_open_orders := (oc_open_orders c)(ucast i := None)\<rparr>"
| "follow (OrderFill i q p flags) c = on_fill i q c"
| "follow _ c = c"

lemma regular_follow: "regular (h, m) \<Longrightarrow> on_response m c = Inr (follow m c)"
  by (cases m) simp_all

text \<open>The beginning of a response, too short to be read.\<close>

definition partial_response :: "u8 list \<Rightarrow> bool" where
  "partial_response buf \<longleftrightarrow> length buf < oe_response_header_size \<or>
     (\<exists>t. response_type (rs_msg_type (oe_response_header_at buf)) = Some t \<and> length buf < oe_response_sizeof t)"

lemma partial_response_Nil [simp]: "partial_response []"
  by (simp add: partial_response_def oe_response_header_size_def)

lemma read_partial: "partial_response (oc_buffer c) \<Longrightarrow> read_responses c = Some (Inr c)"
  by (subst read_responses.simps) (auto simp: partial_response_def Let_def)

lemma field_prefix: "off + n \<le> length b \<Longrightarrow> field off n (b @ b') = field off n b"
  by (simp add: field_def)

lemma response_header_append:
  "oe_response_header_size \<le> length b \<Longrightarrow> oe_response_header_at (b @ b') = oe_response_header_at b"
  by (simp add: oe_response_header_at_def oe_response_header_size_def field_prefix)

lemma regular_facts:
  assumes "regular (h, m)"
  shows "response_type (rs_msg_type h) = Some (oe_response_type m)" "oe_response_canonical m"
    "unat (rs_length h) = oe_response_sizeof (oe_response_type m)"
    "length (encode_oe_response h m) = oe_response_sizeof (oe_response_type m)"
    "16 \<le> oe_response_sizeof (oe_response_type m)"
  using assms by (cases m; simp add: response_type_def encode_oe_response_def)+

lemma response_header_encode [simp]: "oe_response_header_at (encode_oe_response h m @ rest) = h"
  by (simp add: encode_oe_response_def)

lemma follow_buffer [simp]: "oc_buffer (follow m c) = oc_buffer c" "follow m (c\<lparr>oc_buffer := b\<rparr>) = (follow m c)\<lparr>oc_buffer := b\<rparr>"
  "oc_reads (follow m c) = oc_reads c" "follow m (c\<lparr>oc_reads := k\<rparr>) = (follow m c)\<lparr>oc_reads := k\<rparr>"
  by (cases m; simp add: on_fill_def split: prod.split)+

lemma read_regular:
  assumes "regular (h, m)" "oc_buffer c = encode_oe_response h m @ rest"
  shows "read_responses c = read_responses ((follow m c)\<lparr>oc_buffer := rest\<rparr>)"
proof -
  note facts = regular_facts [OF assms(1)]
  have "oe_response_at (oe_response_type m) (encode_oe_response h m @ rest) = Some m"
    by (rule oe_response_at_encode [OF facts(2)])
  then show ?thesis
    using facts regular_follow [OF assms(1)] assms(2)
    by (subst read_responses.simps) (simp add: Let_def oe_response_header_size_def)
qed

abbreviation follow_all :: "stamped_response list \<Rightarrow> oe_client \<Rightarrow> oe_client" where
  "follow_all rs \<equiv> fold (\<lambda>r. follow (snd r)) rs"

lemma follow_all_fields [simp]: "oc_buffer (follow_all rs c) = oc_buffer c" "oc_reads (follow_all rs c) = oc_reads c"
  "follow_all rs (c\<lparr>oc_buffer := b\<rparr>) = (follow_all rs c)\<lparr>oc_buffer := b\<rparr>"
  "follow_all rs (c\<lparr>oc_reads := k\<rparr>) = (follow_all rs c)\<lparr>oc_reads := k\<rparr>"
  by (induction rs arbitrary: c) simp_all

lemma read_stream:
  "\<forall>r \<in> set rs. regular r \<Longrightarrow> oc_buffer c = encode_responses rs @ rest \<Longrightarrow> partial_response rest \<Longrightarrow>
   read_responses c = Some (Inr ((follow_all rs c)\<lparr>oc_buffer := rest\<rparr>))"
proof (induction rs arbitrary: c)
  case Nil
  then show ?case using read_partial [of c] by simp
next
  case (Cons r rs)
  obtain h m where r: "r = (h, m)" by (cases r)
  have "read_responses c = read_responses ((follow m c)\<lparr>oc_buffer := encode_responses rs @ rest\<rparr>)"
    using Cons.prems r by (intro read_regular [of h]) simp_all
  also have "\<dots> = Some (Inr ((follow_all rs (follow m c))\<lparr>oc_buffer := rest\<rparr>))"
    using Cons.IH [of "(follow m c)\<lparr>oc_buffer := encode_responses rs @ rest\<rparr>"] Cons.prems by simp
  finally show ?case by (simp add: r)
qed

text \<open>Wherever the stream is cut, what has arrived is whole responses and the beginning of one.\<close>

lemma partial_prefix:
  assumes "partial_response (b1 @ b2)"
  shows "partial_response b1"
proof (cases "oe_response_header_size \<le> length b1")
  case True
  with assms show ?thesis by (auto simp: partial_response_def response_header_append)
qed (simp add: partial_response_def)

lemma cut_stream:
  "\<forall>r \<in> set rs. regular r \<Longrightarrow> partial_response rest \<Longrightarrow> b1 @ b2 = encode_responses rs @ rest \<Longrightarrow>
   \<exists>rs1 rs2 rest1. rs = rs1 @ rs2 \<and> b1 = encode_responses rs1 @ rest1 \<and> partial_response rest1 \<and>
     rest1 @ b2 = encode_responses rs2 @ rest"
proof (induction rs arbitrary: b1)
  case Nil
  then have "partial_response b1" using partial_prefix [of b1 b2] by simp
  with Nil show ?case by auto
next
  case (Cons r rs)
  obtain h m where r: "r = (h, m)" by (cases r)
  let ?e = "encode_oe_response h m"
  have reg: "regular (h, m)" using Cons.prems(1) r by simp
  note facts = regular_facts [OF reg]
  have split: "b1 @ b2 = ?e @ encode_responses rs @ rest" using Cons.prems(3) r by simp
  show ?case
  proof (cases "length ?e \<le> length b1")
    case True
    then obtain b where b: "b1 = ?e @ b" using split by (metis append_eq_append_conv_if append_take_drop_id)
    with split have "b @ b2 = encode_responses rs @ rest" by simp
    from Cons.IH [OF _ Cons.prems(2) this] Cons.prems(1) obtain rs1 rs2 rest1 where
      "rs = rs1 @ rs2" "b = encode_responses rs1 @ rest1" "partial_response rest1"
      "rest1 @ b2 = encode_responses rs2 @ rest" by auto
    with b r show ?thesis by (intro exI [of _ "r # rs1"] exI [of _ rs2] exI [of _ rest1]) simp
  next
    case False
    have "partial_response b1"
    proof (cases "oe_response_header_size \<le> length b1")
      case True
      have "oe_response_header_at b1 = h"
        using response_header_append [OF True, of b2] split by simp
      then show ?thesis using facts False by (auto simp: partial_response_def)
    qed (simp add: partial_response_def)
    then show ?thesis using Cons.prems(3)
      by (intro exI [of _ "[]"] exI [of _ "r # rs"] exI [of _ b1]) simp
  qed
qed

section \<open>Reading again and again\<close>

fun process_oe_times :: "oe_client_env \<Rightarrow> nat \<Rightarrow> oe_client \<Rightarrow> (oe_client_error + oe_client) option" where
  "process_oe_times oe 0 c = Some (Inr c)"
| "process_oe_times oe (Suc n) c = (case process_oe oe c of
      Some (Inr c) \<Rightarrow> process_oe_times oe n c
    | r \<Rightarrow> r)"

fun received :: "recv_answer \<Rightarrow> u8 list" where
  "received (Received bs) = bs"
| "received _ = []"

definition arrived :: "oe_client_env \<Rightarrow> nat \<Rightarrow> nat \<Rightarrow> u8 list" where
  "arrived oe k n = concat (map (\<lambda>j. received (oe_read oe j)) [k..<k + n])"

lemma arrived_simps [simp]: "arrived oe k 0 = []" "arrived oe k (Suc n) = received (oe_read oe k) @ arrived oe (Suc k) n"
  by (simp_all add: arrived_def upt_conv_Cons del: upt_Suc)

lemma whole_not_partial: "regular (h, m) \<Longrightarrow> \<not> partial_response (encode_oe_response h m @ b)"
  using regular_facts [of h m] by (auto simp: partial_response_def oe_response_header_size_def)

lemma process_pieces:
  assumes "\<forall>r \<in> set rs. regular r" "partial_response rest" "partial_response (oc_buffer c)"
    "oc_buffer c @ arrived oe (oc_reads c) n = encode_responses rs @ rest"
    "\<forall>j. length (received (oe_read oe j)) \<le> OE_BUF"
  shows "process_oe_times oe n c = Some (Inr ((follow_all rs c)\<lparr>oc_buffer := rest, oc_reads := oc_reads c + n\<rparr>))"
  using assms(1,3,4)
proof (induction n arbitrary: rs c)
  case 0
  have "rs = []"
  proof (cases rs)
    case (Cons r rs')
    obtain h m where "r = (h, m)" by (cases r)
    with 0 Cons whole_not_partial [of h m] show ?thesis by simp
  qed simp
  with 0 show ?case by simp
next
  case (Suc n)
  let ?b = "received (oe_read oe (oc_reads c))"
  let ?c = "c\<lparr>oc_reads := Suc (oc_reads c)\<rparr>"
  have cut: "(oc_buffer c @ ?b) @ arrived oe (Suc (oc_reads c)) n = encode_responses rs @ rest"
    using Suc.prems(3) by simp
  obtain rs1 rs2 rest1 where rs: "rs = rs1 @ rs2" and b: "oc_buffer c @ ?b = encode_responses rs1 @ rest1"
    "partial_response rest1" "rest1 @ arrived oe (Suc (oc_reads c)) n = encode_responses rs2 @ rest"
    using cut_stream [OF Suc.prems(1) assms(2) cut] by blast
  let ?c1 = "(follow_all rs1 c)\<lparr>oc_buffer := rest1, oc_reads := Suc (oc_reads c)\<rparr>"
  have step: "process_oe oe c = Some (Inr ?c1)"
  proof (cases "oe_read oe (oc_reads c)")
    case (Received bs)
    have "take OE_BUF bs = bs" using assms(5) Received by (metis received.simps(1) take_all)
    then have "process_oe oe c = read_responses (?c\<lparr>oc_buffer := oc_buffer c @ ?b\<rparr>)"
      using Received by (simp add: process_oe_def)
    also have "\<dots> = Some (Inr ((follow_all rs1 (?c\<lparr>oc_buffer := oc_buffer c @ ?b\<rparr>))\<lparr>oc_buffer := rest1\<rparr>))"
      by (rule read_stream) (use Suc.prems(1) rs b in auto)
    finally show ?thesis by simp
  next
    case NothingYet
    have "rs1 = []" using b(1) Suc.prems(1,2) NothingYet rs whole_not_partial
      by (cases rs1 rule: encode_responses.cases) auto
    then show ?thesis using b(1) NothingYet by (simp add: process_oe_def)
  next
    case RecvError
    have "rs1 = []" using b(1) Suc.prems(1,2) RecvError rs whole_not_partial
      by (cases rs1 rule: encode_responses.cases) auto
    then show ?thesis using b(1) RecvError by (simp add: process_oe_def)
  qed
  have "process_oe_times oe n ?c1 = Some (Inr ((follow_all rs2 ?c1)\<lparr>oc_buffer := rest, oc_reads := oc_reads ?c1 + n\<rparr>))"
    by (rule Suc.IH) (use Suc.prems(1) rs b in auto)
  then show ?case by (simp add: step rs)
qed

section \<open>Positions\<close>

text \<open>What fills of known orders do to the position in a symbol.\<close>

fun signed_fills :: "(u32 \<rightharpoonup> sent_order) \<Rightarrow> u32 \<Rightarrow> oe_response list \<Rightarrow> u32" where
  "signed_fills orders y [] = 0"
| "signed_fills orders y (OrderFill i q p f # ms) =
     (case orders (ucast i) of
        Some x \<Rightarrow> if so_symbol x = y then (if so_side x = BUY then q else - q) else 0
      | None \<Rightarrow> 0) + signed_fills orders y ms"
| "signed_fills orders y (m # ms) = signed_fills orders y ms"

text \<open>Fills are of known orders, and come before the close of the order.\<close>

fun orderly :: "(u32 \<rightharpoonup> sent_order) \<Rightarrow> oe_response list \<Rightarrow> bool" where
  "orderly orders [] \<longleftrightarrow> True"
| "orderly orders (OrderFill i q p f # ms) \<longleftrightarrow> orders (ucast i) \<noteq> None \<and> orderly orders ms"
| "orderly orders (OrderClosed i # ms) \<longleftrightarrow> orderly (orders(ucast i := None)) ms"
| "orderly orders (m # ms) \<longleftrightarrow> orderly orders ms"

lemma orderly_mono: "orderly orders ms \<Longrightarrow> orders \<subseteq>\<^sub>m orders' \<Longrightarrow> signed_fills orders' y ms = signed_fills orders y ms"
proof (induction orders ms arbitrary: orders' rule: orderly.induct)
  case (2 orders i q p f ms)
  then obtain x where "orders (ucast i) = Some x" by auto
  moreover from this 2(3) have "orders' (ucast i) = Some x" by (auto simp: map_le_def dom_def)
  moreover have "signed_fills orders' y ms = signed_fills orders y ms" using 2 by (intro 2(1)) simp_all
  ultimately show ?case by simp
next
  case (3 orders i ms)
  have le: "orders(ucast i := None) \<subseteq>\<^sub>m orders" by (auto simp: map_le_def)
  have ok: "orderly (orders(ucast i := None)) ms" using 3(2) by simp
  show ?case using 3(1) [OF ok map_le_trans [OF le 3(3)]] 3(1) [OF ok le] by simp
qed (simp_all only: orderly.simps signed_fills.simps)

lemma on_fill_known:
  assumes "oc_open_orders c (ucast i) = Some x"
  shows "i32_bits (get_position y (on_fill i q c)) = i32_bits (get_position y c) +
      (if so_symbol x = y then if so_side x = BUY then q else - q else 0)"
    "oc_open_orders (on_fill i q c) = oc_open_orders c"
  using assms by (auto simp: on_fill_def subscript_def get_position_def add_i32_def sub_i32_def Let_def split: option.splits)

lemma follow_position:
  "orderly (oc_open_orders c) ms \<Longrightarrow>
   i32_bits (get_position y (fold follow ms c)) = i32_bits (get_position y c) + signed_fills (oc_open_orders c) y ms"
proof (induction "oc_open_orders c" ms arbitrary: c rule: orderly.induct)
  case (2 i q p f ms)
  then obtain x where x: "oc_open_orders c (ucast i) = Some x" by auto
  note fill = on_fill_known [OF x]
  have "i32_bits (get_position y (fold follow ms (on_fill i q c))) = i32_bits (get_position y (on_fill i q c))
      + signed_fills (oc_open_orders (on_fill i q c)) y ms"
    using 2 fill(2) by simp
  then show ?case using x by (simp add: fill add.assoc)
next
  case (3 i ms)
  let ?c = "c\<lparr>oc_open_orders := (oc_open_orders c)(ucast i := None)\<rparr>"
  have "i32_bits (get_position y (fold follow ms ?c)) = i32_bits (get_position y ?c) + signed_fills (oc_open_orders ?c) y ms"
    using 3 by simp
  moreover have le: "(oc_open_orders c)(ucast i := None) \<subseteq>\<^sub>m oc_open_orders c" by (auto simp: map_le_def)
  have "signed_fills (oc_open_orders c) y ms = signed_fills (oc_open_orders ?c) y ms"
    using orderly_mono [OF _ le, of ms y] 3(2) by simp
  ultimately show ?case by (simp add: get_position_def)
qed (simp_all add: get_position_def)

text \<open>C27: a bot's position is what it was plus its purchases less its sales, however the responses
  are cut into pieces and whenever they arrive, as long as the fills are of orders that it holds open; and what is left in the
  buffer is the beginning of the next response.\<close>

theorem position_follows_fills:
  assumes "\<forall>r \<in> set rs. regular r" "partial_response rest" "partial_response (oc_buffer c)"
    "oc_buffer c @ arrived oe (oc_reads c) n = encode_responses rs @ rest"
    "\<forall>j. length (received (oe_read oe j)) \<le> OE_BUF" "orderly (oc_open_orders c) (map snd rs)"
  shows "\<exists>c'. process_oe_times oe n c = Some (Inr c') \<and> oc_buffer c' = rest \<and>
    i32_bits (get_position y c') = i32_bits (get_position y c) + signed_fills (oc_open_orders c) y (map snd rs)"
proof -
  have "follow_all rs c = fold follow (map snd rs) c" by (simp add: fold_map comp_def)
  then have "i32_bits (get_position y (follow_all rs c)) =
      i32_bits (get_position y c) + signed_fills (oc_open_orders c) y (map snd rs)"
    using follow_position [OF assms(6)] by simp
  then show ?thesis unfolding process_pieces [OF assms(1-5)] by (simp add: get_position_def)
qed

text \<open>One fill whose bytes arrive in two reads, with a pause between them.\<close>

definition fill_response :: stamped_response where
  "fill_response = (\<lparr>rs_length = 33, rs_msg_type = 103, rs_version = 1, rs_seq_num = 7, rs_last_seq_num = 3,
     rs_client_id = 3\<rparr>, OrderFill 7 4 (I32 100) 1)"

definition cut_reads :: oe_client_env where
  "cut_reads = \<lparr>oe_connect = Connected 6,
     oe_read = (\<lambda>j. if j = 0 then Received (take 20 (encode_responses [fill_response]))
       else if j = 2 then Received (drop 20 (encode_responses [fill_response])) else NothingYet),
     oe_stack = (\<lambda>k. 0)\<rparr>"

theorem position_follows_fills_witness:
  "\<exists>c'. process_oe_times cut_reads 3 (fst (send_order 1 7 SELL 10 (I32 100) 0 (logged_in, no_calls))) = Some (Inr c') \<and>
     get_position 1 c' = I32 (- 4)"
proof -
  let ?c = "fst (send_order 1 7 SELL 10 (I32 100) 0 (logged_in, no_calls))"
  have c: "oc_buffer ?c = []" "oc_reads ?c = 0" "oc_open_orders ?c = [7 \<mapsto> \<lparr>so_side = SELL, so_symbol = 1\<rparr>]"
    "get_position 1 ?c = I32 0"
    by (simp_all add: send_order_def write_request_def logged_in_def new_oe_client_def get_position_def)
  have len: "length (encode_responses [fill_response]) = 33" by (simp add: fill_response_def encode_oe_response_def)
  have "arrived cut_reads 0 3 = encode_responses [fill_response]"
    unfolding numeral_3_eq_3 arrived_simps by (simp add: cut_reads_def)
  then have bytes: "oc_buffer ?c @ arrived cut_reads (oc_reads ?c) 3 = encode_responses [fill_response] @ []"
    by (simp add: c)
  have small: "\<forall>j. length (received (oe_read cut_reads j)) \<le> OE_BUF"
    using len by (simp add: cut_reads_def OE_BUF_def)
  have "\<forall>r \<in> set [fill_response]. regular r" by (simp add: fill_response_def)
  moreover have "orderly (oc_open_orders ?c) (map snd [fill_response])" by (simp add: c fill_response_def)
  ultimately obtain c' where "process_oe_times cut_reads 3 ?c = Some (Inr c')"
    "i32_bits (get_position 1 c') = i32_bits (get_position 1 ?c) + signed_fills (oc_open_orders ?c) 1 (map snd [fill_response])"
    using position_follows_fills [OF _ partial_response_Nil _ bytes small] c(1) by auto
  then show ?thesis by (intro exI [of _ c']) (auto simp: c fill_response_def i32.expand)
qed

end
