(* ===== verification/Trading.thy ===== *)
theory Trading imports
  Oe_Client_Props Oe_Validator
begin

text \<open>
  What the trading bots of \<open>bots/\<close> share: the order entry client, the market data client and the
  counter of order ids that they hold by reference, and their random numbers.
\<close>

section \<open>The desk\<close>

record desk =
  dk_oe :: oe_client
  dk_md :: md_client
  dk_last_order_id :: u32
  dk_draws :: nat
  dk_system :: system

definition on_oe :: "(oe_client \<times> system \<Rightarrow> oe_client \<times> system) \<Rightarrow> desk \<Rightarrow> desk" where
  "on_oe f d = (case f (dk_oe d, dk_system d) of (c, s) \<Rightarrow> d\<lparr>dk_oe := c, dk_system := s\<rparr>)"

definition read_clock :: "env \<Rightarrow> desk \<Rightarrow> u64 \<times> desk" where
  "read_clock e d = (case nanotime e (dk_system d) of (t, s) \<Rightarrow> (t, d\<lparr>dk_system := s\<rparr>))"

text \<open>\<open>last_order_id++\<close>.\<close>

definition next_order_id :: "desk \<Rightarrow> u32 \<times> desk" where
  "next_order_id d = (dk_last_order_id d, d\<lparr>dk_last_order_id := dk_last_order_id d + 1\<rparr>)"

text \<open>
  \<open>rand()\<close> gives a number from 0 to \<open>RAND_MAX\<close>, and a \<open>uniform_int_distribution\<close> one between its
  bounds; which one is the generator's matter.
\<close>

definition draw :: "env \<Rightarrow> desk \<Rightarrow> u64 \<times> desk" where
  "draw e d = (env_random e (dk_draws d), d\<lparr>dk_draws := Suc (dk_draws d)\<rparr>)"

definition rand :: "env \<Rightarrow> desk \<Rightarrow> nat \<times> desk" where
  "rand e d = (case draw e d of (x, d) \<Rightarrow> (unat x mod 2 ^ 31, d))"

definition uniform :: "env \<Rightarrow> u64 \<Rightarrow> u64 \<Rightarrow> desk \<Rightarrow> u64 \<times> desk" where
  "uniform e lo hi d = (case draw e d of (x, d) \<Rightarrow> (lo + x mod (hi - lo + 1), d))"

text \<open>The same over the desk.\<close>

definition desk_send :: "u32 \<Rightarrow> u32 \<Rightarrow> side \<Rightarrow> u32 \<Rightarrow> i32 \<Rightarrow> u8 \<Rightarrow> desk \<Rightarrow> desk" where
  "desk_send y i sd q p flags = on_oe (send_order y (ucast i) sd q p flags)"

definition desk_cancel :: "u32 \<Rightarrow> desk \<Rightarrow> desk" where
  "desk_cancel i = on_oe (cancel_order (ucast i))"

definition desk_modify :: "u32 \<Rightarrow> side \<Rightarrow> u32 \<Rightarrow> i32 \<Rightarrow> desk \<Rightarrow> desk" where
  "desk_modify i sd q p = on_oe (send_modify_order (ucast i) sd q p)"

section \<open>What a bot has written\<close>

text \<open>
  \<open>sends d ms d'\<close>: between the two desks exactly the requests \<open>ms\<close> are written, numbered without a
  gap.
\<close>

definition sends :: "desk \<Rightarrow> oe_request list \<Rightarrow> desk \<Rightarrow> bool" where
  "sends d ms d' \<longleftrightarrow> (let c = dk_oe d; c' = dk_oe d' in
     written (oc_sock c) (dk_system d') = written (oc_sock c) (dk_system d) @
       encode_stream (session_requests (oc_client_seq c) (oc_client_id c) (oc_session_id c) ms) \<and>
     oc_client_seq c' = oc_client_seq c + of_nat (length ms) \<and> oc_client_id c' = oc_client_id c \<and>
     oc_session_id c' = oc_session_id c \<and> oc_sock c' = oc_sock c \<and> oc_positions c' = oc_positions c \<and>
     dk_md d' = dk_md d)"

lemma session_requests_append [simp]:
  "session_requests n c session (ms @ ms') =
     session_requests n c session ms @ session_requests (n + of_nat (length ms)) c session ms'"
  by (induction ms arbitrary: n) (simp_all add: algebra_simps)

lemma encode_stream_append [simp]: "encode_stream (rs @ rs') = encode_stream rs @ encode_stream rs'"
  by (induction rs rule: encode_stream.induct) simp_all

lemma sends_refl [simp]: "sends d [] d"
  by (simp add: sends_def)

lemma sends_trans: "sends d ms d1 \<Longrightarrow> sends d1 ms' d2 \<Longrightarrow> sends d (ms @ ms') d2"
  by (simp add: sends_def Let_def algebra_simps)

lemma sends_same_left: "sends d ms d1 \<Longrightarrow> dk_oe d1 = dk_oe d2 \<Longrightarrow> dk_md d1 = dk_md d2 \<Longrightarrow>
    written (oc_sock (dk_oe d)) (dk_system d1) = written (oc_sock (dk_oe d)) (dk_system d2) \<Longrightarrow> sends d ms d2"
  by (simp add: sends_def Let_def)

lemma written_nanotime: "nanotime e s = (t, s') \<Longrightarrow> written fd s' = written fd s"
  by (auto simp: nanotime_def written_def Let_def split: prod.splits)

lemma sends_steps:
  "sends d [] (snd (read_clock e d))" "sends d [] (snd (next_order_id d))" "sends d [] (snd (draw e d))"
  "sends d [] (snd (rand e d))" "sends d [] (snd (uniform e lo hi d))"
  by (auto simp: sends_def read_clock_def next_order_id_def draw_def rand_def uniform_def Let_def
      dest: written_nanotime split: prod.split)

lemma sends_request:
  "sends d [OeNewOrder (ucast i) y sd q p flags] (desk_send y i sd q p flags d)"
  "sends d [OeDeleteOrder (ucast i)] (desk_cancel i d)"
  "sends d [OeModifyOrder (ucast i) sd q p] (desk_modify i sd q p d)"
  by (auto simp: sends_def desk_send_def desk_cancel_def desk_modify_def on_oe_def send_order_def cancel_order_def
      send_modify_order_def write_request_def request_header_def Let_def)

text \<open>A request that the exchange's validator lets through.\<close>

fun passes :: "symbol_definition \<Rightarrow> oe_request \<Rightarrow> bool" where
  "passes y (OeNewOrder i symb sd q p flags) \<longleftrightarrow>
     validate_new_order [sd_symbol y \<mapsto> y] i symb sd q p flags = NoReject \<and> symb = sd_symbol y"
| "passes y (OeModifyOrder i sd q p) \<longleftrightarrow> validate_new_order [sd_symbol y \<mapsto> y] i (sd_symbol y) sd q p 0 = NoReject"
| "passes y m \<longleftrightarrow> True"

definition sends_only :: "(oe_request \<Rightarrow> bool) \<Rightarrow> desk \<Rightarrow> desk \<Rightarrow> bool" where
  "sends_only P d d' \<longleftrightarrow> (\<exists>ms. sends d ms d' \<and> (\<forall>m \<in> set ms. P m))"

lemma sends_only_refl [simp]: "sends_only P d d"
  unfolding sends_only_def by (rule exI [of _ "[]"]) simp

lemma sends_only_trans:
  assumes "sends_only P d d1" "sends_only P d1 d2"
  shows "sends_only P d d2"
proof -
  obtain ms ms' where "sends d ms d1" "\<forall>m \<in> set ms. P m" "sends d1 ms' d2" "\<forall>m \<in> set ms'. P m"
    using assms by (auto simp: sends_only_def)
  then show ?thesis unfolding sends_only_def by (intro exI [of _ "ms @ ms'"]) (auto intro: sends_trans)
qed

lemma sends_only_steps [simp]:
  "sends_only P d (snd (read_clock e d))" "sends_only P d (snd (next_order_id d))"
  "sends_only P d (snd (draw e d))" "sends_only P d (snd (rand e d))" "sends_only P d (snd (uniform e lo hi d))"
  unfolding sends_only_def by (rule exI [of _ "[]"], simp add: sends_steps)+

lemma sends_only_request:
  "P (OeNewOrder (ucast i) y sd q p flags) \<Longrightarrow> sends_only P d (desk_send y i sd q p flags d)"
  "P (OeDeleteOrder (ucast i)) \<Longrightarrow> sends_only P d (desk_cancel i d)"
  "P (OeModifyOrder (ucast i) sd q p) \<Longrightarrow> sends_only P d (desk_modify i sd q p d)"
  unfolding sends_only_def using sends_request by fastforce+

end
