(* ===== verification/Stack_Manager.thy ===== *)
theory Stack_Manager imports
  Trading
begin

text \<open>
  \<open>bots/stack_manager.cpp\<close> and \<open>bots/fair_value_stack_mm.cpp\<close>: a market maker that keeps a stack of
  orders on either side of the weighted middle of the market.
\<close>

section \<open>State\<close>

text \<open>
  A \<open>std::set\<close> of open orders that are compared by price alone is a map from the price; the bids
  are in ascending order and the asks in descending order, so the best of either is the last.
\<close>

record stacked_order =
  sk_order_id :: u32
  sk_quantity :: u32

type_synonym stack = "(i32 \<times> stacked_order) list"

record stack_manager =
  sm_symbol :: symbol_definition
  sm_width :: u32
  sm_quantity :: u32
  sm_depth :: u32
  sm_last_send :: u64
  sm_bids :: stack
  sm_asks :: stack

definition new_stack_manager :: "symbol_definition \<Rightarrow> u32 \<Rightarrow> u32 \<Rightarrow> u32 \<Rightarrow> stack_manager" where
  "new_stack_manager y width q stack_depth = \<lparr>sm_symbol = y, sm_width = width, sm_quantity = q,
     sm_depth = stack_depth, sm_last_send = 0, sm_bids = [], sm_asks = []\<rparr>"

definition stack_before :: "side \<Rightarrow> i32 \<Rightarrow> i32 \<Rightarrow> bool" where
  "stack_before sd = (if sd = BUY then (<) else (>))"

definition stack_of :: "side \<Rightarrow> stack_manager \<Rightarrow> stack" where
  "stack_of sd m = (if sd = BUY then sm_bids m else sm_asks m)"

definition set_stack :: "side \<Rightarrow> stack \<Rightarrow> stack_manager \<Rightarrow> stack_manager" where
  "set_stack sd os m = (if sd = BUY then m\<lparr>sm_bids := os\<rparr> else m\<lparr>sm_asks := os\<rparr>)"

section \<open>One side\<close>

definition ahead_of :: "side \<Rightarrow> i32 \<Rightarrow> i32 \<Rightarrow> bool" where
  "ahead_of sd price p \<longleftrightarrow> sd = BUY \<and> p > price \<or> sd = SELL \<and> p < price"

fun cancel_ahead :: "side \<Rightarrow> i32 \<Rightarrow> stack \<Rightarrow> desk \<Rightarrow> stack \<times> desk" where
  "cancel_ahead sd price [] d = ([], d)"
| "cancel_ahead sd price ((p, x) # os) d =
     (if ahead_of sd price p then cancel_ahead sd price os (desk_cancel (sk_order_id x) d)
      else (case cancel_ahead sd price os d of (os, d) \<Rightarrow> ((p, x) # os, d)))"

text \<open>
  A full stack has its last order moved to the new price.  A stack of depth zero would have no last
  order; the only user of the class asks for ten.
\<close>

definition move_last :: "env \<Rightarrow> side \<Rightarrow> i32 \<Rightarrow> stack \<Rightarrow> stack_manager \<times> desk \<Rightarrow> stack_manager \<times> desk" where
  "move_last e sd price os md = (case md of (m, d) \<Rightarrow>
     (let x = snd (last os);
          d = desk_modify (sk_order_id x) sd (sm_quantity m) price d;
          (now, d) = read_clock e d;
          os = omap_insert (stack_before sd) price (x\<lparr>sk_quantity := sm_quantity m\<rparr>) (butlast os)
      in (set_stack sd os (m\<lparr>sm_last_send := now\<rparr>), d)))"

definition add_order_to_stack :: "env \<Rightarrow> side \<Rightarrow> i32 \<Rightarrow> stack \<Rightarrow> stack_manager \<times> desk \<Rightarrow> stack_manager \<times> desk" where
  "add_order_to_stack e sd price os md = (case md of (m, d) \<Rightarrow>
     (let (i, d) = next_order_id d;
          os = omap_insert (stack_before sd) price \<lparr>sk_order_id = i, sk_quantity = sm_quantity m\<rparr> os;
          d = desk_send (sd_symbol (sm_symbol m)) i sd (sm_quantity m) price 0 d;
          (now, d) = read_clock e d
      in (set_stack sd os (m\<lparr>sm_last_send := now\<rparr>), d)))"

definition SEND_PAUSE :: u64 where "SEND_PAUSE = 100000000"

definition stack_side :: "env \<Rightarrow> i32 \<Rightarrow> side \<Rightarrow> stack_manager \<times> desk \<Rightarrow> stack_manager \<times> desk" where
  "stack_side e price sd md = (case md of (m, d) \<Rightarrow>
     (let (os, d) = cancel_ahead sd price (stack_of sd m) d;
          m = set_stack sd os m
      in if map_of os price \<noteq> None then (m, d)
         else if length os \<ge> unat (sm_depth m) then move_last e sd price os (m, d)
         else if sm_last_send m = 0 then add_order_to_stack e sd price os (m, d)
         else
           (let (now, d) = read_clock e d
            in if now - sm_last_send m > SEND_PAUSE then add_order_to_stack e sd price os (m, d)
               else (m, d))))"

section \<open>Both sides\<close>

text \<open>
  The tick size is unsigned, so the prices are divided and multiplied as unsigned numbers; a tick
  size of zero would divide by zero.
\<close>

definition round_down :: "u32 \<Rightarrow> u32 \<Rightarrow> i32" where
  "round_down tick x = I32 (x div tick * tick)"

definition bid_to_stack :: "stack_manager \<Rightarrow> i32 \<Rightarrow> i32 \<Rightarrow> i32" where
  "bid_to_stack m fair bid =
    (let desired = round_down (sd_tick_size (sm_symbol m)) (i32_bits fair - sm_width m)
     in max (sd_min_price (sm_symbol m)) (min desired bid))"

definition ask_to_stack :: "stack_manager \<Rightarrow> i32 \<Rightarrow> i32 \<Rightarrow> i32" where
  "ask_to_stack m fair ask =
    (let desired = round_down (sd_tick_size (sm_symbol m)) (i32_bits fair + sm_width m - 1)
     in min (sd_max_price (sm_symbol m)) (max desired ask))"

definition process_stack :: "env \<Rightarrow> i32 \<Rightarrow> i32 \<Rightarrow> i32 \<Rightarrow> stack_manager \<times> desk \<Rightarrow> stack_manager \<times> desk" where
  "process_stack e fair bid ask md =
    (let b = bid_to_stack (fst md) fair bid; a = ask_to_stack (fst md) fair ask
     in if b \<ge> a then md
        else
          (let md = (if b > I32 0 then stack_side e b BUY md else md)
           in if a > I32 0 then stack_side e a SELL md else md))"

definition improve :: "stack_manager \<Rightarrow> i32 \<Rightarrow> side \<Rightarrow> u32 \<Rightarrow> i32" where
  "improve m price sd ticks =
    (if sd = BUY then I32 (i32_bits price + sm_width m * ticks) else I32 (i32_bits price - sm_width m * ticks))"

definition worsen :: "stack_manager \<Rightarrow> i32 \<Rightarrow> side \<Rightarrow> u32 \<Rightarrow> i32" where
  "worsen m price sd ticks =
    (if sd = BUY then I32 (i32_bits price - sm_width m * ticks) else I32 (i32_bits price + sm_width m * ticks))"

definition cancel_all_orders :: "stack_manager \<Rightarrow> desk \<Rightarrow> desk" where
  "cancel_all_orders m d =
     fold (\<lambda>(p, x). desk_cancel (sk_order_id x)) (sm_asks m)
       (fold (\<lambda>(p, x). desk_cancel (sk_order_id x)) (sm_bids m) d)"

section \<open>The market maker\<close>

text \<open>
  The weighted middle is computed in \<open>uint32_t\<close>, whose products and sum wrap; a sum of the quantities
  that wraps to zero would divide by zero.  It becomes a \<open>double\<close>, and the quotient by the tick size
  is cut to an integer: for numbers below \<open>2^32\<close> the rounding of the quotient never reaches the
  next integer, so the integer is the integer quotient.
\<close>

definition weighted_mid :: "ob_price_level \<Rightarrow> ob_price_level \<Rightarrow> u32" where
  "weighted_mid bid ask =
     (i32_bits (opl_price bid) * opl_quantity ask + i32_bits (opl_price ask) * opl_quantity bid)
       div (opl_quantity bid + opl_quantity ask)"

definition process_stack_mm :: "env \<Rightarrow> stack_manager \<times> desk \<Rightarrow> stack_manager \<times> desk" where
  "process_stack_mm e md = (case md of (m, d) \<Rightarrow>
     (let y = sd_symbol (sm_symbol m);
          bid = client_best_bid y (dk_md d); ask = client_best_ask y (dk_md d)
      in if opl_price bid = I32 0 \<or> opl_price ask = I32 0 then md
         else if opl_price bid \<ge> opl_price ask then md
         else if opl_quantity bid = 0 \<or> opl_quantity ask = 0 then md
         else process_stack e (round_down (sd_tick_size (sm_symbol m)) (weighted_mid bid ask))
                (opl_price bid) (opl_price ask) md))"

definition new_stack_mm :: "symbol_definition \<Rightarrow> u32 \<Rightarrow> u32 \<Rightarrow> stack_manager" where
  "new_stack_mm y width q = new_stack_manager y width q 10"

end
