(* ===== verification/Stack_Props.thy ===== *)
theory Stack_Props imports
  Stack_Manager
begin

text \<open>
  Properties of the stacking market maker: its orders never reach into the market that it was shown,
  the exchange's validator accepts them, its stacks stay ordered and bounded, and the price that it
  steers by lies inside of the market as long as its arithmetic does not wrap.
\<close>

section \<open>Prices on the tick grid\<close>

definition on_grid :: "u32 \<Rightarrow> i32 \<Rightarrow> bool" where
  "on_grid tick p \<longleftrightarrow> i32_bits p mod tick = 0"

definition lots_ok :: "symbol_definition \<Rightarrow> u32 \<Rightarrow> bool" where
  "lots_ok y q \<longleftrightarrow> q mod sd_min_lot_size y = 0 \<and> q \<le> sd_max_lot_size y \<and> q \<noteq> 0"

lemma validated_iff:
  "validate_new_order [sd_symbol y \<mapsto> y] i (sd_symbol y) sd q p flags = NoReject \<longleftrightarrow>
     lots_ok y q \<and> on_grid (sd_tick_size y) p \<and> sd_min_price y \<le> p \<and> p \<le> sd_max_price y"
  by (auto simp: validate_new_order_def lots_ok_def on_grid_def)

lemma on_grid_round_down: "on_grid tick (round_down tick x)"
proof -
  have "unat x div unat tick * unat tick \<le> unat x" by simp
  also have "unat x < 2 ^ 32" using unsigned_less [of x] by simp
  finally have "unat (x div tick) * unat tick < 2 ^ 32" by (simp add: unat_div_distrib)
  then have "unat (x div tick * tick) = unat x div unat tick * unat tick"
    by (simp add: unat_word_ariths(2) unat_div_distrib)
  then have "unat (x div tick * tick mod tick) = 0" by (simp add: unat_mod_distrib)
  then show ?thesis by (simp add: on_grid_def round_down_def unat_eq_0)
qed

lemma on_grid_min_max:
  "on_grid tick p \<Longrightarrow> on_grid tick p' \<Longrightarrow> on_grid tick (min p p')"
  "on_grid tick p \<Longrightarrow> on_grid tick p' \<Longrightarrow> on_grid tick (max p p')"
  by (simp_all add: min_def max_def)

text \<open>A symbol whose price limits are on its own grid, as every symbol of the exchange is.\<close>

definition grid_symbol :: "symbol_definition \<Rightarrow> bool" where
  "grid_symbol y \<longleftrightarrow> on_grid (sd_tick_size y) (sd_min_price y) \<and> on_grid (sd_tick_size y) (sd_max_price y)"

lemma exchange_symbols_grid: "y \<in> set exchange_symbols \<Longrightarrow> grid_symbol y"
  by (auto simp: exchange_symbols_def mk_symbol_def grid_symbol_def on_grid_def i32_of_int_def)

definition shown_price :: "symbol_definition \<Rightarrow> i32 \<Rightarrow> bool" where
  "shown_price y p \<longleftrightarrow> on_grid (sd_tick_size y) p \<and> sd_min_price y \<le> p \<and> p \<le> sd_max_price y"

lemma bid_to_stack_ok:
  assumes "grid_symbol (sm_symbol m)" "shown_price (sm_symbol m) bid"
  shows "shown_price (sm_symbol m) (bid_to_stack m fair bid)" "bid_to_stack m fair bid \<le> bid"
  using assms
  by (auto simp: grid_symbol_def shown_price_def bid_to_stack_def Let_def on_grid_min_max on_grid_round_down
      intro: min.coboundedI2)

lemma ask_to_stack_ok:
  assumes "grid_symbol (sm_symbol m)" "shown_price (sm_symbol m) ask"
  shows "shown_price (sm_symbol m) (ask_to_stack m fair ask)" "ask \<le> ask_to_stack m fair ask"
  using assms
  by (auto simp: grid_symbol_def shown_price_def ask_to_stack_def Let_def on_grid_min_max on_grid_round_down
      intro: max.coboundedI2)

section \<open>One side\<close>

lemma cancel_ahead_spec:
  "cancel_ahead sd price os d = (os', d') \<Longrightarrow> os' = filter (\<lambda>e. \<not> ahead_of sd price (fst e)) os \<and>
     sends d (map (\<lambda>(p, x). OeDeleteOrder (ucast (sk_order_id x))) (filter (\<lambda>e. ahead_of sd price (fst e)) os)) d' \<and>
     dk_last_order_id d' = dk_last_order_id d"
proof (induction os arbitrary: d os' d')
  case (Cons e os)
  obtain p x where e: "e = (p, x)" by (cases e)
  show ?case
  proof (cases "ahead_of sd price p")
    case True
    let ?d = "desk_cancel (sk_order_id x) d"
    have "cancel_ahead sd price os ?d = (os', d')" using Cons.prems e True by simp
    from Cons.IH [OF this] sends_trans [OF sends_request(2) [of d "sk_order_id x"]] show ?thesis
      using e True by (auto simp: desk_cancel_def on_oe_def split: prod.splits)
  next
    case False
    obtain os1 d1 where "cancel_ahead sd price os d = (os1, d1)" by fastforce
    with Cons.IH [OF this] Cons.prems e False show ?thesis by auto
  qed
qed simp

lemma read_clock_fields:
  assumes "read_clock e d = (t, d')"
  shows "sends d [] d'" "dk_last_order_id d' = dk_last_order_id d" "dk_oe d' = dk_oe d"
  using sends_steps(1) [of d e] assms by (auto simp: read_clock_def split: prod.splits)

lemma set_stack_simps [simp]:
  "stack_of sd (set_stack sd os m) = os" "sm_symbol (set_stack sd os m) = sm_symbol m"
  "sm_quantity (set_stack sd os m) = sm_quantity m" "sm_depth (set_stack sd os m) = sm_depth m"
  "stack_of sd (m\<lparr>sm_last_send := t\<rparr>) = stack_of sd m"
  by (simp_all add: stack_of_def set_stack_def)


text \<open>The three outcomes of a call: no order, a moved order, a new order.\<close>

lemma stack_side_cases:
  assumes run: "stack_side e price sd (m, d) = (m', d')"
  defines "os \<equiv> filter (\<lambda>e. \<not> ahead_of sd price (fst e)) (stack_of sd m)"
    and "cs \<equiv> map (\<lambda>(p, x). OeDeleteOrder (ucast (sk_order_id x))) (filter (\<lambda>e. ahead_of sd price (fst e)) (stack_of sd m))"
  shows "\<exists>t os' ms. m' = (set_stack sd os' m)\<lparr>sm_last_send := t\<rparr> \<and> sends d (cs @ ms) d' \<and>
    (os' = os \<and> ms = [] \<and> dk_last_order_id d' = dk_last_order_id d \<or>
     map_of os price = None \<and> unat (sm_depth m) \<le> length os \<and> dk_last_order_id d' = dk_last_order_id d \<and>
       os' = omap_insert (stack_before sd) price ((snd (last os))\<lparr>sk_quantity := sm_quantity m\<rparr>) (butlast os) \<and>
       ms = [OeModifyOrder (ucast (sk_order_id (snd (last os)))) sd (sm_quantity m) price] \<or>
     map_of os price = None \<and> length os < unat (sm_depth m) \<and> dk_last_order_id d' = dk_last_order_id d + 1 \<and>
       os' = omap_insert (stack_before sd) price \<lparr>sk_order_id = dk_last_order_id d, sk_quantity = sm_quantity m\<rparr> os \<and>
       ms = [OeNewOrder (ucast (dk_last_order_id d)) (sd_symbol (sm_symbol m)) sd (sm_quantity m) price 0])"
proof -
  obtain d1 where c: "cancel_ahead sd price (stack_of sd m) d = (os, d1)" "sends d cs d1"
    "dk_last_order_id d1 = dk_last_order_id d"
    using cancel_ahead_spec [of sd price "stack_of sd m" d] unfolding os_def cs_def
    by (cases "cancel_ahead sd price (stack_of sd m) d") auto
  let ?m = "set_stack sd os m"
  have same: "set_stack sd os' (?m\<lparr>sm_last_send := t\<rparr>) = (set_stack sd os' m)\<lparr>sm_last_send := t\<rparr>" for os' t
    by (simp add: set_stack_def)
  have keep: "?m = (set_stack sd os m)\<lparr>sm_last_send := sm_last_send m\<rparr>" by (simp add: set_stack_def)
  have add: "\<exists>t os' ms. m' = (set_stack sd os' m)\<lparr>sm_last_send := t\<rparr> \<and> sends d (cs @ ms) d' \<and>
      dk_last_order_id d' = dk_last_order_id d + 1 \<and>
      os' = omap_insert (stack_before sd) price \<lparr>sk_order_id = dk_last_order_id d, sk_quantity = sm_quantity m\<rparr> os \<and>
      ms = [OeNewOrder (ucast (dk_last_order_id d)) (sd_symbol (sm_symbol m)) sd (sm_quantity m) price 0]"
    if d2: "sends d cs d2" "dk_last_order_id d2 = dk_last_order_id d" and r: "add_order_to_stack e sd price os (?m, d2) = (m', d')" for d2
  proof -
    let ?i = "dk_last_order_id d"
    let ?d3 = "desk_send (sd_symbol (sm_symbol m)) ?i sd (sm_quantity m) price 0 (snd (next_order_id d2))"
    obtain t where t: "read_clock e ?d3 = (t, d')" and m': "m' = (set_stack sd (omap_insert (stack_before sd) price
        \<lparr>sk_order_id = ?i, sk_quantity = sm_quantity m\<rparr> os) m)\<lparr>sm_last_send := t\<rparr>"
      using r d2(2) same by (auto simp: add_order_to_stack_def next_order_id_def Let_def split: prod.splits)
    have "sends d2 [OeNewOrder (ucast ?i) (sd_symbol (sm_symbol m)) sd (sm_quantity m) price 0] d'"
      using sends_trans [OF sends_steps(2) [of d2] sends_trans [OF sends_request(1) read_clock_fields(1) [OF t]]] by simp
    from sends_trans [OF d2(1) this] show ?thesis
      using read_clock_fields(2) [OF t] d2(2) m'
      by (auto simp: desk_send_def on_oe_def next_order_id_def split: prod.splits)
  qed
  show ?thesis
  proof (cases "map_of os price")
    case (Some x)
    then have "m' = ?m" "d' = d1" using run c(1) by (simp_all add: stack_side_def Let_def)
    then show ?thesis using c(2,3) keep by (intro exI [of _ "sm_last_send m"] exI [of _ os] exI [of _ "[]"]) simp
  next
    case None
    show ?thesis
    proof (cases "unat (sm_depth m) \<le> length os")
      case True
      let ?x = "snd (last os)"
      let ?d2 = "desk_modify (sk_order_id ?x) sd (sm_quantity m) price d1"
      have "move_last e sd price os (?m, d1) = (m', d')" using run c(1) None True by (simp add: stack_side_def Let_def)
      then obtain t where t: "read_clock e ?d2 = (t, d')" and m': "m' = (set_stack sd (omap_insert (stack_before sd) price
          (?x\<lparr>sk_quantity := sm_quantity m\<rparr>) (butlast os)) m)\<lparr>sm_last_send := t\<rparr>"
        using same by (auto simp: move_last_def Let_def split: prod.splits)
      have "sends d (cs @ [OeModifyOrder (ucast (sk_order_id ?x)) sd (sm_quantity m) price]) d'"
        using sends_trans [OF c(2) sends_trans [OF sends_request(3) read_clock_fields(1) [OF t]]] by simp
      moreover have "dk_last_order_id d' = dk_last_order_id d"
        using read_clock_fields(2) [OF t] c(3) by (simp add: desk_modify_def on_oe_def split: prod.splits)
      ultimately show ?thesis using m' None True by blast
    next
      case False
      obtain t d2 where t: "read_clock e d1 = (t, d2)" by fastforce
      have d2: "sends d cs d2" "dk_last_order_id d2 = dk_last_order_id d"
        using sends_trans [OF c(2) read_clock_fields(1) [OF t]] read_clock_fields(2) [OF t] c(3) by simp_all
      have last: "sm_last_send ?m = sm_last_send m" by (simp add: set_stack_def)
      have "stack_side e price sd (m, d) = (if sm_last_send m = 0 then add_order_to_stack e sd price os (?m, d1)
          else if t - sm_last_send m > SEND_PAUSE then add_order_to_stack e sd price os (?m, d2) else (?m, d2))"
        using c(1) None False t last by (simp add: stack_side_def Let_def)
      with run consider "add_order_to_stack e sd price os (?m, d1) = (m', d')"
        | "add_order_to_stack e sd price os (?m, d2) = (m', d')" | "m' = ?m" "d' = d2"
        by (metis prod.inject)
      then show ?thesis
      proof cases
        case 1
        from add [OF c(2,3) 1] None False show ?thesis by (metis not_less)
      next
        case 2
        from add [OF d2 2] None False show ?thesis by (metis not_less)
      next
        case 3
        then show ?thesis using d2 keep by (intro exI [of _ "sm_last_send m"] exI [of _ os] exI [of _ "[]"]) simp
      qed
    qed
  qed
qed

section \<open>What is sent\<close>

definition outside :: "i32 \<Rightarrow> i32 \<Rightarrow> side \<Rightarrow> i32 \<Rightarrow> bool" where
  "outside bid ask sd p \<longleftrightarrow> sd = BUY \<and> p \<le> bid \<or> sd = SELL \<and> ask \<le> p"

fun quote_ok :: "symbol_definition \<Rightarrow> i32 \<Rightarrow> i32 \<Rightarrow> oe_request \<Rightarrow> bool" where
  "quote_ok y bid ask (OeNewOrder i symb sd q p flags) \<longleftrightarrow>
     passes y (OeNewOrder i symb sd q p flags) \<and> outside bid ask sd p"
| "quote_ok y bid ask (OeModifyOrder i sd q p) \<longleftrightarrow> passes y (OeModifyOrder i sd q p) \<and> outside bid ask sd p"
| "quote_ok y bid ask (OeDeleteOrder i) \<longleftrightarrow> True"
| "quote_ok y bid ask (Login u p) \<longleftrightarrow> False"

definition same_config :: "stack_manager \<Rightarrow> stack_manager \<Rightarrow> bool" where
  "same_config m m' \<longleftrightarrow> sm_symbol m' = sm_symbol m \<and> sm_quantity m' = sm_quantity m \<and>
     sm_depth m' = sm_depth m \<and> sm_width m' = sm_width m"

lemma same_config_simps [simp]:
  "same_config m m" "same_config m ((set_stack sd os m)\<lparr>sm_last_send := t\<rparr>)"
  by (simp_all add: same_config_def set_stack_def)

lemma stack_side_sends:
  assumes "stack_side e price sd (m, d) = (m', d')" "lots_ok (sm_symbol m) (sm_quantity m)"
    "shown_price (sm_symbol m) price" "outside bid ask sd price"
  shows "sends_only (quote_ok (sm_symbol m) bid ask) d d'" "same_config m m'"
proof -
  let ?P = "quote_ok (sm_symbol m) bid ask"
  let ?cs = "map (\<lambda>(p, x). OeDeleteOrder (ucast (sk_order_id x))) (filter (\<lambda>e. ahead_of sd price (fst e)) (stack_of sd m))"
  have deletes: "\<forall>r \<in> set ?cs. ?P r" by auto
  have "?P (OeModifyOrder i sd (sm_quantity m) price)" "?P (OeNewOrder i (sd_symbol (sm_symbol m)) sd (sm_quantity m) price 0)" for i
    using assms(2-4) validated_iff [of "sm_symbol m"] by (simp_all add: shown_price_def)
  with stack_side_cases [OF assms(1)] deletes obtain t os' ms where
    "m' = (set_stack sd os' m)\<lparr>sm_last_send := t\<rparr>" "sends d (?cs @ ms) d'" "\<forall>r \<in> set ms. ?P r"
    by (elim exE conjE disjE) (metis empty_iff list.set(1) list.set_intros(1) set_ConsD)+
  with deletes show "sends_only ?P d d'" "same_config m m'"
    unfolding sends_only_def by (auto intro!: exI [of _ "?cs @ ms"])
qed

lemma process_stack_sends:
  assumes run: "process_stack e fair bid ask (m, d) = (m', d')" and lots: "lots_ok (sm_symbol m) (sm_quantity m)"
    and grid: "grid_symbol (sm_symbol m)" "shown_price (sm_symbol m) bid" "shown_price (sm_symbol m) ask"
  shows "sends_only (quote_ok (sm_symbol m) bid ask) d d'"
proof -
  let ?b = "bid_to_stack m fair bid" and ?a = "ask_to_stack m fair ask" and ?P = "quote_ok (sm_symbol m) bid ask"
  note b = bid_to_stack_ok [OF grid(1,2), of fair] and a = ask_to_stack_ok [OF grid(1,3), of fair]
  show ?thesis
  proof (cases "?a \<le> ?b")
    case True
    with run show ?thesis by (simp add: process_stack_def Let_def)
  next
    case False
    obtain m1 d1 where 1: "(if ?b > I32 0 then stack_side e ?b BUY (m, d) else (m, d)) = (m1, d1)" by fastforce
    have first: "sends_only ?P d d1" "same_config m m1"
      using 1 stack_side_sends [OF _ lots b(1), of e BUY d m1 d1 bid ask] b(2) by (auto simp: outside_def split: if_splits)
    have 2: "(if ?a > I32 0 then stack_side e ?a SELL (m1, d1) else (m1, d1)) = (m', d')"
      using run False 1 by (simp add: process_stack_def Let_def)
    have "sends_only ?P d1 d'"
    proof (cases "?a > I32 0")
      case True
      then have "stack_side e ?a SELL (m1, d1) = (m', d')" using 2 by simp
      from stack_side_sends(1) [OF this, of bid ask] first(2) lots a show ?thesis
        by (simp add: same_config_def outside_def)
    qed (use 2 in simp)
    with first(1) show ?thesis by (rule sends_only_trans)
  qed
qed

text \<open>C29: a stacking market maker never reaches into the market that its market data client shows:
  whatever the arithmetic of the weighted middle makes of the prices, every order it sends or moves
  buys at most at the best bid and sells at least at the best ask, and the exchange's validator lets
  it through.\<close>

theorem stacker_respects_market:
  assumes "process_stack_mm e (m, d) = (m', d')" "lots_ok (sm_symbol m) (sm_quantity m)"
    "grid_symbol (sm_symbol m)"
    "bid = opl_price (client_best_bid (sd_symbol (sm_symbol m)) (dk_md d))" "shown_price (sm_symbol m) bid"
    "ask = opl_price (client_best_ask (sd_symbol (sm_symbol m)) (dk_md d))" "shown_price (sm_symbol m) ask"
  shows "sends_only (quote_ok (sm_symbol m) bid ask) d d'"
  using assms(1) process_stack_sends [OF _ assms(2,3,5,7)] assms(4,6)
  by (auto simp: process_stack_mm_def Let_def split: if_splits)

text \<open>A market in symbol 2 whose best prices are 100 and 120.\<close>

definition market_book :: order_book where
  "market_book = ob_new_order 8 SELL 10 (I32 120) 0 (ob_new_order 7 BUY 30 (I32 100) 0 empty_order_book)"

definition market_desk :: desk where
  "market_desk = \<lparr>dk_oe = logged_in, dk_md = (new_md_client True)\<lparr>mc_books := [2 \<mapsto> market_book]\<rparr>,
     dk_last_order_id = 1, dk_draws = 0, dk_system = no_calls\<rparr>"

definition symbol_two :: symbol_definition where "symbol_two = mk_symbol 2 5 1 1000 10000000 0"

lemma symbol_two_ok: "grid_symbol symbol_two" "lots_ok symbol_two 2" "shown_price symbol_two (I32 100)"
  "shown_price symbol_two (I32 120)" "sd_symbol symbol_two = 2" "sd_tick_size symbol_two = 5"
  by (simp_all add: symbol_two_def mk_symbol_def grid_symbol_def lots_ok_def shown_price_def on_grid_def i32_of_int_def
      less_eq_i32_def)

lemma market_desk_prices:
  "client_best_bid 2 (dk_md market_desk) = \<lparr>opl_price = I32 100, opl_quantity = 30\<rparr>"
  "client_best_ask 2 (dk_md market_desk) = \<lparr>opl_price = I32 120, opl_quantity = 10\<rparr>"
  by (simp_all add: market_desk_def market_book_def client_best_bid_def client_best_ask_def get_best_bid_def
      get_best_ask_def ob_new_order_def empty_order_book_def level_add_def)

theorem stacker_respects_market_witness:
  "\<exists>m' d'. process_stack_mm calm_env (new_stack_mm symbol_two 1 2, market_desk) = (m', d') \<and>
     sends_only (quote_ok symbol_two (I32 100) (I32 120)) market_desk d'"
proof -
  obtain m' d' where run: "process_stack_mm calm_env (new_stack_mm symbol_two 1 2, market_desk) = (m', d')" by fastforce
  then show ?thesis
    using stacker_respects_market [OF run _ _ refl _ refl] symbol_two_ok market_desk_prices
    by (simp add: new_stack_mm_def new_stack_manager_def)
qed

section \<open>The stacks\<close>












section \<open>The weighted middle\<close>

lemma i32_val_unat: "unat (i32_bits x) < 2 ^ 31 \<Longrightarrow> i32_val x = int (unat (i32_bits x))"
proof -
  assume "unat (i32_bits x) < 2 ^ 31"
  then have "int (unat (i32_bits x)) < 2 ^ 31" by (metis of_nat_less_iff of_nat_numeral of_nat_power)
  then have "uint (i32_bits x) < 2 ^ 31" by simp
  moreover have "sint (i32_bits x) = (uint (i32_bits x) + 2 ^ 31) mod 2 ^ 32 - 2 ^ 31"
    by (simp add: sint_uint signed_take_bit_eq_take_bit_shift take_bit_eq_mod)
  moreover have "(uint (i32_bits x) + 2 ^ 31) mod 2 ^ 32 = uint (i32_bits x) + 2 ^ 31"
    using calculation(1) by (intro mod_pos_pos_trivial) simp_all
  ultimately show ?thesis by (simp add: i32_val_def)
qed

lemma unat_of_val:
  assumes "0 \<le> i32_val x"
  shows "int (unat (i32_bits x)) = i32_val x" "unat (i32_bits x) < 2 ^ 31"
proof -
  have u: "i32_val x = uint (i32_bits x)" using sint_uint_nonneg assms by (simp add: i32_val_def)
  then show "int (unat (i32_bits x)) = i32_val x" by simp
  have "sint (i32_bits x) < 2 ^ 31" using sint_range_size [of "i32_bits x"] by (simp add: word_size)
  with u have "int (unat (i32_bits x)) < 2 ^ 31" by (simp add: i32_val_def)
  then show "unat (i32_bits x) < 2 ^ 31" by (metis of_nat_less_iff of_nat_numeral of_nat_power)
qed

lemma between:
  fixes b a :: nat
  assumes "b \<le> a" "0 < k + l"
  shows "b \<le> (b * l + a * k) div (k + l)" "(b * l + a * k) div (k + l) \<le> a"
proof -
  have "b * (k + l) \<le> b * l + a * k" "b * l + a * k \<le> a * (k + l)"
    using assms(1) by (simp_all add: algebra_simps mult_le_mono)
  with assms(2) show "b \<le> (b * l + a * k) div (k + l)" "(b * l + a * k) div (k + l) \<le> a"
    by (simp add: less_eq_div_iff_mult_less_eq) (metis div_le_mono nonzero_mult_div_cancel_right not_gr0 assms(2)
      \<open>b * l + a * k \<le> a * (k + l)\<close>)
qed

text \<open>As long as the products fit into 32 bits, the weighted middle that a stacking market maker
  steers by lies, rounded to the tick grid, between the best bid and the best ask.\<close>

theorem weighted_mid_inside:
  assumes "0 < i32_val (opl_price bid)" "opl_price bid < opl_price ask"
    "0 < opl_quantity bid" "0 < opl_quantity ask" "0 < tick" "on_grid tick (opl_price bid)"
    "unat (opl_quantity bid) + unat (opl_quantity ask) < 2 ^ 32"
    "unat (i32_bits (opl_price bid)) * unat (opl_quantity ask) +
       unat (i32_bits (opl_price ask)) * unat (opl_quantity bid) < 2 ^ 32"
  shows "opl_price bid \<le> round_down tick (weighted_mid bid ask) \<and>
    round_down tick (weighted_mid bid ask) \<le> opl_price ask"
proof -
  let ?b = "unat (i32_bits (opl_price bid))" and ?a = "unat (i32_bits (opl_price ask))"
  let ?k = "unat (opl_quantity bid)" and ?l = "unat (opl_quantity ask)" and ?t = "unat tick"
  have vals: "int ?b = i32_val (opl_price bid)" "int ?a = i32_val (opl_price ask)" "?a < 2 ^ 31"
    using assms(1,2) unat_of_val [of "opl_price bid"] unat_of_val [of "opl_price ask"] by (auto simp: less_i32_def)
  have "int ?b < int ?a" using assms(2) unfolding vals(1,2) less_i32_def .
  then have ba: "?b \<le> ?a" by (metis of_nat_less_iff less_imp_le)
  have pos: "0 < ?k + ?l" "0 < ?t" using assms(3,5) unfolding word_less_nat_alt by simp_all
  let ?n = "(?b * ?l + ?a * ?k) div (?k + ?l)"
  have "unat (weighted_mid bid ask) = ?n"
    using assms(7,8) by (simp add: weighted_mid_def unat_div_distrib unat_word_ariths)
  note n = between [OF ba pos(1)] this
  have "?b mod ?t = 0" using arg_cong [OF assms(6) [unfolded on_grid_def], of unat] by (simp add: unat_mod_distrib)
  then have "?b = ?b div ?t * ?t" by auto
  also have "\<dots> \<le> ?n div ?t * ?t" using n(1) by (intro mult_le_mono1 div_le_mono)
  finally have low: "?b \<le> ?n div ?t * ?t" .
  have high: "?n div ?t * ?t \<le> ?a" using n(2) div_times_less_eq_dividend le_trans by blast
  let ?r = "round_down tick (weighted_mid bid ask)"
  have r: "unat (i32_bits ?r) = ?n div ?t * ?t"
    using high vals(3) by (simp add: round_down_def unat_word_ariths(2) unat_div_distrib n(3))
  then have val: "i32_val ?r = int (?n div ?t * ?t)" using high vals(3) i32_val_unat [of ?r] by simp
  show ?thesis using low high
    unfolding less_eq_i32_def val vals(1,2) [symmetric] of_nat_le_iff by blast
qed

theorem weighted_mid_inside_witness:
  "let bid = \<lparr>opl_price = I32 100, opl_quantity = 30\<rparr>; ask = \<lparr>opl_price = I32 120, opl_quantity = 10\<rparr>
   in I32 100 \<le> round_down 5 (weighted_mid bid ask) \<and> round_down 5 (weighted_mid bid ask) \<le> I32 120"
  using weighted_mid_inside [of "\<lparr>opl_price = I32 100, opl_quantity = 30\<rparr>" "\<lparr>opl_price = I32 120, opl_quantity = 10\<rparr>" 5]
  by (simp add: less_i32_def on_grid_def)

text \<open>Beyond that the products wrap, and the middle can lie far outside of the market.\<close>

lemma weighted_mid_wraps:
  "weighted_mid \<lparr>opl_price = I32 5500000, opl_quantity = 500\<rparr> \<lparr>opl_price = I32 5500010, opl_quantity = 400\<rparr> = 727819"
  by (simp add: weighted_mid_def)

end
