(* ===== verification/Market_Makers.thy ===== *)
theory Market_Makers imports
  Trading
begin

text \<open>
  \<open>bots/fair_value.H\<close> with its two implementations, and \<open>bots/fair_value_mm.cpp\<close>: a market maker
  that keeps one order on either side of a fair value.
\<close>

section \<open>Fair values\<close>

record random_walk =
  rw_value :: i32
  rw_last_ts :: u64
  rw_min_price :: i32
  rw_max_price :: i32
  rw_tick_size :: u32

datatype fair_value = ConstantFairValue i32 | RandomWalkFairValue random_walk

text \<open>Sums of signed numbers are taken as wrapping; C++ leaves their overflow undefined.\<close>

definition i32_add :: "i32 \<Rightarrow> i32 \<Rightarrow> i32" where
  "i32_add x y = I32 (i32_bits x + i32_bits y)"

definition i32_sub :: "i32 \<Rightarrow> i32 \<Rightarrow> i32" where
  "i32_sub x y = I32 (i32_bits x - i32_bits y)"

definition calculate_dist :: "u32 \<Rightarrow> u32" where
  "calculate_dist tick = (if tick < 10 then 1 else tick div 5)"

definition new_random_walk :: "i32 \<Rightarrow> symbol_definition \<Rightarrow> fair_value" where
  "new_random_walk start y = RandomWalkFairValue \<lparr>rw_value = start, rw_last_ts = 0,
     rw_min_price = sd_min_price y, rw_max_price = sd_max_price y, rw_tick_size = sd_tick_size y\<rparr>"

definition walk_step :: "env \<Rightarrow> random_walk \<Rightarrow> desk \<Rightarrow> i32 \<times> desk" where
  "walk_step e w d = (case draw e d of (x, d) \<Rightarrow>
     (let n = calculate_dist (rw_tick_size w)
      in (I32 (- n + of_nat (unat x mod (2 * unat n + 1))), d)))"

definition clamp_walk :: "random_walk \<Rightarrow> i32 \<Rightarrow> i32" where
  "clamp_walk w v =
    (let step = I32 (rw_tick_size w * 5)
     in if v < i32_add (rw_min_price w) step then i32_add (rw_min_price w) step
        else if v > i32_sub (rw_max_price w) step then i32_sub (rw_max_price w) step
        else v)"

definition process_walk :: "env \<Rightarrow> u64 \<Rightarrow> random_walk \<Rightarrow> desk \<Rightarrow> random_walk \<times> desk" where
  "process_walk e ts w d =
    (if rw_last_ts w = 0 then
       (case uniform e 1000000 100000000 d of (wait, d) \<Rightarrow> (w\<lparr>rw_last_ts := ts + wait\<rparr>, d))
     else if ts \<le> rw_last_ts w then (w, d)
     else
       (let (change, d) = walk_step e w d;
            v = clamp_walk w (i32_add (rw_value w) change);
            (wait, d) = uniform e 1000000 100000000 d
        in (w\<lparr>rw_value := v, rw_last_ts := ts + wait\<rparr>, d)))"

fun process_fair_value :: "env \<Rightarrow> u64 \<Rightarrow> fair_value \<Rightarrow> desk \<Rightarrow> i32 \<times> fair_value \<times> desk" where
  "process_fair_value e ts (ConstantFairValue v) d = (v, ConstantFairValue v, d)"
| "process_fair_value e ts (RandomWalkFairValue w) d =
     (case process_walk e ts w d of (w, d) \<Rightarrow> (rw_value w, RandomWalkFairValue w, d))"

section \<open>The market maker\<close>

record quote =
  qt_order_id :: u32
  qt_price :: i32
  qt_quantity :: u32

record fv_maker =
  fm_variances :: "i32 list"
  fm_symbols :: "symbol_definition list"
  fm_width :: u32
  fm_quantity :: u32
  fm_last_send :: u64
  fm_bids :: "u32 \<rightharpoonup> quote list"
  fm_asks :: "u32 \<rightharpoonup> quote list"

definition new_fv_maker :: "i32 list \<Rightarrow> symbol_definition list \<Rightarrow> u32 \<Rightarrow> u32 \<Rightarrow> fv_maker" where
  "new_fv_maker variances symbols width q = \<lparr>fm_variances = variances, fm_symbols = symbols,
     fm_width = width, fm_quantity = q, fm_last_send = 0, fm_bids = Map.empty, fm_asks = Map.empty\<rparr>"

text \<open>The remainder and the sums are those of unsigned numbers, to which the price is converted.\<close>

definition round_to_tick_size :: "i32 \<Rightarrow> u32 \<Rightarrow> side \<Rightarrow> i32" where
  "round_to_tick_size p tick sd =
    (if sd = BUY then I32 (i32_bits p - i32_bits p mod tick)
     else I32 (i32_bits p + (tick - i32_bits p mod tick)))"

definition clamp_position :: "i32 \<Rightarrow> i32" where
  "clamp_position p = (if p > i32_of_int 100 then i32_of_int 100
     else if p < i32_of_int (- 100) then i32_of_int (- 100) else p)"

definition maker_value :: "symbol_definition \<Rightarrow> i32 \<Rightarrow> i32 \<Rightarrow> i32 \<Rightarrow> i32" where
  "maker_value y value variance pos =
     max (i32_sub (i32_add value variance) (clamp_position pos))
       (I32 (i32_bits (sd_min_price y) + 10 * sd_tick_size y))"

definition maker_bid :: "u32 \<Rightarrow> symbol_definition \<Rightarrow> i32 \<Rightarrow> i32" where
  "maker_bid width y v = round_to_tick_size (I32 (i32_bits v - width * sd_tick_size y)) (sd_tick_size y) BUY"

definition maker_ask :: "u32 \<Rightarrow> symbol_definition \<Rightarrow> i32 \<Rightarrow> i32" where
  "maker_ask width y v = round_to_tick_size (I32 (i32_bits v + width * sd_tick_size y)) (sd_tick_size y) SELL"

definition quotes_of :: "side \<Rightarrow> u32 \<Rightarrow> fv_maker \<Rightarrow> quote list" where
  "quotes_of sd y m = (case (if sd = BUY then fm_bids m else fm_asks m) y of None \<Rightarrow> [] | Some qs \<Rightarrow> qs)"

definition set_quotes :: "side \<Rightarrow> u32 \<Rightarrow> quote list \<Rightarrow> fv_maker \<Rightarrow> fv_maker" where
  "set_quotes sd y qs m = (if sd = BUY then m\<lparr>fm_bids := (fm_bids m)(y \<mapsto> qs)\<rparr> else m\<lparr>fm_asks := (fm_asks m)(y \<mapsto> qs)\<rparr>)"

text \<open>
  A quote is old when \<open>last_order_send_ts + 30e9 < nanotime()\<close>, which is computed in \<open>double\<close>; the
  clock is read only when the price has not changed.  It is read once more for the log.
\<close>

definition quote_expired :: "u64 \<Rightarrow> u64 \<Rightarrow> bool" where
  "quote_expired sent now \<longleftrightarrow> round_double (round_double (unat sent) + 30000000000) < round_double (unat now)"

definition cancel_quote :: "env \<Rightarrow> side \<Rightarrow> u32 \<Rightarrow> fv_maker \<times> desk \<Rightarrow> fv_maker \<times> desk" where
  "cancel_quote e sd y md = (case md of (m, d) \<Rightarrow>
     (let qs = quotes_of sd y m; d = snd (read_clock e d)
      in (set_quotes sd y (butlast qs) m, desk_cancel (qt_order_id (last qs)) d)))"

definition send_quote :: "env \<Rightarrow> side \<Rightarrow> u32 \<Rightarrow> i32 \<Rightarrow> fv_maker \<times> desk \<Rightarrow> fv_maker \<times> desk" where
  "send_quote e sd y price md = (case md of (m, d) \<Rightarrow>
     (let d = snd (read_clock e d);
          d = desk_send y (dk_last_order_id d) sd (fm_quantity m) price 0 d;
          (i, d) = next_order_id d;
          m = set_quotes sd y (quotes_of sd y m @ [\<lparr>qt_order_id = i, qt_price = price, qt_quantity = fm_quantity m\<rparr>]) m;
          (now, d) = read_clock e d
      in (m\<lparr>fm_last_send := now\<rparr>, d)))"

definition quote_side :: "env \<Rightarrow> side \<Rightarrow> u32 \<Rightarrow> i32 \<Rightarrow> fv_maker \<times> desk \<Rightarrow> fv_maker \<times> desk" where
  "quote_side e sd y price md = (case md of (m, d) \<Rightarrow>
     (let qs = quotes_of sd y m
      in if qs = [] then send_quote e sd y price (m, d)
         else if qt_price (last qs) \<noteq> price then cancel_quote e sd y (m, d)
         else
           (let (now, d) = read_clock e d
            in if quote_expired (fm_last_send m) now then cancel_quote e sd y (m, d) else (m, d))))"

text \<open>
  One symbol.  The vectors of variances and fair values are indexed without a check; they have an
  element for each symbol.
\<close>

definition process_symbol :: "env \<Rightarrow> nat \<Rightarrow> fv_maker \<times> fair_value list \<times> desk \<Rightarrow> fv_maker \<times> fair_value list \<times> desk" where
  "process_symbol e i mfd = (case mfd of (m, fvs, d) \<Rightarrow>
     (let y = fm_symbols m ! i; symb = sd_symbol y;
          (ts, d) = read_clock e d;
          (value, fv, d) = process_fair_value e ts (fvs ! i) d;
          v = maker_value y value (fm_variances m ! i) (get_position symb (dk_oe d));
          m = set_quotes SELL symb (quotes_of SELL symb m) (set_quotes BUY symb (quotes_of BUY symb m) m);
          (m, d) = quote_side e BUY symb (maker_bid (fm_width m) y v) (m, d);
          (m, d) = quote_side e SELL symb (maker_ask (fm_width m) y v) (m, d)
      in (m, fvs[i := fv], d)))"

definition process_maker :: "env \<Rightarrow> fv_maker \<times> fair_value list \<times> desk \<Rightarrow> fv_maker \<times> fair_value list \<times> desk" where
  "process_maker e mfd = fold (process_symbol e) [0..<length (fm_symbols (fst mfd))] mfd"

end
