(* ===== verification/Takers.thy ===== *)
theory Takers imports
  Trading
begin

text \<open>
  \<open>bots/random_taker.cpp\<close>, \<open>bots/pressure_taker.cpp\<close>, \<open>bots/imbalance_taker.cpp\<close> and
  \<open>bots/resting_orders.cpp\<close>: bots that take from the market with immediate-or-cancel orders, and one
  that leaves orders behind it.
\<close>

text \<open>Every order of these bots carries the next id of the desk, which is counted on afterwards.\<close>

definition send_next :: "u32 \<Rightarrow> side \<Rightarrow> u32 \<Rightarrow> i32 \<Rightarrow> u8 \<Rightarrow> desk \<Rightarrow> desk" where
  "send_next y sd q p flags d = snd (next_order_id (desk_send y (dk_last_order_id d) sd q p flags d))"

definition IOC_FLAG :: u8 where "IOC_FLAG = 1"

section \<open>Random taker\<close>

record taker =
  tk_symbols :: "symbol_definition list"
  tk_quantity :: u32
  tk_last_ts :: u64

definition new_taker :: "symbol_definition list \<Rightarrow> u32 \<Rightarrow> taker" where
  "new_taker symbols q = \<lparr>tk_symbols = symbols, tk_quantity = q, tk_last_ts = 0\<rparr>"

definition take_market :: "u32 \<Rightarrow> side \<Rightarrow> u32 \<Rightarrow> desk \<Rightarrow> desk" where
  "take_market y sd q d =
     send_next y sd q (opl_price ((if sd = BUY then client_best_ask else client_best_bid) y (dk_md d))) IOC_FLAG d"

definition random_take :: "env \<Rightarrow> u32 \<Rightarrow> symbol_definition \<Rightarrow> desk \<Rightarrow> desk" where
  "random_take e q y d = (case rand e d of (r, d) \<Rightarrow>
     take_market (sd_symbol y) (if r mod 2 = 0 then BUY else SELL) q d)"

definition process_random_taker :: "env \<Rightarrow> u64 \<Rightarrow> taker \<times> desk \<Rightarrow> taker \<times> desk" where
  "process_random_taker e time_scale td = (case td of (t, d) \<Rightarrow>
     (let (ts, d) = read_clock e d
      in if ts < tk_last_ts t then (t, d)
         else
           (let d = fold (random_take e (tk_quantity t)) (tk_symbols t) d;
                (wait, d) = uniform e (10000000 * time_scale) (500000000 * time_scale) d
            in (t\<lparr>tk_last_ts := ts + wait\<rparr>, d))))"

section \<open>Pressure taker\<close>

record pressure_taker = taker +
  pt_pressure :: i32
  pt_side :: side

definition new_pressure_taker :: "symbol_definition list \<Rightarrow> u32 \<Rightarrow> pressure_taker" where
  "new_pressure_taker symbols q = \<lparr>tk_symbols = symbols, tk_quantity = q, tk_last_ts = 0,
     pt_pressure = I32 0, pt_side = BUY\<rparr>"

definition load_pressure :: "env \<Rightarrow> pressure_taker \<times> desk \<Rightarrow> pressure_taker \<times> desk" where
  "load_pressure e td = (case td of (t, d) \<Rightarrow>
     (if pt_pressure t \<le> I32 (tk_quantity t) then
        (let (n, d) = rand e d; (r, d) = rand e d
         in (t\<lparr>pt_pressure := i32_of_int (int (n mod 100) + 1), pt_side := (if r mod 2 = 0 then BUY else SELL)\<rparr>, d))
      else (t, d)))"

definition press :: "symbol_definition \<Rightarrow> pressure_taker \<times> desk \<Rightarrow> pressure_taker \<times> desk" where
  "press y td = (case td of (t, d) \<Rightarrow>
     (t\<lparr>pt_pressure := I32 (i32_bits (pt_pressure t) - tk_quantity t)\<rparr>,
      take_market (sd_symbol y) (pt_side t) (tk_quantity t) d))"

definition process_pressure_taker :: "env \<Rightarrow> pressure_taker \<times> desk \<Rightarrow> pressure_taker \<times> desk" where
  "process_pressure_taker e td = (case td of (t, d) \<Rightarrow>
     (let (ts, d) = read_clock e d
      in if ts < tk_last_ts t then (t, d)
         else
           (let (t, d) = fold press (tk_symbols t) (load_pressure e (t, d));
                (now, d) = read_clock e d;
                (wait, d) = uniform e 200000000 10000000000 d
            in (t\<lparr>tk_last_ts := now + wait\<rparr>, d))))"

section \<open>Imbalance taker\<close>

text \<open>
  The taker listens to the trade summaries of the market data client.  The vector of thresholds is
  indexed by the symbol less one without a check; it has an element for each symbol.
\<close>

record imbalance_taker =
  it_symbols :: "symbol_definition list"
  it_quantity :: u32
  it_thresholds :: "i32 list"
  it_imbalance :: "u32 \<rightharpoonup> i32"
  it_last_send :: u64

definition new_imbalance_taker :: "symbol_definition list \<Rightarrow> u32 \<Rightarrow> i32 list \<Rightarrow> imbalance_taker" where
  "new_imbalance_taker symbols q thresholds = \<lparr>it_symbols = symbols, it_quantity = q, it_thresholds = thresholds,
     it_imbalance = fold (\<lambda>y m. m(sd_symbol y \<mapsto> I32 0)) symbols Map.empty, it_last_send = 0\<rparr>"

definition on_trade_summary :: "u32 \<Rightarrow> u32 \<Rightarrow> i32 \<Rightarrow> side \<Rightarrow> imbalance_taker \<Rightarrow> imbalance_taker" where
  "on_trade_summary y q p sd t =
    (if sd = BUY \<or> sd = SELL then
       (let (n, m) = subscript (I32 0) y (it_imbalance t)
        in t\<lparr>it_imbalance := m(y \<mapsto> (if sd = BUY then add_i32 q n else sub_i32 q n))\<rparr>)
     else t)"

definition answer_imbalance :: "env \<Rightarrow> symbol_definition \<Rightarrow> imbalance_taker \<times> desk \<Rightarrow> imbalance_taker \<times> desk" where
  "answer_imbalance e y td = (case td of (t, d) \<Rightarrow>
     (case it_imbalance t (sd_symbol y) of
        None \<Rightarrow> (t, d)
      | Some n \<Rightarrow>
          (let threshold = it_thresholds t ! (unat (sd_symbol y) - 1);
               answer = (\<lambda>sd p.
                 (let d = send_next (sd_symbol y) sd (it_quantity t) p IOC_FLAG d; (now, d) = read_clock e d
                  in (t\<lparr>it_last_send := now, it_imbalance := (it_imbalance t)(sd_symbol y \<mapsto> I32 0)\<rparr>, d)))
           in if n > threshold then answer BUY (sd_max_price y)
              else if n < I32 (- i32_bits threshold) then answer SELL (sd_min_price y)
              else (t, d))))"

definition process_imbalance_taker :: "env \<Rightarrow> imbalance_taker \<times> desk \<Rightarrow> imbalance_taker \<times> desk" where
  "process_imbalance_taker e td = (case td of (t, d) \<Rightarrow>
     (if it_last_send t = 0 then fold (answer_imbalance e) (it_symbols t) (t, d)
      else
        (let (now, d) = read_clock e d
         in if now - it_last_send t > 100000000 then fold (answer_imbalance e) (it_symbols t) (t, d) else (t, d))))"

section \<open>Resting orders\<close>

definition rest_order :: "side \<Rightarrow> u32 \<Rightarrow> symbol_definition \<Rightarrow> desk \<Rightarrow> desk" where
  "rest_order sd q y d =
    (let symb = sd_symbol y
     in send_next symb sd q
          (if sd = BUY then I32 (i32_bits (opl_price (client_best_bid symb (dk_md d))) - 3 * sd_tick_size y)
           else I32 (i32_bits (opl_price (client_best_ask symb (dk_md d))) + 3 * sd_tick_size y)) 0 d)"

definition process_resting_orders :: "env \<Rightarrow> taker \<times> desk \<Rightarrow> taker \<times> desk" where
  "process_resting_orders e td = (case td of (t, d) \<Rightarrow>
     (let (ts, d) = read_clock e d
      in if ts < tk_last_ts t then (t, d)
         else
           (let (r, d) = rand e d;
                d = fold (rest_order (if r mod 2 = 0 then BUY else SELL) (tk_quantity t)) (tk_symbols t) d;
                (now, d) = read_clock e d;
                (wait, d) = uniform e 500000000 10000000000 d
            in (t\<lparr>tk_last_ts := now + wait\<rparr>, d))))"

end
