(* ===== verification/Maker_Props.thy ===== *)
theory Maker_Props imports
  Market_Makers Takers Stack_Props
begin

text \<open>
  Properties of the market makers around a fair value and of the takers.
\<close>

section \<open>The prices of the two quotes\<close>

text \<open>Prices that are not negative, as natural numbers.\<close>

definition price_nat :: "i32 \<Rightarrow> nat" where
  "price_nat p = unat (i32_bits p)"

lemma price_nat_le:
  assumes "price_nat p < 2 ^ 31" "price_nat p' < 2 ^ 31"
  shows "p \<le> p' \<longleftrightarrow> price_nat p \<le> price_nat p'" "p < p' \<longleftrightarrow> price_nat p < price_nat p'"
  using assms i32_val_unat [of p] i32_val_unat [of p']
  by (simp_all only: price_nat_def less_eq_i32_def less_i32_def of_nat_le_iff of_nat_less_iff)

lemma round_buy:
  assumes "0 < tick"
  shows "price_nat (round_to_tick_size p tick BUY) = price_nat p div unat tick * unat tick"
proof -
  have "i32_bits p mod tick \<le> i32_bits p" by (simp add: word_le_nat_alt unat_mod_distrib)
  then have "unat (i32_bits p - i32_bits p mod tick) = unat (i32_bits p) - unat (i32_bits p) mod unat tick"
    by (simp add: unat_diff_le unat_mod_distrib)
  then show ?thesis by (simp add: round_to_tick_size_def price_nat_def minus_mod_eq_div_mult)
qed

lemma round_sell:
  assumes "0 < tick" "price_nat p + unat tick < 2 ^ 32"
  shows "price_nat (round_to_tick_size p tick SELL) = (price_nat p div unat tick + 1) * unat tick"
proof -
  let ?p = "unat (i32_bits p)" and ?t = "unat tick"
  have t: "0 < ?t" using assms(1) unfolding word_less_nat_alt by simp
  then have m: "?p mod ?t < ?t" by simp
  have le: "i32_bits p mod tick \<le> tick" using m by (simp add: word_le_nat_alt unat_mod_distrib)
  have diff: "unat (tick - i32_bits p mod tick) = ?t - ?p mod ?t"
    using unat_diff_le [OF le] by (simp add: unat_mod_distrib)
  have "?p + (?t - ?p mod ?t) < 2 ^ 32" using assms(2) by (simp add: price_nat_def)
  then have "unat (i32_bits p + (tick - i32_bits p mod tick)) = ?p + (?t - ?p mod ?t)"
    using diff by (simp add: unat_word_ariths(1))
  also have "\<dots> = ?p div ?t * ?t + ?t" using m div_mult_mod_eq [of ?p ?t] by linarith
  finally show ?thesis by (simp add: round_to_tick_size_def price_nat_def)
qed

text \<open>
  The room that a quote needs: the fair value is ten ticks above the lowest price, which
  \<open>maker_value\<close> sees to, the width is at most ten ticks, and the ask is within the limits.
\<close>

definition room :: "u32 \<Rightarrow> symbol_definition \<Rightarrow> i32 \<Rightarrow> bool" where
  "room width y v \<longleftrightarrow> 0 < sd_tick_size y \<and> unat width \<le> 10 \<and> price_nat (sd_max_price y) < 2 ^ 31 \<and>
     price_nat (sd_min_price y) + 10 * unat (sd_tick_size y) \<le> price_nat v \<and>
     price_nat v + (unat width + 1) * unat (sd_tick_size y) \<le> price_nat (sd_max_price y)"

lemma maker_prices:
  assumes "room width y v" "grid_symbol y"
  shows "shown_price y (maker_bid width y v)" "shown_price y (maker_ask width y v)"
    "price_nat (maker_bid width y v) + unat width * unat (sd_tick_size y) \<le> price_nat v"
    "price_nat v + unat width * unat (sd_tick_size y) < price_nat (maker_ask width y v)"
proof -
  let ?t = "unat (sd_tick_size y)" and ?w = "unat width" and ?v = "price_nat v"
  let ?lo = "price_nat (sd_min_price y)" and ?hi = "price_nat (sd_max_price y)"
  have r: "0 < sd_tick_size y" "?w \<le> 10" "?hi < 2 ^ 31" "?lo + 10 * ?t \<le> ?v" "?v + (?w + 1) * ?t \<le> ?hi"
    using assms(1) by (simp_all add: room_def)
  have t: "0 < ?t" using r(1) unfolding word_less_nat_alt by simp
  have wt: "?w * ?t \<le> 10 * ?t" using r(2) by (rule mult_le_mono1)
  have hi32: "?hi < 2 ^ 32" using r(3) by simp
  have wt32: "?w * ?t < 2 ^ 32" using r(5) hi32 by (simp add: algebra_simps)
  have prod: "unat (width * sd_tick_size y) = ?w * ?t" using wt32 by (simp add: unat_word_ariths(2))
  have lowmod: "?lo mod ?t = 0"
    using assms(2) by (simp add: grid_symbol_def on_grid_def price_nat_def flip: unat_mod_distrib)
  have below: "width * sd_tick_size y \<le> i32_bits v"
    using wt r(4) unfolding word_le_nat_alt prod price_nat_def by linarith
  have b0: "price_nat (I32 (i32_bits v - width * sd_tick_size y)) = ?v - ?w * ?t"
    using unat_diff_le [OF below] by (simp add: price_nat_def prod)
  let ?b = "price_nat (maker_bid width y v)" and ?a = "price_nat (maker_ask width y v)"
  have b: "?b = (?v - ?w * ?t) div ?t * ?t"
    unfolding maker_bid_def round_buy [OF r(1)] b0 ..
  have "?v + ?w * ?t < 2 ^ 32" using r(5) hi32 by (simp add: algebra_simps)
  then have a0: "price_nat (I32 (i32_bits v + width * sd_tick_size y)) = ?v + ?w * ?t"
    by (simp add: price_nat_def unat_word_ariths(1) prod)
  have "?v + ?w * ?t + ?t < 2 ^ 32" using r(5) hi32 by (simp add: algebra_simps)
  then have a: "?a = ((?v + ?w * ?t) div ?t + 1) * ?t"
    unfolding maker_ask_def using round_sell [OF r(1)] a0 by simp
  show bid: "?b + ?w * ?t \<le> ?v"
    using b div_times_less_eq_dividend [of "?v - ?w * ?t" ?t] wt r(4) by linarith
  have "(?v + ?w * ?t) < ?t + (?v + ?w * ?t) div ?t * ?t" using t dividend_less_div_times by blast
  then show ask: "?v + ?w * ?t < ?a" unfolding a by simp
  have "?lo \<le> ?v - ?w * ?t" using wt r(4) by linarith
  then have "?lo div ?t * ?t \<le> ?b" unfolding b by (intro mult_le_mono1 div_le_mono)
  then have lo: "?lo \<le> ?b" using lowmod by (metis add.right_neutral div_mult_mod_eq)
  have bhi: "?b \<le> ?hi" using bid r(5) by linarith
  have "?v + ?w * ?t + ?t \<le> ?hi" using r(5) by (simp add: algebra_simps)
  moreover have "?a = (?v + ?w * ?t) div ?t * ?t + ?t" unfolding a by simp
  ultimately have ahi: "?a \<le> ?hi" using div_times_less_eq_dividend [of "?v + ?w * ?t" ?t] by linarith
  have alo: "?lo \<le> ?a" using ask r(4) by linarith
  have grid: "on_grid (sd_tick_size y) p" if "price_nat p = k * ?t" for p k
  proof -
    have "unat (i32_bits p mod sd_tick_size y) = 0" using that by (simp add: unat_mod_distrib price_nat_def)
    then show ?thesis by (simp add: on_grid_def unat_eq_0)
  qed
  have small: "price_nat p \<le> ?hi \<Longrightarrow> price_nat p < 2 ^ 31" for p using r(3) by linarith
  have lo31: "?lo < 2 ^ 31" using lo small [of "maker_bid width y v"] bhi by linarith
  show "shown_price y (maker_bid width y v)"
    using grid [OF b] price_nat_le(1) [OF lo31 small [OF bhi]] price_nat_le(1) [OF small [OF bhi] r(3)] lo bhi
    by (simp add: shown_price_def)
  show "shown_price y (maker_ask width y v)"
    using grid [OF a] price_nat_le(1) [OF lo31 small [OF ahi]] price_nat_le(1) [OF small [OF ahi] r(3)] alo ahi
    by (simp add: shown_price_def)
qed

section \<open>What a market maker sends\<close>

text \<open>
  A quote of the market maker: the validator lets it through, and it is at least the width away from
  the fair value on its side.
\<close>

fun maker_quote_ok :: "u32 \<Rightarrow> symbol_definition \<Rightarrow> i32 \<Rightarrow> oe_request \<Rightarrow> bool" where
  "maker_quote_ok width y v (OeNewOrder i symb sd q p flags) \<longleftrightarrow>
     passes y (OeNewOrder i symb sd q p flags) \<and>
     (sd = BUY \<and> price_nat p + unat width * unat (sd_tick_size y) \<le> price_nat v \<or>
      sd = SELL \<and> price_nat v + unat width * unat (sd_tick_size y) < price_nat p)"
| "maker_quote_ok width y v (OeDeleteOrder i) \<longleftrightarrow> True"
| "maker_quote_ok width y v m \<longleftrightarrow> False"

definition same_maker :: "fv_maker \<Rightarrow> fv_maker \<Rightarrow> bool" where
  "same_maker m m' \<longleftrightarrow> fm_variances m' = fm_variances m \<and> fm_symbols m' = fm_symbols m \<and>
     fm_width m' = fm_width m \<and> fm_quantity m' = fm_quantity m"

lemma set_quotes_simps [simp]:
  "fm_quantity (set_quotes sd y qs m) = fm_quantity m" "same_maker m (set_quotes sd' y qs m0) \<longleftrightarrow> same_maker m m0"
  "same_maker m (m0\<lparr>fm_last_send := t\<rparr>) \<longleftrightarrow> same_maker m m0" "fm_width (set_quotes sd y qs m) = fm_width m"
  by (simp_all add: set_quotes_def same_maker_def)

text \<open>At most one quote on each side of each symbol.\<close>

definition one_quote :: "fv_maker \<Rightarrow> bool" where
  "one_quote m \<longleftrightarrow> (\<forall>sd \<in> {BUY, SELL}. \<forall>y. length (quotes_of sd y m) \<le> 1)"

lemma quotes_set [simp]:
  "sd \<in> {BUY, SELL} \<Longrightarrow> sd' \<in> {BUY, SELL} \<Longrightarrow>
   quotes_of sd' y' (set_quotes sd y qs m) = (if sd' = sd \<and> y' = y then qs else quotes_of sd' y' m)"
  "quotes_of sd' y' (m\<lparr>fm_last_send := t\<rparr>) = quotes_of sd' y' m"
  by (auto simp: quotes_of_def set_quotes_def)

lemma one_quote_set: "one_quote m \<Longrightarrow> sd \<in> {BUY, SELL} \<Longrightarrow> length qs \<le> 1 \<Longrightarrow> one_quote (set_quotes sd y qs m)"
  by (simp only: one_quote_def quotes_set) auto

lemma quote_side_result:
  assumes run: "quote_side e sd y price (m, d) = (m', d')" and ok: "one_quote m" "sd \<in> {BUY, SELL}"
    and P: "\<And>i. P (OeNewOrder i y sd (fm_quantity m) price 0)" "\<And>i. P (OeDeleteOrder i)"
  shows "sends_only P d d'" "one_quote m'" "same_maker m m'"
proof -
  have clock: "sends_only P d (snd (read_clock e d))" for d by simp
  have cancel: "sends_only P d d' \<and> one_quote m' \<and> same_maker m m'"
    if "cancel_quote e sd y (m, d1) = (m', d')" "sends_only P d d1" for d1
  proof -
    have "sends_only P (snd (read_clock e d1)) d'"
      using that(1) P(2) sends_only_request(2) by (auto simp: cancel_quote_def Let_def)
    then have "sends_only P d d'" using that(2) clock sends_only_trans by blast
    moreover have "length (butlast (quotes_of sd y m)) \<le> 1"
      using ok by (auto simp: one_quote_def le_Suc_eq)
    ultimately show ?thesis
      using that(1) one_quote_set [OF ok] by (auto simp: cancel_quote_def Let_def same_maker_def set_quotes_def)
  qed
  have send: "sends_only P d d' \<and> one_quote m' \<and> same_maker m m'"
    if run: "send_quote e sd y price (m, d) = (m', d')" and none: "quotes_of sd y m = []"
  proof -
    let ?d1 = "snd (read_clock e d)"
    let ?d2 = "desk_send y (dk_last_order_id ?d1) sd (fm_quantity m) price 0 ?d1"
    obtain i d3 where i: "next_order_id ?d2 = (i, d3)" by fastforce
    obtain now d4 where now: "read_clock e d3 = (now, d4)" by fastforce
    have m': "m' = (set_quotes sd y [\<lparr>qt_order_id = i, qt_price = price, qt_quantity = fm_quantity m\<rparr>] m)\<lparr>fm_last_send := now\<rparr>"
      "d' = d4"
      using run i now none by (simp_all add: send_quote_def Let_def)
    have "sends_only P ?d1 ?d2" using P(1) by (rule sends_only_request(1))
    moreover have "sends_only P ?d2 d3" using sends_only_steps(2) [of P ?d2] i by simp
    moreover have "sends_only P d3 d4" using clock [of d3] now by simp
    ultimately have "sends_only P d d'" unfolding m'(2) using clock [of d] sends_only_trans by blast
    moreover have "one_quote m'" using one_quote_set [OF ok, of "[_]" y] by (simp add: m'(1) one_quote_def)
    ultimately show ?thesis by (simp add: m'(1)) (simp add: same_maker_def)
  qed
  have "sends_only P d d' \<and> one_quote m' \<and> same_maker m m'"
  proof (cases "quotes_of sd y m = []")
    case True
    with run send show ?thesis by (simp add: quote_side_def)
  next
    case False
    obtain now d1 where now: "read_clock e d = (now, d1)" by fastforce
    then have d1: "sends_only P d d1" using clock [of d] by simp
    show ?thesis
    proof (cases "qt_price (last (quotes_of sd y m)) \<noteq> price")
      case True
      with run False cancel [of d] show ?thesis by (simp add: quote_side_def)
    next
      case same: False
      with run False now cancel [of d1] d1 ok(1) show ?thesis
        by (auto simp: quote_side_def same_maker_def split: if_splits)
    qed
  qed
  then show "sends_only P d d'" "one_quote m'" "same_maker m m'" by blast+
qed

lemma process_walk_sends:
  assumes "process_walk e ts w d = (w', d')"
  shows "sends d [] d' \<and> dk_oe d' = dk_oe d"
proof -
  have draw: "sends d [] (snd (draw e d)) \<and> dk_oe (snd (draw e d)) = dk_oe d" for d
    using sends_steps(3) by (simp add: draw_def)
  have uni: "sends d [] (snd (uniform e lo hi d)) \<and> dk_oe (snd (uniform e lo hi d)) = dk_oe d" for d lo hi
    using sends_steps(5) by (simp add: uniform_def draw_def)
  have two: "sends d [] (snd (uniform e lo hi (snd (draw e d))))" for lo hi
    using sends_trans [of d "[]" "snd (draw e d)" "[]"] draw uni by simp
  show ?thesis
    using assms uni draw two
    by (auto simp: process_walk_def walk_step_def Let_def split: prod.splits if_splits) (metis snd_conv)+
qed

lemma process_fair_value_sends:
  assumes "process_fair_value e ts fv d = (v, fv', d')"
  shows "sends d [] d' \<and> dk_oe d' = dk_oe d"
  using assms process_walk_sends by (cases fv) (auto split: prod.splits)

text \<open>C31: a market maker's quotes for a symbol are in order: when the fair value leaves room, every
  order it sends for the symbol passes the exchange's validator, its bids are at least the width
  below the fair value and its asks more than the width above, and it has at most one bid and one
  ask of a symbol before and after.\<close>

theorem maker_quotes_symbol:
  assumes run: "process_symbol e i (m, fvs, d) = (m', fvs', d')" and ok: "one_quote m"
    and y: "y = fm_symbols m ! i" "grid_symbol y" "lots_ok y (fm_quantity m)"
    and v: "read_clock e d = (ts, d1)" "process_fair_value e ts (fvs ! i) d1 = (value, fv, d2)"
      "v = maker_value y value (fm_variances m ! i) (get_position (sd_symbol y) (dk_oe d))" "room (fm_width m) y v"
  shows "sends_only (maker_quote_ok (fm_width m) y v) d d' \<and> one_quote m' \<and> same_maker m m'"
proof -
  let ?P = "maker_quote_ok (fm_width m) y v" and ?s = "sd_symbol y"
  note prices = maker_prices [OF v(4) y(2)]
  have clock: "sends d [] d1" "dk_oe d1 = dk_oe d" using read_clock_fields [OF v(1)] by simp_all
  have fair: "sends d1 [] d2" "dk_oe d2 = dk_oe d1" using process_fair_value_sends [OF v(2)] by simp_all
  have "sends d [] d2" using sends_trans [OF clock(1) fair(1)] by simp
  then have start: "sends_only ?P d d2" unfolding sends_only_def by (intro exI [of _ "[]"]) simp
  let ?m0 = "set_quotes SELL ?s (quotes_of SELL ?s m) (set_quotes BUY ?s (quotes_of BUY ?s m) m)"
  have len: "length (quotes_of sd ?s m) \<le> 1" if "sd \<in> {BUY, SELL}" for sd using ok that by (auto simp: one_quote_def)
  have same: "same_maker m ?m0" by (simp add: same_maker_def set_quotes_def)
  have "one_quote ?m0" using ok len by (intro one_quote_set) simp_all
  note m0 = this same
  obtain m1 d3 where 1: "quote_side e BUY ?s (maker_bid (fm_width m) y v) (?m0, d2) = (m1, d3)" by fastforce
  have buy: "?P (OeNewOrder k ?s BUY (fm_quantity ?m0) (maker_bid (fm_width m) y v) 0)" for k
    using y(3) prices(1,3) validated_iff [of y] by (simp add: shown_price_def)
  note first = quote_side_result [OF 1 m0(1), of ?P, OF _ buy]
  have q1: "fm_quantity m1 = fm_quantity m" "fm_width m1 = fm_width m"
    using first(3) by (simp_all add: same_maker_def)
  obtain m2 d4 where 2: "quote_side e SELL ?s (maker_ask (fm_width m) y v) (m1, d3) = (m2, d4)" by fastforce
  have sell: "?P (OeNewOrder k ?s SELL (fm_quantity m1) (maker_ask (fm_width m) y v) 0)" for k
    using y(3) prices(2,4) validated_iff [of y] q1 by (simp add: shown_price_def)
  have one1: "one_quote m1" using first(2) by simp
  note second = quote_side_result [OF 2 one1, of ?P, OF _ sell]
  have pos: "v = maker_value y value (fm_variances m ! i) (get_position ?s (dk_oe d2))"
    using v(3) clock(2) fair(2) by simp
  have "m' = m2" "d' = d4"
    using run v(1,2) y(1) pos 1 2 q1 by (simp_all add: process_symbol_def Let_def)
  moreover have "sends_only ?P d2 d3" "sends_only ?P d3 d4" using first(1) second(1) by simp_all
  then have "sends_only ?P d d4" using start sends_only_trans by blast
  moreover have "same_maker m m2" using first(3) second(3) m0(2) by (simp add: same_maker_def)
  ultimately show ?thesis using second(2) by simp
qed

theorem maker_quotes_symbol_witness:
  "\<exists>m' fvs' d'. process_symbol calm_env 0
       (new_fv_maker [I32 3] [symbol_two] 2 2, [ConstantFairValue (I32 497)], market_desk) = (m', fvs', d') \<and>
     sends_only (maker_quote_ok 2 symbol_two (I32 500)) market_desk d' \<and> one_quote m'"
proof -
  let ?m = "new_fv_maker [I32 3] [symbol_two] 2 2" and ?fvs = "[ConstantFairValue (I32 497)]"
  obtain m' fvs' d' where run: "process_symbol calm_env 0 (?m, ?fvs, market_desk) = (m', fvs', d')"
    using prod_cases3 by blast
  obtain ts d1 where clock: "read_clock calm_env market_desk = (ts, d1)" by fastforce
  have one: "one_quote ?m" by (simp add: one_quote_def new_fv_maker_def quotes_of_def)
  have y: "symbol_two = fm_symbols ?m ! 0" "lots_ok symbol_two (fm_quantity ?m)"
    using symbol_two_ok(2) by (simp_all add: new_fv_maker_def)
  have fair: "process_fair_value calm_env ts (?fvs ! 0) d1 = (I32 497, ConstantFairValue (I32 497), d1)" by simp
  have "get_position (sd_symbol symbol_two) (dk_oe market_desk) = I32 0"
    by (simp add: market_desk_def logged_in_def get_position_def new_oe_client_def)
  then have v: "I32 500 = maker_value symbol_two (I32 497) (fm_variances ?m ! 0)
      (get_position (sd_symbol symbol_two) (dk_oe market_desk))"
    by (simp add: maker_value_def new_fv_maker_def i32_add_def i32_sub_def clamp_position_def less_i32_def
        i32_of_int_def symbol_two_def mk_symbol_def max_def less_eq_i32_def)
  have "room (fm_width ?m) symbol_two (I32 500)"
    by (simp add: room_def new_fv_maker_def symbol_two_def mk_symbol_def i32_of_int_def price_nat_def)
  with maker_quotes_symbol [OF run one y(1) symbol_two_ok(1) y(2) clock fair v] run show ?thesis
    by (simp add: new_fv_maker_def)
qed

section \<open>What the takers send\<close>

text \<open>An order for one of the taker's symbols, of the taker's quantity, that may not rest.\<close>

fun takes :: "u32 set \<Rightarrow> u32 \<Rightarrow> oe_request \<Rightarrow> bool" where
  "takes ys q (OeNewOrder i y sd q' p flags) \<longleftrightarrow> y \<in> ys \<and> q' = q \<and> is_ioc flags"
| "takes ys q m \<longleftrightarrow> False"

lemma send_next_sends:
  assumes "sends_only P d0 d" "P (OeNewOrder (ucast (dk_last_order_id d)) y sd q p flags)"
  shows "sends_only P d0 (send_next y sd q p flags d)"
proof -
  let ?d = "desk_send y (dk_last_order_id d) sd q p flags d"
  have "sends_only P d ?d" using assms(2) by (rule sends_only_request(1))
  moreover have "sends_only P ?d (snd (next_order_id ?d))" by simp
  ultimately show ?thesis unfolding send_next_def using assms(1) sends_only_trans by blast
qed

lemma sends_only_later:
  assumes "sends_only P d0 d"
  shows "read_clock e d = (t, d') \<Longrightarrow> sends_only P d0 d'" "rand e d = (n, d') \<Longrightarrow> sends_only P d0 d'"
    "uniform e lo hi d = (t, d') \<Longrightarrow> sends_only P d0 d'"
  using sends_only_trans [OF assms] sends_only_steps(1,4,5) [of P d e] by (metis snd_conv)+

lemma ioc_flag [simp]: "is_ioc IOC_FLAG"
  by (simp add: is_ioc_def IOC_FLAG_def IOC_def)

lemma random_take_sends:
  assumes "sends_only (takes ys q) d0 d" "sd_symbol y \<in> ys"
  shows "sends_only (takes ys q) d0 (random_take e q y d)"
proof -
  obtain r d1 where r: "rand e d = (r, d1)" by fastforce
  from sends_only_later(2) [OF assms(1) this] have "sends_only (takes ys q) d0 d1" .
  then show ?thesis using assms(2) by (simp add: random_take_def r take_market_def send_next_sends)
qed

lemma press_sends:
  assumes "sends_only (takes ys q) d0 (snd td)" "sd_symbol y \<in> ys" "tk_quantity (fst td) = q"
  shows "sends_only (takes ys q) d0 (snd (press y td)) \<and> tk_quantity (fst (press y td)) = q"
  using assms by (cases td) (simp add: press_def take_market_def send_next_sends)

lemma answer_sends:
  assumes "sends_only (takes ys q) d0 (snd td)" "sd_symbol y \<in> ys" "it_quantity (fst td) = q"
  shows "sends_only (takes ys q) d0 (snd (answer_imbalance e y td)) \<and> it_quantity (fst (answer_imbalance e y td)) = q"
proof (cases td)
  case (Pair t d)
  have sent: "sends_only (takes ys q) d0 (snd (read_clock e (send_next (sd_symbol y) sd q p IOC_FLAG d)))" for sd p
    using assms Pair send_next_sends sends_only_later(1) by (metis fst_conv ioc_flag prod.collapse snd_conv takes.simps(1))
  show ?thesis
    using assms sent [of BUY "sd_max_price y"] sent [of SELL "sd_min_price y"]
    by (auto simp: Pair answer_imbalance_def Let_def split: option.split prod.split)
qed

lemma random_taker_sends:
  "sends_only (takes (sd_symbol ` set (tk_symbols t)) (tk_quantity t)) d (snd (process_random_taker e scale (t, d)))"
proof -
  let ?P = "takes (sd_symbol ` set (tk_symbols t)) (tk_quantity t)"
  obtain ts d1 where 1: "read_clock e d = (ts, d1)" by fastforce
  have d1: "sends_only ?P d d1" using sends_only_later(1) [OF sends_only_refl 1] .
  have "sends_only ?P d (fold (random_take e (tk_quantity t)) (tk_symbols t) d1)"
    by (rule fold_invariant [where Q = "\<lambda>y. y \<in> set (tk_symbols t)"]) (simp_all add: d1 random_take_sends)
  with 1 d1 show ?thesis
    using sends_only_later(3) by (auto simp: process_random_taker_def Let_def split: prod.splits)
qed

lemma pressure_taker_sends:
  "sends_only (takes (sd_symbol ` set (tk_symbols t)) (tk_quantity t)) d (snd (process_pressure_taker e (t, d)))"
proof -
  let ?P = "takes (sd_symbol ` set (tk_symbols t)) (tk_quantity t)"
  obtain ts d1 where 1: "read_clock e d = (ts, d1)" by fastforce
  have d1: "sends_only ?P d d1" using sends_only_later(1) [OF sends_only_refl 1] .
  obtain t2 d2 where 2: "load_pressure e (t, d1) = (t2, d2)" by fastforce
  have loaded: "sends_only ?P d d2" "tk_quantity t2 = tk_quantity t" "tk_symbols t2 = tk_symbols t"
    using 2 d1 by (auto simp: load_pressure_def Let_def split: if_splits prod.splits dest: sends_only_later(2))
  obtain t3 d3 where 3: "fold press (tk_symbols t) (t2, d2) = (t3, d3)" by fastforce
  have "(\<lambda>td. sends_only ?P d (snd td) \<and> tk_quantity (fst td) = tk_quantity t) (fold press (tk_symbols t) (t2, d2))"
    by (rule fold_invariant [where Q = "\<lambda>y. y \<in> set (tk_symbols t)"]) (use loaded press_sends in auto)
  then have "sends_only ?P d d3" using 3 by simp
  with 1 2 3 d1 loaded(3) show ?thesis
    by (auto simp: process_pressure_taker_def Let_def split: prod.splits dest: sends_only_later(1,3))
qed

lemma imbalance_taker_sends:
  "sends_only (takes (sd_symbol ` set (it_symbols t)) (it_quantity t)) d (snd (process_imbalance_taker e (t, d)))"
proof -
  let ?P = "takes (sd_symbol ` set (it_symbols t)) (it_quantity t)"
  have round: "sends_only ?P d (snd (fold (answer_imbalance e) (it_symbols t) (t, d1)))" if "sends_only ?P d d1" for d1
  proof -
    have "(\<lambda>td. sends_only ?P d (snd td) \<and> it_quantity (fst td) = it_quantity t)
        (fold (answer_imbalance e) (it_symbols t) (t, d1))"
      by (rule fold_invariant [where Q = "\<lambda>y. y \<in> set (it_symbols t)"]) (use that answer_sends in auto)
    then show ?thesis by simp
  qed
  obtain now d1 where 1: "read_clock e d = (now, d1)" by fastforce
  have "sends_only ?P d d1" using sends_only_later(1) [OF sends_only_refl 1] .
  then show ?thesis using round [OF sends_only_refl] round 1 by (simp add: process_imbalance_taker_def)
qed

text \<open>C32: the takers leave nothing behind: every request that a random, a pressure or an imbalance taker
  sends is a new order for one of its symbols, of its quantity, and marked immediate-or-cancel, so
  that the exchange never rests it.\<close>

theorem takers_send_ioc:
  "sends_only (takes (sd_symbol ` set (tk_symbols t)) (tk_quantity t)) d (snd (process_random_taker e scale (t, d))) \<and>
   sends_only (takes (sd_symbol ` set (tk_symbols pt)) (tk_quantity pt)) d (snd (process_pressure_taker e (pt, d))) \<and>
   sends_only (takes (sd_symbol ` set (it_symbols it)) (it_quantity it)) d (snd (process_imbalance_taker e (it, d)))"
  using random_taker_sends pressure_taker_sends imbalance_taker_sends by blast

end
