(* ===== verification/Bot_Runner.thy ===== *)
theory Bot_Runner imports
  Maker_Props
begin

text \<open>
  \<open>bots/bot_runner.cpp\<close>, \<open>bots/stable_bot_runner.cpp\<close>, \<open>bots/smarter_bots.cpp\<close> and
  \<open>bots/reject_bot.cpp\<close>: the programs that run the bots, all on one order entry client, one market data
  client and one counter of order ids.
\<close>

section \<open>Start\<close>

datatype run_error = LoginFailed | OeFailed oe_client_error | MdFailed client_error

definition chars_of :: "string \<Rightarrow> u8 list" where
  "chars_of s = map of_char s"

text \<open>Log in, wait for a snapshot, and count the orders from 1.\<close>

definition start_desk ::
  "env \<Rightarrow> oe_client_env \<Rightarrow> md_env \<Rightarrow> string \<Rightarrow> u32 \<Rightarrow> system \<Rightarrow> (run_error + desk) option" where
  "start_desk e oe me user client_id s =
    (case login e oe (new_oe_client (chars_of user) (chars_of ''testuser'') client_id, s) of
       None \<Rightarrow> None
     | Some (False, c, s) \<Rightarrow> Some (Inl LoginFailed)
     | Some (True, c, s) \<Rightarrow>
         (case wait_for_snapshot me (new_md_client False) of
            None \<Rightarrow> None
          | Some (Inl err) \<Rightarrow> Some (Inl (MdFailed err))
          | Some (Inr md) \<Rightarrow> Some (Inr \<lparr>dk_oe = c, dk_md = md, dk_last_order_id = 1, dk_draws = 0, dk_system = s\<rparr>)))"

text \<open>Every round of a program begins with the responses and the market data that have come.\<close>

definition poll :: "oe_client_env \<Rightarrow> md_env \<Rightarrow> desk \<Rightarrow> (run_error + desk) option" where
  "poll oe me d =
    (case process_oe oe (dk_oe d) of
       None \<Rightarrow> None
     | Some (Inl err) \<Rightarrow> Some (Inl (OeFailed err))
     | Some (Inr c) \<Rightarrow>
         (case process_md me (dk_md d) of
            None \<Rightarrow> None
          | Some (Inl err) \<Rightarrow> Some (Inl (MdFailed err))
          | Some (Inr md) \<Rightarrow> Some (Inr (d\<lparr>dk_oe := c, dk_md := md\<rparr>))))"

section \<open>Market makers, takers and stackers\<close>

text \<open>
  The fair values are shared by all market makers; a taker has its time scale.  The stable program
  has no stackers.
\<close>

record runner =
  rn_desk :: desk
  rn_fair_values :: "fair_value list"
  rn_makers :: "fv_maker list"
  rn_takers :: "(u64 \<times> taker) list"
  rn_stackers :: "stack_manager list"

definition bot_symbols :: "symbol_definition list" where
  "bot_symbols = mk_symbol 1 10 1 1000 10000000 0 # map (\<lambda>y. mk_symbol y 5 1 1000 10000000 0) [2, 3, 4, 5, 6, 7, 8, 9, 10, 11, 12]
     @ [mk_symbol 13 10 1 1000 10000000 0]"

definition bot_fair_values :: "fair_value list" where
  "bot_fair_values = map (\<lambda>(p, y). new_random_walk (i32_of_int p) y)
     (zip [1200, 900, 550, 520, 580, 510, 600, 530, 540, 560, 570, 590, 5550] bot_symbols)"

definition bot_variances :: "i32 list list" where
  "bot_variances = map (map i32_of_int)
    [[0, 0, 0, 0, 0, 0, 0, 0, 0, 0, 0, 0, 0],
     [1, 1, 1, 1, 1, 1, 1, 1, 1, 1, 1, 1, 10],
     [-1, -1, -1, -1, -1, -1, -1, -1, -1, -1, -1, -1, -10],
     [1, 0, 2, 0, 1, 0, 2, 0, 1, 0, 2, 0, 5],
     [2, 0, 0, 2, 0, 2, 0, 2, 0, 2, 0, 2, 10],
     [0, 2, 1, 1, 1, 1, 1, 1, 1, 1, 1, 1, 5],
     [3, 0, -1, 1, -1, 1, -1, 1, -1, 1, -1, 1, 0]]"

definition bot_runner :: "desk \<Rightarrow> runner" where
  "bot_runner d = \<lparr>rn_desk = d, rn_fair_values = bot_fair_values,
     rn_makers = map (\<lambda>(i, vs). new_fv_maker vs bot_symbols (if i < 3 then 2 else 3) (100 - 10 * of_nat i))
       (zip [0..<length bot_variances] bot_variances),
     rn_takers = map (\<lambda>i. (6 + of_nat i, new_taker bot_symbols (of_nat i + 1))) [0..<4],
     rn_stackers = map (\<lambda>y. new_stack_mm y 1 2) bot_symbols\<rparr>"

definition stable_symbols :: "symbol_definition list" where
  "stable_symbols = [mk_symbol 1 10 1 1000 10000000 0, mk_symbol 2 5 1 1000 10000000 0]"

definition stable_bot_runner :: "desk \<Rightarrow> runner" where
  "stable_bot_runner d = \<lparr>rn_desk = d,
     rn_fair_values = [ConstantFairValue (i32_of_int 1200), ConstantFairValue (i32_of_int 400)],
     rn_makers = [new_fv_maker [I32 0, I32 0] stable_symbols 10 400],
     rn_takers = [(10, new_taker stable_symbols 1)], rn_stackers = []\<rparr>"

text \<open>A loop over a vector of bots, each of which changes itself and the desk.\<close>

fun each_bot :: "('b \<times> 'd \<Rightarrow> 'b \<times> 'd) \<Rightarrow> 'b list \<Rightarrow> 'd \<Rightarrow> 'b list \<times> 'd" where
  "each_bot f [] d = ([], d)"
| "each_bot f (b # bs) d = (case f (b, d) of (b, d) \<Rightarrow> (case each_bot f bs d of (bs, d) \<Rightarrow> (b # bs, d)))"

definition run_taker :: "env \<Rightarrow> (u64 \<times> taker) \<times> desk \<Rightarrow> (u64 \<times> taker) \<times> desk" where
  "run_taker e btd = (case btd of ((scale, t), d) \<Rightarrow>
     (case process_random_taker e scale (t, d) of (t, d) \<Rightarrow> ((scale, t), d)))"

definition runner_bots :: "env \<Rightarrow> runner \<Rightarrow> runner" where
  "runner_bots e r =
    (let (makers, fvs, d) = each_bot (process_maker e) (rn_makers r) (rn_fair_values r, rn_desk r);
         (takers, d) = each_bot (run_taker e) (rn_takers r) d;
         (stackers, d) = each_bot (process_stack_mm e) (rn_stackers r) d
     in \<lparr>rn_desk = d, rn_fair_values = fvs, rn_makers = makers, rn_takers = takers, rn_stackers = stackers\<rparr>)"

definition runner_round :: "env \<Rightarrow> oe_client_env \<Rightarrow> md_env \<Rightarrow> runner \<Rightarrow> (run_error + runner) option" where
  "runner_round e oe me r =
    map_option (map_sum id (\<lambda>d. runner_bots e (r\<lparr>rn_desk := d\<rparr>))) (poll oe me (rn_desk r))"

section \<open>The smarter bots\<close>

text \<open>
  The imbalance taker is the listener of the market data client: it hears, in their order, the trade
  summaries of each round.
\<close>

record smart_runner =
  sr_desk :: desk
  sr_imbalance :: imbalance_taker
  sr_pressure :: pressure_taker
  sr_resting :: taker

definition smarter_bots :: "desk \<Rightarrow> smart_runner" where
  "smarter_bots d = \<lparr>sr_desk = d\<lparr>dk_md := register_trade_summary_listener (dk_md d)\<rparr>,
     sr_imbalance = new_imbalance_taker stable_symbols 40 [i32_of_int 200, i32_of_int 400],
     sr_pressure = new_pressure_taker stable_symbols 5, sr_resting = new_taker stable_symbols 25\<rparr>"

definition hear_summaries :: "md_client \<Rightarrow> md_client \<Rightarrow> imbalance_taker \<Rightarrow> imbalance_taker" where
  "hear_summaries c c' t = fold (\<lambda>(y, q, p, sd). on_trade_summary y q p sd)
     (drop (length (mc_summaries c)) (mc_summaries c')) t"

definition smart_round :: "env \<Rightarrow> oe_client_env \<Rightarrow> md_env \<Rightarrow> smart_runner \<Rightarrow> (run_error + smart_runner) option" where
  "smart_round e oe me r =
    map_option (map_sum id (\<lambda>d.
      (let t = hear_summaries (dk_md (sr_desk r)) (dk_md d) (sr_imbalance r);
           (t, d) = process_imbalance_taker e (t, d);
           (p, d) = process_pressure_taker e (sr_pressure r, d);
           (q, d) = process_resting_orders e (sr_resting r, d)
       in \<lparr>sr_desk = d, sr_imbalance = t, sr_pressure = p, sr_resting = q\<rparr>))) (poll oe me (sr_desk r))"

section \<open>The bot that is rejected\<close>

definition reject_bot :: "desk \<Rightarrow> desk" where
  "reject_bot d = fold (\<lambda>i. on_oe (send_order 1 (of_nat i + 1) BUY 10 (I32 10) 0)) [0..<5000] d"

text \<open>It listens to the market data before the responses.\<close>

definition reject_round :: "oe_client_env \<Rightarrow> md_env \<Rightarrow> desk \<Rightarrow> (run_error + desk) option" where
  "reject_round oe me d =
    (case process_md me (dk_md d) of
       None \<Rightarrow> None
     | Some (Inl err) \<Rightarrow> Some (Inl (MdFailed err))
     | Some (Inr md) \<Rightarrow>
         (case process_oe oe (dk_oe d) of
            None \<Rightarrow> None
          | Some (Inl err) \<Rightarrow> Some (Inl (OeFailed err))
          | Some (Inr c) \<Rightarrow> Some (Inr (d\<lparr>dk_oe := c, dk_md := md\<rparr>))))"

section \<open>Rounds\<close>

text \<open>\<open>n\<close> rounds of a program's endless loop; an exception ends it.\<close>

fun rounds :: "('r \<Rightarrow> (run_error + 'r) option) \<Rightarrow> nat \<Rightarrow> 'r \<Rightarrow> (run_error + 'r) option" where
  "rounds step 0 r = Some (Inr r)"
| "rounds step (Suc n) r = (case step r of
      None \<Rightarrow> None | Some (Inl err) \<Rightarrow> Some (Inl err) | Some (Inr r) \<Rightarrow> rounds step n r)"

definition run_program ::
  "env \<Rightarrow> oe_client_env \<Rightarrow> md_env \<Rightarrow> string \<Rightarrow> u32 \<Rightarrow> (desk \<Rightarrow> 'r) \<Rightarrow> ('r \<Rightarrow> (run_error + 'r) option) \<Rightarrow> nat \<Rightarrow> system
     \<Rightarrow> (run_error + 'r) option" where
  "run_program e oe me user client_id setup step n s =
    (case start_desk e oe me user client_id s of
       None \<Rightarrow> None | Some (Inl err) \<Rightarrow> Some (Inl err) | Some (Inr d) \<Rightarrow> rounds step n (setup d))"

definition bot_runner_main :: "env \<Rightarrow> oe_client_env \<Rightarrow> md_env \<Rightarrow> nat \<Rightarrow> system \<Rightarrow> (run_error + runner) option" where
  "bot_runner_main e oe me = run_program e oe me ''test'' 99 bot_runner (runner_round e oe me)"

definition stable_bot_runner_main :: "env \<Rightarrow> oe_client_env \<Rightarrow> md_env \<Rightarrow> nat \<Rightarrow> system \<Rightarrow> (run_error + runner) option" where
  "stable_bot_runner_main e oe me = run_program e oe me ''test'' 99 stable_bot_runner (runner_round e oe me)"

definition smarter_bots_main :: "env \<Rightarrow> oe_client_env \<Rightarrow> md_env \<Rightarrow> nat \<Rightarrow> system \<Rightarrow> (run_error + smart_runner) option" where
  "smarter_bots_main e oe me = run_program e oe me ''test2'' 98 smarter_bots (smart_round e oe me)"

definition reject_bot_main :: "env \<Rightarrow> oe_client_env \<Rightarrow> md_env \<Rightarrow> nat \<Rightarrow> system \<Rightarrow> (run_error + desk) option" where
  "reject_bot_main e oe me = run_program e oe me ''test2'' 98 reject_bot (reject_round oe me)"

end
