(* ===== verification/Runner_Props.thy ===== *)
theory Runner_Props imports
  Bot_Runner
begin

text \<open>
  Properties of the programs that run the bots: however the bots share their counter, no order id is
  used twice.
\<close>

section \<open>The ids of new orders\<close>

fun id_of :: "oe_request \<Rightarrow> u64 list" where
  "id_of (OeNewOrder i y sd q p flags) = [i]"
| "id_of m = []"

definition new_ids :: "oe_request list \<Rightarrow> u64 list" where
  "new_ids ms = concat (map id_of ms)"

lemma new_ids_simps [simp]: "new_ids [] = []" "new_ids (m # ms) = id_of m @ new_ids ms" "new_ids (ms @ ms') = new_ids ms @ new_ids ms'"
  by (simp_all add: new_ids_def)

text \<open>\<open>n\<close> consecutive numbers of the counter, from \<open>k\<close>.\<close>

definition ids_from :: "u32 \<Rightarrow> nat \<Rightarrow> u64 list" where
  "ids_from k n = map (\<lambda>j. ucast (k + of_nat j)) [0..<n]"

lemma ids_from_append: "ids_from k n @ ids_from (k + of_nat n) n' = ids_from k (n + n')"
proof (rule nth_equalityI)
  fix i assume "i < length (ids_from k n @ ids_from (k + of_nat n) n')"
  then have i: "i < n + n'" by (simp add: ids_from_def)
  show "(ids_from k n @ ids_from (k + of_nat n) n') ! i = ids_from k (n + n') ! i"
  proof (cases "i < n")
    case False
    then have "of_nat n + of_nat (i - n) = (of_nat i :: u32)" by (simp flip: of_nat_add)
    then show ?thesis using False i by (simp add: ids_from_def nth_append ac_simps)
  qed (use i in \<open>simp add: ids_from_def nth_append\<close>)
qed (simp add: ids_from_def)

lemma ids_from_simps [simp]: "length (ids_from k n) = n" "ids_from k 0 = []" "ids_from k (Suc 0) = [ucast k]"
  by (simp_all add: ids_from_def)

lemma ucast_64_inj: "(ucast (x :: u32) :: u64) = ucast y \<longleftrightarrow> x = y"
proof
  assume eq: "(ucast x :: u64) = ucast y"
  show "x = y"
  proof (rule bit_word_eqI)
    fix n assume n: "n < LENGTH(32)"
    have "bit (ucast x :: u64) n = bit (ucast y :: u64) n" by (simp only: eq)
    then show "bit x n = bit y n" using n by (simp add: bit_ucast_iff)
  qed
qed simp

lemma ids_from_distinct: "n \<le> 2 ^ 32 \<Longrightarrow> distinct (ids_from k n)"
proof -
  assume n: "n \<le> 2 ^ 32"
  have "i = j" if "i < n" "j < n" "k + of_nat i = k + (of_nat j :: u32)" for i j
  proof -
    have "unat (of_nat i :: u32) = unat (of_nat j :: u32)" using that(3) by simp
    then show ?thesis using that(1,2) n by (simp add: unat_of_nat)
  qed
  then show "distinct (ids_from k n)" by (auto simp: ids_from_def distinct_map inj_on_def ucast_64_inj)
qed

text \<open>
  Between the two desks the requests \<open>ms\<close> are written, numbered without a gap, and the ids of the new
  orders among them are the counter's next ones.
\<close>

definition numbered :: "desk \<Rightarrow> oe_request list \<Rightarrow> desk \<Rightarrow> bool" where
  "numbered d ms d' \<longleftrightarrow> (let c = dk_oe d; c' = dk_oe d' in
     written (oc_sock c) (dk_system d') = written (oc_sock c) (dk_system d) @
       encode_stream (session_requests (oc_client_seq c) (oc_client_id c) (oc_session_id c) ms) \<and>
     oc_client_seq c' = oc_client_seq c + of_nat (length ms) \<and> oc_client_id c' = oc_client_id c \<and>
     oc_session_id c' = oc_session_id c \<and> oc_sock c' = oc_sock c \<and>
     new_ids ms = ids_from (dk_last_order_id d) (length (new_ids ms)) \<and>
     dk_last_order_id d' = dk_last_order_id d + of_nat (length (new_ids ms)))"

definition runs :: "desk \<Rightarrow> desk \<Rightarrow> bool" where
  "runs d d' \<longleftrightarrow> (\<exists>ms. numbered d ms d')"

lemma numbered_refl [simp]: "numbered d [] d"
  by (simp add: numbered_def)

lemma numbered_trans:
  assumes "numbered d ms d1" "numbered d1 ms' d2"
  shows "numbered d (ms @ ms') d2"
proof -
  let ?k = "dk_last_order_id d" and ?n = "length (new_ids ms)" and ?n' = "length (new_ids ms')"
  have "new_ids (ms @ ms') = ids_from ?k ?n @ ids_from (?k + of_nat ?n) ?n'"
    using assms unfolding numbered_def Let_def new_ids_simps by metis
  then have "new_ids (ms @ ms') = ids_from ?k (length (new_ids (ms @ ms')))" unfolding ids_from_append by simp
  with assms show ?thesis by (simp add: numbered_def Let_def algebra_simps)
qed

lemma runs_refl [simp]: "runs d d"
  unfolding runs_def by (rule exI [of _ "[]"]) simp

lemma runs_trans: "runs d d1 \<Longrightarrow> runs d1 d2 \<Longrightarrow> runs d d2"
  unfolding runs_def using numbered_trans by blast

lemma sends_numbered:
  assumes "sends d ms d'" "new_ids ms = ids_from (dk_last_order_id d) (length (new_ids ms))"
    "dk_last_order_id d' = dk_last_order_id d + of_nat (length (new_ids ms))"
  shows "runs d d'"
  unfolding runs_def numbered_def using assms by (auto simp: sends_def Let_def intro!: exI [of _ ms])

section \<open>Each bot\<close>

lemma last_order_id_simps [simp]:
  "dk_last_order_id (snd (read_clock e d)) = dk_last_order_id d" "dk_last_order_id (snd (draw e d)) = dk_last_order_id d"
  "dk_last_order_id (snd (rand e d)) = dk_last_order_id d" "dk_last_order_id (snd (uniform e lo hi d)) = dk_last_order_id d"
  "dk_last_order_id (desk_send y i sd q p flags d) = dk_last_order_id d" "dk_last_order_id (desk_cancel i d) = dk_last_order_id d"
  "dk_last_order_id (desk_modify i sd q p d) = dk_last_order_id d"
  by (simp_all add: read_clock_def draw_def rand_def uniform_def desk_send_def desk_cancel_def desk_modify_def on_oe_def
      split: prod.split)

lemma runs_steps [simp]:
  "runs d (snd (read_clock e d))" "runs d (snd (draw e d))" "runs d (snd (rand e d))" "runs d (snd (uniform e lo hi d))"
  by (rule sends_numbered [OF sends_steps(1)], simp, simp, rule sends_numbered [OF sends_steps(3)], simp, simp,
      rule sends_numbered [OF sends_steps(4)], simp, simp, rule sends_numbered [OF sends_steps(5)], simp, simp)

lemma runs_later:
  assumes "runs d0 d"
  shows "read_clock e d = (t, d') \<Longrightarrow> runs d0 d'" "draw e d = (t, d') \<Longrightarrow> runs d0 d'"
    "rand e d = (n, d') \<Longrightarrow> runs d0 d'" "uniform e lo hi d = (t, d') \<Longrightarrow> runs d0 d'"
  using runs_trans [OF assms] runs_steps [of d e] by (metis snd_conv)+

lemma runs_cancel: "runs d (desk_cancel i d)"
  by (rule sends_numbered [OF sends_request(2)]) simp_all

lemma runs_new: "runs d (snd (next_order_id (desk_send y (dk_last_order_id d) sd q p flags d)))"
proof -
  have "sends d [OeNewOrder (ucast (dk_last_order_id d)) y sd q p flags]
      (snd (next_order_id (desk_send y (dk_last_order_id d) sd q p flags d)))"
    using sends_trans [OF sends_request(1) sends_steps(2)] by simp
  then show ?thesis by (rule sends_numbered) (simp_all add: next_order_id_def)
qed

lemma runs_send_next: "runs d0 d \<Longrightarrow> runs d0 (send_next y sd q p flags d)"
  using runs_trans runs_new by (simp add: send_next_def)

lemma fold_runs: "(\<And>x d. runs d (f x d)) \<Longrightarrow> runs d (fold f xs d)"
  by (induction xs arbitrary: d) (auto intro: runs_trans)

text \<open>The same for a bot that goes over its symbols.\<close>

lemma fold_runs_bot:
  assumes "\<And>x t d. runs d (snd (f x (t, d)))"
  shows "runs d (snd (fold f xs (t, d)))"
proof (induction xs arbitrary: t d)
  case (Cons x xs)
  obtain t1 d1 where f: "f x (t, d) = (t1, d1)" by fastforce
  then have "runs d d1" using assms [of d x t] by simp
  then show ?case using Cons [of d1 t1] f runs_trans by simp
qed simp

lemma stack_side_runs: "runs d (snd (stack_side e price sd (m, d)))"
proof -
  obtain m' d' where run: "stack_side e price sd (m, d) = (m', d')" by fastforce
  let ?cs = "map (\<lambda>(p, x). OeDeleteOrder (ucast (sk_order_id x))) (filter (\<lambda>e. ahead_of sd price (fst e)) (stack_of sd m))"
  have cs: "new_ids ?cs = []" by (simp add: new_ids_def split_beta comp_def)
  from stack_side_cases [OF run] show ?thesis
    by (elim exE conjE disjE) (rule sends_numbered, simp add: run, simp_all add: cs run)+
qed

lemma process_stack_runs: "runs d (snd (process_stack e fair bid ask (m, d)))"
  using stack_side_runs runs_trans
  by (auto simp: process_stack_def Let_def) (metis prod.collapse)+

lemma stacker_runs: "runs d (snd (process_stack_mm e (m, d)))"
  using process_stack_runs by (simp add: process_stack_mm_def Let_def)

lemma process_walk_runs:
  assumes "runs d0 d" "process_walk e ts w d = (w', d')"
  shows "runs d0 d'"
proof -
  note later = runs_later [OF assms(1)]
  have step: "runs d0 (snd (walk_step e w d))" using later(2) by (auto simp: walk_step_def Let_def split: prod.splits)
  obtain x d1 where 1: "walk_step e w d = (x, d1)" by fastforce
  with step have "runs d0 d1" by simp
  note after = runs_later(4) [OF this]
  show ?thesis
    using assms 1 by (auto simp: process_walk_def Let_def split: prod.splits if_splits dest: later(4) after)
qed

lemma process_fair_value_runs:
  assumes "runs d0 d" "process_fair_value e ts fv d = (v, fv', d')"
  shows "runs d0 d'"
  using assms process_walk_runs by (cases fv) (auto split: prod.splits)

lemma cancel_quote_runs: "runs d0 d \<Longrightarrow> runs d0 (snd (cancel_quote e sd y (m, d)))"
  using runs_trans [OF runs_trans [OF _ runs_steps(1)] runs_cancel] by (simp add: cancel_quote_def Let_def)

lemma send_quote_runs:
  assumes "runs d0 d"
  shows "runs d0 (snd (send_quote e sd y price (m, d)))"
proof -
  let ?d1 = "snd (read_clock e d)"
  let ?d2 = "desk_send y (dk_last_order_id ?d1) sd (fm_quantity m) price 0 ?d1"
  obtain i d3 where i: "next_order_id ?d2 = (i, d3)" by fastforce
  obtain now d4 where now: "read_clock e d3 = (now, d4)" by fastforce
  have "runs d0 ?d1" using assms runs_steps(1) runs_trans by blast
  then have "runs d0 d3" using runs_new [of ?d1] i runs_trans by (metis snd_conv)
  then have "runs d0 d4" using now by (rule runs_later(1))
  then show ?thesis using i now by (simp add: send_quote_def Let_def)
qed

lemma quote_side_runs:
  assumes "runs d0 d"
  shows "runs d0 (snd (quote_side e sd y price (m, d)))"
proof -
  obtain now d1 where now: "read_clock e d = (now, d1)" by fastforce
  have "runs d0 d1" using assms now by (rule runs_later(1))
  with assms now show ?thesis
    by (simp add: quote_side_def Let_def cancel_quote_runs send_quote_runs)
qed

lemma process_symbol_runs:
  assumes "runs d0 d"
  shows "runs d0 (snd (snd (process_symbol e i (m, fvs, d))))"
proof -
  let ?y = "fm_symbols m ! i"
  let ?s = "sd_symbol ?y"
  obtain ts d1 where 1: "read_clock e d = (ts, d1)" by fastforce
  obtain x fv d2 where 2: "process_fair_value e ts (fvs ! i) d1 = (x, fv, d2)" by (metis prod_cases3)
  let ?v = "maker_value ?y x (fm_variances m ! i) (get_position ?s (dk_oe d2))"
  let ?m = "set_quotes SELL ?s (quotes_of SELL ?s m) (set_quotes BUY ?s (quotes_of BUY ?s m) m)"
  obtain m3 d3 where 3: "quote_side e BUY ?s (maker_bid (fm_width ?m) ?y ?v) (?m, d2) = (m3, d3)" by fastforce
  obtain m4 d4 where 4: "quote_side e SELL ?s (maker_ask (fm_width m3) ?y ?v) (m3, d3) = (m4, d4)" by fastforce
  have "runs d0 d2" using process_fair_value_runs [OF runs_later(1) [OF assms 1] 2] .
  then have "runs d0 d3" using quote_side_runs [of d0 d2 e BUY ?s "maker_bid (fm_width ?m) ?y ?v" ?m] 3 by simp
  then have "runs d0 d4" using quote_side_runs [of d0 d3 e SELL ?s "maker_ask (fm_width m3) ?y ?v" m3] 4 by simp
  then show ?thesis using 1 2 3 4 by (simp add: process_symbol_def Let_def)
qed

lemma maker_runs: "runs d0 d \<Longrightarrow> runs d0 (snd (snd (process_maker e (m, fvs, d))))"
proof -
  have "runs d0 (snd (snd (fold (process_symbol e) ks (m, fvs, d))))" if "runs d0 d" for ks m fvs d
    using that
  proof (induction ks arbitrary: m fvs d)
    case (Cons i ks)
    obtain m1 fvs1 d1 where 1: "process_symbol e i (m, fvs, d) = (m1, fvs1, d1)" by (metis prod_cases3)
    then have "runs d0 d1" using process_symbol_runs [OF Cons.prems, of e i m fvs] by simp
    then show ?case using Cons.IH 1 by simp
  qed simp
  then show "runs d0 d \<Longrightarrow> runs d0 (snd (snd (process_maker e (m, fvs, d))))" by (simp add: process_maker_def)
qed

lemma random_taker_runs: "runs d (snd (process_random_taker e scale (t, d)))"
proof -
  obtain ts d1 where 1: "read_clock e d = (ts, d1)" by fastforce
  have d1: "runs d d1" using runs_refl 1 by (rule runs_later(1))
  have "runs d' (random_take e q y d')" for d' q y
  proof -
    obtain r d2 where r: "rand e d' = (r, d2)" by fastforce
    have "runs d' d2" using runs_refl r by (rule runs_later(3))
    then show ?thesis by (simp add: random_take_def r take_market_def runs_send_next)
  qed
  then have "runs d1 (fold (random_take e (tk_quantity t)) (tk_symbols t) d1)" by (rule fold_runs)
  with d1 have "runs d (fold (random_take e (tk_quantity t)) (tk_symbols t) d1)" by (rule runs_trans)
  note after = runs_later(4) [OF this]
  show ?thesis using 1 d1 by (auto simp: process_random_taker_def Let_def split: prod.splits dest: after)
qed

lemma pressure_taker_runs: "runs d (snd (process_pressure_taker e (t, d)))"
proof -
  obtain ts d1 where 1: "read_clock e d = (ts, d1)" by fastforce
  have d1: "runs d d1" using runs_refl 1 by (rule runs_later(1))
  obtain t2 d2 where 2: "load_pressure e (t, d1) = (t2, d2)" by fastforce
  have "runs d d2"
  proof (cases "pt_pressure t \<le> I32 (tk_quantity t)")
    case True
    obtain n d3 where 3: "rand e d1 = (n, d3)" by fastforce
    obtain r d4 where 4: "rand e d3 = (r, d4)" by fastforce
    have "runs d d4" using runs_later(3) [OF runs_later(3) [OF d1 3] 4] .
    then show ?thesis using 2 3 4 True by (auto simp: load_pressure_def)
  qed (use 2 d1 in \<open>simp add: load_pressure_def\<close>)
  moreover have "runs d' (snd (press y (t', d')))" for y t' d'
    by (simp add: press_def take_market_def runs_send_next)
  then have "runs d2 (snd (fold press (tk_symbols t2) (t2, d2)))" by (rule fold_runs_bot)
  ultimately have fold: "runs d (snd (fold press (tk_symbols t2) (t2, d2)))" by (rule runs_trans)
  have "tk_symbols t2 = tk_symbols t" using 2 by (auto simp: load_pressure_def Let_def split: if_splits prod.splits)
  moreover obtain t3 d3 where press: "fold press (tk_symbols t) (t2, d2) = (t3, d3)" by fastforce
  ultimately have 3: "fold press (tk_symbols t) (t2, d2) = (t3, d3)" "runs d d3" using fold by simp_all
  obtain now d4 where 4: "read_clock e d3 = (now, d4)" by fastforce
  have "runs d d4" using 3(2) 4 by (rule runs_later(1))
  note after = runs_later(4) [OF this]
  show ?thesis using 1 2 3(1) 4 d1 by (auto simp: process_pressure_taker_def split: prod.splits dest: after)
qed

lemma imbalance_taker_runs: "runs d (snd (process_imbalance_taker e (t, d)))"
proof -
  have "runs d' (snd (answer_imbalance e y (t', d')))" for y t' d'
  proof -
    have sent: "runs d' (snd (read_clock e (send_next (sd_symbol y) sd (it_quantity t') p IOC_FLAG d')))" for sd p
      by (rule runs_trans [OF runs_send_next [OF runs_refl] runs_steps(1)])
    show ?thesis
      using sent [of BUY "sd_max_price y"] sent [of SELL "sd_min_price y"]
      by (auto simp: answer_imbalance_def Let_def split: option.split prod.split)
  qed
  then have round: "runs d1 (snd (fold (answer_imbalance e) (it_symbols t) (t, d1)))" for d1 by (rule fold_runs_bot)
  obtain now d1 where 1: "read_clock e d = (now, d1)" by fastforce
  have "runs d d1" using runs_refl 1 by (rule runs_later(1))
  then show ?thesis using round 1 runs_trans by (simp add: process_imbalance_taker_def)
qed

lemma resting_orders_runs: "runs d (snd (process_resting_orders e (t, d)))"
proof -
  obtain ts d1 where 1: "read_clock e d = (ts, d1)" by fastforce
  obtain r d2 where 2: "rand e d1 = (r, d2)" by fastforce
  have d1: "runs d d1" using runs_refl 1 by (rule runs_later(1))
  have d2: "runs d d2" using d1 2 by (rule runs_later(3))
  let ?d3 = "fold (rest_order (if r mod 2 = 0 then BUY else SELL) (tk_quantity t)) (tk_symbols t) d2"
  have "runs d2 ?d3" by (rule fold_runs) (simp add: rest_order_def Let_def runs_send_next)
  with d2 have d3: "runs d ?d3" by (rule runs_trans)
  obtain now d4 where 4: "read_clock e ?d3 = (now, d4)" by fastforce
  have "runs d d4" using d3 4 by (rule runs_later(1))
  note after = runs_later(4) [OF this]
  show ?thesis using 1 2 4 d1 by (auto simp: process_resting_orders_def Let_def split: prod.splits dest: after)
qed

section \<open>A round\<close>

definition same_session :: "oe_client \<Rightarrow> oe_client \<Rightarrow> bool" where
  "same_session c c' \<longleftrightarrow> oc_client_seq c' = oc_client_seq c \<and> oc_client_id c' = oc_client_id c \<and>
     oc_session_id c' = oc_session_id c \<and> oc_sock c' = oc_sock c"

lemma on_response_keeps: "on_response m c = Inr c' \<Longrightarrow> same_session c c'"
  by (cases m) (auto simp: on_fill_def same_session_def Let_def split: prod.splits)

lemma read_responses_keeps:
  assumes run: "read_responses c = Some (Inr c')"
  shows "same_session c c'"
proof -
  have "\<forall>c1. Inr c' = (Inr c1 :: oe_client_error + oe_client) \<longrightarrow> same_session c c1"
  proof (rule read_responses.raw_induct [of "\<lambda>c r. \<forall>c1. r = Inr c1 \<longrightarrow> same_session c c1", OF _ run], goal_cases)
    case (1 loop c r)
    show ?case
    proof (intro allI impI)
      fix c1 assume r: "r = Inr c1"
      from 1(2) consider "c1 = c" | t c2 buf where "on_response (the (oe_response_at t (oc_buffer c))) c = Inr c2"
          "loop (c2\<lparr>oc_buffer := buf\<rparr>) = Some (Inr c1)"
        unfolding r by (auto simp: Let_def split: if_splits option.splits sum.splits)
      then show "same_session c c1"
      proof cases
        case 2
        have "same_session (c2\<lparr>oc_buffer := buf\<rparr>) c1" using 1(1) [OF 2(2)] by simp
        with on_response_keeps [OF 2(1)] show ?thesis by (simp add: same_session_def)
      qed (simp add: same_session_def)
    qed
  qed
  then show ?thesis by simp
qed

lemma process_oe_keeps:
  assumes "process_oe oe c = Some (Inr c')"
  shows "same_session c c'"
proof (cases "oe_read oe (oc_reads c)")
  case (Received bs)
  let ?c = "c\<lparr>oc_reads := Suc (oc_reads c), oc_buffer := oc_buffer c @ take OE_BUF bs\<rparr>"
  have "read_responses ?c = Some (Inr c')" using assms Received by (simp add: process_oe_def Let_def)
  from read_responses_keeps [OF this] show ?thesis by (simp add: same_session_def)
qed (use assms in \<open>auto simp: process_oe_def same_session_def\<close>)

lemma poll_runs:
  assumes "poll oe me d = Some (Inr d')"
  shows "runs d d'"
proof -
  obtain c md where c: "process_oe oe (dk_oe d) = Some (Inr c)" "d' = d\<lparr>dk_oe := c, dk_md := md\<rparr>"
    using assms by (auto simp: poll_def split: option.splits sum.splits)
  then have "numbered d [] d'" using process_oe_keeps [OF c(1)] by (simp add: numbered_def same_session_def)
  then show ?thesis unfolding runs_def by blast
qed

lemma each_bot_runs:
  assumes "\<And>b d. runs (the_desk d) (the_desk (snd (f (b, d))))"
  shows "runs (the_desk d) (the_desk (snd (each_bot f bs d)))"
proof (induction bs arbitrary: d)
  case (Cons b bs)
  obtain b1 d1 where 1: "f (b, d) = (b1, d1)" by fastforce
  obtain bs2 d2 where 2: "each_bot f bs d1 = (bs2, d2)" by fastforce
  have "runs (the_desk d) (the_desk d1)" using assms [of d b] 1 by simp
  then show ?case using Cons [of d1] 1 2 runs_trans by simp
qed simp

lemma runner_bots_runs: "runs (rn_desk r) (rn_desk (runner_bots e r))"
proof -
  obtain makers fvs d1 where 1: "each_bot (process_maker e) (rn_makers r) (rn_fair_values r, rn_desk r) = (makers, fvs, d1)"
    by (metis prod_cases3)
  obtain takers d2 where 2: "each_bot (run_taker e) (rn_takers r) d1 = (takers, d2)" by fastforce
  obtain stackers d3 where 3: "each_bot (process_stack_mm e) (rn_stackers r) d2 = (stackers, d3)" by fastforce
  have "runs (snd (rn_fair_values r, rn_desk r)) (snd (snd (each_bot (process_maker e) (rn_makers r) (rn_fair_values r, rn_desk r))))"
    by (rule each_bot_runs) (metis maker_runs prod.collapse runs_refl)
  then have "runs (rn_desk r) d1" using 1 by simp
  moreover have "runs d1 (snd (each_bot (run_taker e) (rn_takers r) d1))"
    by (rule each_bot_runs [where the_desk = "\<lambda>d. d"])
      (use random_taker_runs in \<open>auto simp: run_taker_def split: prod.split, metis snd_conv\<close>)
  then have "runs d1 d2" using 2 by simp
  moreover have "runs d2 (snd (each_bot (process_stack_mm e) (rn_stackers r) d2))"
    by (rule each_bot_runs [where the_desk = "\<lambda>d. d"]) (rule stacker_runs)
  then have "runs d2 d3" using 3 by simp
  ultimately have "runs (rn_desk r) d3" using runs_trans by blast
  then show ?thesis using 1 2 3 by (simp add: runner_bots_def)
qed

lemma runner_round_runs:
  assumes "runner_round e oe me r = Some (Inr r')"
  shows "runs (rn_desk r) (rn_desk r')"
proof -
  obtain d where d: "poll oe me (rn_desk r) = Some (Inr d)" "r' = runner_bots e (r\<lparr>rn_desk := d\<rparr>)"
    using assms by (auto simp: runner_round_def) (case_tac z; simp)
  then show ?thesis using poll_runs [OF d(1)] runner_bots_runs [of "r\<lparr>rn_desk := d\<rparr>" e] runs_trans by simp
qed

lemma smart_round_runs:
  assumes "smart_round e oe me r = Some (Inr r')"
  shows "runs (sr_desk r) (sr_desk r')"
proof -
  let ?t = "\<lambda>d. hear_summaries (dk_md (sr_desk r)) (dk_md d) (sr_imbalance r)"
  obtain d where d: "poll oe me (sr_desk r) = Some (Inr d)"
    using assms by (auto simp: smart_round_def) (case_tac z; simp)
  obtain t d1 where 1: "process_imbalance_taker e (?t d, d) = (t, d1)" by fastforce
  obtain p d2 where 2: "process_pressure_taker e (sr_pressure r, d1) = (p, d2)" by fastforce
  obtain q d3 where 3: "process_resting_orders e (sr_resting r, d2) = (q, d3)" by fastforce
  have "runs d d1" "runs d1 d2" "runs d2 d3"
    using imbalance_taker_runs [of d e "?t d"] pressure_taker_runs [of d1 e "sr_pressure r"]
      resting_orders_runs [of d2 e "sr_resting r"] 1 2 3 by simp_all
  then have "runs (sr_desk r) d3" using poll_runs [OF d] runs_trans by blast
  moreover have "sr_desk r' = d3" using assms d 1 2 3 by (auto simp: smart_round_def)
  ultimately show ?thesis by simp
qed

lemma rounds_runs:
  assumes "\<And>r r'. step r = Some (Inr r') \<Longrightarrow> runs (the_desk r) (the_desk r')"
  shows "rounds step n r = Some (Inr r') \<Longrightarrow> runs (the_desk r) (the_desk r')"
proof (induction n arbitrary: r)
  case (Suc n)
  then obtain r1 where "step r = Some (Inr r1)" "rounds step n r1 = Some (Inr r')"
    by (auto split: option.splits sum.splits)
  with Suc.IH assms show ?case using runs_trans by blast
qed simp

section \<open>Fresh ids\<close>

definition fresh_ids :: "desk \<Rightarrow> desk \<Rightarrow> bool" where
  "fresh_ids d d' \<longleftrightarrow> (\<exists>ms. numbered d ms d' \<and> (length (new_ids ms) \<le> 2 ^ 32 \<longrightarrow> distinct (new_ids ms)))"

lemma runs_fresh: "runs d d' \<Longrightarrow> fresh_ids d d'"
  unfolding runs_def fresh_ids_def numbered_def Let_def using ids_from_distinct by metis

text \<open>C34: the bots of a program never use an order id twice: over any number of rounds, whatever the
  responses and the market data, what a program writes to the exchange is one stream of requests
  with consecutive sequence numbers, and the ids of all new orders in it, of all of its bots, are
  the counter's consecutive values, so that they are distinct until 2^32 orders have been sent.\<close>

theorem bots_never_reuse_ids:
  assumes "rounds (runner_round e oe me) n r = Some (Inr r')" "rounds (smart_round e oe me) n q = Some (Inr q')"
  shows "fresh_ids (rn_desk r) (rn_desk r') \<and> fresh_ids (sr_desk q) (sr_desk q')"
proof
  have "runs (rn_desk r) (rn_desk r')" by (rule rounds_runs [OF _ assms(1)]) (rule runner_round_runs)
  then show "fresh_ids (rn_desk r) (rn_desk r')" by (rule runs_fresh)
  have "runs (sr_desk q) (sr_desk q')" by (rule rounds_runs [OF _ assms(2)]) (rule smart_round_runs)
  then show "fresh_ids (sr_desk q) (sr_desk q')" by (rule runs_fresh)
qed

text \<open>A network on which nothing comes.\<close>

definition quiet_socket :: oe_client_env where
  "quiet_socket = \<lparr>oe_connect = NoSocket, oe_read = (\<lambda>_. NothingYet), oe_stack = (\<lambda>_. 0)\<rparr>"

definition quiet_feed :: md_env where
  "quiet_feed = \<lparr>me_live = (\<lambda>_. NothingYet), me_snapshot = (\<lambda>_. NothingYet), me_leaves_group = True, me_freed = (\<lambda>x. x)\<rparr>"

lemma quiet_poll: "\<exists>d'. poll quiet_socket quiet_feed d = Some (Inr d')"
  by (simp add: poll_def process_oe_def process_md_def quiet_socket_def quiet_feed_def Let_def)

theorem bots_never_reuse_ids_witness:
  "\<exists>r' q'. rounds (runner_round calm_env quiet_socket quiet_feed) 1 (stable_bot_runner market_desk) = Some (Inr r') \<and>
     rounds (smart_round calm_env quiet_socket quiet_feed) 1 (smarter_bots market_desk) = Some (Inr q') \<and>
     fresh_ids (rn_desk (stable_bot_runner market_desk)) (rn_desk r') \<and> fresh_ids (sr_desk (smarter_bots market_desk)) (sr_desk q')"
proof -
  let ?r = "stable_bot_runner market_desk" and ?q = "smarter_bots market_desk"
  obtain r' where r': "rounds (runner_round calm_env quiet_socket quiet_feed) 1 ?r = Some (Inr r')"
    using quiet_poll [of "rn_desk ?r"] by (auto simp: runner_round_def)
  obtain q' where q': "rounds (smart_round calm_env quiet_socket quiet_feed) 1 ?q = Some (Inr q')"
    using quiet_poll [of "sr_desk ?q"] by (auto simp: smart_round_def)
  show ?thesis using bots_never_reuse_ids [OF r' q'] r' q' by blast
qed

end
