(* ===== verification/Viewer.thy ===== *)
theory Viewer imports
  Md_Client
begin

text \<open>
  \<open>viewer/bbo_printer.cpp\<close> and \<open>viewer/pcap_printer.cpp\<close>: two programs that read a capture file and
  rebuild the order books from the market data in it, and \<open>bots/print_snapshots.cpp\<close>, which prints
  the snapshot feed.
\<close>

section \<open>One message\<close>

record viewer =
  vw_books :: "u32 \<rightharpoonup> order_book"
  vw_symbol_of :: "u64 \<rightharpoonup> u32"

definition viewed_book :: "u32 \<Rightarrow> ('a viewer_scheme) \<Rightarrow> order_book" where
  "viewed_book y w = (case vw_books w y of None \<Rightarrow> empty_order_book | Some b \<Rightarrow> b)"

definition on_viewed_book :: "u64 \<Rightarrow> (order_book \<Rightarrow> order_book) \<Rightarrow> ('a viewer_scheme) \<Rightarrow> ('a viewer_scheme)" where
  "on_viewed_book i f w = (case vw_symbol_of w i of
      None \<Rightarrow> w
    | Some y \<Rightarrow> (case vw_books w y of
          None \<Rightarrow> w
        | Some b \<Rightarrow> w\<lparr>vw_books := (vw_books w)(y \<mapsto> f b)\<rparr>))"

text \<open>The entry of a deleted order is erased after its book was found.\<close>

definition forget_symbol :: "u64 \<Rightarrow> ('a viewer_scheme) \<Rightarrow> ('a viewer_scheme)" where
  "forget_symbol i w = (case vw_symbol_of w i of
      None \<Rightarrow> w
    | Some y \<Rightarrow> if vw_books w y = None then w else w\<lparr>vw_symbol_of := (vw_symbol_of w)(i := None)\<rparr>)"

fun apply_live :: "(ob_order \<Rightarrow> ob_order) \<Rightarrow> md_msg \<Rightarrow> ('a viewer_scheme) \<Rightarrow> ('a viewer_scheme)" where
  "apply_live freed (NewOrder i y sd q p fl) w =
     w\<lparr>vw_books := (vw_books w)(y \<mapsto> ob_new_order i sd q p fl (viewed_book y w)),
       vw_symbol_of := (vw_symbol_of w)(i \<mapsto> y)\<rparr>"
| "apply_live freed (DeleteOrder i) w = forget_symbol i (on_viewed_book i (ob_delete_order i) w)"
| "apply_live freed (ModifyOrder i sd q p) w = on_viewed_book i (ob_modify_order i sd q p) w"
| "apply_live freed (Trade i q p) w = on_viewed_book i (order_trade freed i q p) w"
| "apply_live freed (TradeSummary y sd q p) w = w"
| "apply_live freed Heartbeat w = w"
| "apply_live freed (SnapshotInfo y b a n) w = w"

text \<open>
  \<open>parse_and_apply_live_message\<close>: the first component tells whether the caller's pointer moves on.
  A message of an unknown type is skipped; one that is too short leaves the pointer where it is.
\<close>

definition too_short :: "md_msg_type \<Rightarrow> u8 list \<Rightarrow> bool" where
  "too_short t buf \<longleftrightarrow> t \<notin> {MD_HEARTBEAT, MD_SNAPSHOT_INFO} \<and> length buf < md_sizeof t"

definition parse_live ::
  "(ob_order \<Rightarrow> ob_order) \<Rightarrow> u8 list \<Rightarrow> ('a viewer_scheme) \<Rightarrow> bool \<times> ('a viewer_scheme)" where
  "parse_live freed buf w =
    (let h = md_header_at buf in
     if mh_magic_number h \<noteq> MAGIC_NUMBER then (False, w)
     else case md_type_of_code (mh_msg_type h) of
        None \<Rightarrow> (True, w)
      | Some t \<Rightarrow> if too_short t buf then (False, w) else (True, apply_live freed (md_msg_at t buf) w))"

section \<open>A capture file\<close>

text \<open>
  The frames of a capture file: the time and the bytes that were captured.  Ethernet, IP and UDP
  headers take 42 bytes, which are cut off without a look at them.  The count of the remaining bytes
  is unsigned, so both programs go on behind the end of a frame that is shorter, or of a message
  whose length is wrong; \<open>Overrun\<close> is this undefined behaviour, and \<open>None\<close> a loop without end.
\<close>

record frame =
  fr_sec :: int
  fr_usec :: int
  fr_bytes :: "u8 list"

definition HEADERS :: nat where "HEADERS = 14 + 28"

definition payload_of :: "frame \<Rightarrow> client_error + u8 list" where
  "payload_of f = (if length (fr_bytes f) < HEADERS then Inl Overrun else Inr (drop HEADERS (fr_bytes f)))"

text \<open>The magic number is looked at first, the other fields only when it is known.\<close>

definition magic_at :: "u8 list \<Rightarrow> u64 option" where
  "magic_at buf = (if length buf < 8 then None else Some (mh_magic_number (md_header_at buf)))"

section \<open>The printer of best bids and offers\<close>

text \<open>What it prints, but for its complaints.\<close>

datatype bbo_line = FoundStart int | TradeSummaryLine u32 i32 u32 | HeartbeatLine | CaplenLine nat

record bbo_printer = viewer +
  bb_last_seq :: u32
  bb_lines :: "bbo_line list"

definition new_bbo_printer :: bbo_printer where
  "new_bbo_printer = \<lparr>vw_books = Map.empty, vw_symbol_of = Map.empty, bb_last_seq = 0, bb_lines = []\<rparr>"

definition bbo_print :: "bbo_line list \<Rightarrow> bbo_printer \<Rightarrow> bbo_printer" where
  "bbo_print ls w = w\<lparr>bb_lines := bb_lines w @ ls\<rparr>"

fun lines_of :: "md_msg \<Rightarrow> bbo_line list" where
  "lines_of (TradeSummary y sd q p) = [TradeSummaryLine y p q]"
| "lines_of Heartbeat = [HeartbeatLine]"
| "lines_of m = []"

definition parse_and_print :: "(ob_order \<Rightarrow> ob_order) \<Rightarrow> u8 list \<Rightarrow> bbo_printer \<Rightarrow> bool \<times> bbo_printer" where
  "parse_and_print freed buf w =
    (let h = md_header_at buf in
     if mh_magic_number h \<noteq> MAGIC_NUMBER then (False, w)
     else case md_type_of_code (mh_msg_type h) of
        None \<Rightarrow> (True, w)
      | Some t \<Rightarrow> if too_short t buf then (False, w)
                 else let m = md_msg_at t buf in (True, bbo_print (lines_of m) (apply_live freed m w)))"

text \<open>
  A message out of sequence is skipped, and the program waits for a message 1 again.  A message in
  sequence that is too short is met once more, now out of sequence, and skipped.
\<close>

partial_function (option) bbo_packet ::
  "(ob_order \<Rightarrow> ob_order) \<Rightarrow> int \<Rightarrow> u8 list \<Rightarrow> bbo_printer \<Rightarrow> (client_error + bbo_printer) option" where
  "bbo_packet freed sec buf w =
    (let h = md_header_at buf; n = unat (mh_length h) in
     if buf = [] then Some (Inr w)
     else if magic_at buf = None then Some (Inl Overrun)
     else if mh_magic_number h \<noteq> SNAPSHOT_MAGIC_NUMBER \<and> mh_magic_number h \<noteq> MAGIC_NUMBER then Some (Inr w)
     else if length buf < md_header_size then Some (Inl Overrun)
     else if mh_magic_number h = SNAPSHOT_MAGIC_NUMBER then
       (if n > length buf then Some (Inl Overrun) else bbo_packet freed sec (drop n buf) w)
     else if mh_seq_num h \<noteq> bb_last_seq w + 1 then
       (if n > length buf then Some (Inl Overrun)
        else bbo_packet freed sec (drop n buf) (w\<lparr>bb_last_seq := 0\<rparr>))
     else
       (let w = (if mh_seq_num h = 1 then bbo_print [FoundStart sec] w else w);
            (go_on, w) = parse_and_print freed buf (w\<lparr>bb_last_seq := mh_seq_num h\<rparr>)
        in if \<not> go_on then bbo_packet freed sec buf (bbo_print [CaplenLine (length buf)] w)
           else if n > length buf then Some (Inl Overrun)
           else bbo_packet freed sec (drop n buf) (bbo_print [CaplenLine (length buf - n)] w)))"

fun bbo_frames ::
  "(ob_order \<Rightarrow> ob_order) \<Rightarrow> frame list \<Rightarrow> bbo_printer \<Rightarrow> (client_error + bbo_printer) option" where
  "bbo_frames freed [] w = Some (Inr w)"
| "bbo_frames freed (f # fs) w = (case payload_of f of
      Inl err \<Rightarrow> Some (Inl err)
    | Inr buf \<Rightarrow> (case bbo_packet freed (fr_sec f) buf w of
          None \<Rightarrow> None
        | Some (Inl err) \<Rightarrow> Some (Inl err)
        | Some (Inr w) \<Rightarrow> bbo_frames freed fs w))"

text \<open>The program: a file that cannot be opened ends it.\<close>

definition bbo_main :: "(ob_order \<Rightarrow> ob_order) \<Rightarrow> frame list option \<Rightarrow> (client_error + bbo_printer option) option" where
  "bbo_main freed file = (case file of
      None \<Rightarrow> Some (Inr None)
    | Some fs \<Rightarrow> map_option (map_sum id Some) (bbo_frames freed fs new_bbo_printer))"

section \<open>The printer of a capture that starts with a snapshot\<close>

text \<open>
  It keeps the live messages until the snapshots of symbols 1 and 2 are complete.  Of what it
  prints, the model keeps the prices after each live message, for all books in one entry, because
  the order in which an \<open>unordered_map\<close> is run through is not defined.
\<close>

type_synonym prices = "int \<times> u32 \<times> (u32 \<rightharpoonup> ob_price_level \<times> ob_price_level)"

record pcap_printer = viewer +
  pp_last_seq :: u32
  pp_complete :: "u32 \<rightharpoonup> bool"
  pp_counts :: "u32 \<rightharpoonup> u32 \<times> u32"
  pp_live :: "u8 list"
  pp_prices :: "prices list"

definition new_pcap_printer :: pcap_printer where
  "new_pcap_printer = \<lparr>vw_books = Map.empty, vw_symbol_of = Map.empty, pp_last_seq = 0,
     pp_complete = [1 \<mapsto> False, 2 \<mapsto> False], pp_counts = Map.empty, pp_live = [], pp_prices = []\<rparr>"

definition done_snapshot :: "pcap_printer \<Rightarrow> bool" where
  "done_snapshot w \<longleftrightarrow> pp_complete w 1 = Some True \<and> pp_complete w 2 = Some True"

definition first_live :: "pcap_printer \<Rightarrow> u32 option" where
  "first_live w = (if pp_live w = [] then Some (- 1)
     else if length (pp_live w) < 14 then None
     else Some (mh_seq_num (md_header_at (pp_live w))))"

definition print_prices :: "int \<Rightarrow> u32 \<Rightarrow> pcap_printer \<Rightarrow> pcap_printer" where
  "print_prices sec n w = w\<lparr>pp_prices := pp_prices w @
     [(sec, n, \<lambda>y. map_option (\<lambda>b. (get_best_bid b, get_best_ask b)) (vw_books w y))]\<rparr>"

text \<open>
  The live messages that were kept: the ones the snapshot covers are skipped, the others applied.
  A kept message that is too short is met again and again.
\<close>

partial_function (option) replay_live ::
  "(ob_order \<Rightarrow> ob_order) \<Rightarrow> u8 list \<Rightarrow> pcap_printer \<Rightarrow> (client_error + pcap_printer) option" where
  "replay_live freed buf w =
    (let h = md_header_at buf; n = unat (mh_length h) in
     if buf = [] then Some (Inr w)
     else if length buf < md_header_size then Some (Inl Overrun)
     else if mh_seq_num h > pp_last_seq w then
       (case parse_live freed buf w of (go_on, w) \<Rightarrow>
          if go_on then replay_live freed (drop n buf) w else replay_live freed buf w)
     else replay_live freed (drop n buf) w)"

text \<open>
  A snapshot's order is counted, and nothing else: no order book gets it.  A symbol whose counts
  were zero from the start is never complete.
\<close>

definition count_order :: "u32 \<times> u32 \<Rightarrow> side \<Rightarrow> u32 \<times> u32" where
  "count_order c sd = (fst c - (if sd = BUY then 1 else 0), snd c - (if sd = SELL then 1 else 0))"

definition snapshot_order_seen ::
  "(ob_order \<Rightarrow> ob_order) \<Rightarrow> u32 \<Rightarrow> side \<Rightarrow> pcap_printer \<Rightarrow> (client_error + pcap_printer) option" where
  "snapshot_order_seen freed y sd w = (case pp_counts w y of
      None \<Rightarrow> Some (Inr w)
    | Some c \<Rightarrow>
        (let c = count_order c sd; w = w\<lparr>pp_counts := (pp_counts w)(y \<mapsto> c)\<rparr>
         in if c \<noteq> (0, 0) then Some (Inr w)
            else
              (let w = w\<lparr>pp_complete := (pp_complete w)(y \<mapsto> True)\<rparr>
               in if \<not> done_snapshot w then Some (Inr w)
                  else map_option (map_sum id (\<lambda>w. w\<lparr>pp_live := []\<rparr>)) (replay_live freed (pp_live w) w))))"

definition snapshot_info_seen :: "u8 list \<Rightarrow> pcap_printer \<Rightarrow> client_error + pcap_printer option" where
  "snapshot_info_seen buf w =
    (if length buf < md_sizeof MD_SNAPSHOT_INFO then Inl Overrun
     else let m = md_msg_at MD_SNAPSHOT_INFO buf in
       if si_symbol m \<noteq> 1 \<and> si_symbol m \<noteq> 2 then Inr None
       else (case first_live w of
           None \<Rightarrow> Inl Overrun
         | Some n \<Rightarrow>
             if si_last_md_seq_num m \<le> n then Inr None
             else Inr (Some (w\<lparr>pp_last_seq := si_last_md_seq_num m,
                pp_counts := (pp_counts w)(si_symbol m \<mapsto> (si_bid_count m, si_ask_count m))\<rparr>))))"

partial_function (option) pcap_packet ::
  "(ob_order \<Rightarrow> ob_order) \<Rightarrow> int \<Rightarrow> u8 list \<Rightarrow> pcap_printer \<Rightarrow> (client_error + pcap_printer) option" where
  "pcap_packet freed sec buf w =
    (let h = md_header_at buf; n = unat (mh_length h); live = (mh_magic_number h = MAGIC_NUMBER) in
     if buf = [] then Some (Inr w)
     else if magic_at buf = None then Some (Inl Overrun)
     else if mh_magic_number h \<noteq> MAGIC_NUMBER \<and> mh_magic_number h \<noteq> SNAPSHOT_MAGIC_NUMBER then Some (Inr w)
     else if length buf < md_header_size then Some (Inl Overrun)
     else if done_snapshot w then
       (if \<not> live then Some (Inr w)
        else (case parse_live freed buf (w\<lparr>pp_last_seq := mh_seq_num h\<rparr>) of (go_on, w) \<Rightarrow>
          (let w = print_prices sec (mh_seq_num h) w
           in if \<not> go_on then pcap_packet freed sec buf w
              else if n > length buf then Some (Inl Overrun)
              else pcap_packet freed sec (drop n buf) w)))
     else if live then
       (if n > length buf then Some (Inl Overrun)
        else pcap_packet freed sec (drop n buf) (w\<lparr>pp_live := pp_live w @ take n buf\<rparr>))
     else if mh_msg_type h = md_type_code MD_SNAPSHOT_INFO then
       (case snapshot_info_seen buf w of
          Inl err \<Rightarrow> Some (Inl err)
        | Inr None \<Rightarrow> Some (Inr w)
        | Inr (Some w) \<Rightarrow>
            if n > length buf then Some (Inl Overrun) else pcap_packet freed sec (drop n buf) w)
     else if mh_msg_type h = md_type_code MD_NEW_ORDER then
       (if length buf < md_sizeof MD_NEW_ORDER then pcap_packet freed sec buf w
        else let m = md_msg_at MD_NEW_ORDER buf in
          case snapshot_order_seen freed (no_symbol m) (no_side m) w of
            None \<Rightarrow> None
          | Some (Inl err) \<Rightarrow> Some (Inl err)
          | Some (Inr w) \<Rightarrow>
              if n > length buf then Some (Inl Overrun) else pcap_packet freed sec (drop n buf) w)
     else if n > length buf then Some (Inl Overrun)
     else pcap_packet freed sec (drop n buf) w)"

definition pcap_seconds :: "frame \<Rightarrow> int" where
  "pcap_seconds f = fr_sec f + fr_usec f div 1000000"

fun pcap_frames ::
  "(ob_order \<Rightarrow> ob_order) \<Rightarrow> frame list \<Rightarrow> pcap_printer \<Rightarrow> (client_error + pcap_printer) option" where
  "pcap_frames freed [] w = Some (Inr w)"
| "pcap_frames freed (f # fs) w = (case payload_of f of
      Inl err \<Rightarrow> Some (Inl err)
    | Inr buf \<Rightarrow> (case pcap_packet freed (pcap_seconds f) buf w of
          None \<Rightarrow> None
        | Some (Inl err) \<Rightarrow> Some (Inl err)
        | Some (Inr w) \<Rightarrow> pcap_frames freed fs w))"

definition pcap_main :: "(ob_order \<Rightarrow> ob_order) \<Rightarrow> frame list option \<Rightarrow> (client_error + pcap_printer option) option" where
  "pcap_main freed file = (case file of
      None \<Rightarrow> Some (Inr None)
    | Some fs \<Rightarrow> map_option (map_sum id Some) (pcap_frames freed fs new_pcap_printer))"

section \<open>The printer of snapshots\<close>

text \<open>
  One datagram of the snapshot feed.  The header is checked, the rest of a message is not: fields
  beyond the datagram are what the buffer of 4096 bytes held before.  The count of the remaining
  bytes is signed, so a length beyond the datagram ends the loop.
\<close>

datatype snapshot_line =
    TypeLine u8
  | InfoLine u32 u32 u32 u32
  | OrderLine u64 u32 side u32 i32

datatype print_error = TooShortToPrint | WrongMagic

fun snapshot_line_of :: "md_msg \<Rightarrow> snapshot_line list" where
  "snapshot_line_of (SnapshotInfo y b a n) = [InfoLine y n b a]"
| "snapshot_line_of (NewOrder i y sd q p fl) = [OrderLine i y sd q p]"
| "snapshot_line_of m = []"

definition printed_message :: "u8 \<Rightarrow> u8 list \<Rightarrow> snapshot_line list" where
  "printed_message t buf = TypeLine t #
    (if t = md_type_code MD_SNAPSHOT_INFO then snapshot_line_of (md_msg_at MD_SNAPSHOT_INFO buf)
     else if t = md_type_code MD_NEW_ORDER then snapshot_line_of (md_msg_at MD_NEW_ORDER buf)
     else [])"

text \<open>\<open>left\<close> is what the buffer holds behind the datagram.\<close>

partial_function (option) print_packet ::
  "u8 list \<Rightarrow> u8 list \<Rightarrow> snapshot_line list \<Rightarrow> (print_error \<times> snapshot_line list + snapshot_line list) option" where
  "print_packet left buf out =
    (let h = md_header_at buf; n = unat (mh_length h) in
     if buf = [] then Some (Inr out)
     else if length buf < md_header_size then Some (Inl (TooShortToPrint, out))
     else if mh_magic_number h \<noteq> SNAPSHOT_MAGIC_NUMBER then Some (Inl (WrongMagic, out))
     else
       (let out = out @ printed_message (mh_msg_type h) (buf @ left)
        in if n > length buf then Some (Inr out) else print_packet left (drop n buf) out))"

text \<open>
  The loop over the socket's answers, each with what the uninitialised buffer holds behind it; any
  error ends the program.
\<close>

datatype print_end = Listening | Stopped

fun print_feed :: "(recv_answer \<times> u8 list) list \<Rightarrow> snapshot_line list \<Rightarrow> (print_end \<times> snapshot_line list) option" where
  "print_feed [] out = Some (Listening, out)"
| "print_feed ((NothingYet, left) # rs) out = print_feed rs out"
| "print_feed ((RecvError, left) # rs) out = Some (Stopped, out)"
| "print_feed ((Received bs, left) # rs) out = (case print_packet left (take MD_BUF bs) out of
      None \<Rightarrow> None
    | Some (Inl (err, out)) \<Rightarrow> Some (Stopped, out)
    | Some (Inr out) \<Rightarrow> print_feed rs out)"

end
