(* ===== verification/Viewer_Props.thy ===== *)
theory Viewer_Props imports
  Viewer Client_Follows Snapshot_Props
begin

text \<open>
  Properties of the programs that print captures and snapshots: the books they rebuild are those of
  the feed, and what they print is what the snapshot process has sent.
\<close>

section \<open>A viewer as a reader of the feed\<close>

text \<open>A viewer keeps the books of a bots' client, and the symbols of the orders that are still open.\<close>

definition as_client :: "('a viewer_scheme) \<Rightarrow> md_client" where
  "as_client w = (new_md_client True)\<lparr>mc_books := vw_books w, mc_symbol_of := vw_symbol_of w\<rparr>"

definition viewer_shows :: "(u32 \<Rightarrow> order_book \<Rightarrow> view \<Rightarrow> bool) \<Rightarrow> ('a viewer_scheme) \<Rightarrow> view \<Rightarrow> bool" where
  "viewer_shows S w v \<longleftrightarrow> client_shows S (as_client w) v"

abbreviation tracks_viewer :: "('a viewer_scheme) \<Rightarrow> view \<Rightarrow> bool" where
  "tracks_viewer \<equiv> viewer_shows shows_orders"

abbreviation shows_viewer :: "('a viewer_scheme) \<Rightarrow> view \<Rightarrow> bool" where
  "shows_viewer \<equiv> viewer_shows shows_book"

lemma as_client_simps [simp]: "mc_books (as_client w) = vw_books w" "mc_symbol_of (as_client w) = vw_symbol_of w"
  by (simp_all add: as_client_def)

lemma book_at_viewed [simp]: "book_at y (as_client w) = viewed_book y w"
  by (simp add: book_at_def viewed_book_def)

lemma client_shows_cong:
  assumes "client_shows S c v" "mc_books c' = mc_books c" "\<And>i r. v i = Some r \<Longrightarrow> mc_symbol_of c' i = mc_symbol_of c i"
  shows "client_shows S c' v"
  using assms by (simp add: client_shows_def book_at_def)

lemma viewer_shows_same:
  "vw_books w' = vw_books w \<Longrightarrow> vw_symbol_of w' = vw_symbol_of w \<Longrightarrow> viewer_shows S w v \<Longrightarrow> viewer_shows S w' v"
  unfolding viewer_shows_def by (erule client_shows_cong) simp_all

lemma viewer_shows_book: "viewer_shows S w v \<Longrightarrow> S y (viewed_book y w) v"
  unfolding viewer_shows_def using client_shows_book [of S "as_client w" v y] by simp

context book_relation
begin

lemma apply_live_shows:
  assumes w: "viewer_shows shows_at w v" and v: "view_ok v" "fits m v" "view_ok (view_step m v)" "readable m v"
  shows "viewer_shows shows_at (apply_live freed m w) (view_step m v)"
proof -
  let ?e = "\<lparr>me_live = (\<lambda>_. NothingYet), me_snapshot = (\<lambda>_. NothingYet), me_leaves_group = True, me_freed = freed\<rparr>"
  have c: "client_shows shows_at (as_client w) v" using w by (simp add: viewer_shows_def)
  obtain c' where c': "apply_md ?e m (as_client w) = (True, c')" "client_shows shows_at c' (view_step m v)"
    using apply_md_shows [OF c v, of ?e] by auto
  have known: "vw_symbol_of w i = Some (vo_symbol r) \<and> vw_books w (vo_symbol r) = Some (viewed_book (vo_symbol r) w)"
    if "v i = Some r" for i r
    using client_shows_known [OF c that] by simp
  show ?thesis
    unfolding viewer_shows_def
  proof (rule client_shows_cong [OF c'(2)])
    show "mc_books (as_client (apply_live freed m w)) = mc_books c'"
      using c'(1) v(2) by (cases m)
        (auto simp: add_order_def on_book_of_def on_viewed_book_def forget_symbol_def subscript_def dest!: known)
    show "mc_symbol_of (as_client (apply_live freed m w)) i = mc_symbol_of c' i" if "view_step m v i = Some r" for i r
      using c'(1) v(2) that by (cases m)
        (auto simp: add_order_def on_book_of_def on_viewed_book_def forget_symbol_def subscript_def
          split: if_splits dest!: known)
  qed
qed

lemma empty_viewer_shows: "vw_books w = Map.empty \<Longrightarrow> viewer_shows shows_at w Map.empty"
  using empty_shown by (simp add: viewer_shows_def client_shows_def viewed_book_def only_def)

end

sublocale book_relation \<subseteq> viewer_reader: feed_reader "apply_live freed" "viewer_shows shows_at" readable for freed
  by unfold_locales (rule apply_live_shows)

lemma viewer_prices:
  assumes "shows_viewer w v"
  shows "is_best v y BuyLevels (get_best_bid (viewed_book y w))" "is_best v y SellLevels (get_best_ask (viewed_book y w))"
  using best_prices [OF viewer_shows_book [OF assms, of y]] by simp_all

section \<open>Captures\<close>

text \<open>
  What a capture of the two multicast feeds holds: packets of live messages and datagrams of
  snapshots, each behind 42 bytes of headers.
\<close>

datatype captured = Live "stamped list" | Snapshot "stamped list"

fun live_of :: "captured list \<Rightarrow> stamped list" where
  "live_of [] = []"
| "live_of (Live g # cs) = g @ live_of cs"
| "live_of (Snapshot g # cs) = live_of cs"

fun captures :: "u32 \<Rightarrow> captured list \<Rightarrow> frame list \<Rightarrow> bool" where
  "captures n [] fs \<longleftrightarrow> fs = []"
| "captures n (Live g # cs) fs \<longleftrightarrow> (\<exists>f fs'. fs = f # fs' \<and> payload_of f = Inr (encode_run n g) \<and>
     captures (n + of_nat (length g)) cs fs')"
| "captures n (Snapshot g # cs) fs \<longleftrightarrow> (\<exists>f fs'. fs = f # fs' \<and> payload_of f = Inr (snapshot_run g) \<and>
     captures n cs fs')"

lemma magic_encoded [simp]: "magic_at (encode_md g n t m @ rest) = Some g"
  using md_sizeof_bounds(1) [of "md_type_of m"] by (auto simp: magic_at_def md_header_at_encode_md)

lemma encoded_long [simp]: "\<not> md_sizeof t + k < md_header_size"
  using md_sizeof_bounds(1) [of t] by (simp add: md_header_size_def not_less trans_le_add1)

lemma type_of_encoded [simp]: "md_type_of_code (md_type_code (md_type_of m)) = Some (md_type_of m)"
  by (cases "md_type_of m") (simp_all add: md_type_of_code_def)

lemma not_too_short [simp]: "\<not> too_short (md_type_of m) (encode_md g n t m @ rest)"
  by (simp add: too_short_def)

lemma magics_differ [simp]: "MAGIC_NUMBER \<noteq> SNAPSHOT_MAGIC_NUMBER" "SNAPSHOT_MAGIC_NUMBER \<noteq> MAGIC_NUMBER"
  by (simp_all add: MAGIC_NUMBER_def SNAPSHOT_MAGIC_NUMBER_def magic_of_def)

lemma parse_live_encoded:
  assumes "md_msg_canonical m"
  shows "parse_live freed (encode_md MAGIC_NUMBER n t m @ rest) w = (True, apply_live freed m w)"
  using md_msg_at_encode_md [OF assms, of MAGIC_NUMBER n t rest] by (simp add: parse_live_def md_header_at_encode_md)

lemma parse_and_print_encoded:
  assumes "md_msg_canonical m"
  shows "parse_and_print freed (encode_md MAGIC_NUMBER n t m @ rest) w = (True, bbo_print (lines_of m) (apply_live freed m w))"
  using md_msg_at_encode_md [OF assms, of MAGIC_NUMBER n t rest]
  by (simp add: parse_and_print_def md_header_at_encode_md Let_def)

section \<open>The printer of best bids and offers\<close>

lemma bbo_packet_Nil [simp]: "bbo_packet freed sec [] w = Some (Inr w)"
  by (subst bbo_packet.simps) (simp add: Let_def)

text \<open>Books and sequence number are all that matters of the printer's state.\<close>

definition same_bbo :: "bbo_printer \<Rightarrow> bbo_printer \<Rightarrow> bool" where
  "same_bbo w w' \<longleftrightarrow> vw_books w' = vw_books w \<and> vw_symbol_of w' = vw_symbol_of w \<and> bb_last_seq w' = bb_last_seq w"

lemma apply_live_bbo [simp]:
  "bb_last_seq (apply_live freed m w) = bb_last_seq w" "bb_lines (apply_live freed m w) = bb_lines w"
  by (cases m; simp add: on_viewed_book_def forget_symbol_def split: option.split)+

lemma bbo_print_simps [simp]:
  "vw_books (bbo_print ls w) = vw_books w" "vw_symbol_of (bbo_print ls w) = vw_symbol_of w"
  "bb_last_seq (bbo_print ls w) = bb_last_seq w"
  by (simp_all add: bbo_print_def)

lemma bbo_packet_snapshot: "bbo_packet freed sec (snapshot_run g) w = Some (Inr w)"
proof (induction g)
  case (Cons tm g)
  obtain t m where tm: "tm = (t, m)" by (cases tm)
  from Cons show ?case
    by (subst bbo_packet.simps) (simp add: tm Let_def md_header_at_encode_md)
qed simp

definition bbo_after :: "(ob_order \<Rightarrow> ob_order) \<Rightarrow> int \<Rightarrow> nat \<Rightarrow> md_msg \<Rightarrow> bbo_printer \<Rightarrow> bbo_printer" where
  "bbo_after freed sec k m w =
    (let w = (if bb_last_seq w + 1 = 1 then bbo_print [FoundStart sec] w else w)\<lparr>bb_last_seq := bb_last_seq w + 1\<rparr>
     in bbo_print [CaplenLine k] (bbo_print (lines_of m) (apply_live freed m w)))"

lemma bbo_packet_step:
  assumes "buf \<noteq> []" "magic_at buf = Some g" "\<not> length buf < md_header_size"
    "mh_magic_number (md_header_at buf) = MAGIC_NUMBER" "mh_seq_num (md_header_at buf) = k" "bb_last_seq w + 1 = k"
    "unat (mh_length (md_header_at buf)) = n" "n \<le> length buf"
    "parse_and_print freed buf ((if k = 1 then bbo_print [FoundStart sec] w else w)\<lparr>bb_last_seq := k\<rparr>) = (True, w')"
  shows "bbo_packet freed sec buf w = bbo_packet freed sec (drop n buf) (bbo_print [CaplenLine (length buf - n)] w')"
  unfolding bbo_packet.simps [of freed sec buf w] Let_def assms(4-7) assms(9)
  using assms(1-3,8) by simp

lemma bbo_packet_Cons:
  assumes "md_msg_canonical m"
  shows "bbo_packet freed sec (encode_md MAGIC_NUMBER (bb_last_seq w + 1) t m @ rest) w =
    bbo_packet freed sec rest (bbo_after freed sec (length rest) m w)"
proof -
  let ?buf = "encode_md MAGIC_NUMBER (bb_last_seq w + 1) t m @ rest"
  let ?w = "(if bb_last_seq w + 1 = 1 then bbo_print [FoundStart sec] w else w)\<lparr>bb_last_seq := bb_last_seq w + 1\<rparr>"
  have "parse_and_print freed ?buf ?w = (True, bbo_print (lines_of m) (apply_live freed m ?w))"
    by (rule parse_and_print_encoded [OF assms])
  note parsed = this
  have "bbo_packet freed sec ?buf w = bbo_packet freed sec (drop (md_sizeof (md_type_of m)) ?buf)
      (bbo_print [CaplenLine (length ?buf - md_sizeof (md_type_of m))] (bbo_print (lines_of m) (apply_live freed m ?w)))"
    by (rule bbo_packet_step [OF _ _ _ _ _ refl _ _ parsed]) (simp_all add: md_header_at_encode_md)
  moreover have "drop (md_sizeof (md_type_of m)) ?buf = rest" by simp
  ultimately show ?thesis unfolding bbo_after_def Let_def by simp
qed

context book_relation
begin

lemma bbo_after_shows:
  assumes "viewer_shows shows_at w v" "view_ok v" "fits m v" "view_ok (view_step m v)" "readable m v"
  shows "viewer_shows shows_at (bbo_after freed sec k m w) (view_step m v)"
proof -
  let ?w = "(if bb_last_seq w + 1 = 1 then bbo_print [FoundStart sec] w else w)\<lparr>bb_last_seq := bb_last_seq w + 1\<rparr>"
  have "viewer_shows shows_at ?w v" by (rule viewer_shows_same [OF _ _ assms(1)]) simp_all
  note applied = apply_live_shows [OF this assms(2-5)]
  show ?thesis by (rule viewer_shows_same [OF _ _ applied]) (simp_all add: bbo_after_def)
qed

lemma bbo_packet_live:
  assumes "viewer_shows shows_at w v" "feed_ok (map snd g) v" "\<forall>m \<in> snd ` set g. md_msg_canonical m"
    "all_along readable (map snd g) v"
  shows "\<exists>w'. bbo_packet freed sec (encode_run (bb_last_seq w + 1) g) w = Some (Inr w') \<and>
    viewer_shows shows_at w' (fold view_step (map snd g) v) \<and> bb_last_seq w' = bb_last_seq w + of_nat (length g)"
  using assms
proof (induction g arbitrary: w v)
  case (Cons tm g)
  obtain t m where tm: "tm = (t, m)" by (cases tm)
  have ok: "view_ok v" "fits m v" "feed_ok (map snd g) (view_step m v)" "md_msg_canonical m"
    "readable m v" "all_along readable (map snd g) (view_step m v)"
    using Cons.prems(2-4) by (simp_all add: tm)
  let ?w = "bbo_after freed sec (length (encode_run (bb_last_seq w + 1 + 1) g)) m w"
  have seq: "bb_last_seq ?w = bb_last_seq w + 1" by (simp add: bbo_after_def Let_def)
  have "viewer_shows shows_at ?w (view_step m v)"
    by (rule bbo_after_shows [OF Cons.prems(1) ok(1,2) feed_ok_view [OF ok(3)] ok(5)])
  from Cons.IH [OF this ok(3) _ ok(6)] Cons.prems(3)
  obtain w' where w': "bbo_packet freed sec (encode_run (bb_last_seq ?w + 1) g) ?w = Some (Inr w')"
    "viewer_shows shows_at w' (fold view_step (map snd g) (view_step m v))"
    "bb_last_seq w' = bb_last_seq ?w + of_nat (length g)" by auto
  have "bbo_packet freed sec (encode_run (bb_last_seq w + 1) (tm # g)) w = Some (Inr w')"
    using bbo_packet_Cons [OF ok(4)] w'(1) seq by (simp add: tm)
  then show ?case using w'(2,3) seq by (simp add: tm ac_simps)
qed simp

lemma bbo_frames_shows:
  assumes "captures (bb_last_seq w + 1) cs fs" "viewer_shows shows_at w v" "feed_ok (map snd (live_of cs)) v"
    "\<forall>m \<in> snd ` set (live_of cs). md_msg_canonical m" "all_along readable (map snd (live_of cs)) v"
  shows "\<exists>w'. bbo_frames freed fs w = Some (Inr w') \<and>
    viewer_shows shows_at w' (fold view_step (map snd (live_of cs)) v)"
  using assms
proof (induction cs arbitrary: fs w v)
  case (Cons c cs)
  show ?case
  proof (cases c)
    case (Snapshot g)
    then obtain f fs' where f: "fs = f # fs'" "payload_of f = Inr (snapshot_run g)" "captures (bb_last_seq w + 1) cs fs'"
      using Cons.prems(1) by auto
    then show ?thesis using Cons.IH [OF f(3) Cons.prems(2)] Cons.prems(3-5) Snapshot by (simp add: bbo_packet_snapshot)
  next
    case (Live g)
    then obtain f fs' where f: "fs = f # fs'" "payload_of f = Inr (encode_run (bb_last_seq w + 1) g)"
      "captures (bb_last_seq w + 1 + of_nat (length g)) cs fs'" using Cons.prems(1) by auto
    have feed: "feed_ok (map snd g) v" "feed_ok (map snd (live_of cs)) (fold view_step (map snd g) v)"
      "all_along readable (map snd g) v" "all_along readable (map snd (live_of cs)) (fold view_step (map snd g) v)"
      using Cons.prems(3,5) by (simp_all add: Live feed_ok_append all_along_append)
    obtain w1 where w1: "bbo_packet freed (fr_sec f) (encode_run (bb_last_seq w + 1) g) w = Some (Inr w1)"
      "viewer_shows shows_at w1 (fold view_step (map snd g) v)" "bb_last_seq w1 = bb_last_seq w + of_nat (length g)"
      using bbo_packet_live [OF Cons.prems(2) feed(1) _ feed(3), of freed "fr_sec f"] Cons.prems(4) Live by auto
    have "captures (bb_last_seq w1 + 1) cs fs'" using f(3) by (simp add: w1(3) ac_simps)
    from Cons.IH [OF this w1(2) feed(2) _ feed(4)] Cons.prems(4) show ?thesis using f(1,2) w1(1) Live by simp
  qed
qed auto

end

text \<open>
  The exchange numbers its first message 0.  The printer has last seen number 0 when it starts, so
  it skips that message and waits for number 1.
\<close>

lemma bbo_packet_first:
  assumes "bb_last_seq w = 0"
  shows "bbo_packet freed sec (encode_md MAGIC_NUMBER 0 t m @ rest) w = bbo_packet freed sec rest w"
proof -
  let ?buf = "encode_md MAGIC_NUMBER 0 t m @ rest"
  have w: "w\<lparr>bb_last_seq := 0\<rparr> = w" using assms by simp
  have "?buf \<noteq> []" "\<not> length ?buf < md_header_size"
    using md_sizeof_bounds(1) [of "md_type_of m"] by auto
  then show ?thesis
    by (subst bbo_packet.simps) (simp add: Let_def md_header_at_encode_md assms w)
qed

context book_relation
begin

lemma bbo_frames_from_first:
  assumes "captures 0 cs fs" "live_of cs = x # ms" "bb_last_seq w = 0" "viewer_shows shows_at w v"
    "feed_ok (map snd ms) v" "\<forall>m \<in> snd ` set ms. md_msg_canonical m" "all_along readable (map snd ms) v"
  shows "\<exists>w'. bbo_frames freed fs w = Some (Inr w') \<and> viewer_shows shows_at w' (fold view_step (map snd ms) v)"
  using assms(1,2)
proof (induction cs arbitrary: fs)
  case (Cons c cs)
  show ?case
  proof (cases c)
    case (Snapshot g)
    then obtain f fs' where f: "fs = f # fs'" "payload_of f = Inr (snapshot_run g)" "captures 0 cs fs'"
      using Cons.prems(1) by auto
    then show ?thesis using Cons.IH [OF f(3)] Cons.prems(2) Snapshot by (simp add: bbo_packet_snapshot)
  next
    case (Live g)
    then obtain f fs' where f: "fs = f # fs'" "payload_of f = Inr (encode_run 0 g)"
      "captures (of_nat (length g)) cs fs'" using Cons.prems(1) by auto
    show ?thesis
    proof (cases g)
      case Nil
      then show ?thesis using Cons.IH [of fs'] Cons.prems(2) f Live by simp
    next
      case (Cons y h)
      obtain t m where y: "y = (t, m)" by (cases y)
      have ms: "ms = h @ live_of cs" using Cons.prems(2) Live Cons by simp
      have feed: "feed_ok (map snd h) v" "feed_ok (map snd (live_of cs)) (fold view_step (map snd h) v)"
        "all_along readable (map snd h) v" "all_along readable (map snd (live_of cs)) (fold view_step (map snd h) v)"
        using assms(5,7) by (simp_all add: ms feed_ok_append all_along_append)
      have canonical: "\<forall>m \<in> snd ` set h. md_msg_canonical m" "\<forall>m \<in> snd ` set (live_of cs). md_msg_canonical m"
        using assms(6) by (simp_all add: ms)
      obtain w1 where w1: "bbo_packet freed (fr_sec f) (encode_run (bb_last_seq w + 1) h) w = Some (Inr w1)"
        "viewer_shows shows_at w1 (fold view_step (map snd h) v)" "bb_last_seq w1 = bb_last_seq w + of_nat (length h)"
        using bbo_packet_live [OF assms(4) feed(1) canonical(1) feed(3)] by blast
      have run: "bbo_packet freed (fr_sec f) (encode_run 0 g) w = Some (Inr w1)"
        using w1(1) bbo_packet_first [OF assms(3), of freed "fr_sec f" t m "encode_run 1 h"] assms(3) Cons y by simp
      have "captures (bb_last_seq w1 + 1) cs fs'" using f(3) assms(3) Cons by (simp add: w1(3) ac_simps)
      from bbo_frames_shows [OF this w1(2) feed(2) canonical(2) feed(4)] run f(1,2) ms show ?thesis by simp
    qed
  qed
qed auto

end

text \<open>C33: the printer of best bids and offers rebuilds the market from a capture.  When the capture
  holds the feed from the exchange's first message on, which has number 0, with datagrams of the
  snapshot feed anywhere in between, the program reads it to the end.  It skips message 0; its order
  books then have, for each symbol, exactly the orders that the messages after it have left open,
  with their sides, prices and quantities.  Their best bid and best ask are those of these orders, if
  no trade uses up a whole order; what they are after such a trade is undefined, since the program
  reads memory it has freed.\<close>

theorem bbo_printer_shows_feed:
  assumes "captures 0 cs fs" "live_of cs = first_message # ms" "feed_ok (map snd ms) Map.empty"
    "\<forall>m \<in> snd ` set ms. md_msg_canonical m" "v = fold view_step (map snd ms) Map.empty"
  shows "\<exists>w. bbo_main freed (Some fs) = Some (Inr (Some w)) \<and> (\<forall>y. shows_orders y (viewed_book y w) v) \<and>
    (none_used_up (map snd ms) Map.empty \<longrightarrow> (\<forall>y. is_best v y BuyLevels (get_best_bid (viewed_book y w)) \<and>
      is_best v y SellLevels (get_best_ask (viewed_book y w))))"
proof -
  have new: "bb_last_seq new_bbo_printer = 0" "vw_books new_bbo_printer = Map.empty"
    by (simp_all add: new_bbo_printer_def)
  have "all_along (\<lambda>m v. True) (map snd ms) Map.empty" by simp
  then obtain w where w: "bbo_frames freed fs new_bbo_printer = Some (Inr w)" "tracks_viewer w v"
    using book_orders.bbo_frames_from_first [OF assms(1,2) new(1) book_orders.empty_viewer_shows [OF new(2)] assms(3,4)]
    unfolding assms(5) by blast
  have "shows_viewer w v" if "none_used_up (map snd ms) Map.empty"
    using whole_book.bbo_frames_from_first [OF assms(1,2) new(1) whole_book.empty_viewer_shows [OF new(2)] assms(3,4) that,
      of freed] w(1) unfolding assms(5) by auto
  then show ?thesis using w viewer_prices [of w v] viewer_shows_book [OF w(2)] by (simp add: bbo_main_def)
qed

text \<open>A capture with a heartbeat as its first message, as of an exchange that is idle at first.\<close>

definition early_messages :: "captured list" where
  "early_messages = [Live [(3, Heartbeat)], Snapshot [(4, SnapshotInfo 1 0 0 9)],
     Live [(5, NewOrder 7 1 BUY 10 (I32 100) 0), (6, Trade 7 4 (I32 100))]]"

definition frame_of :: "u8 list \<Rightarrow> frame" where
  "frame_of bs = \<lparr>fr_sec = 1, fr_usec = 0, fr_bytes = replicate HEADERS 0 @ bs\<rparr>"

lemma payload_of_frame [simp]: "payload_of (frame_of bs) = Inr bs"
  by (simp add: payload_of_def frame_of_def)

theorem bbo_printer_shows_feed_witness:
  "\<exists>w. bbo_main (\<lambda>x. x\<lparr>ob_price := I32 0\<rparr>) (Some [frame_of (encode_run 0 [(3, Heartbeat)]),
      frame_of (snapshot_run [(4, SnapshotInfo 1 0 0 9)]),
      frame_of (encode_run 1 [(5, NewOrder 7 1 BUY 10 (I32 100) 0), (6, Trade 7 4 (I32 100))])]) = Some (Inr (Some w)) \<and>
    is_best [7 \<mapsto> \<lparr>vo_symbol = 1, vo_side = BuyLevels, vo_price = I32 100, vo_quantity = 6\<rparr>] 1 BuyLevels
      (get_best_bid (viewed_book 1 w))"
proof -
  let ?r = "\<lambda>q. \<lparr>vo_symbol = 1, vo_side = BuyLevels, vo_price = I32 100, vo_quantity = q\<rparr> :: view_order"
  let ?ms = "[(5 :: u64, NewOrder 7 1 BUY 10 (I32 100) 0), (6, Trade 7 4 (I32 100))]"
  have ok: "view_ok Map.empty" by (simp add: view_ok_def)
  have ok1: "view_ok (Map.empty(7 \<mapsto> ?r 10))" "view_ok (Map.empty(7 \<mapsto> ?r 6))"
    by (rule view_ok_upd [OF ok]; simp)+
  have feed: "feed_ok (map snd ?ms) Map.empty"
    using ok ok1 by (simp add: levels_of_side_def)
  have v: "[7 \<mapsto> ?r 6] = fold view_step (map snd ?ms) Map.empty" by (simp add: levels_of_side_def)
  have caps: "captures 0 early_messages [frame_of (encode_run 0 [(3, Heartbeat)]),
      frame_of (snapshot_run [(4, SnapshotInfo 1 0 0 9)]), frame_of (encode_run 1 ?ms)]"
    by (simp add: early_messages_def)
  have live: "live_of early_messages = (3, Heartbeat) # ?ms" by (simp add: early_messages_def)
  have "\<forall>m \<in> snd ` set ?ms. md_msg_canonical m" "none_used_up (map snd ?ms) Map.empty" by simp_all
  then show ?thesis using bbo_printer_shows_feed [OF caps live feed _ v] by metis
qed

section \<open>The printer of a capture that starts with a snapshot\<close>

lemma pcap_packet_Nil [simp]: "pcap_packet freed sec [] w = Some (Inr w)"
  by (subst pcap_packet.simps) (simp add: Let_def)

lemma apply_live_pcap [simp]:
  "pp_last_seq (apply_live freed m w) = pp_last_seq w" "pp_complete (apply_live freed m w) = pp_complete w"
  "pp_prices (apply_live freed m w) = pp_prices w"
  by (cases m; simp add: on_viewed_book_def forget_symbol_def split: option.split)+

definition pcap_after :: "(ob_order \<Rightarrow> ob_order) \<Rightarrow> int \<Rightarrow> u32 \<Rightarrow> md_msg \<Rightarrow> pcap_printer \<Rightarrow> pcap_printer" where
  "pcap_after freed sec n m w = print_prices sec n (apply_live freed m (w\<lparr>pp_last_seq := n\<rparr>))"

lemma pcap_packet_step:
  assumes "done_snapshot w" "buf \<noteq> []" "magic_at buf = Some g" "\<not> length buf < md_header_size"
    "mh_magic_number (md_header_at buf) = MAGIC_NUMBER" "mh_seq_num (md_header_at buf) = k"
    "unat (mh_length (md_header_at buf)) = n" "n \<le> length buf"
    "parse_live freed buf (w\<lparr>pp_last_seq := k\<rparr>) = (True, w')"
  shows "pcap_packet freed sec buf w = pcap_packet freed sec (drop n buf) (print_prices sec k w')"
proof (subst pcap_packet.simps, unfold Let_def assms(5-7) assms(9))
qed (use assms(1-4,8) in simp)

lemma pcap_packet_Cons:
  assumes "done_snapshot w" "md_msg_canonical m"
  shows "pcap_packet freed sec (encode_md MAGIC_NUMBER n t m @ rest) w = pcap_packet freed sec rest (pcap_after freed sec n m w)"
proof -
  let ?buf = "encode_md MAGIC_NUMBER n t m @ rest"
  have "pcap_packet freed sec ?buf w = pcap_packet freed sec (drop (md_sizeof (md_type_of m)) ?buf)
      (print_prices sec n (apply_live freed m (w\<lparr>pp_last_seq := n\<rparr>)))"
    by (rule pcap_packet_step [OF assms(1) _ _ _ _ _ _ _ parse_live_encoded [OF assms(2)]])
      (simp_all add: md_header_at_encode_md)
  then show ?thesis by (simp add: pcap_after_def)
qed

text \<open>One entry a message, with the best prices of all books after the message.\<close>

fun prices_ok :: "int \<Rightarrow> u32 \<Rightarrow> md_msg list \<Rightarrow> view \<Rightarrow> prices list \<Rightarrow> bool" where
  "prices_ok sec n [] v ls \<longleftrightarrow> ls = []"
| "prices_ok sec n (m # ms) v ls \<longleftrightarrow> (\<exists>ps ls'. ls = (sec, n, ps) # ls' \<and>
     (\<forall>y. case ps y of
        None \<Rightarrow> only y (view_step m v) = Map.empty
      | Some (bid, ask) \<Rightarrow> is_best (view_step m v) y BuyLevels bid \<and> is_best (view_step m v) y SellLevels ask) \<and>
     prices_ok sec (n + 1) ms (view_step m v) ls')"

lemma pcap_after_fields:
  "done_snapshot w \<Longrightarrow> done_snapshot (pcap_after freed sec n m w)"
  "pp_prices (pcap_after freed sec n m w) = pp_prices w @ [(sec, n, \<lambda>y. map_option (\<lambda>b. (get_best_bid b, get_best_ask b))
     (vw_books (pcap_after freed sec n m w) y))]"
  by (simp_all add: pcap_after_def print_prices_def done_snapshot_def)

lemma pcap_after_shows:
  assumes "shows_viewer w v" "view_ok v" "fits m v" "view_ok (view_step m v)" "\<not> uses_up m v"
  shows "shows_viewer (pcap_after freed sec n m w) (view_step m v)"
proof -
  have "shows_viewer (w\<lparr>pp_last_seq := n\<rparr>) v" by (rule viewer_shows_same [OF _ _ assms(1)]) simp_all
  note applied = whole_book.apply_live_shows [OF this assms(2-5)]
  show ?thesis by (rule viewer_shows_same [OF _ _ applied]) (simp_all add: pcap_after_def print_prices_def)
qed

lemma shown_prices:
  assumes "shows_viewer w v"
  shows "case map_option (\<lambda>b. (get_best_bid b, get_best_ask b)) (vw_books w y) of
      None \<Rightarrow> only y v = Map.empty
    | Some (bid, ask) \<Rightarrow> is_best v y BuyLevels bid \<and> is_best v y SellLevels ask"
proof (cases "vw_books w y")
  case None
  then show ?thesis using assms by (simp add: viewer_shows_def client_shows_def)
next
  case (Some b)
  then show ?thesis using viewer_prices [OF assms, of y] by (simp add: viewed_book_def)
qed

text \<open>
  From books that show some orders, the printer of captures reads a live packet to its end and prints,
  after each message, for each symbol the best bid and the best ask of the orders that are open then.
  A capture with a real snapshot does not get there: the snapshot's orders are only counted, and
  never enter the books.
\<close>

lemma pcap_prints_books:
  assumes "done_snapshot w" "shows_viewer w v" "feed_ok (map snd g) v" "\<forall>m \<in> snd ` set g. md_msg_canonical m"
    "none_used_up (map snd g) v"
  shows "\<exists>w' ls. pcap_packet freed sec (encode_run n g) w = Some (Inr w') \<and> pp_prices w' = pp_prices w @ ls \<and>
    prices_ok sec n (map snd g) v ls \<and> shows_viewer w' (fold view_step (map snd g) v) \<and> done_snapshot w'"
  using assms
proof (induction g arbitrary: n w v)
  case (Cons tm g)
  obtain t m where tm: "tm = (t, m)" by (cases tm)
  have ok: "view_ok v" "fits m v" "feed_ok (map snd g) (view_step m v)" "md_msg_canonical m"
    "\<not> uses_up m v" "none_used_up (map snd g) (view_step m v)"
    using Cons.prems(3-5) by (simp_all add: tm)
  let ?w = "pcap_after freed sec n m w"
  have w: "done_snapshot ?w" "shows_viewer ?w (view_step m v)"
    using pcap_after_fields(1) [OF Cons.prems(1)] pcap_after_shows [OF Cons.prems(2) ok(1,2) feed_ok_view [OF ok(3)] ok(5)]
    by simp_all
  obtain w' ls where w': "pcap_packet freed sec (encode_run (n + 1) g) ?w = Some (Inr w')" "pp_prices w' = pp_prices ?w @ ls"
    "prices_ok sec (n + 1) (map snd g) (view_step m v) ls" "shows_viewer w' (fold view_step (map snd g) (view_step m v))"
    "done_snapshot w'" using Cons.IH [OF w ok(3) _ ok(6), of "n + 1"] Cons.prems(4) by auto
  have "pcap_packet freed sec (encode_run n (tm # g)) w = Some (Inr w')"
    using pcap_packet_Cons [OF Cons.prems(1) ok(4)] w'(1) by (simp add: tm)
  moreover have "pp_prices w' = pp_prices w @ (sec, n, \<lambda>y. map_option (\<lambda>b. (get_best_bid b, get_best_ask b)) (vw_books ?w y)) # ls"
    unfolding w'(2) pcap_after_fields(2) [of _ sec n m w] by simp
  moreover have "prices_ok sec n (map snd (tm # g)) v
      ((sec, n, \<lambda>y. map_option (\<lambda>b. (get_best_bid b, get_best_ask b)) (vw_books ?w y)) # ls)"
    using shown_prices [OF w(2)] w'(3) by (simp add: tm)
  ultimately show ?case using w'(4,5) by (auto simp: tm)
qed simp

section \<open>The printer of snapshots\<close>

definition printed :: "md_msg \<Rightarrow> snapshot_line list" where
  "printed m = TypeLine (md_type_code (md_type_of m)) # snapshot_line_of m"

lemma printed_encoded:
  assumes "md_msg_canonical m"
  shows "printed_message (md_type_code (md_type_of m)) (encode_md g n t m @ rest) = printed m"
  using md_msg_at_encode_md [OF assms, of g n t rest] by (cases m) (simp_all add: printed_message_def printed_def)

lemma print_packet_Nil [simp]: "print_packet left [] out = Some (Inr out)"
  by (subst print_packet.simps) (simp add: Let_def)

lemma print_packet_run:
  "\<forall>m \<in> snd ` set g. md_msg_canonical m \<Longrightarrow>
   print_packet left (snapshot_run g) out = Some (Inr (out @ concat (map (printed \<circ> snd) g)))"
proof (induction g arbitrary: out)
  case (Cons tm g)
  obtain t m where tm: "tm = (t, m)" by (cases tm)
  have "printed_message (md_type_code (md_type_of m)) (encode_md SNAPSHOT_MAGIC_NUMBER 0 t m @ snapshot_run g @ left) = printed m"
    using Cons.prems by (intro printed_encoded) (simp add: tm)
  then have "print_packet left (snapshot_run (tm # g)) out = print_packet left (snapshot_run g) (out @ printed m)"
    unfolding print_packet.simps [of left "snapshot_run (tm # g)"] by (simp add: tm Let_def md_header_at_encode_md)
  then show ?case using Cons.IH [of "out @ printed m"] Cons.prems by (simp add: tm)
qed simp

text \<open>The printer of snapshots prints what it hears: the datagrams of a snapshot, whatever the
  stack holds behind them, are printed message for message, each snapshot's header with its
  counts and number and each order in full.\<close>

theorem snapshots_are_printed:
  assumes "\<forall>g \<in> set gs. length (snapshot_run g) \<le> MD_BUF" "\<forall>m \<in> snd ` set (concat gs). md_msg_canonical m"
  shows "print_feed (map (\<lambda>g. (Received (snapshot_run g), left)) gs) out =
    Some (Listening, out @ concat (map (printed \<circ> snd) (concat gs)))"
  using assms
proof (induction gs arbitrary: out)
  case (Cons g gs)
  then show ?case using print_packet_run [of g left out] by (simp add: comp_def)
qed simp

theorem snapshots_are_printed_witness:
  "print_feed (map (\<lambda>g. (Received (snapshot_run g), [1, 2])) [[(4, SnapshotInfo 1 1 0 9), (4, NewOrder 7 1 BUY 10 (I32 100) 0)]]) [] =
    Some (Listening, [TypeLine 6, InfoLine 1 9 1 0, TypeLine 1, OrderLine 7 1 BUY 10 (I32 100)])"
  using snapshots_are_printed [of "[[(4, SnapshotInfo 1 1 0 9), (4, NewOrder 7 1 BUY 10 (I32 100) 0)]]" "[1, 2]" "[]"]
  by (simp add: MD_BUF_def printed_def)

end
