(* ===== verification/Web_Numbers.thy ===== *)
theory Web_Numbers imports
  Complex_Main System
begin

text \<open>
  How \<open>web_data/web_data.cpp\<close> computes the profits of the web page and how its \<open>ostream\<close> writes numbers,
  with the proof that the text is a JSON number close to the profit.
\<close>

section \<open>Numbers as text\<close>

text \<open>The output of integers, in the default format of an \<open>ostream\<close>.\<close>

fun show_nat :: "nat \<Rightarrow> string" where
  "show_nat n = (if n < 10 then [char_of (48 + n)] else show_nat (n div 10) @ [char_of (48 + n mod 10)])"

declare show_nat.simps [simp del]

definition show_int :: "int \<Rightarrow> string" where
  "show_int n = (if n < 0 then ''-'' else []) @ show_nat (nat \<bar>n\<bar>)"

text \<open>
  The profit is a \<open>double\<close>.  It is an integer less the product of the volume and the literal \<open>0.05\<close>,
  and all these numbers are multiples of \<open>2^-56\<close>; the model counts in this unit, so that the results
  of the floating point operations are those of \<open>round_double\<close>.
\<close>

definition UNIT :: nat where "UNIT = 2 ^ 56"

definition FIVE_CENTS :: nat where "FIVE_CENTS = 3602879701896397"

definition round_signed :: "int \<Rightarrow> int" where
  "round_signed n = sgn n * int (round_double (nat \<bar>n\<bar>))"

definition volume_fee :: "u32 \<Rightarrow> nat" where
  "volume_fee v = round_double (unat v * FIVE_CENTS)"

definition profit_after_fees :: "int \<Rightarrow> u32 \<Rightarrow> int" where
  "profit_after_fees n v = round_signed (n * int UNIT - int (volume_fee v))"

text \<open>
  The output of a \<open>double\<close> with the default precision of six digits: the decimal exponent, the six
  digits rounded to the nearest, ties to even; then the digits, without zeros at their end, in the
  fixed or the scientific notation.  No profit is below \<open>10^-17\<close>, but for zero, or beyond \<open>10^10\<close>.
\<close>

definition round_quotient :: "nat \<Rightarrow> nat \<Rightarrow> nat" where
  "round_quotient a b =
    (let q = a div b; r = a mod b in if 2 * r > b \<or> 2 * r = b \<and> odd q then q + 1 else q)"

definition decimal_exponent :: "nat \<Rightarrow> int" where
  "decimal_exponent n = int (length (takeWhile (\<lambda>k. 10 ^ k * UNIT \<le> n * 10 ^ 17) [1..<28])) - 17"

definition six_digits :: "nat \<Rightarrow> nat \<times> int" where
  "six_digits n =
    (let x = decimal_exponent n; m = round_quotient (n * 10 ^ 22) (UNIT * 10 ^ nat (x + 17))
     in if m = 10 ^ 6 then (10 ^ 5, x + 1) else (m, x))"

definition strip_zeros :: "string \<Rightarrow> string" where
  "strip_zeros s = rev (dropWhile (\<lambda>c. c = CHR ''0'') (rev s))"

definition with_fraction :: "string \<Rightarrow> string \<Rightarrow> string" where
  "with_fraction a s = (let s = strip_zeros s in if s = [] then a else a @ ''.'' @ s)"

definition show_exponent :: "int \<Rightarrow> string" where
  "show_exponent x = ''e'' @ (if x < 0 then ''-'' else ''+'') @
     (if \<bar>x\<bar> < 10 then ''0'' else []) @ show_nat (nat \<bar>x\<bar>)"

definition show_digits :: "nat \<Rightarrow> int \<Rightarrow> string" where
  "show_digits m x =
    (let ds = show_nat m in
     if x < - 4 \<or> 6 \<le> x then with_fraction (take 1 ds) (drop 1 ds) @ show_exponent x
     else if x < 0 then with_fraction ''0'' (replicate (nat (- x - 1)) CHR ''0'' @ ds)
     else with_fraction (take (nat x + 1) ds) (drop (nat x + 1) ds))"

definition show_double :: "int \<Rightarrow> string" where
  "show_double d = (if d = 0 then ''0''
     else (if d < 0 then ''-'' else []) @ (case six_digits (nat \<bar>d\<bar>) of (m, x) \<Rightarrow> show_digits m x))"

section \<open>JSON numbers\<close>

text \<open>The numbers of JSON, with the value that a text stands for.\<close>

definition digit_char :: "char \<Rightarrow> bool" where
  "digit_char c \<longleftrightarrow> 48 \<le> (of_char c :: nat) \<and> (of_char c :: nat) \<le> 57"

definition digits_value :: "string \<Rightarrow> nat" where
  "digits_value ds = fold (\<lambda>c n. 10 * n + (of_char c - 48)) ds 0"

definition whole_number :: "string \<Rightarrow> bool" where
  "whole_number s \<longleftrightarrow> s \<noteq> [] \<and> list_all digit_char s \<and> (hd s = CHR ''0'' \<longrightarrow> length s = 1)"

inductive json_number :: "rat \<Rightarrow> string \<Rightarrow> bool" where
  whole: "whole_number a \<Longrightarrow> json_number (of_nat (digits_value a)) a"
| fraction: "whole_number a \<Longrightarrow> list_all digit_char fs \<Longrightarrow> fs \<noteq> [] \<Longrightarrow>
    json_number (of_nat (digits_value (a @ fs)) / 10 ^ length fs) (a @ ''.'' @ fs)"
| exponent: "json_number v s \<Longrightarrow> CHR ''e'' \<notin> set s \<Longrightarrow> CHR ''-'' \<notin> set s \<Longrightarrow> list_all digit_char es \<Longrightarrow> es \<noteq> [] \<Longrightarrow>
    json_number (v * 10 ^ digits_value es) (s @ ''e+'' @ es)"
| small_exponent: "json_number v s \<Longrightarrow> CHR ''e'' \<notin> set s \<Longrightarrow> CHR ''-'' \<notin> set s \<Longrightarrow> list_all digit_char es \<Longrightarrow> es \<noteq> [] \<Longrightarrow>
    json_number (v / 10 ^ digits_value es) (s @ ''e-'' @ es)"
| negative: "json_number v s \<Longrightarrow> CHR ''-'' \<noteq> hd s \<Longrightarrow> json_number (- v) (''-'' @ s)"

section \<open>Integers\<close>

lemma of_char_digit [simp]: "d < 10 \<Longrightarrow> of_char (char_of (48 + d :: nat)) = (48 + d :: nat)"
  by simp

lemma digit_char_of [simp]: "d < 10 \<Longrightarrow> digit_char (char_of (48 + d :: nat))"
  by (simp add: digit_char_def)

lemma digits_value_Nil [simp]: "digits_value [] = 0"
  by (simp add: digits_value_def)

lemma digits_value_snoc [simp]: "digits_value (ds @ [c]) = 10 * digits_value ds + (of_char c - 48)"
  by (simp add: digits_value_def)

lemma digits_value_append: "digits_value (as @ bs) = digits_value as * 10 ^ length bs + digits_value bs"
  by (induction bs rule: rev_induct) (simp_all add: append_assoc [symmetric] del: append_assoc)

lemma digits_value_zeros [simp]: "digits_value (replicate k CHR ''0'') = 0"
  by (induction k) (simp_all add: replicate_append_same [symmetric] del: replicate_Suc add: replicate_Suc)

lemma digits_value_single [simp]: "digits_value [c] = of_char c - 48"
  by (simp add: digits_value_def)

lemma show_nat_value [simp]: "digits_value (show_nat n) = n"
  by (induction n rule: show_nat.induct) (subst show_nat.simps, simp)

lemma show_nat_digits [simp]: "list_all digit_char (show_nat n)"
  by (induction n rule: show_nat.induct) (subst show_nat.simps, simp)

lemma show_nat_nonempty [simp]: "show_nat n \<noteq> []"
  by (subst show_nat.simps) simp

lemma show_nat_head: "0 < n \<Longrightarrow> hd (show_nat n) \<noteq> CHR ''0''"
proof (induction n rule: show_nat.induct)
  case (1 n)
  show ?case
  proof (cases "n < 10")
    case True
    have "(of_char (CHR ''0'') :: nat) = 48" by simp
    then have "char_of (48 + n) \<noteq> CHR ''0''" using of_char_digit [OF True] "1.prems" by force
    then show ?thesis using True by (subst show_nat.simps) simp
  next
    case False
    then show ?thesis using 1 by (subst show_nat.simps) (simp add: hd_append)
  qed
qed

lemma whole_show_nat [simp]: "whole_number (show_nat n)"
proof (cases "n = 0")
  case True
  then show ?thesis by (simp add: whole_number_def show_nat.simps digit_char_def)
next
  case False
  then show ?thesis using show_nat_head [of n] by (simp add: whole_number_def)
qed

lemma json_show_nat: "json_number (of_nat n) (show_nat n)"
  using json_number.whole [OF whole_show_nat, of n] by simp

lemma digit_not_sign: "digit_char c \<Longrightarrow> c \<noteq> CHR ''-'' \<and> c \<noteq> CHR ''e'' \<and> c \<noteq> CHR ''.''"
  by (auto simp: digit_char_def)

lemma digits_no_sign: "list_all digit_char s \<Longrightarrow> CHR ''-'' \<notin> set s \<and> CHR ''e'' \<notin> set s"
  using digit_not_sign by (auto simp: list_all_iff)

lemma head_in_set: "s \<noteq> [] \<Longrightarrow> CHR ''-'' \<notin> set s \<Longrightarrow> CHR ''-'' \<noteq> hd s"
  by (cases s) auto

lemma json_show_int: "json_number (of_int n) (show_int n)"
proof (cases "n < 0")
  case True
  have "CHR ''-'' \<noteq> hd (show_nat (nat \<bar>n\<bar>))" by (simp add: head_in_set digits_no_sign)
  from json_number.negative [OF json_show_nat this] True show ?thesis by (simp add: show_int_def)
next
  case False
  then show ?thesis using json_show_nat [of "nat n"] by (simp add: show_int_def)
qed

section \<open>The six digits\<close>

lemma round_quotient_error: "0 < b \<Longrightarrow> 2 * \<bar>int (round_quotient a b) * int b - int a\<bar> \<le> int b"
proof -
  assume b: "0 < b"
  define q r where "q = a div b" and "r = a mod b"
  have a: "int a = int q * int b + int r" unfolding q_def r_def by (metis div_mult_mod_eq of_nat_add of_nat_mult)
  have r: "r < b" using b by (simp add: r_def)
  show ?thesis
    using a r unfolding round_quotient_def q_def [symmetric] r_def [symmetric] Let_def
    by (auto simp: algebra_simps abs_if)
qed

lemma round_quotient_bounds:
  "0 < b \<Longrightarrow> l * b \<le> a \<Longrightarrow> a < u * b \<Longrightarrow> l \<le> round_quotient a b \<and> round_quotient a b \<le> u"
proof -
  assume b: "0 < b" and l: "l * b \<le> a" and u: "a < u * b"
  have "l \<le> a div b" using l b by (simp add: less_eq_div_iff_mult_less_eq)
  moreover have "a div b < u" using u b by (simp add: div_less_iff_less_mult)
  ultimately show ?thesis by (auto simp: round_quotient_def Let_def)
qed

lemma takeWhile_upt:
  assumes "\<And>k. k < m \<Longrightarrow> P (i + k)" "m \<le> n" "m < n \<Longrightarrow> \<not> P (i + m)"
  shows "takeWhile P [i..<i + n] = [i..<i + m]"
proof -
  have split: "[i..<i + n] = [i..<i + m] @ [i + m..<i + n]"
    using upt_add_eq_append [of i "i + m" "n - m"] assms(2) by simp
  have "\<forall>x \<in> set [i..<i + m]. P x" using assms(1) by (auto simp: le_iff_add)
  moreover have "takeWhile P [i + m..<i + n] = []"
    using assms(2,3) by (cases "m < n") (simp_all add: upt_conv_Cons)
  ultimately show ?thesis unfolding split by (subst takeWhile_append2) auto
qed

text \<open>The decimal exponent of \<open>n / UNIT\<close>.\<close>

lemma decimal_exponent_bounds:
  assumes "0 < n" "n < 10 ^ 10 * UNIT"
  obtains j where "decimal_exponent n = int j - 17" "j < 27"
    "10 ^ j * UNIT \<le> n * 10 ^ 17" "n * 10 ^ 17 < 10 ^ Suc j * UNIT"
proof -
  let ?P = "\<lambda>k. 10 ^ k * UNIT \<le> n * 10 ^ 17"
  have P0: "?P 0" using assms(1) by (simp add: UNIT_def)
  have "n * 10 ^ 17 < 10 ^ 10 * UNIT * 10 ^ 17" using assms(2) by (intro mult_strict_right_mono) auto
  then have P27: "\<not> ?P 27" by (simp add: mult.commute)
  define j where "j = (LEAST j. \<not> ?P (Suc j))"
  have ex: "\<not> ?P (Suc 26)" using P27 by simp
  have j: "\<not> ?P (Suc j)" unfolding j_def by (rule LeastI [of "\<lambda>j. \<not> ?P (Suc j)", OF ex])
  have below: "?P (Suc k)" if "k < j" for k using not_less_Least [OF that [unfolded j_def]] by blast
  have j26: "j \<le> 26" unfolding j_def by (rule Least_le [of "\<lambda>j. \<not> ?P (Suc j)", OF ex])
  have "?P j" using P0 below by (cases j) auto
  moreover have "takeWhile ?P [1..<1 + 27] = [1..<1 + j]"
    using below j j26 by (intro takeWhile_upt) auto
  then have "decimal_exponent n = int j - 17" by (simp add: decimal_exponent_def)
  ultimately show thesis using that [of j] j j26 by simp
qed

definition scaled :: "nat \<Rightarrow> int \<Rightarrow> rat" where
  "scaled m x = of_nat m * (if 0 \<le> x then 10 ^ nat x else 1 / 10 ^ nat (- x))"

lemma scaled_shift: "0 \<le> x + int k \<Longrightarrow> scaled m x = of_nat m * 10 ^ nat (x + int k) / 10 ^ k"
proof (cases "0 \<le> x")
  case True
  then show ?thesis by (simp add: scaled_def nat_add_distrib power_add)
next
  case False
  assume "0 \<le> x + int k"
  then have "k = nat (x + int k) + nat (- x)" using False by linarith
  then have "(10 :: rat) ^ k = 10 ^ nat (x + int k) * 10 ^ nat (- x)" by (metis power_add)
  then show ?thesis using False by (simp add: scaled_def)
qed

lemma six_digits_ok:
  assumes "0 < n" "n < 10 ^ 10 * UNIT"
  obtains m x where "six_digits n = (m, x)" "10 ^ 5 \<le> m" "m < 10 ^ 6"
    "\<bar>scaled m (x - 5) - of_nat n / of_nat UNIT\<bar> \<le> of_nat n / of_nat UNIT / 200000"
proof -
  obtain j where j: "decimal_exponent n = int j - 17" "10 ^ j * UNIT \<le> n * 10 ^ 17" "n * 10 ^ 17 < 10 ^ Suc j * UNIT"
    by (rule decimal_exponent_bounds [OF assms]) blast
  define m where "m = round_quotient (n * 10 ^ 22) (UNIT * 10 ^ j)"
  have unit: "0 < UNIT" by (simp add: UNIT_def)
  then have pos: "0 < UNIT * 10 ^ j" by simp
  have "n * 10 ^ 22 = n * 10 ^ 17 * 10 ^ 5" by simp
  then have "10 ^ 5 * (UNIT * 10 ^ j) \<le> n * 10 ^ 22" "n * 10 ^ 22 < 10 ^ 6 * (UNIT * 10 ^ j)" using j(2,3) by (simp_all add: ac_simps)
  from round_quotient_bounds [OF pos this] have m: "10 ^ 5 \<le> m" "m \<le> 10 ^ 6" by (simp_all only: m_def)
  have "2 * \<bar>int m * int (UNIT * 10 ^ j) - int (n * 10 ^ 22)\<bar> \<le> int (UNIT * 10 ^ j)"
    unfolding m_def by (rule round_quotient_error [OF pos])
  then have "rat_of_int (2 * \<bar>int m * int (UNIT * 10 ^ j) - int (n * 10 ^ 22)\<bar>) \<le> rat_of_int (int (UNIT * 10 ^ j))"
    by (simp only: of_int_le_iff)
  then have err: "2 * \<bar>of_nat m * (of_nat UNIT * 10 ^ j) - of_nat n * 10 ^ 22\<bar> \<le> rat_of_nat UNIT * 10 ^ j"
    by simp
  have "rat_of_nat (10 ^ j * UNIT) \<le> rat_of_nat (n * 10 ^ 17)" using j(2) by (simp only: of_nat_le_iff)
  then have size: "10 ^ j * rat_of_nat UNIT \<le> of_nat n * 10 ^ 17" by simp
  have u: "0 < rat_of_nat UNIT" using unit by simp
  have "of_nat m * 10 ^ j / 10 ^ 22 - of_nat n / rat_of_nat UNIT
      = (of_nat m * (rat_of_nat UNIT * 10 ^ j) - of_nat n * 10 ^ 22) / (of_nat UNIT * 10 ^ 22)"
    using u by (simp add: field_simps)
  then have "\<bar>of_nat m * 10 ^ j / 10 ^ 22 - of_nat n / rat_of_nat UNIT\<bar>
      = \<bar>of_nat m * (rat_of_nat UNIT * 10 ^ j) - of_nat n * 10 ^ 22\<bar> / (of_nat UNIT * 10 ^ 22)"
    using u by (simp add: abs_divide)
  also have "\<dots> \<le> (rat_of_nat UNIT * 10 ^ j / 2) / (of_nat UNIT * 10 ^ 22)"
    using err u by (intro divide_right_mono) auto
  also have "\<dots> \<le> (of_nat n * 10 ^ 17 / 2) / (rat_of_nat UNIT * 10 ^ 22)"
    using size u by (intro divide_right_mono) (auto simp: mult.commute)
  also have "\<dots> = of_nat n / of_nat UNIT / 200000" using u by (simp add: field_simps)
  finally have close: "\<bar>of_nat m * 10 ^ j / 10 ^ 22 - of_nat n / rat_of_nat UNIT\<bar> \<le> of_nat n / of_nat UNIT / 200000" .
  have here: "six_digits n = (if m = 10 ^ 6 then (10 ^ 5, int j - 16) else (m, int j - 17))"
    by (simp add: six_digits_def Let_def m_def j(1))
  show thesis
  proof (cases "m = 10 ^ 6")
    case True
    have "scaled (10 ^ 5) (int j - 16 - 5) = of_nat m * 10 ^ j / 10 ^ 22"
      using scaled_shift [of "int j - 16 - 5" 22 "10 ^ 5"] True by (simp add: nat_add_distrib)
    with close show thesis using that [of "10 ^ 5" "int j - 16"] here True by simp
  next
    case False
    have "scaled m (int j - 17 - 5) = of_nat m * 10 ^ j / 10 ^ 22"
      using scaled_shift [of "int j - 17 - 5" 22 m] by simp
    with close show thesis using that [of m "int j - 17"] here False m by simp
  qed
qed

section \<open>The text of a profit\<close>

lemma length_show_nat: "10 ^ k \<le> n \<Longrightarrow> n < 10 ^ Suc k \<Longrightarrow> length (show_nat n) = Suc k"
proof (induction k arbitrary: n)
  case 0
  then show ?case by (subst show_nat.simps) simp
next
  case (Suc k)
  have "(10 :: nat) ^ 1 \<le> 10 ^ Suc k" by (rule power_increasing) auto
  then have "10 ^ 1 \<le> n" using Suc.prems(1) by (rule order_trans)
  then have "\<not> n < 10" by simp
  moreover have "10 ^ k \<le> n div 10" "n div 10 < 10 ^ Suc k"
    using Suc.prems by (simp_all add: less_eq_div_iff_mult_less_eq div_less_iff_less_mult mult.commute)
  ultimately show ?case using Suc.IH [of "n div 10"] by (subst show_nat.simps) simp
qed

lemma strip_zeros_split: "\<exists>k. s = strip_zeros s @ replicate k CHR ''0''"
proof (intro exI)
  let ?z = "\<lambda>c. c = CHR ''0''"
  have "takeWhile ?z (rev s) = replicate (length (takeWhile ?z (rev s))) CHR ''0''"
    by (intro replicate_eqI) (auto dest: set_takeWhileD)
  moreover have "s = rev (takeWhile ?z (rev s) @ dropWhile ?z (rev s))"
    by (simp only: takeWhile_dropWhile_id rev_rev_ident)
  ultimately show "s = strip_zeros s @ replicate (length (takeWhile ?z (rev s))) CHR ''0''"
    by (metis rev_append rev_replicate strip_zeros_def)
qed

lemma json_with_fraction:
  assumes "whole_number a" "list_all digit_char s"
  shows "json_number (of_nat (digits_value (a @ s)) / 10 ^ length s) (with_fraction a s)"
proof -
  obtain k where k: "s = strip_zeros s @ replicate k CHR ''0''" using strip_zeros_split by blast
  let ?t = "strip_zeros s"
  have "digits_value (a @ s) = digits_value (a @ ?t) * 10 ^ k"
    by (subst k) (simp add: digits_value_append del: append_assoc flip: append_assoc)
  moreover have "length s = length ?t + k" by (subst k) simp
  ultimately have same: "rat_of_nat (digits_value (a @ s)) / 10 ^ length s
      = of_nat (digits_value (a @ ?t)) / 10 ^ length ?t"
    by (simp add: power_add)
  have digits: "list_all digit_char ?t" using assms(2) by (subst (asm) k) simp
  show ?thesis
    unfolding same using json_number.fraction [OF assms(1) digits] json_number.whole [OF assms(1)]
    by (auto simp: with_fraction_def Let_def)
qed

lemma with_fraction_plain:
  assumes "list_all digit_char a" "list_all digit_char s"
  shows "CHR ''e'' \<notin> set (with_fraction a s)" "CHR ''-'' \<notin> set (with_fraction a s)"
proof -
  obtain k where k: "s = strip_zeros s @ replicate k CHR ''0''" using strip_zeros_split by blast
  have "list_all digit_char (strip_zeros s)" using assms(2) by (subst (asm) k) simp
  then show "CHR ''e'' \<notin> set (with_fraction a s)" "CHR ''-'' \<notin> set (with_fraction a s)"
    using digits_no_sign assms(1) by (auto simp: with_fraction_def Let_def)
qed

lemma json_show_exponent:
  assumes "json_number v s" "CHR ''e'' \<notin> set s" "CHR ''-'' \<notin> set s"
  shows "json_number (if x < 0 then v / 10 ^ nat (- x) else v * 10 ^ nat x) (s @ show_exponent x)"
proof -
  let ?es = "(if \<bar>x\<bar> < 10 then ''0'' else []) @ show_nat (nat \<bar>x\<bar>)"
  have es: "list_all digit_char ?es" "?es \<noteq> []" "digits_value ?es = nat \<bar>x\<bar>"
    by (auto simp: digits_value_append digit_char_def)
  show ?thesis
    using json_number.exponent [OF assms es(1,2)] json_number.small_exponent [OF assms es(1,2)] es(3)
    unfolding show_exponent_def by (auto simp del: append_assoc simp flip: append_assoc split: if_splits)
qed

lemma json_show_digits:
  assumes "10 ^ 5 \<le> m" "m < 10 ^ 6"
  shows "json_number (scaled m (x - 5)) (show_digits m x) \<and> CHR ''-'' \<noteq> hd (show_digits m x)"
proof -
  let ?ds = "show_nat m"
  have len: "length ?ds = 6" using length_show_nat [of 5 m] assms by simp
  have head: "hd ?ds \<noteq> CHR ''0''" using assms show_nat_head by simp
  have front: "whole_number (take (Suc k) ?ds)" for k
    using head show_nat_digits [of m] len
    by (cases ?ds) (auto simp: whole_number_def list_all_iff dest: in_set_takeD)
  have digits: "list_all digit_char (take k ?ds)" "list_all digit_char (drop k ?ds)" for k
    using show_nat_digits [of m] by (auto simp: list_all_iff dest: in_set_takeD in_set_dropD)
  have start: "CHR ''-'' \<noteq> hd (with_fraction a s @ r)" if "list_all digit_char a" "a \<noteq> []" for a s r
    using that digit_not_sign by (cases a) (auto simp: with_fraction_def Let_def)
  consider "x < - 4 \<or> 6 \<le> x" | "- 4 \<le> x" "x < 0" | "0 \<le> x" "x < 6" by linarith
  then show ?thesis
  proof cases
    case 1
    let ?f = "with_fraction (take 1 ?ds) (drop 1 ?ds)"
    have "json_number (of_nat m / 10 ^ 5) ?f"
      using json_with_fraction [OF front [of 0] digits(2) [of 1]] len by simp
    from json_show_exponent [OF this with_fraction_plain [OF digits(1,2)], of x]
    have "json_number (if x < 0 then of_nat m / 10 ^ 5 / 10 ^ nat (- x) else of_nat m / 10 ^ 5 * 10 ^ nat x)
      (?f @ show_exponent x)" .
    moreover have "scaled m (x - 5) = (if x < 0 then of_nat m / 10 ^ 5 / 10 ^ nat (- x) else of_nat m / 10 ^ 5 * 10 ^ nat x)"
    proof (cases "x < 0")
      case True
      then have "nat (- (x - 5)) = 5 + nat (- x)" by linarith
      then show ?thesis using True by (simp add: scaled_def power_add)
    next
      case False
      then show ?thesis using scaled_shift [of "x - 5" 5 m] by simp
    qed
    moreover have "CHR ''-'' \<noteq> hd (?f @ show_exponent x)"
      using start [OF digits(1) [of 1], of "drop 1 ?ds" "show_exponent x"] len by fastforce
    ultimately show ?thesis using 1 by (simp add: show_digits_def Let_def)
  next
    case 2
    let ?z = "replicate (nat (- x - 1)) CHR ''0''"
    have "list_all digit_char ?z" by (simp add: list_all_iff digit_char_def)
    then have "list_all digit_char (?z @ ?ds)" by simp
    from json_with_fraction [OF _ this, of "''0''"]
    have "json_number (of_nat m / 10 ^ (nat (- x - 1) + 6)) (with_fraction ''0'' (?z @ ?ds))"
      by (simp add: whole_number_def digit_char_def digits_value_append [of "''0''" "?z @ ?ds", simplified]
          digits_value_append [of ?z] len)
    moreover have "nat (- x - 1) + 6 = nat (- (x - 5))" using 2 by linarith
    ultimately show ?thesis
      using 2 start [of "''0''" "?z @ ?ds" "[]"] by (simp add: show_digits_def Let_def scaled_def digit_char_def)
  next
    case 3
    let ?k = "nat x + 1"
    have "nat (5 - x) = 6 - ?k" using 3 by linarith
    moreover have "scaled m (x - 5) = of_nat m / 10 ^ nat (5 - x)"
      using 3 by (auto simp: scaled_def not_le)
    moreover have "json_number (of_nat m / 10 ^ (6 - ?k)) (with_fraction (take ?k ?ds) (drop ?k ?ds))"
      using json_with_fraction [OF front [of "nat x"] digits(2) [of ?k]] len by simp
    moreover have "CHR ''-'' \<noteq> hd (with_fraction (take ?k ?ds) (drop ?k ?ds) @ [])"
      using start [OF digits(1) [of ?k], of "drop ?k ?ds" "[]"] len by fastforce
    ultimately show ?thesis using 3 by (simp add: show_digits_def Let_def)
  qed
qed

text \<open>What is shown of a profit, as a number, is within a part in 200000 of it.\<close>

lemma json_show_double:
  assumes "\<bar>d\<bar> < 10 ^ 10 * int UNIT"
  obtains w where "json_number w (show_double d)" "\<bar>w - of_int d / of_nat UNIT\<bar> \<le> \<bar>of_int d\<bar> / of_nat UNIT / 200000"
proof (cases "d = 0")
  case True
  have "json_number 0 ''0''" using json_number.whole [of "''0''"] by (simp add: whole_number_def digit_char_def)
  then show thesis using that [of 0] True by (simp add: show_double_def)
next
  case False
  let ?n = "nat \<bar>d\<bar>"
  have "0 < ?n" "?n < 10 ^ 10 * UNIT" using False assms by (simp_all add: nat_less_iff)
  then obtain m x where six: "six_digits ?n = (m, x)" "10 ^ 5 \<le> m" "m < 10 ^ 6"
    and close: "\<bar>scaled m (x - 5) - of_nat ?n / of_nat UNIT\<bar> \<le> of_nat ?n / of_nat UNIT / 200000"
    by (rule six_digits_ok) blast
  note json = json_show_digits [OF six(2,3), of x]
  show thesis
  proof (cases "d < 0")
    case True
    then have "json_number (- scaled m (x - 5)) (show_double d)"
      using json_number.negative [of "scaled m (x - 5)" "show_digits m x"] json six(1) by (simp add: show_double_def)
    then show thesis using that close True by (simp add: abs_minus_commute)
  next
    case nonneg: False
    then have "json_number (scaled m (x - 5)) (show_double d)"
      using json six(1) False by (simp add: show_double_def)
    then show thesis using that close nonneg by simp
  qed
qed

section \<open>Rounding\<close>

lemma spare_bits_bound: "n < 2 ^ (53 + k) \<Longrightarrow> spare_bits n \<le> k"
proof (induction k arbitrary: n)
  case (Suc k)
  have "n div 2 < 2 ^ (53 + k)" using Suc.prems by (simp add: div_less_iff_less_mult power_add)
  from Suc.IH [OF this] show ?case by (subst spare_bits.simps) simp
qed (simp add: spare_bits.simps)

lemma round_double_error: "n < 2 ^ (53 + Suc k) \<Longrightarrow> \<bar>int (round_double n) - int n\<bar> \<le> 2 ^ k"
proof (cases "spare_bits n = 0")
  case False
  assume n: "n < 2 ^ (53 + Suc k)"
  define e q r where "e = spare_bits n" and "q = n div 2 ^ e" and "r = n mod 2 ^ e"
  have "n = q * 2 ^ e + r" by (simp only: q_def r_def div_mult_mod_eq)
  then have "int n = int (q * 2 ^ e + r)" by (rule arg_cong)
  then have split: "int n = int q * 2 ^ e + int r" by simp
  have r: "r < 2 ^ e" by (simp add: r_def)
  then have "int r < int (2 ^ e)" by (simp only: of_nat_less_iff)
  then have "int r < 2 ^ e" by simp
  moreover have "(2 ^ e < 2 * r) = (int (2 ^ e) < int (2 * r))" "(2 * r = 2 ^ e) = (int (2 * r) = int (2 ^ e))"
    by (simp_all only: of_nat_less_iff of_nat_eq_iff)
  then have "(2 ^ e < 2 * r) = (2 ^ e < 2 * int r)" "(2 * r = 2 ^ e) = (2 * int r = 2 ^ e)" by simp_all
  ultimately have "2 * \<bar>int (round_double n) - int n\<bar> \<le> 2 ^ e"
    unfolding round_double_def Let_def e_def [symmetric] q_def [symmetric] r_def [symmetric] split
    using False by (auto simp: algebra_simps e_def)
  moreover have "(2 :: int) ^ e \<le> 2 ^ Suc k"
    using spare_bits_bound [OF n] by (intro power_increasing) (auto simp: e_def)
  ultimately show ?thesis by simp
qed (simp add: round_double_def Let_def)

text \<open>The error of the two operations on \<open>double\<close>, and of the literal.\<close>

lemma volume_fee_error: "\<bar>20 * int (volume_fee v) - int (unat v) * int UNIT\<bar> \<le> 2 ^ 36"
  "int (volume_fee v) < 2 ^ 85"
proof -
  define q where "q = unat v"
  have q: "q < 2 ^ 32" unfolding q_def using unsigned_less [of v] by simp
  then have "q * FIVE_CENTS < 2 ^ 32 * 2 ^ 52" by (intro mult_strict_mono) (auto simp: FIVE_CENTS_def)
  then have "q * FIVE_CENTS < 2 ^ (53 + Suc 30)" by simp
  from round_double_error [OF this] have err: "\<bar>int (volume_fee v) - int q * int FIVE_CENTS\<bar> \<le> 2 ^ 30"
    by (simp add: volume_fee_def q_def)
  have "int q < 2 ^ 32" using q by simp
  then show "\<bar>20 * int (volume_fee v) - int (unat v) * int UNIT\<bar> \<le> 2 ^ 36" "int (volume_fee v) < 2 ^ 85"
    using err unfolding q_def [symmetric] by (simp_all add: FIVE_CENTS_def UNIT_def abs_le_iff)
qed

lemma profit_error:
  assumes "- (2 ^ 31) \<le> n" "n < 2 ^ 31"
  shows "\<bar>20 * profit_after_fees n v - (20 * n - int (unat v)) * int UNIT\<bar> \<le> 2 ^ 39"
    "\<bar>profit_after_fees n v\<bar> < 10 ^ 10 * int UNIT"
proof -
  let ?d = "n * int UNIT - int (volume_fee v)"
  have small: "\<bar>?d\<bar> < 2 ^ (53 + Suc 34)"
    using assms volume_fee_error(2) [of v] by (simp add: UNIT_def abs_less_iff)
  then have "nat \<bar>?d\<bar> < 2 ^ (53 + Suc 34)" by (simp add: nat_less_iff)
  from round_double_error [OF this] have "\<bar>int (round_double (nat \<bar>?d\<bar>)) - \<bar>?d\<bar>\<bar> \<le> 2 ^ 34" by simp
  then have err: "\<bar>profit_after_fees n v - ?d\<bar> \<le> 2 ^ 34"
    unfolding profit_after_fees_def round_signed_def by (auto simp: sgn_if abs_if split: if_splits)
  then show "\<bar>20 * profit_after_fees n v - (20 * n - int (unat v)) * int UNIT\<bar> \<le> 2 ^ 39"
    using volume_fee_error(1) [of v] by (simp add: abs_le_iff algebra_simps)
  show "\<bar>profit_after_fees n v\<bar> < 10 ^ 10 * int UNIT"
    using err small by (simp add: UNIT_def abs_le_iff abs_less_iff)
qed

lemma close_trans:
  assumes "\<bar>d - t\<bar> \<le> 5 / 10000000" "\<bar>w - d\<bar> \<le> \<bar>d\<bar> / 200000"
  shows "\<bar>w - t\<bar> \<le> \<bar>t\<bar> / 200000 + 1 / (1000000 :: rat)"
proof -
  have "\<bar>w - t\<bar> \<le> \<bar>w - d\<bar> + \<bar>d - t\<bar>" "\<bar>d\<bar> \<le> \<bar>t\<bar> + \<bar>d - t\<bar>" by linarith+
  then show ?thesis using assms by linarith
qed

lemma shown_profit_is_close:
  assumes "- (2 ^ 31) \<le> n" "n < 2 ^ 31"
  obtains w where "json_number w (show_double (profit_after_fees n v))"
    "\<bar>w - (of_int n - of_nat (unat v) / 20)\<bar> \<le> \<bar>of_int n - of_nat (unat v) / 20\<bar> / 200000 + 1 / 1000000"
proof -
  let ?d = "profit_after_fees n v" and ?t = "rat_of_int n - of_nat (unat v) / 20"
  obtain w where w: "json_number w (show_double ?d)" "\<bar>w - of_int ?d / of_nat UNIT\<bar> \<le> \<bar>of_int ?d\<bar> / of_nat UNIT / 200000"
    by (rule json_show_double [OF profit_error(2) [OF assms]]) blast
  have "rat_of_int \<bar>20 * ?d - (20 * n - int (unat v)) * int UNIT\<bar> \<le> rat_of_int (2 ^ 39)"
    using profit_error(1) [OF assms, of v] by (simp only: of_int_le_iff)
  then have "\<bar>20 * rat_of_int ?d - (20 * of_int n - of_nat (unat v)) * 2 ^ 56\<bar> \<le> 2 ^ 39"
    by (simp add: UNIT_def)
  then have "\<bar>20 * rat_of_int ?d - (20 * of_int n - of_nat (unat v)) * 2 ^ 56\<bar> / (20 * 2 ^ 56) \<le> 2 ^ 39 / (20 * 2 ^ 56)"
    by (rule divide_right_mono) simp
  moreover have "of_int ?d / 2 ^ 56 - ?t = (20 * rat_of_int ?d - (20 * of_int n - of_nat (unat v)) * 2 ^ 56) / (20 * 2 ^ 56)"
    by (simp add: field_simps)
  then have "\<bar>of_int ?d / 2 ^ 56 - ?t\<bar> = \<bar>20 * rat_of_int ?d - (20 * of_int n - of_nat (unat v)) * 2 ^ 56\<bar> / (20 * 2 ^ 56)"
    by (simp only: abs_divide) simp
  ultimately have "\<bar>of_int ?d / 2 ^ 56 - ?t\<bar> \<le> 5 / 10000000" by simp
  moreover have "\<bar>w - of_int ?d / 2 ^ 56\<bar> \<le> \<bar>of_int ?d / 2 ^ 56\<bar> / 200000" using w(2) by (simp add: UNIT_def)
  ultimately have "\<bar>w - ?t\<bar> \<le> \<bar>?t\<bar> / 200000 + 1 / 1000000" by (rule close_trans)
  with w(1) show thesis by (rule that)
qed

end
