(* ===== verification/Web_Page.thy ===== *)
theory Web_Page imports
  Web_Numbers Clearing_Props
begin

text \<open>
  \<open>web_data/web_data.cpp\<close>: the server of the web page.  It follows the market data and the clearing
  feed, and sends the best prices and the positions of all clients as one JSON text to the browsers
  that are connected.  The websocket library is third-party code; what it answers is an argument.
\<close>

section \<open>The JSON text\<close>

datatype web_error = MissingEntry | MarkOverflow | WebMarketData client_error | WebClearing clearing_error

definition key :: "string \<Rightarrow> string" where
  "key s = CHR 0x22 # s @ CHR 0x22 # '': ''"

definition WEB_SYMBOLS :: "u32 list" where "WEB_SYMBOLS = [1, 2]"

fun commas :: "string list \<Rightarrow> string" where
  "commas [] = []"
| "commas [s] = s"
| "commas (s # ss) = s @ '','' @ commas ss"

definition symbol_text :: "md_client \<Rightarrow> u32 \<Rightarrow> string" where
  "symbol_text md y = ''{'' @ key ''symbol'' @ show_nat (unat y)
     @ '', '' @ key ''best_bid'' @ show_int (i32_val (opl_price (client_best_bid y md)))
     @ '', '' @ key ''best_ask'' @ show_int (i32_val (opl_price (client_best_ask y md))) @ ''}''"

text \<open>\<open>m.at(c).at(y)\<close>, which throws where there is no entry.\<close>

definition ledger_get :: "'a ledger \<Rightarrow> u32 \<Rightarrow> u32 \<Rightarrow> web_error + 'a" where
  "ledger_get m c y = (case m c of None \<Rightarrow> Inl MissingEntry
     | Some row \<Rightarrow> (case row y of None \<Rightarrow> Inl MissingEntry | Some x \<Rightarrow> Inr x))"

text \<open>
  The raw profit and the position at the market's price, which are numbers of type \<open>int\<close>: a product
  or a sum that is none of \<open>int\<close>'s values is undefined, here \<open>MarkOverflow\<close>.
\<close>

definition is_int :: "int \<Rightarrow> bool" where
  "is_int n \<longleftrightarrow> - (2 ^ 31) \<le> n \<and> n < 2 ^ 31"

definition marked :: "i32 \<Rightarrow> i32 \<Rightarrow> i32 \<Rightarrow> web_error + int" where
  "marked raw p x =
    (let mark = i32_val p * i32_val x; n = i32_val raw + mark
     in if is_int mark \<and> is_int n then Inr n else Inl MarkOverflow)"

definition position_text :: "u32 \<Rightarrow> u32 \<Rightarrow> i32 \<Rightarrow> string \<Rightarrow> nat \<Rightarrow> string" where
  "position_text c y x pnl v = ''{'' @ key ''client_id'' @ show_nat (unat c)
     @ '', '' @ key ''symbol'' @ show_nat (unat y)
     @ '', '' @ key ''position'' @ show_int (i32_val x)
     @ '', '' @ key ''pnl'' @ pnl
     @ '', '' @ key ''volume'' @ show_nat v @ ''}''"

text \<open>A long position is marked to the best bid, a short one to the best ask.\<close>

definition market_price :: "md_client \<Rightarrow> u32 \<Rightarrow> i32 \<Rightarrow> i32" where
  "market_price md y x = opl_price (if 0 \<le> i32_val x then client_best_bid y md else client_best_ask y md)"

definition client_text :: "md_client \<Rightarrow> clearing_client \<Rightarrow> u32 \<Rightarrow> u32 \<Rightarrow> web_error + string" where
  "client_text md k y c =
    (case (case get_positions k c of None \<Rightarrow> None | Some row \<Rightarrow> row y) of
       None \<Rightarrow> Inr (position_text c y (I32 0) ''0'' 0)
     | Some x \<Rightarrow>
         (case ledger_get (get_raw_pnl k) c y of
            Inl err \<Rightarrow> Inl err
          | Inr raw \<Rightarrow>
              (case marked raw (market_price md y x) x of
                 Inl err \<Rightarrow> Inl err
               | Inr n \<Rightarrow>
                   (case ledger_get (get_volume k) c y of
                      Inl err \<Rightarrow> Inl err
                    | Inr v \<Rightarrow> Inr (position_text c y x (show_double (profit_after_fees n v)) (unat v))))))"

fun each_text :: "('a \<Rightarrow> web_error + string) \<Rightarrow> 'a list \<Rightarrow> web_error + string list" where
  "each_text f [] = Inr []"
| "each_text f (x # xs) = (case f x of
      Inl err \<Rightarrow> Inl err
    | Inr s \<Rightarrow> (case each_text f xs of Inl err \<Rightarrow> Inl err | Inr ss \<Rightarrow> Inr (s # ss)))"

text \<open>
  \<open>clients\<close> lists the clients in the order in which the copy of the \<open>unordered_map\<close> of positions is run
  through, each once, which is the same order for both symbols.
\<close>

definition client_entries :: "u32 list \<Rightarrow> (u32 \<times> u32) list" where
  "client_entries clients = concat (map (\<lambda>y. map (Pair y) clients) WEB_SYMBOLS)"

definition jsonify_snapshot :: "int \<Rightarrow> u32 list \<Rightarrow> md_client \<Rightarrow> clearing_client \<Rightarrow> web_error + string" where
  "jsonify_snapshot time clients md k =
    (case each_text (\<lambda>(y, c). client_text md k y c) (client_entries clients) of
       Inl err \<Rightarrow> Inl err
     | Inr ps \<Rightarrow> Inr (''{ '' @ key ''timestamp'' @ show_int time @ '',''
         @ '' '' @ key ''snapshot'' @ ''['' @ commas (map (symbol_text md) WEB_SYMBOLS)
         @ ''], '' @ key ''positions'' @ ''['' @ commas ps @ '']}''))"

section \<open>The program\<close>

text \<open>
  The browsers' connections are a set of handles; a handle is a number here, and the set is run through
  in the order of the numbers.  The library's thread inserts and erases handles while the main
  loop runs through the set, which C++ leaves undefined; in the model these are steps of their own,
  between the rounds of the loop.
\<close>

type_synonym connection = nat

datatype con_answer = Expired | NotOpen | SendFails | Sends

record web_round_input =
  wr_clearing :: recv_answer
  wr_now :: int
  wr_stamp :: int
  wr_clients :: "u32 list"
  wr_answer :: "connection \<Rightarrow> con_answer"

datatype web_event = OpenHandler connection | CloseHandler connection | Round web_round_input

record web_data =
  wd_connections :: "connection list"
  wd_clearing :: "u8 list \<times> clearing_client"
  wd_md :: md_client
  wd_last_published :: int
  wd_sent :: "(int \<times> string \<times> connection list) list"

text \<open>The exceptions of the library are caught for each connection, so the others get their text.\<close>

definition receivers :: "(connection \<Rightarrow> con_answer) \<Rightarrow> connection list \<Rightarrow> connection list" where
  "receivers answer hs = filter (\<lambda>h. answer h = Sends) hs"

definition web_publish :: "web_round_input \<Rightarrow> web_data \<Rightarrow> web_error + web_data" where
  "web_publish r w =
    (case jsonify_snapshot (wr_stamp r) (wr_clients r) (wd_md w) (snd (wd_clearing w)) of
       Inl err \<Rightarrow> Inl err
     | Inr json \<Rightarrow> Inr (w\<lparr>wd_last_published := wr_now r,
         wd_sent := wd_sent w @ [(wr_now r, json, receivers (wr_answer r) (wd_connections w))]\<rparr>))"

text \<open>
  One round of the main loop.  The time is the steady clock's, in nanoseconds, and is converted to
  whole milliseconds.  An exception ends the program.
\<close>

definition web_round :: "md_env \<Rightarrow> web_round_input \<Rightarrow> web_data \<Rightarrow> (web_error + web_data) option" where
  "web_round e r w =
    (case process_md e (wd_md w) of
       None \<Rightarrow> None
     | Some (Inl err) \<Rightarrow> Some (Inl (WebMarketData err))
     | Some (Inr md) \<Rightarrow>
         (case process_clearing (wr_clearing r) (wd_clearing w) of
            Inl err \<Rightarrow> Some (Inl (WebClearing err))
          | Inr bk \<Rightarrow>
              (let w = w\<lparr>wd_md := md, wd_clearing := bk\<rparr>
               in if 100 < (wr_now r - wd_last_published w) div 1000000
                  then Some (web_publish r w) else Some (Inr w))))"

fun web_step :: "md_env \<Rightarrow> web_event \<Rightarrow> web_data \<Rightarrow> (web_error + web_data) option" where
  "web_step e (OpenHandler h) w = Some (Inr (w\<lparr>wd_connections := insort_insert h (wd_connections w)\<rparr>))"
| "web_step e (CloseHandler h) w = Some (Inr (w\<lparr>wd_connections := removeAll h (wd_connections w)\<rparr>))"
| "web_step e (Round r) w = web_round e r w"

fun web_run :: "md_env \<Rightarrow> web_event list \<Rightarrow> web_data \<Rightarrow> (web_error + web_data) option" where
  "web_run e [] w = Some (Inr w)"
| "web_run e (v # vs) w = (case web_step e v w of
      None \<Rightarrow> None
    | Some (Inl err) \<Rightarrow> Some (Inl err)
    | Some (Inr w) \<Rightarrow> web_run e vs w)"

text \<open>
  The start: the clearing client hears nothing until the market data client has its snapshot.
  Browsers that connect meanwhile are in \<open>opened\<close>.
\<close>

definition web_start :: "md_env \<Rightarrow> u8 list \<Rightarrow> connection list \<Rightarrow> int \<Rightarrow> (web_error + web_data) option" where
  "web_start e buf opened now =
    (case wait_for_snapshot e (new_md_client True) of
       None \<Rightarrow> None
     | Some (Inl err) \<Rightarrow> Some (Inl (WebMarketData err))
     | Some (Inr md) \<Rightarrow> Some (Inr \<lparr>wd_connections = fold insort_insert opened [], wd_clearing = (buf, new_clearing_client), wd_md = md,
         wd_last_published = now, wd_sent = []\<rparr>))"

end
