(* ===== verification/Web_Props.thy ===== *)
theory Web_Props imports
  Web_Page
begin

text \<open>
  Properties of the web page: the ledgers always have the same entries, so that no lookup throws; the
  text is JSON and shows the positions; and the pages reach the browsers.
\<close>

section \<open>JSON\<close>

text \<open>The grammar of JSON, with the value that a text stands for; of white space, blanks are enough.\<close>

datatype json = Num rat | Obj "(string \<times> json) list" | Arr "json list"

definition plain_char :: "char \<Rightarrow> bool" where
  "plain_char c \<longleftrightarrow> c \<noteq> CHR 0x22 \<and> c \<noteq> CHR 0x5C \<and> 32 \<le> (of_char c :: nat)"

inductive json_text :: "json \<Rightarrow> string \<Rightarrow> bool"
  and json_members :: "(string \<times> json) list \<Rightarrow> string \<Rightarrow> bool"
  and json_elements :: "json list \<Rightarrow> string \<Rightarrow> bool" where
  num: "json_number v s \<Longrightarrow> json_text (Num v) s"
| obj: "json_members ms s \<Longrightarrow> json_text (Obj ms) (''{'' @ s @ ''}'')"
| arr: "json_elements js s \<Longrightarrow> json_text (Arr js) (''['' @ s @ '']'')"
| blank: "json_text j s \<Longrightarrow> json_text j ('' '' @ s)"
| no_member: "json_members [] []"
| one_member: "list_all plain_char k \<Longrightarrow> json_text j s \<Longrightarrow>
    json_members [(k, j)] (CHR 0x22 # k @ CHR 0x22 # '':'' @ s)"
| more_members: "json_members [m] s \<Longrightarrow> json_members ms t \<Longrightarrow> ms \<noteq> [] \<Longrightarrow> json_members (m # ms) (s @ '','' @ t)"
| blank_member: "json_members ms s \<Longrightarrow> json_members ms ('' '' @ s)"
| no_element: "json_elements [] []"
| one_element: "json_text j s \<Longrightarrow> json_elements [j] s"
| more_elements: "json_text j s \<Longrightarrow> json_elements js t \<Longrightarrow> js \<noteq> [] \<Longrightarrow> json_elements (j # js) (s @ '','' @ t)"

lemma json_key: "list_all plain_char k \<Longrightarrow> json_text j s \<Longrightarrow> json_members [(k, j)] (key k @ s)"
  using json_text_json_members_json_elements.one_member [OF _ json_text_json_members_json_elements.blank]
  by (simp add: key_def)

lemma json_next_key:
  assumes "list_all plain_char k" "json_text j s" "json_members ms t" "ms \<noteq> []"
  shows "json_members ((k, j) # ms) (key k @ s @ '', '' @ t)"
  using json_text_json_members_json_elements.more_members [OF json_key [OF assms(1,2)]
      json_text_json_members_json_elements.blank_member [OF assms(3)] assms(4)] by simp

lemma json_commas: "list_all2 json_text js ss \<Longrightarrow> json_elements js (commas ss)"
proof (induction ss arbitrary: js rule: commas.induct)
  case 1
  then show ?case by (simp add: json_text_json_members_json_elements.no_element)
next
  case (2 s)
  then show ?case by (auto simp: list_all2_Cons2 intro: json_text_json_members_json_elements.one_element)
next
  case (3 s s' ss)
  from "3.prems" obtain j js' where js: "js = j # js'" "json_text j s" "list_all2 json_text js' (s' # ss)"
    by (auto simp: list_all2_Cons2)
  then have "js' \<noteq> []" by auto
  with json_text_json_members_json_elements.more_elements [OF js(2) "3.IH" [OF js(3)]] js(1) show ?case by simp
qed

lemma plain_names [simp]:
  "list_all plain_char ''symbol''" "list_all plain_char ''best_bid''" "list_all plain_char ''best_ask''"
  "list_all plain_char ''client_id''" "list_all plain_char ''position''" "list_all plain_char ''pnl''"
  "list_all plain_char ''volume''" "list_all plain_char ''timestamp''" "list_all plain_char ''snapshot''"
  "list_all plain_char ''positions''"
  by (simp_all add: plain_char_def)

lemma json_int: "json_text (Num (of_int n)) (show_int n)"
  by (intro json_text_json_members_json_elements.num json_show_int)

lemma json_nat: "json_text (Num (of_nat n)) (show_nat n)"
  by (intro json_text_json_members_json_elements.num json_show_nat)

section \<open>What the page says\<close>

definition prices_json :: "md_client \<Rightarrow> u32 \<Rightarrow> json" where
  "prices_json md y = Obj [(''symbol'', Num (of_nat (unat y))),
     (''best_bid'', Num (of_int (i32_val (opl_price (client_best_bid y md))))),
     (''best_ask'', Num (of_int (i32_val (opl_price (client_best_ask y md)))))]"

definition client_position :: "clearing_client \<Rightarrow> u32 \<Rightarrow> u32 \<Rightarrow> int" where
  "client_position k c y = i32_val (ledger_at (I32 0) (get_positions k) c y)"

definition client_volume :: "clearing_client \<Rightarrow> u32 \<Rightarrow> u32 \<Rightarrow> nat" where
  "client_volume k c y = unat (ledger_at 0 (get_volume k) c y)"

text \<open>The profit at the market, before fees, and what of it has to be a number of type \<open>int\<close>.\<close>

definition market_value :: "md_client \<Rightarrow> clearing_client \<Rightarrow> u32 \<Rightarrow> u32 \<Rightarrow> int" where
  "market_value md k c y = client_position k c y *
     i32_val (opl_price (if 0 \<le> client_position k c y then client_best_bid y md else client_best_ask y md))"

lemma market_value_code:
  "market_value md k c y = i32_val (market_price md y (ledger_at (I32 0) (get_positions k) c y)) *
     i32_val (ledger_at (I32 0) (get_positions k) c y)"
  by (simp add: market_value_def market_price_def client_position_def)

definition gross_profit :: "md_client \<Rightarrow> clearing_client \<Rightarrow> u32 \<Rightarrow> u32 \<Rightarrow> int" where
  "gross_profit md k c y = i32_val (ledger_at (I32 0) (get_raw_pnl k) c y) + market_value md k c y"

definition mark_fits :: "md_client \<Rightarrow> clearing_client \<Rightarrow> u32 \<Rightarrow> u32 \<Rightarrow> bool" where
  "mark_fits md k c y \<longleftrightarrow> is_int (market_value md k c y) \<and> is_int (gross_profit md k c y)"

text \<open>The profit that is shown is close to the gross profit less five cents for each share traded.\<close>

definition close_profit :: "rat \<Rightarrow> int \<Rightarrow> nat \<Rightarrow> bool" where
  "close_profit w n v \<longleftrightarrow>
     \<bar>w - (of_int n - of_nat v / 20)\<bar> \<le> \<bar>of_int n - of_nat v / 20\<bar> / 200000 + 1 / 1000000"

definition shows_client_entry :: "md_client \<Rightarrow> clearing_client \<Rightarrow> u32 \<times> u32 \<Rightarrow> json \<Rightarrow> bool" where
  "shows_client_entry md k yc j \<longleftrightarrow> (case yc of (y, c) \<Rightarrow>
     \<exists>w. j = Obj [(''client_id'', Num (of_nat (unat c))), (''symbol'', Num (of_nat (unat y))),
         (''position'', Num (of_int (client_position k c y))), (''pnl'', Num w),
         (''volume'', Num (of_nat (client_volume k c y)))] \<and>
       close_profit w (gross_profit md k c y) (client_volume k c y))"

definition page :: "int \<Rightarrow> md_client \<Rightarrow> json list \<Rightarrow> json" where
  "page time md es = Obj [(''timestamp'', Num (of_int time)),
     (''snapshot'', Arr (map (prices_json md) WEB_SYMBOLS)), (''positions'', Arr es)]"

lemma json_symbol_text: "json_text (prices_json md y) (symbol_text md y)"
proof -
  have "json_members [(''symbol'', Num (of_nat (unat y))),
      (''best_bid'', Num (of_int (i32_val (opl_price (client_best_bid y md))))),
      (''best_ask'', Num (of_int (i32_val (opl_price (client_best_ask y md)))))]
    (key ''symbol'' @ show_nat (unat y) @ '', '' @ key ''best_bid'' @ show_int (i32_val (opl_price (client_best_bid y md)))
      @ '', '' @ key ''best_ask'' @ show_int (i32_val (opl_price (client_best_ask y md))))"
    by (rule json_next_key json_key json_nat json_int plain_names)+ simp_all
  from json_text_json_members_json_elements.obj [OF this] show ?thesis
    by (simp add: prices_json_def symbol_text_def)
qed

lemma json_position_text:
  assumes "json_number w pnl"
  shows "json_text (Obj [(''client_id'', Num (of_nat (unat c))), (''symbol'', Num (of_nat (unat y))),
      (''position'', Num (of_int (i32_val x))), (''pnl'', Num w), (''volume'', Num (of_nat v))]) (position_text c y x pnl v)"
proof -
  have "json_members [(''client_id'', Num (of_nat (unat c))), (''symbol'', Num (of_nat (unat y))),
      (''position'', Num (of_int (i32_val x))), (''pnl'', Num w), (''volume'', Num (of_nat v))]
    (key ''client_id'' @ show_nat (unat c) @ '', '' @ key ''symbol'' @ show_nat (unat y) @ '', '' @ key ''position''
      @ show_int (i32_val x) @ '', '' @ key ''pnl'' @ pnl @ '', '' @ key ''volume'' @ show_nat v)"
    by (rule json_next_key json_key json_nat json_int plain_names
        json_text_json_members_json_elements.num assms)+ simp_all
  from json_text_json_members_json_elements.obj [OF this] show ?thesis
    by (simp add: position_text_def)
qed

section \<open>The shape of the ledgers\<close>

text \<open>The client and symbol pairs of a ledger.  No client is in a ledger without a symbol.\<close>

definition entries :: "'a ledger \<Rightarrow> (u32 \<times> u32) set" where
  "entries m = {(c, y). \<exists>row x. m c = Some row \<and> row y = Some x}"

definition ledgers_match :: "clearing_client \<Rightarrow> bool" where
  "ledgers_match k \<longleftrightarrow> entries (cc_raw_pnl k) = entries (cc_positions k) \<and> entries (cc_volume k) = entries (cc_positions k) \<and>
     entries (cc_total_buy k) = entries (cc_positions k) \<and> entries (cc_total_sell k) = entries (cc_positions k) \<and>
     fst ` entries (cc_positions k) = dom (cc_positions k)"

lemma entries_upd [simp]: "entries (entry_upd z c y f m) = insert (c, y) (entries m)"
  by (auto simp: entries_def entry_upd_def subscript_def Let_def split: option.splits if_splits)

lemma dom_upd [simp]: "dom (entry_upd z c y f m) = insert c (dom m)"
  by (auto simp: entry_upd_def Let_def)

lemma new_ledgers_match: "ledgers_match new_clearing_client"
  by (simp add: ledgers_match_def new_clearing_client_def entries_def)

lemma book_fill_matches: "ledgers_match k \<Longrightarrow> ledgers_match (book_fill f k)"
  by (cases "fl_side f") (auto simp: book_fill_def Let_def bought_def sold_def booked_def ledgers_match_def)

lemma process_clearing_matches:
  assumes "ledgers_match (snd bk)" "process_clearing a bk = Inr bk'"
  shows "ledgers_match (snd bk')"
proof -
  have seq: "ledgers_match (k\<lparr>cc_last_seq := n\<rparr>) = ledgers_match k" for k n by (simp add: ledgers_match_def)
  have "ledgers_match k'" if "hear_clearing buf n (snd bk) = Inr k'" for buf n k'
    using that assms(1) by (auto simp: hear_clearing_def Let_def seq split: if_splits intro!: book_fill_matches)
  then show ?thesis using assms by (cases a) (auto simp: process_clearing_def Let_def map_sum_def split: sum.splits)
qed

lemma no_entry:
  assumes "(c, y) \<notin> entries m"
  shows "ledger_at z m c y = z" "(case m c of None \<Rightarrow> None | Some row \<Rightarrow> row y) = None"
  using assms by (auto simp: entries_def ledger_at_def subscript_def split: option.split)

lemma some_entry:
  assumes "(c, y) \<in> entries m"
  shows "ledger_get m c y = Inr (ledger_at z m c y)"
    "(case m c of None \<Rightarrow> None | Some row \<Rightarrow> row y) = Some (ledger_at z m c y)"
  using assms by (auto simp: entries_def ledger_at_def ledger_get_def subscript_def)

section \<open>The page\<close>

lemma client_text_shows:
  assumes "ledgers_match k"
  shows "if mark_fits md k c y
    then \<exists>s j. client_text md k y c = Inr s \<and> json_text j s \<and> shows_client_entry md k (y, c) j
    else client_text md k y c = Inl MarkOverflow"
proof -
  let ?x = "ledger_at (I32 0) (cc_positions k) c y" and ?v = "ledger_at 0 (cc_volume k) c y"
    and ?raw = "ledger_at (I32 0) (cc_raw_pnl k) c y"
  have same: "(c, y) \<in> entries (cc_raw_pnl k) \<longleftrightarrow> (c, y) \<in> entries (cc_positions k)"
    "(c, y) \<in> entries (cc_volume k) \<longleftrightarrow> (c, y) \<in> entries (cc_positions k)"
    using assms by (simp_all add: ledgers_match_def)
  have shown: "\<exists>j. json_text j (position_text c y ?x pnl (unat ?v)) \<and> shows_client_entry md k (y, c) j"
    if "json_number w pnl" "close_profit w (gross_profit md k c y) (unat ?v)" for w pnl
    using json_position_text [OF that(1), of c y ?x "unat ?v"] that(2)
    unfolding shows_client_entry_def client_position_def client_volume_def get_positions_def get_volume_def by blast
  show ?thesis
  proof (cases "(c, y) \<in> entries (cc_positions k)")
    case False
    have zero: "?x = I32 0" "?v = 0" "?raw = I32 0" using False same by (simp_all add: no_entry(1))
    have fits: "mark_fits md k c y" "gross_profit md k c y = 0"
      by (simp_all add: mark_fits_def is_int_def gross_profit_def market_value_def client_position_def get_positions_def
          get_raw_pnl_def zero)
    have "json_number 0 ''0''"
      using json_number.whole [of "''0''"] by (simp add: whole_number_def digit_char_def)
    from shown [OF this] have "\<exists>j. json_text j (position_text c y (I32 0) ''0'' 0) \<and> shows_client_entry md k (y, c) j"
      by (simp add: zero fits close_profit_def)
    moreover have "client_text md k y c = Inr (position_text c y (I32 0) ''0'' 0)"
      by (simp add: client_text_def get_positions_def no_entry(2) [OF False])
    ultimately show ?thesis using fits by simp
  next
    case True
    note here = some_entry(1) [of c y "cc_raw_pnl k" "I32 0", unfolded same, OF True]
      some_entry(1) [of c y "cc_volume k" 0, unfolded same, OF True] some_entry(2) [OF True, of "I32 0"]
    let ?n = "gross_profit md k c y"
    have mark: "marked ?raw (market_price md y ?x) ?x = (if mark_fits md k c y then Inr ?n else Inl MarkOverflow)"
      by (simp add: marked_def Let_def mark_fits_def gross_profit_def market_value_code get_positions_def get_raw_pnl_def)
    show ?thesis
    proof (cases "mark_fits md k c y")
      case fits: True
      then have "- (2 ^ 31) \<le> ?n" "?n < 2 ^ 31" by (simp_all add: mark_fits_def is_int_def)
      then obtain w where w: "json_number w (show_double (profit_after_fees ?n ?v))" "close_profit w ?n (unat ?v)"
        unfolding close_profit_def by (rule shown_profit_is_close [of ?n ?v])
      from shown [OF this] fits show ?thesis
        by (auto simp: client_text_def get_positions_def get_raw_pnl_def get_volume_def here mark)
    next
      case False
      then show ?thesis by (simp add: client_text_def get_positions_def get_raw_pnl_def get_volume_def here mark)
    qed
  qed
qed

lemma each_text_shows:
  assumes "\<And>x. x \<in> set xs \<Longrightarrow> if F x then \<exists>s j. f x = Inr s \<and> json_text j s \<and> P x j else f x = Inl err"
  shows "if \<forall>x \<in> set xs. F x
    then \<exists>ss js. each_text f xs = Inr ss \<and> list_all2 json_text js ss \<and> list_all2 P xs js
    else each_text f xs = Inl err"
  using assms
proof (induction xs)
  case (Cons x xs)
  have tail: "if \<forall>x \<in> set xs. F x
    then \<exists>ss js. each_text f xs = Inr ss \<and> list_all2 json_text js ss \<and> list_all2 P xs js
    else each_text f xs = Inl err"
    by (rule Cons.IH) (rule Cons.prems, simp)
  show ?case
  proof (cases "F x")
    case True
    then obtain s j where x: "f x = Inr s" "json_text j s" "P x j" using Cons.prems [of x] by auto
    show ?thesis
    proof (cases "\<forall>x \<in> set xs. F x")
      case all: True
      then obtain ss js where "each_text f xs = Inr ss" "list_all2 json_text js ss" "list_all2 P xs js" using tail by auto
      then show ?thesis using True all x by (auto intro!: exI [of _ "j # js"])
    next
      case False
      then show ?thesis using tail x by auto
    qed
  next
    case False
    then show ?thesis using Cons.prems [of x] by auto
  qed
qed simp

lemma json_page:
  assumes "list_all2 json_text js ss"
  shows "json_text (page time md js) (''{ '' @ key ''timestamp'' @ show_int time @ '','' @ '' '' @ key ''snapshot''
    @ ''['' @ commas (map (symbol_text md) WEB_SYMBOLS) @ ''], '' @ key ''positions'' @ ''['' @ commas ss @ '']}'')"
proof -
  have "list_all2 json_text (map (prices_json md) WEB_SYMBOLS) (map (symbol_text md) WEB_SYMBOLS)"
    by (simp add: list_all2_map1 list_all2_map2 list_all2_same json_symbol_text)
  note arrays = json_text_json_members_json_elements.arr [OF json_commas [OF this]]
    json_text_json_members_json_elements.arr [OF json_commas [OF assms]]
  note members = json_next_key [OF plain_names(9) arrays(1) json_key [OF plain_names(10) arrays(2)]]
  have "json_members [(''snapshot'', Arr (map (prices_json md) WEB_SYMBOLS)), (''positions'', Arr js)]
    (key ''snapshot'' @ ''['' @ commas (map (symbol_text md) WEB_SYMBOLS) @ ''], '' @ key ''positions'' @ ''['' @ commas ss @ '']'')"
    using members by simp
  from json_text_json_members_json_elements.more_members [OF json_key [OF plain_names(8) json_int]
      json_text_json_members_json_elements.blank_member [OF this], of time]
  have "json_members [(''timestamp'', Num (of_int time)), (''snapshot'', Arr (map (prices_json md) WEB_SYMBOLS)), (''positions'', Arr js)]
    ('' '' @ key ''timestamp'' @ show_int time @ '','' @ '' '' @ key ''snapshot'' @ ''['' @ commas (map (symbol_text md) WEB_SYMBOLS)
      @ ''], '' @ key ''positions'' @ ''['' @ commas ss @ '']'')"
    by (intro json_text_json_members_json_elements.blank_member) simp
  from json_text_json_members_json_elements.obj [OF this] show ?thesis by (simp add: page_def)
qed

text \<open>The web program from its start keeps the shape.\<close>

lemma web_run_matches:
  "web_run e vs w = Some (Inr w') \<Longrightarrow> ledgers_match (snd (wd_clearing w)) \<Longrightarrow> ledgers_match (snd (wd_clearing w'))"
proof (induction vs arbitrary: w)
  case (Cons v vs)
  obtain w1 where w1: "web_step e v w = Some (Inr w1)" "web_run e vs w1 = Some (Inr w')"
    using Cons.prems(1) by (auto split: option.splits sum.splits)
  have "ledgers_match (snd (wd_clearing w1))"
    using w1(1) Cons.prems(2) process_clearing_matches [of "wd_clearing w" _ "(_, _)", simplified]
    by (cases v) (auto simp: web_round_def web_publish_def Let_def split: option.splits sum.splits if_splits)
  from Cons.IH [OF w1(2) this] show ?case .
qed simp

text \<open>C36: in every state that the web program reaches, the page is a JSON text with the best prices of
  both symbols and one entry for each client and symbol, which has the client's position and volume
  and a profit that is, to six digits, the turnover and the position at the market's price less five
  cents a share; no lookup in the ledgers ever throws.  Only a position whose value at the market is
  beyond the \<open>int\<close>s leaves the page undefined.
\<close>

theorem page_shows_positions:
  assumes "snd (wd_clearing w0) = new_clearing_client" "web_run e vs w0 = Some (Inr w)"
  shows "let md = wd_md w; k = snd (wd_clearing w) in
    if \<forall>(y, c) \<in> set (client_entries cs). mark_fits md k c y
    then \<exists>text js. jsonify_snapshot time cs md k = Inr text \<and> json_text (page time md js) text \<and>
      list_all2 (shows_client_entry md k) (client_entries cs) js
    else jsonify_snapshot time cs md k = Inl MarkOverflow"
proof -
  let ?md = "wd_md w" and ?k = "snd (wd_clearing w)"
  have k: "ledgers_match ?k" using web_run_matches [OF assms(2)] assms(1) new_ledgers_match by simp
  have one: "if case x of (y, c) \<Rightarrow> mark_fits ?md ?k c y
    then \<exists>s j. (case x of (y, c) \<Rightarrow> client_text ?md ?k y c) = Inr s \<and> json_text j s \<and> shows_client_entry ?md ?k x j
    else (case x of (y, c) \<Rightarrow> client_text ?md ?k y c) = Inl MarkOverflow" for x
  proof (cases x)
    case (Pair y c)
    show ?thesis unfolding Pair prod.case by (rule client_text_shows [OF k])
  qed
  note each = each_text_shows [where xs = "client_entries cs" and F = "\<lambda>(y, c). mark_fits ?md ?k c y"
      and f = "\<lambda>(y, c). client_text ?md ?k y c" and P = "shows_client_entry ?md ?k" and err = MarkOverflow, OF one]
  show ?thesis
  proof (cases "\<forall>(y, c) \<in> set (client_entries cs). mark_fits ?md ?k c y")
    case True
    then obtain ss js where ss: "each_text (\<lambda>(y, c). client_text ?md ?k y c) (client_entries cs) = Inr ss"
      "list_all2 json_text js ss" "list_all2 (shows_client_entry ?md ?k) (client_entries cs) js"
      using each by auto
    show ?thesis
      unfolding Let_def if_P [OF True] using ss(1,3) json_page [OF ss(2)] by (auto simp: jsonify_snapshot_def)
  next
    case False
    with each have "each_text (\<lambda>(y, c). client_text ?md ?k y c) (client_entries cs) = Inl MarkOverflow"
      by (simp only: if_False)
    then have "jsonify_snapshot time cs ?md ?k = Inl MarkOverflow" by (simp add: jsonify_snapshot_def)
    with False show ?thesis by (simp only: Let_def if_False)
  qed
qed

definition quiet_md :: md_env where
  "quiet_md = \<lparr>me_live = (\<lambda>_. NothingYet), me_snapshot = (\<lambda>_. NothingYet), me_leaves_group = True, me_freed = (\<lambda>x. x)\<rparr>"

definition first_web :: web_data where
  "first_web = \<lparr>wd_connections = [], wd_clearing = ([], new_clearing_client), wd_md = new_md_client True,
     wd_last_published = 0, wd_sent = []\<rparr>"

definition first_fill :: fill where "first_fill = numbered_fill 1 (3, 1, 10, i32_of_int 100, BUY)"

definition fill_round :: web_round_input where
  "fill_round = \<lparr>wr_clearing = Received (encode_fill first_fill), wr_now = 0, wr_stamp = 0, wr_clients = [3],
     wr_answer = (\<lambda>h. if h = 7 then Sends else Expired)\<rparr>"

lemma quiet_process: "process_md quiet_md c = Some (Inr (c\<lparr>mc_live_reads := mc_live_reads c + 1\<rparr>))"
  by (simp add: process_md_def quiet_md_def)

lemma fill_round_clearing:
  "process_clearing (Received (encode_fill first_fill)) ([], new_clearing_client)
    = Inr (encode_fill first_fill, book_fill first_fill (new_clearing_client\<lparr>cc_last_seq := 1\<rparr>))"
  using hear_fill [of "(3, 1, 10, i32_of_int 100, BUY)" new_clearing_client 0 "[]"]
  by (simp add: first_fill_def new_clearing_client_def)

lemma page_shows_positions_witness:
  "\<exists>w text js. web_run quiet_md [OpenHandler 7, Round fill_round] first_web = Some (Inr w) \<and>
     jsonify_snapshot 5 [3] (wd_md w) (snd (wd_clearing w)) = Inr text \<and> json_text (page 5 (wd_md w) js) text \<and>
     client_position (snd (wd_clearing w)) 3 1 = 10"
proof -
  let ?w = "first_web\<lparr>wd_connections := [7], wd_md := (new_md_client True)\<lparr>mc_live_reads := 1\<rparr>,
    wd_clearing := (encode_fill first_fill, book_fill first_fill (new_clearing_client\<lparr>cc_last_seq := 1\<rparr>))\<rparr>"
  have run: "web_run quiet_md [OpenHandler 7, Round fill_round] first_web = Some (Inr ?w)"
    by (simp add: web_round_def quiet_process first_web_def fill_round_def fill_round_clearing insort_insert_key_def
        new_md_client_def)
  have bid: "opl_price (client_best_bid y (new_md_client True\<lparr>mc_live_reads := n\<rparr>)) = I32 0"
    "opl_price (client_best_ask y (new_md_client True\<lparr>mc_live_reads := n\<rparr>)) = I32 0" for y n
    by (simp_all add: client_best_bid_def client_best_ask_def new_md_client_def)
  have raw: "ledger_at (I32 0) (cc_raw_pnl (snd (wd_clearing ?w))) 3 y = I32 (if y = 1 then - 1000 else 0)" for y
    by (simp add: book_fill_def booked_def bought_def first_fill_def new_clearing_client_def i32_of_int_def)
  have fits: "\<forall>(y, c) \<in> set (client_entries [3]). mark_fits (wd_md ?w) (snd (wd_clearing ?w)) c y"
    by (simp add: client_entries_def WEB_SYMBOLS_def mark_fits_def market_value_def market_price_def bid is_int_def
        gross_profit_def get_raw_pnl_def raw [simplified])
  have pos: "client_position (snd (wd_clearing ?w)) 3 1 = 10"
    by (simp add: client_position_def get_positions_def book_fill_def booked_def bought_def first_fill_def
        new_clearing_client_def add_i32_def)
  have "snd (wd_clearing first_web) = new_clearing_client" by (simp add: first_web_def)
  from page_shows_positions [OF this run, of "[3]" 5, unfolded Let_def if_P [OF fits]] run pos show ?thesis by blast
qed

section \<open>Pages and browsers\<close>

text \<open>A browser is connected when it has opened its connection and not closed it since.\<close>

definition connected :: "web_event list \<Rightarrow> connection \<Rightarrow> bool" where
  "connected vs h \<longleftrightarrow> (\<exists>us ws. vs = us @ OpenHandler h # ws \<and> CloseHandler h \<notin> set ws)"

definition spaced :: "(int \<times> string \<times> connection list) list \<Rightarrow> bool" where
  "spaced ps \<longleftrightarrow> sorted_wrt (\<lambda>p q. fst p + 101 * 10 ^ 6 \<le> fst q) ps"

lemma connected_snoc:
  "connected (vs @ [v]) h \<longleftrightarrow> v = OpenHandler h \<or> connected vs h \<and> v \<noteq> CloseHandler h"
proof
  assume "connected (vs @ [v]) h"
  then obtain us ws where split: "vs @ [v] = us @ OpenHandler h # ws" "CloseHandler h \<notin> set ws"
    by (auto simp: connected_def)
  then show "v = OpenHandler h \<or> connected vs h \<and> v \<noteq> CloseHandler h"
    by (cases ws rule: rev_cases) (auto simp: connected_def)
next
  assume "v = OpenHandler h \<or> connected vs h \<and> v \<noteq> CloseHandler h"
  then show "connected (vs @ [v]) h"
  proof
    assume "connected vs h \<and> v \<noteq> CloseHandler h"
    then obtain us ws where "vs = us @ OpenHandler h # ws" "CloseHandler h \<notin> set ws" "v \<noteq> CloseHandler h"
      by (auto simp: connected_def)
    then show ?thesis unfolding connected_def by (intro exI [of _ us] exI [of _ "ws @ [v]"]) auto
  next
    assume "v = OpenHandler h"
    then show ?thesis unfolding connected_def by (intro exI [of _ vs] exI [of _ "[]"]) simp
  qed
qed

text \<open>What holds between the events.\<close>

definition web_ok :: "web_event list \<Rightarrow> web_data \<Rightarrow> bool" where
  "web_ok vs w \<longleftrightarrow> sorted (wd_connections w) \<and> distinct (wd_connections w) \<and>
     set (wd_connections w) = {h. connected vs h} \<and> spaced (wd_sent w) \<and>
     list_all (\<lambda>p. fst p \<le> wd_last_published w) (wd_sent w)"

definition published :: "web_round_input \<Rightarrow> web_data \<Rightarrow> web_data \<Rightarrow> bool" where
  "published r w w' \<longleftrightarrow> wd_connections w' = wd_connections w \<and>
    (if 101 * 10 ^ 6 \<le> wr_now r - wd_last_published w
     then wd_last_published w' = wr_now r \<and>
       (\<exists>json. jsonify_snapshot (wr_stamp r) (wr_clients r) (wd_md w') (snd (wd_clearing w')) = Inr json \<and>
         wd_sent w' = wd_sent w @ [(wr_now r, json, receivers (wr_answer r) (wd_connections w))])
     else wd_last_published w' = wd_last_published w \<and> wd_sent w' = wd_sent w)"

lemma web_round_published: "web_round e r w = Some (Inr w') \<Longrightarrow> published r w w'"
proof -
  assume run: "web_round e r w = Some (Inr w')"
  have ms: "100 < n div 1000000 \<longleftrightarrow> 101 * 10 ^ 6 \<le> n" for n :: int
  proof -
    have "n = 1000000 * (n div 1000000) + n mod 1000000" "0 \<le> n mod 1000000" "n mod 1000000 < 1000000" by simp_all
    then show ?thesis by (auto; linarith)
  qed
  from run obtain md bk where md: "process_md e (wd_md w) = Some (Inr md)"
    and bk: "process_clearing (wr_clearing r) (wd_clearing w) = Inr bk"
    by (auto simp: web_round_def split: option.splits sum.splits)
  show ?thesis
  proof (cases "101 * 10 ^ 6 \<le> wr_now r - wd_last_published w")
    case True
    with run show ?thesis
      by (auto simp: web_round_def md bk ms Let_def web_publish_def published_def split: sum.splits)
  next
    case False
    with run show ?thesis by (auto simp: web_round_def md bk ms Let_def published_def)
  qed
qed

lemma published_ok:
  assumes pub: "published r w w'" and w: "web_ok vs w"
  shows "web_ok (vs @ [Round r]) w'"
proof (cases "101 * 10 ^ 6 \<le> wr_now r - wd_last_published w")
  case True
  have late: "fst p + 101 * 10 ^ 6 \<le> wr_now r" if "p \<in> set (wd_sent w)" for p
  proof -
    have "fst p \<le> wd_last_published w" using w that by (simp add: web_ok_def list_all_iff)
    then show ?thesis using True by linarith
  qed
  have "list_all (\<lambda>p. fst p \<le> wr_now r) (wd_sent w)" using late by (force simp: list_all_iff)
  moreover have "spaced (wd_sent w @ [(wr_now r, json, hs)])" for json hs
    using w late by (simp add: web_ok_def spaced_def sorted_wrt_append)
  ultimately show ?thesis using pub w True by (auto simp: published_def web_ok_def connected_snoc)
next
  case False
  then show ?thesis using pub w by (simp add: published_def web_ok_def connected_snoc)
qed

lemma web_step_ok: "web_step e v w = Some (Inr w') \<Longrightarrow> web_ok vs w \<Longrightarrow> web_ok (vs @ [v]) w'"
proof (cases v)
  case (OpenHandler h)
  then show "web_step e v w = Some (Inr w') \<Longrightarrow> web_ok vs w \<Longrightarrow> web_ok (vs @ [v]) w'"
    by (auto simp: web_ok_def connected_snoc sorted_insort_insert distinct_insort_insert set_insort_insert)
next
  case (CloseHandler h)
  then show "web_step e v w = Some (Inr w') \<Longrightarrow> web_ok vs w \<Longrightarrow> web_ok (vs @ [v]) w'"
    by (auto simp: web_ok_def connected_snoc removeAll_filter_not_eq sorted_wrt_filter)
next
  case (Round r)
  then show "web_step e v w = Some (Inr w') \<Longrightarrow> web_ok vs w \<Longrightarrow> web_ok (vs @ [v]) w'"
    by (auto intro: published_ok web_round_published)
qed

lemma web_run_ok: "web_run e vs w = Some (Inr w') \<Longrightarrow> web_ok us w \<Longrightarrow> web_ok (us @ vs) w'"
proof (induction vs arbitrary: w us)
  case (Cons v vs)
  obtain w1 where w1: "web_step e v w = Some (Inr w1)" "web_run e vs w1 = Some (Inr w')"
    using Cons.prems(1) by (auto split: option.splits sum.splits)
  from Cons.IH [OF w1(2) web_step_ok [OF w1(1) Cons.prems(2)]] show ?case by simp
qed simp

text \<open>C37: a round of the web program sends a page exactly when more than 100 milliseconds have gone since
  the last one; the page is that of the clients' state after the round's messages, and it is handed to
  every browser that is connected then and takes it, to each once, whatever the other connections
  answer.  So all pages are at least 101 milliseconds apart.
\<close>

theorem browsers_get_pages:
  assumes "wd_connections w0 = []" "wd_sent w0 = []" "web_run e vs w0 = Some (Inr w)" "web_round e r w = Some (Inr w')"
  shows "(if 101 * 10 ^ 6 \<le> wr_now r - wd_last_published w
     then \<exists>json hs. jsonify_snapshot (wr_stamp r) (wr_clients r) (wd_md w') (snd (wd_clearing w')) = Inr json \<and>
       wd_sent w' = wd_sent w @ [(wr_now r, json, hs)] \<and> distinct hs \<and> set hs = {h. connected vs h \<and> wr_answer r h = Sends}
     else wd_sent w' = wd_sent w) \<and> spaced (wd_sent w')"
proof -
  have "web_ok [] w0" using assms(1,2) by (simp add: web_ok_def connected_def spaced_def)
  from web_run_ok [OF assms(3) this] have w: "web_ok vs w" by simp
  note pub = web_round_published [OF assms(4)]
  have "spaced (wd_sent w')" using published_ok [OF pub w] by (simp add: web_ok_def)
  moreover have "distinct (receivers (wr_answer r) (wd_connections w))"
    "set (receivers (wr_answer r) (wd_connections w)) = {h. connected vs h \<and> wr_answer r h = Sends}"
    using w by (auto simp: web_ok_def receivers_def)
  ultimately show ?thesis using pub unfolding published_def by (auto split: if_splits)
qed

definition late_round :: web_round_input where
  "late_round = fill_round\<lparr>wr_clearing := NothingYet, wr_now := 200000000, wr_clients := []\<rparr>"

lemma browsers_get_pages_witness:
  "\<exists>w w' json hs. web_run quiet_md [OpenHandler 7, OpenHandler 9] first_web = Some (Inr w) \<and>
     web_round quiet_md late_round w = Some (Inr w') \<and> wd_sent w' = [(200000000, json, hs)] \<and>
     set hs = {h. connected [OpenHandler 7, OpenHandler 9] h \<and> wr_answer late_round h = Sends}"
proof -
  let ?w = "first_web\<lparr>wd_connections := [7, 9]\<rparr>"
  have run: "web_run quiet_md [OpenHandler 7, OpenHandler 9] first_web = Some (Inr ?w)"
    by (simp add: first_web_def insort_insert_key_def)
  have "\<exists>w'. web_round quiet_md late_round ?w = Some (Inr w')"
    by (simp add: web_round_def quiet_process late_round_def fill_round_def process_clearing_def first_web_def Let_def
        web_publish_def jsonify_snapshot_def client_entries_def WEB_SYMBOLS_def)
  then obtain w' where w': "web_round quiet_md late_round ?w = Some (Inr w')" by blast
  have first: "wd_connections first_web = []" "wd_sent first_web = []" "wd_sent ?w = []"
    "101 * 10 ^ 6 \<le> wr_now late_round - wd_last_published ?w" "wr_now late_round = 200000000"
    by (simp_all add: first_web_def late_round_def)
  have "\<exists>json hs. wd_sent w' = [(200000000, json, hs)] \<and>
      set hs = {h. connected [OpenHandler 7, OpenHandler 9] h \<and> wr_answer late_round h = Sends}"
    using browsers_get_pages [OF first(1,2) run w', THEN conjunct1, unfolded if_P [OF first(4)]] first(3,5) by auto
  with run w' show ?thesis by blast
qed

end
