(* ===== verification/Sockets.thy ===== *)
theory Sockets imports
  Exchange
begin

text \<open>
  How the programs set up their sockets, and the start of the exchange process: the constructors of
  the publishers, of the server and of the clients (\<open>md_mcast.cpp\<close>, \<open>clearing_mcast.cpp\<close>, \<open>oe_server.cpp\<close>,
  \<open>md_client.cpp\<close>, \<open>clearing_client.cpp\<close>, \<open>snapshot_client.cpp\<close>, \<open>snapshot_writer.cpp\<close>), the beginning of
  \<open>print_snapshots.cpp\<close>, \<open>mcast_listener.cpp\<close>, and \<open>main\<close> of \<open>matching_engine.cpp\<close> and \<open>md_snapshots.cpp\<close>.
\<close>

section \<open>System calls\<close>

datatype socket_kind = Datagrams | Stream bool | Epoll

datatype socket_option =
    ReusePort int | ReuseAddr int | ReceiveBuffer int
  | MulticastIf u32 | MulticastLoop int | AddMembership u32 u32

datatype net_call =
    SocketCall socket_kind
  | GetFlags sock
  | SetFlags sock int
  | SetOption sock socket_option
  | BindCall sock u32 u16
  | ListenCall sock int
  | EpollAdd sock sock
  | ReadCall sock nat
  | CloseFd sock

text \<open>
  What the kernel knows of an open file descriptor.  A stream socket is made non-blocking by a flag of
  \<open>socket\<close>.  \<open>epoll_create1\<close> is \<open>SocketCall Epoll\<close>.
\<close>

record endpoint =
  ep_kind :: socket_kind
  ep_flags :: int
  ep_bound :: "(u32 \<times> u16) option"
  ep_options :: "socket_option list"
  ep_listening :: bool
  ep_watches :: "sock list"

record net =
  nt_calls :: "net_call list"
  nt_open :: "sock \<rightharpoonup> endpoint"

record net_env =
  ne_answer :: "net \<Rightarrow> net_call \<Rightarrow> int"
  ne_inet_addr :: "string \<Rightarrow> u32"

definition O_NONBLOCK :: int where "O_NONBLOCK = 2048"

definition new_endpoint :: "socket_kind \<Rightarrow> endpoint" where
  "new_endpoint k = \<lparr>ep_kind = k, ep_flags = (if k = Stream True then O_NONBLOCK else 0), ep_bound = None,
     ep_options = [], ep_listening = False, ep_watches = []\<rparr>"

definition on_endpoint :: "sock \<Rightarrow> (endpoint \<Rightarrow> endpoint) \<Rightarrow> (sock \<rightharpoonup> endpoint) \<Rightarrow> (sock \<rightharpoonup> endpoint)" where
  "on_endpoint fd f K = (case K fd of None \<Rightarrow> K | Some ep \<Rightarrow> K(fd \<mapsto> f ep))"

text \<open>The effect of a call that did not fail.\<close>

fun effect :: "net_call \<Rightarrow> int \<Rightarrow> (sock \<rightharpoonup> endpoint) \<Rightarrow> (sock \<rightharpoonup> endpoint)" where
  "effect (SocketCall k) r K = K(r \<mapsto> new_endpoint k)"
| "effect (GetFlags fd) r K = K"
| "effect (SetFlags fd fl) r K = on_endpoint fd (ep_flags_update (\<lambda>_. fl)) K"
| "effect (SetOption fd opt) r K = on_endpoint fd (ep_options_update (\<lambda>os. os @ [opt])) K"
| "effect (BindCall fd ip port) r K = on_endpoint fd (ep_bound_update (\<lambda>_. Some (ip, port))) K"
| "effect (ListenCall fd n) r K = on_endpoint fd (ep_listening_update (\<lambda>_. True)) K"
| "effect (EpollAdd fd fd') r K = on_endpoint fd (ep_watches_update (\<lambda>fds. fds @ [fd'])) K"
| "effect (ReadCall fd n) r K = K"
| "effect (CloseFd fd) r K = K(fd := None)"

definition net_do :: "net_env \<Rightarrow> net_call \<Rightarrow> net \<Rightarrow> int \<times> net" where
  "net_do e c n = (let r = ne_answer e n c
     in (r, \<lparr>nt_calls = nt_calls n @ [c], nt_open = (if r < 0 then nt_open n else effect c r (nt_open n))\<rparr>))"

section \<open>A sequence of calls that may throw\<close>

text \<open>
  The error is the text of the exception, of those that end in \<open>strerror\<close> the text before.  An exception
  leaves all that was opened open.
\<close>

type_synonym 'a set_up = "net \<Rightarrow> (string + 'a) \<times> net"

definition attempt :: "net_env \<Rightarrow> (int \<Rightarrow> bool) \<Rightarrow> string \<Rightarrow> net_call \<Rightarrow> int set_up" where
  "attempt e bad msg c n = (case net_do e c n of (r, n) \<Rightarrow> (if bad r then Inl msg else Inr r, n))"

definition and_then :: "'a set_up \<Rightarrow> ('a \<Rightarrow> 'b set_up) \<Rightarrow> 'b set_up" where
  "and_then m f n = (case m n of (Inl msg, n) \<Rightarrow> (Inl msg, n) | (Inr a, n) \<Rightarrow> f a n)"

definition give :: "'a \<Rightarrow> 'a set_up" where
  "give a n = (Inr a, n)"

definition negative :: "int \<Rightarrow> bool" where "negative r \<longleftrightarrow> r < 0"

definition minus_one :: "int \<Rightarrow> bool" where "minus_one r \<longleftrightarrow> r = - 1"

section \<open>The sockets of the feeds' listeners\<close>

definition make_nonblocking :: "net_env \<Rightarrow> sock \<Rightarrow> int set_up" where
  "make_nonblocking e fd =
     and_then (attempt e minus_one ''Failed to get socket flags'' (GetFlags fd)) (\<lambda>flags.
     attempt e minus_one ''Failed to set socket to non-blocking'' (SetFlags fd (or flags O_NONBLOCK)))"

definition bind_and_join :: "net_env \<Rightarrow> sock \<Rightarrow> u32 \<Rightarrow> u16 \<Rightarrow> string \<Rightarrow> string \<Rightarrow> sock set_up" where
  "bind_and_join e fd addr port ip bind_ip =
     and_then (attempt e negative ''Failed to bind socket'' (BindCall fd addr port)) (\<lambda>_.
     and_then (attempt e negative ''Failed to join multicast group''
       (SetOption fd (AddMembership (ne_inet_addr e ip) (ne_inet_addr e bind_ip)))) (\<lambda>_. give fd))"

text \<open>\<open>create_mcast_socket\<close> of the clearing client, and the bots' without a receive buffer.\<close>

definition create_clearing_socket :: "net_env \<Rightarrow> string \<Rightarrow> u16 \<Rightarrow> string \<Rightarrow> sock set_up" where
  "create_clearing_socket e ip port bind_ip =
     and_then (attempt e negative ''Failed to create socket'' (SocketCall Datagrams)) (\<lambda>fd.
     and_then (make_nonblocking e fd) (\<lambda>_.
     and_then (attempt e negative ''Failed to set SO_REUSEPORT'' (SetOption fd (ReusePort 1))) (\<lambda>_.
     and_then (attempt e negative ''Failed to set receive buffer size''
       (SetOption fd (ReceiveBuffer (16 * 1024 * 1024)))) (\<lambda>_.
     bind_and_join e fd (ne_inet_addr e ip) port ip bind_ip))))"

definition create_mcast_socket :: "net_env \<Rightarrow> string \<Rightarrow> u16 \<Rightarrow> string \<Rightarrow> sock set_up" where
  "create_mcast_socket e ip port bind_ip =
     and_then (attempt e negative ''Failed to create socket'' (SocketCall Datagrams)) (\<lambda>fd.
     and_then (make_nonblocking e fd) (\<lambda>_.
     and_then (attempt e negative ''Failed to set SO_REUSEPORT'' (SetOption fd (ReusePort 1))) (\<lambda>_.
     bind_and_join e fd (ne_inet_addr e ip) port ip bind_ip)))"

definition clearing_client_socket :: "net_env \<Rightarrow> string \<Rightarrow> u16 \<Rightarrow> string \<Rightarrow> sock set_up" where
  "clearing_client_socket e live_ip live_port bind_ip = create_clearing_socket e live_ip live_port bind_ip"

definition close_clearing_client :: "net_env \<Rightarrow> sock \<Rightarrow> net \<Rightarrow> net" where
  "close_clearing_client e live n = snd (net_do e (CloseFd live) n)"

text \<open>The constructor and the destructor of the bots' market data client: a live and a snapshot socket.\<close>

definition md_client_sockets :: "net_env \<Rightarrow> string \<Rightarrow> u16 \<Rightarrow> string \<Rightarrow> u16 \<Rightarrow> string \<Rightarrow> (sock \<times> sock) set_up" where
  "md_client_sockets e live_ip live_port snapshot_ip snapshot_port bind_ip =
     and_then (create_mcast_socket e live_ip live_port bind_ip) (\<lambda>live.
     and_then (create_mcast_socket e snapshot_ip snapshot_port bind_ip) (\<lambda>snapshot. give (live, snapshot)))"

definition close_md_client :: "net_env \<Rightarrow> sock \<times> sock \<Rightarrow> net \<Rightarrow> net" where
  "close_md_client e fds n = snd (net_do e (CloseFd (snd fds)) (snd (net_do e (CloseFd (fst fds)) n)))"

text \<open>The snapshot process listens on every address of the machine.\<close>

definition snapshot_client_socket :: "net_env \<Rightarrow> string \<Rightarrow> u16 \<Rightarrow> string \<Rightarrow> sock set_up" where
  "snapshot_client_socket e ip port bind_ip =
     and_then (attempt e negative ''Failed to create socket'' (SocketCall Datagrams)) (\<lambda>fd.
     and_then (make_nonblocking e fd) (\<lambda>_.
     and_then (attempt e negative ''Failed to set SO_REUSEPORT'' (SetOption fd (ReusePort 1))) (\<lambda>_.
     bind_and_join e fd 0 port ip bind_ip)))"

text \<open>The printer of snapshots makes the same calls as a bot; each failure ends it with exit code 1.\<close>

definition print_snapshots_socket :: "net_env \<Rightarrow> string list \<Rightarrow> u16 \<Rightarrow> sock set_up" where
  "print_snapshots_socket e args port =
     (if length args \<noteq> 3 then Pair (Inl ''Usage'')
      else create_mcast_socket e (args ! 0) port (args ! 2))"

text \<open>
  \<open>mcast_listener.cpp\<close> leaves its socket blocking, joins on any interface, reads no byte, once, and
  ends.  The result is the exit code.
\<close>

definition mcast_listener :: "net_env \<Rightarrow> string list \<Rightarrow> u16 \<Rightarrow> net \<Rightarrow> int \<times> net" where
  "mcast_listener e args port n =
    (if length args < 2 then (1, n)
     else
       (case and_then (attempt e negative ''Failed to create socket'' (SocketCall Datagrams)) (\<lambda>fd.
             and_then (attempt e negative ''Failed to bind socket'' (BindCall fd (ne_inet_addr e (args ! 0)) port)) (\<lambda>_.
             and_then (attempt e negative ''Failed to add group membership''
               (SetOption fd (AddMembership (ne_inet_addr e (args ! 0)) 0))) (\<lambda>_. give fd))) n of
          (Inl msg, n) \<Rightarrow> (1, n)
        | (Inr fd, n) \<Rightarrow> (0, snd (net_do e (ReadCall fd 0) n))))"

section \<open>The sockets of the publishers and of the server\<close>

definition make_publisher_nonblocking :: "net_env \<Rightarrow> sock \<Rightarrow> string \<Rightarrow> int set_up" where
  "make_publisher_nonblocking e fd msg =
     and_then (attempt e minus_one ''Failed to get socket flags'' (GetFlags fd)) (\<lambda>flags.
     attempt e minus_one msg (SetFlags fd (or flags O_NONBLOCK)))"

definition md_publisher_socket :: "net_env \<Rightarrow> string \<Rightarrow> sock set_up" where
  "md_publisher_socket e iface =
     and_then (attempt e negative ''Failed to create multicast socket'' (SocketCall Datagrams)) (\<lambda>fd.
     and_then (attempt e negative ''Failed to bind to multicast address'' (SetOption fd (MulticastIf (ne_inet_addr e iface)))) (\<lambda>_.
     and_then (make_publisher_nonblocking e fd ''Failed to set socket non-blocking'') (\<lambda>_.
     and_then (attempt e negative ''Failed to enable multicast loopback'' (SetOption fd (MulticastLoop 1))) (\<lambda>_.
     give fd))))"

definition clearing_publisher_socket :: "net_env \<Rightarrow> string \<Rightarrow> sock set_up" where
  "clearing_publisher_socket e iface =
     and_then (attempt e negative ''Failed to create multicast socket'' (SocketCall Datagrams)) (\<lambda>fd.
     and_then (attempt e negative ''Failed to bind to multicast address'' (SetOption fd (MulticastIf (ne_inet_addr e iface)))) (\<lambda>_.
     and_then (make_publisher_nonblocking e fd ''Failed to set socket non-blocking'') (\<lambda>_.
     and_then (attempt e negative ''Failed to enable multicast loopback'' (SetOption fd (MulticastLoop 1))) (\<lambda>_.
     give fd))))"

definition snapshot_writer_socket :: "net_env \<Rightarrow> string \<Rightarrow> sock set_up" where
  "snapshot_writer_socket e iface =
     and_then (attempt e negative ''Failed to create socket'' (SocketCall Datagrams)) (\<lambda>fd.
     and_then (attempt e negative ''Failed to bind to multicast address'' (SetOption fd (MulticastIf (ne_inet_addr e iface)))) (\<lambda>_.
     and_then (make_publisher_nonblocking e fd ''Failed to set socket to non-blocking'') (\<lambda>_. give fd)))"

definition epoll_server :: "net_env \<Rightarrow> u16 \<Rightarrow> (sock \<times> sock) set_up" where
  "epoll_server e port =
     and_then (attempt e minus_one ''Failed to create epoll instance: '' (SocketCall Epoll)) (\<lambda>epoll_fd.
     and_then (attempt e minus_one ''Failed to create socket: '' (SocketCall (Stream True))) (\<lambda>listen_fd.
     and_then (attempt e minus_one ''Failed to set socket options: '' (SetOption listen_fd (ReuseAddr 1))) (\<lambda>_.
     and_then (attempt e minus_one ''Failed to bind socket: '' (BindCall listen_fd 0 port)) (\<lambda>_.
     and_then (attempt e minus_one ''Failed to listen on socket: '' (ListenCall listen_fd 64)) (\<lambda>_.
     and_then (attempt e minus_one ''Failed to add listen socket to epoll: '' (EpollAdd epoll_fd listen_fd)) (\<lambda>_.
     give (epoll_fd, listen_fd)))))))"

definition close_epoll_server :: "net_env \<Rightarrow> sock \<times> sock \<Rightarrow> net \<Rightarrow> net" where
  "close_epoll_server e fds n = snd (net_do e (CloseFd (snd fds)) (snd (net_do e (CloseFd (fst fds)) n)))"

section \<open>The start of the processes\<close>

text \<open>
  A program exits with a code, is aborted by an exception that nobody catches, or runs.
\<close>

datatype 'a process_start = Exits int | Aborts string | Runs 'a

text \<open>
  The exchange: \<open>args\<close> are the arguments after the program's name, \<open>users_file\<close> the lines of
  \<open>users.txt\<close> where it can be opened.
\<close>

definition start_matching_engine ::
  "net_env \<Rightarrow> string list \<Rightarrow> u8 list list option \<Rightarrow> system \<Rightarrow> system \<Rightarrow> net
     \<Rightarrow> (exchange \<times> sock \<times> sock) process_start \<times> net" where
  "start_matching_engine e args users_file s s' n =
    (if length args \<noteq> 3 then (Exits 1, n)
     else case and_then (md_publisher_socket e (args ! 0)) (\<lambda>md_fd.
               and_then (clearing_publisher_socket e (args ! 0)) (\<lambda>clearing_fd. give (md_fd, clearing_fd))) n of
       (Inl msg, n) \<Rightarrow> (Aborts msg, n)
     | (Inr (md_fd, clearing_fd), n) \<Rightarrow>
         (case users_file of
            None \<Rightarrow> (Exits 1, n)
          | Some lines \<Rightarrow>
              (case read_users lines Map.empty of
                 None \<Rightarrow> (Aborts ''stoi'', n)
               | Some users \<Rightarrow>
                   (case epoll_server e 1234 n of
                      (Inl msg, n) \<Rightarrow> (Aborts msg, n)
                    | (Inr (epoll_fd, listen_fd), n) \<Rightarrow>
                        (Runs (start_exchange users md_fd clearing_fd s s', epoll_fd, listen_fd), n)))))"

text \<open>The snapshot process: a port is the argument's number modulo 65536.\<close>

definition start_snapshots :: "net_env \<Rightarrow> string list \<Rightarrow> net \<Rightarrow> (sock \<times> sock \<times> u16) process_start \<times> net" where
  "start_snapshots e args n =
    (if length args \<noteq> 5 then (Exits 1, n)
     else case (stoi (map of_char (args ! 1)), stoi (map of_char (args ! 3))) of
       (Some listen_port, Some out_port) \<Rightarrow>
         (case and_then (snapshot_client_socket e (args ! 0) (word_of_int listen_port) (args ! 4)) (\<lambda>client_fd.
               and_then (snapshot_writer_socket e (args ! 4)) (\<lambda>writer_fd. give (client_fd, writer_fd))) n of
            (Inl msg, n) \<Rightarrow> (Aborts msg, n)
          | (Inr (client_fd, writer_fd), n) \<Rightarrow> (Runs (client_fd, writer_fd, word_of_int out_port), n))
     | _ \<Rightarrow> (Aborts ''stoi'', n))"

end
