(* ===== verification/Socket_Props.thy ===== *)
theory Socket_Props imports
  Sockets
begin

text \<open>
  Properties of the set-up of sockets: what a listener that comes up has, what a failure leaves behind,
  and that the exchange starts in a state in which its threads never stop.
\<close>

section \<open>Listeners\<close>

text \<open>
  The kernel answers a failure with -1, and a new descriptor is one that was not open.
\<close>

definition honest_kernel :: "net_env \<Rightarrow> bool" where
  "honest_kernel e \<longleftrightarrow> (\<forall>n c. - 1 \<le> ne_answer e n c) \<and>
     (\<forall>n k. 0 \<le> ne_answer e n (SocketCall k) \<longrightarrow> nt_open n (ne_answer e n (SocketCall k)) = None)"

definition other_fds_kept :: "sock set \<Rightarrow> net \<Rightarrow> net \<Rightarrow> bool" where
  "other_fds_kept fds n n' \<longleftrightarrow> (\<forall>fd. fd \<notin> fds \<longrightarrow> nt_open n' fd = nt_open n fd)"

definition nonblocking :: "endpoint \<Rightarrow> bool" where
  "nonblocking ep \<longleftrightarrow> and (ep_flags ep) O_NONBLOCK \<noteq> 0"

text \<open>
  The outcome of a listener's set-up: a new descriptor, which is non-blocking, bound and a member of
  the group; or the exception, with at most one new descriptor, which stays open.
\<close>

definition listener_set_up :: "u32 \<Rightarrow> u16 \<Rightarrow> u32 \<Rightarrow> u32 \<Rightarrow> net \<Rightarrow> (string + sock) \<times> net \<Rightarrow> bool" where
  "listener_set_up addr port grp iface n r = (case r of
      (Inr fd, n') \<Rightarrow> nt_open n fd = None \<and> other_fds_kept {fd} n n' \<and>
        (\<exists>ep. nt_open n' fd = Some ep \<and> ep_kind ep = Datagrams \<and> nonblocking ep \<and> ep_bound ep = Some (addr, port) \<and>
          AddMembership grp iface \<in> set (ep_options ep) \<and> ReusePort 1 \<in> set (ep_options ep))
    | (Inl msg, n') \<Rightarrow> nt_open n' = nt_open n \<or>
        (\<exists>fd. nt_open n fd = None \<and> nt_open n' fd \<noteq> None \<and> other_fds_kept {fd} n n'))"

lemma nonblocking_flags: "and (or flags O_NONBLOCK) O_NONBLOCK \<noteq> 0"
proof
  assume "and (or flags O_NONBLOCK) O_NONBLOCK = 0"
  then have "bit (and (or flags O_NONBLOCK) O_NONBLOCK) 11 = bit (0 :: int) 11" by simp
  then show False by (simp add: bit_simps O_NONBLOCK_def)
qed

text \<open>While a socket is set up, it is the only descriptor that changes.\<close>

definition setting_up :: "sock \<Rightarrow> net \<Rightarrow> (endpoint \<Rightarrow> bool) \<Rightarrow> net \<Rightarrow> bool" where
  "setting_up fd n0 P n \<longleftrightarrow> nt_open n0 fd = None \<and> other_fds_kept {fd} n0 n \<and>
     (\<exists>ep. nt_open n fd = Some ep \<and> ep_kind ep = Datagrams \<and> P ep)"

definition sets_up :: "sock \<Rightarrow> net \<Rightarrow> (endpoint \<Rightarrow> bool) \<Rightarrow> (string + sock) \<times> net \<Rightarrow> bool" where
  "sets_up fd n0 P r = (case r of
      (Inl msg, n') \<Rightarrow> setting_up fd n0 (\<lambda>_. True) n' | (Inr a, n') \<Rightarrow> a = fd \<and> setting_up fd n0 P n')"

definition failure :: "(int \<Rightarrow> bool) \<Rightarrow> bool" where
  "failure bad \<longleftrightarrow> (\<forall>r \<ge> - 1. bad r \<longleftrightarrow> r < 0)"

lemma failures [simp]: "failure negative" "failure minus_one"
  by (auto simp: failure_def negative_def minus_one_def)

lemma attempt_cases:
  assumes "honest_kernel e" "failure bad"
  obtains n' where "attempt e bad msg c n = (Inl msg, n')" "nt_open n' = nt_open n"
  | r n' where "attempt e bad msg c n = (Inr r, n')" "0 \<le> r" "r = ne_answer e n c" "nt_open n' = effect c r (nt_open n)"
proof -
  let ?r = "ne_answer e n c"
  have "- 1 \<le> ?r" using assms(1) by (simp add: honest_kernel_def)
  then have "bad ?r \<longleftrightarrow> ?r < 0" using assms(2) by (simp add: failure_def)
  then show thesis using that by (cases "?r < 0") (auto simp: attempt_def net_do_def Let_def)
qed

lemma set_up_step:
  assumes "honest_kernel e" "failure bad" "setting_up fd n0 P n"
    and "\<And>r K. effect c r K = on_endpoint fd f K"
    and "\<And>ep. ep_kind (f ep) = ep_kind ep" "\<And>ep. P ep \<Longrightarrow> Q (f ep)"
    and cont: "\<And>r n'. setting_up fd n0 Q n' \<Longrightarrow> sets_up fd n0 R (k r n')"
  shows "sets_up fd n0 R (and_then (attempt e bad msg c) k n)"
proof (cases rule: attempt_cases [OF assms(1,2), of msg c n])
  case (1 n')
  then show ?thesis using assms(3)
    by (auto simp: and_then_def sets_up_def setting_up_def other_fds_kept_def)
next
  case (2 r n')
  then have "setting_up fd n0 Q n'" using assms(3-6)
    by (auto simp: setting_up_def other_fds_kept_def on_endpoint_def)
  then show ?thesis using cont by (simp add: and_then_def 2(1))
qed

lemma and_then_assoc: "and_then (and_then m f) g = and_then m (\<lambda>a. and_then (f a) g)"
  by (auto simp: and_then_def fun_eq_iff split: sum.split prod.split)

definition joined :: "u32 \<Rightarrow> u16 \<Rightarrow> u32 \<Rightarrow> u32 \<Rightarrow> endpoint \<Rightarrow> bool" where
  "joined addr port grp iface ep \<longleftrightarrow> nonblocking ep \<and> ep_bound ep = Some (addr, port) \<and>
     AddMembership grp iface \<in> set (ep_options ep) \<and> ReusePort 1 \<in> set (ep_options ep)"

definition sharing :: "endpoint \<Rightarrow> bool" where
  "sharing ep \<longleftrightarrow> nonblocking ep \<and> ReusePort 1 \<in> set (ep_options ep)"

lemma make_nonblocking_step:
  assumes "honest_kernel e" "setting_up fd n0 P n"
    and "\<And>r n'. setting_up fd n0 nonblocking n' \<Longrightarrow> sets_up fd n0 R (k r n')"
  shows "sets_up fd n0 R (and_then (make_nonblocking e fd) k n)"
  unfolding make_nonblocking_def and_then_assoc
proof (rule set_up_step [where f = "\<lambda>ep. ep" and Q = P, OF assms(1) failures(2) assms(2)])
  fix r n'
  assume "setting_up fd n0 P n'"
  then show "sets_up fd n0 R (and_then (attempt e minus_one ''Failed to set socket to non-blocking''
      (SetFlags fd (or r O_NONBLOCK))) k n')"
    by (rule set_up_step [where f = "ep_flags_update (\<lambda>_. or r O_NONBLOCK)" and Q = nonblocking, OF assms(1) failures(2)])
      (simp_all add: nonblocking_def nonblocking_flags assms(3))
qed (auto simp: on_endpoint_def split: option.split)

lemma option_step:
  assumes "honest_kernel e" "setting_up fd n0 P n"
    and "\<And>ep. P ep \<Longrightarrow> Q (ep_options_update (\<lambda>os. os @ [opt]) ep)"
    and "\<And>r n'. setting_up fd n0 Q n' \<Longrightarrow> sets_up fd n0 R (k r n')"
  shows "sets_up fd n0 R (and_then (attempt e negative msg (SetOption fd opt)) k n)"
  by (rule set_up_step [where f = "ep_options_update (\<lambda>os. os @ [opt])" and Q = Q, OF assms(1) failures(1) assms(2)])
    (simp_all add: assms(3,4))

lemma bind_and_join_step:
  assumes "honest_kernel e" "setting_up fd n0 sharing n"
  shows "sets_up fd n0 (joined addr port (ne_inet_addr e ip) (ne_inet_addr e bind_ip))
    (bind_and_join e fd addr port ip bind_ip n)"
proof -
  let ?bound = "\<lambda>ep. sharing ep \<and> ep_bound ep = Some (addr, port)"
  have "sets_up fd n0 (joined addr port (ne_inet_addr e ip) (ne_inet_addr e bind_ip))
    (and_then (attempt e negative ''Failed to join multicast group''
       (SetOption fd (AddMembership (ne_inet_addr e ip) (ne_inet_addr e bind_ip)))) (\<lambda>_. give fd) n')"
    if "setting_up fd n0 ?bound n'" for n'
    using that by (rule option_step [OF assms(1), where Q = "joined addr port (ne_inet_addr e ip) (ne_inet_addr e bind_ip)"])
      (auto simp: joined_def sharing_def nonblocking_def give_def sets_up_def)
  then show ?thesis unfolding bind_and_join_def
    by (intro set_up_step [where f = "ep_bound_update (\<lambda>_. Some (addr, port))" and Q = ?bound, OF assms(1) failures(1) assms(2)])
      (simp_all add: sharing_def nonblocking_def)
qed

lemma share_step:
  assumes "honest_kernel e" "setting_up fd n0 nonblocking n"
    and "\<And>n'. setting_up fd n0 sharing n' \<Longrightarrow> sets_up fd n0 R (k n')"
  shows "sets_up fd n0 R (and_then (attempt e negative msg (SetOption fd (ReusePort 1))) (\<lambda>_. k) n)"
  by (rule option_step [OF assms(1,2), where Q = sharing]) (simp_all add: sharing_def nonblocking_def assms(3))

lemma new_listener:
  assumes "honest_kernel e"
    and "\<And>fd n'. setting_up fd n (\<lambda>_. True) n' \<Longrightarrow> sets_up fd n (joined addr port grp iface) (k fd n')"
  shows "listener_set_up addr port grp iface n (and_then (attempt e negative msg (SocketCall Datagrams)) k n)"
proof (cases rule: attempt_cases [OF assms(1) failures(1), of msg "SocketCall Datagrams" n])
  case (1 n')
  then show ?thesis by (simp add: and_then_def listener_set_up_def)
next
  case (2 fd n')
  then have "setting_up fd n (\<lambda>_. True) n'"
    using assms(1) by (simp add: setting_up_def other_fds_kept_def honest_kernel_def new_endpoint_def)
  from assms(2) [OF this] show ?thesis
    by (auto simp: and_then_def 2(1) sets_up_def setting_up_def joined_def listener_set_up_def split: sum.splits prod.splits)
qed

lemma listeners_set_up:
  assumes "honest_kernel e"
  shows "listener_set_up (ne_inet_addr e ip) port (ne_inet_addr e ip) (ne_inet_addr e iface) n
      (clearing_client_socket e ip port iface n)"
    "listener_set_up (ne_inet_addr e ip) port (ne_inet_addr e ip) (ne_inet_addr e iface) n
      (create_mcast_socket e ip port iface n)"
    "listener_set_up 0 port (ne_inet_addr e ip) (ne_inet_addr e iface) n (snapshot_client_socket e ip port iface n)"
proof -
  note step = new_listener [OF assms] make_nonblocking_step [OF assms] share_step [OF assms] bind_and_join_step [OF assms]
  show "listener_set_up (ne_inet_addr e ip) port (ne_inet_addr e ip) (ne_inet_addr e iface) n
      (create_mcast_socket e ip port iface n)"
    unfolding create_mcast_socket_def by (rule step | assumption)+
  show "listener_set_up 0 port (ne_inet_addr e ip) (ne_inet_addr e iface) n (snapshot_client_socket e ip port iface n)"
    unfolding snapshot_client_socket_def by (rule step | assumption)+
  have buffer: "sets_up fd n0 R (and_then (attempt e negative msg (SetOption fd (ReceiveBuffer b))) (\<lambda>_. k) n')"
    if "setting_up fd n0 sharing n'" "\<And>n'. setting_up fd n0 sharing n' \<Longrightarrow> sets_up fd n0 R (k n')" for fd n0 n' R k msg b
    by (rule option_step [OF assms that(1), where Q = sharing]) (simp_all add: sharing_def nonblocking_def that(2))
  show "listener_set_up (ne_inet_addr e ip) port (ne_inet_addr e ip) (ne_inet_addr e iface) n
      (clearing_client_socket e ip port iface n)"
    unfolding clearing_client_socket_def create_clearing_socket_def by (rule step buffer | assumption)+
qed

text \<open>C38: every listener's set-up ends in one of two ways, whatever the kernel refuses.  Either it returns
  a new descriptor, which does not block, is bound to the port of the feed, shares it, and has joined
  the feed's group on the interface; or it throws, and then at most one new descriptor is left, open.
  No other descriptor is touched.
\<close>

theorem listeners_are_set_up:
  assumes "honest_kernel e"
  shows "listener_set_up (ne_inet_addr e ip) port (ne_inet_addr e ip) (ne_inet_addr e iface) n
      (clearing_client_socket e ip port iface n) \<and>
    listener_set_up (ne_inet_addr e ip) port (ne_inet_addr e ip) (ne_inet_addr e iface) n
      (create_mcast_socket e ip port iface n) \<and>
    listener_set_up 0 port (ne_inet_addr e ip) (ne_inet_addr e iface) n (snapshot_client_socket e ip port iface n)"
  using listeners_set_up [OF assms] by blast

definition plain_kernel :: net_env where
  "plain_kernel = \<lparr>ne_answer = (\<lambda>n c. case c of
       SocketCall k \<Rightarrow> if nt_open n (3 + int (length (nt_calls n))) = None then 3 + int (length (nt_calls n)) else - 1
     | _ \<Rightarrow> 0), ne_inet_addr = (\<lambda>s. of_nat (length s))\<rparr>"

definition no_net :: net where "no_net = \<lparr>nt_calls = [], nt_open = Map.empty\<rparr>"

lemma plain_kernel_honest: "honest_kernel plain_kernel"
  by (auto simp: honest_kernel_def plain_kernel_def split: net_call.split)

lemma listeners_are_set_up_witness:
  "listener_set_up 9 12346 9 7 no_net (clearing_client_socket plain_kernel ''239.0.0.1'' 12346 ''0.0.0.0'' no_net) \<and>
   fst (clearing_client_socket plain_kernel ''239.0.0.1'' 12346 ''0.0.0.0'' no_net) = Inr 3"
proof
  show "listener_set_up 9 12346 9 7 no_net (clearing_client_socket plain_kernel ''239.0.0.1'' 12346 ''0.0.0.0'' no_net)"
    using listeners_are_set_up [OF plain_kernel_honest, of "''239.0.0.1''" 12346 "''0.0.0.0''" no_net]
    by (simp add: plain_kernel_def)
  show "fst (clearing_client_socket plain_kernel ''239.0.0.1'' 12346 ''0.0.0.0'' no_net) = Inr 3"
    by (simp add: clearing_client_socket_def create_clearing_socket_def make_nonblocking_def bind_and_join_def and_then_def
        attempt_def net_do_def plain_kernel_def no_net_def negative_def minus_one_def give_def Let_def)
qed

section \<open>The start of the exchange\<close>

lemma attempt_InrD:
  assumes "attempt e bad msg c n = (Inr r, n')" "honest_kernel e" "failure bad"
  shows "r = ne_answer e n c \<and> 0 \<le> r \<and> nt_open n' = effect c r (nt_open n)"
  using assms(1) by (cases rule: attempt_cases [OF assms(2,3), of msg c n]) auto

lemma new_fdD:
  assumes "attempt e bad msg (SocketCall k) n = (Inr fd, n')" "honest_kernel e" "failure bad"
  shows "nt_open n fd = None \<and> nt_open n' = (nt_open n)(fd \<mapsto> new_endpoint k)"
  using attempt_InrD [OF assms] assms(2) by (auto simp: honest_kernel_def)

lemma and_then_InrD: "and_then m f n = (Inr b, n') \<Longrightarrow> \<exists>a n1. m n = (Inr a, n1) \<and> f a n1 = (Inr b, n')"
  by (auto simp: and_then_def split: sum.splits prod.splits)

text \<open>A publisher's socket.\<close>

definition publishes_on :: "u32 \<Rightarrow> endpoint \<Rightarrow> bool" where
  "publishes_on iface ep \<longleftrightarrow> nonblocking ep \<and> ep_options ep = [MulticastIf iface, MulticastLoop 1]"

lemma publisher_opens:
  assumes "md_publisher_socket e ip n = (Inr fd, n')" "honest_kernel e"
  shows "nt_open n fd = None \<and> (\<exists>ep. nt_open n' = (nt_open n)(fd \<mapsto> ep) \<and> publishes_on (ne_inet_addr e ip) ep)"
proof -
  from assms(1) obtain n1 r2 n2 r3 n3 r4 n4 r5 n5 where calls:
    "attempt e negative ''Failed to create multicast socket'' (SocketCall Datagrams) n = (Inr fd, n1)"
    "attempt e negative ''Failed to bind to multicast address'' (SetOption fd (MulticastIf (ne_inet_addr e ip))) n1 = (Inr r2, n2)"
    "attempt e minus_one ''Failed to get socket flags'' (GetFlags fd) n2 = (Inr r3, n3)"
    "attempt e minus_one ''Failed to set socket non-blocking'' (SetFlags fd (or r3 O_NONBLOCK)) n3 = (Inr r4, n4)"
    "attempt e negative ''Failed to enable multicast loopback'' (SetOption fd (MulticastLoop 1)) n4 = (Inr r5, n5)" "n' = n5"
    unfolding md_publisher_socket_def make_publisher_nonblocking_def and_then_assoc
    by (fastforce dest!: and_then_InrD simp: give_def)
  show ?thesis
  proof (intro conjI exI [of _ "the (nt_open n' fd)"])
  qed (use new_fdD [OF calls(1) assms(2)] attempt_InrD [OF calls(2) assms(2)] attempt_InrD [OF calls(3) assms(2)]
      attempt_InrD [OF calls(4) assms(2)] attempt_InrD [OF calls(5) assms(2)] calls(6) in
      \<open>simp_all add: on_endpoint_def new_endpoint_def publishes_on_def nonblocking_def nonblocking_flags\<close>)
qed

lemma clearing_socket_same: "clearing_publisher_socket e ip = md_publisher_socket e ip"
  by (simp add: clearing_publisher_socket_def md_publisher_socket_def)

definition listens_on :: "u16 \<Rightarrow> endpoint \<Rightarrow> bool" where
  "listens_on port ep \<longleftrightarrow> nonblocking ep \<and> ep_listening ep \<and> ep_bound ep = Some (0, port)"

lemma server_opens:
  assumes "epoll_server e port n = (Inr (epoll_fd, listen_fd), n')" "honest_kernel e"
  shows "nt_open n epoll_fd = None \<and> nt_open n listen_fd = None \<and> epoll_fd \<noteq> listen_fd \<and>
    (\<exists>ep lp. nt_open n' = (nt_open n)(epoll_fd \<mapsto> ep, listen_fd \<mapsto> lp) \<and> ep_watches ep = [listen_fd] \<and> listens_on port lp)"
proof -
  from assms(1) obtain n1 n2 r3 n3 r4 n4 r5 n5 r6 where calls:
    "attempt e minus_one ''Failed to create epoll instance: '' (SocketCall Epoll) n = (Inr epoll_fd, n1)"
    "attempt e minus_one ''Failed to create socket: '' (SocketCall (Stream True)) n1 = (Inr listen_fd, n2)"
    "attempt e minus_one ''Failed to set socket options: '' (SetOption listen_fd (ReuseAddr 1)) n2 = (Inr r3, n3)"
    "attempt e minus_one ''Failed to bind socket: '' (BindCall listen_fd 0 port) n3 = (Inr r4, n4)"
    "attempt e minus_one ''Failed to listen on socket: '' (ListenCall listen_fd 64) n4 = (Inr r5, n5)"
    "attempt e minus_one ''Failed to add listen socket to epoll: '' (EpollAdd epoll_fd listen_fd) n5 = (Inr r6, n')"
    unfolding epoll_server_def by (fastforce dest!: and_then_InrD simp: give_def)
  have fds: "nt_open n epoll_fd = None" "nt_open n1 = (nt_open n)(epoll_fd \<mapsto> new_endpoint Epoll)"
    "nt_open n1 listen_fd = None" "nt_open n2 = (nt_open n1)(listen_fd \<mapsto> new_endpoint (Stream True))"
    using new_fdD [OF calls(1) assms(2)] new_fdD [OF calls(2) assms(2)] by simp_all
  then have new: "epoll_fd \<noteq> listen_fd" "nt_open n listen_fd = None" by (auto split: if_splits)
  let ?ep = "the (nt_open n' epoll_fd)" and ?lp = "the (nt_open n' listen_fd)"
  have "nt_open n' = (nt_open n)(epoll_fd \<mapsto> ?ep, listen_fd \<mapsto> ?lp) \<and> ep_watches ?ep = [listen_fd] \<and> listens_on port ?lp"
    using new fds attempt_InrD [OF calls(3) assms(2)] attempt_InrD [OF calls(4) assms(2)]
      attempt_InrD [OF calls(5) assms(2)] attempt_InrD [OF calls(6) assms(2)]
    by (simp add: on_endpoint_def new_endpoint_def listens_on_def nonblocking_def O_NONBLOCK_def fun_upd_twist)
  then show ?thesis using fds(1) new by blast
qed

lemma start_matching_engine_Runs:
  assumes "start_matching_engine e args users_file s s' n = (Runs (x0, epoll_fd, listen_fd), n')"
  obtains md_fd clearing_fd n1 n2 lines users where
    "md_publisher_socket e (args ! 0) n = (Inr md_fd, n1)" "clearing_publisher_socket e (args ! 0) n1 = (Inr clearing_fd, n2)"
    "epoll_server e 1234 n2 = (Inr (epoll_fd, listen_fd), n')" "x0 = start_exchange users md_fd clearing_fd s s'"
    "users_file = Some lines" "read_users lines Map.empty = Some users"
proof -
  let ?p = "and_then (md_publisher_socket e (args ! 0)) (\<lambda>md_fd.
     and_then (clearing_publisher_socket e (args ! 0)) (\<lambda>clearing_fd. give (md_fd, clearing_fd)))"
  have args: "length args = 3" using assms by (simp add: start_matching_engine_def split: if_splits)
  obtain md_fd clearing_fd n2 where p: "?p n = (Inr (md_fd, clearing_fd), n2)"
  proof (cases "?p n")
    case (Pair r n2)
    then show thesis using that assms args by (cases r) (auto simp: start_matching_engine_def)
  qed
  obtain lines where lines: "users_file = Some lines"
    using assms args p by (cases users_file) (simp_all add: start_matching_engine_def)
  obtain users where users: "read_users lines Map.empty = Some users"
    using assms args p lines by (cases "read_users lines Map.empty") (simp_all add: start_matching_engine_def)
  have server: "epoll_server e 1234 n2 = (Inr (epoll_fd, listen_fd), n')" "x0 = start_exchange users md_fd clearing_fd s s'"
    using assms args p lines users
    by (simp_all add: start_matching_engine_def split: prod.splits sum.splits)
  from and_then_InrD [OF p] obtain fd n1 where first: "md_publisher_socket e (args ! 0) n = (Inr fd, n1)"
    "and_then (clearing_publisher_socket e (args ! 0)) (\<lambda>clearing_fd. give (fd, clearing_fd)) n1 = (Inr (md_fd, clearing_fd), n2)"
    by blast
  from and_then_InrD [OF first(2)] have "fd = md_fd" "clearing_publisher_socket e (args ! 0) n1 = (Inr clearing_fd, n2)"
    by (auto simp: give_def)
  with first(1) server lines users show thesis using that by blast
qed

text \<open>C40: when the exchange's process comes up, whatever the kernel answered, it starts in
  the initial state of the exchange with users read from the file and its publishers on two new
  descriptors; these two, the server's and its epoll instance are four distinct descriptors that were
  not open before; both publishers send from the given interface without blocking, with their datagrams
  looped back; and the server listens on port 1234 of every address without blocking, under the eyes of
  its epoll instance.\<close>

theorem started_exchange_is_ready:
  assumes "honest_kernel e" "start_matching_engine e args users_file s s' n = (Runs (x0, epoll_fd, listen_fd), n')"
  shows "\<exists>lines users md_fd clearing_fd. users_file = Some lines \<and> read_users lines Map.empty = Some users \<and>
     x0 = start_exchange users md_fd clearing_fd s s' \<and>
     distinct [md_fd, clearing_fd, epoll_fd, listen_fd] \<and>
     (\<forall>fd \<in> {md_fd, clearing_fd, epoll_fd, listen_fd}. nt_open n fd = None) \<and>
     (\<forall>fd \<in> {md_fd, clearing_fd}. \<exists>ep. nt_open n' fd = Some ep \<and> publishes_on (ne_inet_addr e (args ! 0)) ep) \<and>
     (\<exists>lp. nt_open n' listen_fd = Some lp \<and> listens_on 1234 lp) \<and>
     (\<exists>ep. nt_open n' epoll_fd = Some ep \<and> ep_watches ep = [listen_fd])"
proof -
  obtain md_fd clearing_fd n1 n2 lines users where start:
    "md_publisher_socket e (args ! 0) n = (Inr md_fd, n1)" "clearing_publisher_socket e (args ! 0) n1 = (Inr clearing_fd, n2)"
    "epoll_server e 1234 n2 = (Inr (epoll_fd, listen_fd), n')" "x0 = start_exchange users md_fd clearing_fd s s'"
    "users_file = Some lines" "read_users lines Map.empty = Some users"
    by (rule start_matching_engine_Runs [OF assms(2)])
  note md = publisher_opens [OF start(1) assms(1)]
  note clearing = publisher_opens [OF start(2) [unfolded clearing_socket_same] assms(1)]
  note server = server_opens [OF start(3) assms(1)]
  obtain mp where mp: "nt_open n1 = (nt_open n)(md_fd \<mapsto> mp)" "publishes_on (ne_inet_addr e (args ! 0)) mp"
    using md by blast
  obtain cp where cp: "nt_open n1 clearing_fd = None" "nt_open n2 = (nt_open n1)(clearing_fd \<mapsto> cp)"
    "publishes_on (ne_inet_addr e (args ! 0)) cp"
    using clearing by blast
  obtain ep lp where ends: "nt_open n2 epoll_fd = None" "nt_open n2 listen_fd = None" "epoll_fd \<noteq> listen_fd"
    "nt_open n' = (nt_open n2)(epoll_fd \<mapsto> ep, listen_fd \<mapsto> lp)" "ep_watches ep = [listen_fd]" "listens_on 1234 lp"
    using server by blast
  have neq: "md_fd \<noteq> clearing_fd"
  proof
    assume "md_fd = clearing_fd"
    then show False using cp(1) by (simp add: mp(1))
  qed
  have closed: "fd \<noteq> md_fd \<and> fd \<noteq> clearing_fd" if "nt_open n2 fd = None" for fd
    using that by (simp add: cp(2) mp(1) split: if_splits)
  note apart = closed [OF ends(1)] closed [OF ends(2)]
  have new: "\<forall>fd \<in> {md_fd, clearing_fd, epoll_fd, listen_fd}. nt_open n fd = None"
    using md cp(1) ends(1,2) neq apart by (simp add: cp(2) mp(1) split: if_splits)
  have ready: "distinct [md_fd, clearing_fd, epoll_fd, listen_fd] \<and>
     (\<forall>fd \<in> {md_fd, clearing_fd}. \<exists>ep. nt_open n' fd = Some ep \<and> publishes_on (ne_inet_addr e (args ! 0)) ep) \<and>
     (\<exists>lp. nt_open n' listen_fd = Some lp \<and> listens_on 1234 lp) \<and>
     (\<exists>ep. nt_open n' epoll_fd = Some ep \<and> ep_watches ep = [listen_fd])"
    using ends(3,5,6) neq apart cp(3) mp(2) by (simp add: ends(4) cp(2) mp(1))
  show ?thesis
    by (rule exI [of _ lines], rule exI [of _ users], rule exI [of _ md_fd], rule exI [of _ clearing_fd])
      (insert start(4-6) new ready, elim conjE, intro conjI; assumption)
qed

lemma started_exchange_is_ready_witness:
  "\<exists>x0 md_fd clearing_fd epoll_fd listen_fd n'.
     start_matching_engine plain_kernel [''127.0.0.1'', ''239.0.0.1'', ''239.0.0.3''] (Some []) no_calls no_calls no_net
       = (Runs (x0, epoll_fd, listen_fd), n') \<and>
     x0 = start_exchange Map.empty md_fd clearing_fd no_calls no_calls \<and>
     distinct [md_fd, clearing_fd, epoll_fd, listen_fd] \<and>
     (\<exists>lp. nt_open n' listen_fd = Some lp \<and> listens_on 1234 lp)"
proof -
  let ?x = "start_exchange Map.empty 3 8 no_calls no_calls"
  have "\<exists>n'. start_matching_engine plain_kernel [''127.0.0.1'', ''239.0.0.1'', ''239.0.0.3''] (Some []) no_calls no_calls no_net
       = (Runs (?x, 13, 14), n')"
    by (simp add: start_matching_engine_def md_publisher_socket_def clearing_publisher_socket_def epoll_server_def
        make_publisher_nonblocking_def and_then_def attempt_def net_do_def plain_kernel_def no_net_def negative_def
        minus_one_def give_def Let_def on_endpoint_def new_endpoint_def)
  then obtain n' where start: "start_matching_engine plain_kernel [''127.0.0.1'', ''239.0.0.1'', ''239.0.0.3''] (Some [])
    no_calls no_calls no_net = (Runs (?x, 13, 14), n')" by blast
  from started_exchange_is_ready [OF plain_kernel_honest start] obtain md_fd clearing_fd where
    "?x = start_exchange Map.empty md_fd clearing_fd no_calls no_calls" "distinct [md_fd, clearing_fd, 13, 14]"
    "\<exists>lp. nt_open n' 14 = Some lp \<and> listens_on 1234 lp" by auto
  with start show ?thesis
    by (intro exI [of _ ?x] exI [of _ md_fd] exI [of _ clearing_fd] exI [of _ 13] exI [of _ 14] exI [of _ n'] conjI)
qed

end
