(* ===== verification/Processes.thy ===== *)
theory Processes imports
  Socket_Props Snapshot_Writer "HOL-Library.Sublist"
begin

text \<open>
  The lives of the two processes with threads: the exchange (\<open>main\<close> of \<open>matching_engine.cpp\<close>, from the
  start of the engine's thread) and the snapshot process (\<open>main\<close> of \<open>md_snapshots.cpp\<close>).
\<close>

section \<open>The exchange\<close>

text \<open>A thread works, has left its loop, or has caught an exception outside of it.\<close>

datatype thread = Looping | Ended | Died

datatype main_thread = Serving | Joining | Exited int

record me_process =
  pr_exchange :: exchange
  pr_running :: bool
  pr_engine :: thread
  pr_main :: main_thread

definition me_start :: "exchange \<Rightarrow> me_process" where
  "me_start x = \<lparr>pr_exchange = x, pr_running = True, pr_engine = Looping, pr_main = Serving\<rparr>"

text \<open>
  \<open>running\<close> is looked at by the engine's loop only.  The server's loop ends by an exception, after
  which the main thread waits for the engine's and exits with 1.
\<close>

inductive me_step :: "env \<Rightarrow> env \<Rightarrow> me_process \<Rightarrow> me_process \<Rightarrow> bool" for es ee where
  serves: "pr_main p = Serving \<Longrightarrow> run_pass es batch (ex_server (pr_exchange p)) = Some (Inr srv) \<Longrightarrow>
    me_step es ee p (p\<lparr>pr_exchange := (pr_exchange p)\<lparr>ex_server := srv\<rparr>\<rparr>)"
| server_throws: "pr_main p = Serving \<Longrightarrow> run_pass es batch (ex_server (pr_exchange p)) = Some (Inl err) \<Longrightarrow>
    me_step es ee p (p\<lparr>pr_running := False, pr_main := Joining\<rparr>)"
| engine_turns: "pr_engine p = Looping \<Longrightarrow> pr_running p \<Longrightarrow>
    engine_turn ee (take n (hd_to_engine (sp_handler (ex_server (pr_exchange p))))) (pr_exchange p) = Some (Inr b) \<Longrightarrow>
    me_step es ee p (p\<lparr>pr_exchange := hand_over n b (pr_exchange p)\<rparr>)"
| engine_throws: "pr_engine p = Looping \<Longrightarrow> pr_running p \<Longrightarrow>
    engine_turn ee (take n (hd_to_engine (sp_handler (ex_server (pr_exchange p))))) (pr_exchange p) = Some (Inl err) \<Longrightarrow>
    me_step es ee p (p\<lparr>pr_running := False, pr_engine := Died\<rparr>)"
| engine_ends: "pr_engine p = Looping \<Longrightarrow> \<not> pr_running p \<Longrightarrow> me_step es ee p (p\<lparr>pr_engine := Ended\<rparr>)"
| exits: "pr_main p = Joining \<Longrightarrow> pr_engine p \<noteq> Looping \<Longrightarrow> me_step es ee p (p\<lparr>pr_main := Exited 1\<rparr>)"

inductive me_reachable :: "env \<Rightarrow> env \<Rightarrow> me_process \<Rightarrow> me_process \<Rightarrow> bool" for es ee p0 where
  start: "me_reachable es ee p0 p0"
| step: "me_reachable es ee p0 p \<Longrightarrow> me_step es ee p q \<Longrightarrow> me_reachable es ee p0 q"

inductive_cases me_stepE: "me_step es ee p q"

text \<open>While clients are served, the engine works.\<close>

definition threads_ok :: "me_process \<Rightarrow> bool" where
  "threads_ok p \<longleftrightarrow> (case pr_main p of
      Serving \<Rightarrow> pr_running p \<and> pr_engine p = Looping
    | Joining \<Rightarrow> \<not> pr_running p \<and> pr_engine p \<noteq> Died
    | Exited code \<Rightarrow> code = 1 \<and> \<not> pr_running p \<and> pr_engine p = Ended)"

lemma me_step_exchange:
  assumes "me_step es ee p q"
  shows "pr_exchange q = pr_exchange p \<or> exchange_step es ee (pr_exchange p) (pr_exchange q)"
  using assms by cases (auto intro: exchange_step.intros)

lemma exchange_step_times:
  assumes "exchange_step es ee x y" "server_times es y"
  shows "server_times es x"
  using assms(1)
proof cases
  case (serve batch p)
  then show ?thesis using distinct_times_mono run_pass_reads [OF serve(2)] assms(2) by simp
next
  case (engine n b)
  then show ?thesis using assms(2) by (simp add: hand_over_def Let_def)
qed

lemma me_step_threads:
  assumes "me_step es ee p q" "threads_ok p" "exchange_ok es (pr_exchange p)" "accepts ee"
  shows "threads_ok q"
  using assms(1)
proof cases
  case (engine_throws n err)
  obtain b where "engine_turn ee (take n (hd_to_engine (sp_handler (ex_server (pr_exchange p))))) (pr_exchange p) = Some (Inr b)"
    by (rule engine_turn_returns [OF assms(4,3)])
  with engine_throws show ?thesis by simp
next
  case exits
  then show ?thesis using assms(2) by (cases "pr_engine p") (auto simp: threads_ok_def)
qed (use assms(2) in \<open>auto simp: threads_ok_def split: main_thread.splits\<close>)

lemma me_reachable_ok:
  assumes "me_reachable es ee (me_start x0) p" "exchange_ok es x0" "fair_iteration es" "accepts ee"
  shows "exchange_reachable es ee x0 (pr_exchange p) \<and> (server_times es (pr_exchange p) \<longrightarrow> threads_ok p)"
  using assms(1)
proof induction
  case start
  show ?case by (simp add: me_start_def exchange_reachable.start threads_ok_def)
next
  case (step p q)
  have reach: "exchange_reachable es ee x0 (pr_exchange q)"
    using step me_step_exchange [OF step.hyps(2)] exchange_reachable.step by metis
  have "threads_ok q" if "server_times es (pr_exchange q)"
  proof -
    have times: "server_times es (pr_exchange p)"
      using me_step_exchange [OF step.hyps(2)] that exchange_step_times by metis
    then have "exchange_ok es (pr_exchange p)"
      using exchange_reachable_ok [OF conjunct1 [OF step.IH] assms(3,4,2)] by blast
    with step times me_step_threads [OF step.hyps(2) _ _ assms(4)] show ?thesis by blast
  qed
  with reach show ?case by blast
qed

text \<open>C39: from the moment the exchange's two threads run, and however they take turns, as long as no
  two readings of the server's clock were equal, every \<open>sendto\<close> took the engine's datagram, and an
  iteration over an unordered map meets every entry once: while clients are served, the engine's
  thread works too; it has not died of an exception; and the process only exits, with code 1, after the
  server's loop has thrown and the engine's thread has left its loop.\<close>

theorem both_threads_serve:
  assumes "me_reachable es ee (me_start (start_exchange users md_fd clearing_fd s s')) p"
    "md_fd \<noteq> clearing_fd" "fair_iteration es" "accepts ee" "server_times es (pr_exchange p)"
  shows "pr_engine p \<noteq> Died \<and> (pr_main p = Serving \<longrightarrow> pr_running p \<and> pr_engine p = Looping) \<and>
    (\<forall>code. pr_main p = Exited code \<longrightarrow> code = 1 \<and> \<not> pr_running p \<and> pr_engine p = Ended)"
proof -
  have "threads_ok p"
    using me_reachable_ok [OF assms(1) start_exchange_ok [OF assms(2)] assms(3,4)] assms(5) by blast
  then show ?thesis by (auto simp: threads_ok_def split: main_thread.splits)
qed

lemma both_threads_serve_witness:
  "\<exists>p. me_reachable calm_env calm_env (me_start first_exchange) p \<and> pr_main p = Exited 1 \<and> pr_engine p = Ended"
proof -
  let ?p0 = "me_start first_exchange"
  have throws: "run_pass calm_env None (ex_server first_exchange) = Some (Inl EpollWaitFailed)"
    by (simp add: run_pass_def server_pass_def)
  let ?p1 = "?p0\<lparr>pr_running := False, pr_main := Joining\<rparr>"
  have "me_step calm_env calm_env ?p0 ?p1"
    by (rule server_throws) (use throws in \<open>simp_all add: me_start_def\<close>)
  then have 1: "me_reachable calm_env calm_env ?p0 ?p1" by (rule me_reachable.step [OF me_reachable.start])
  let ?p2 = "?p1\<lparr>pr_engine := Ended\<rparr>"
  have 2: "me_reachable calm_env calm_env ?p0 ?p2"
    by (rule me_reachable.step [OF 1], rule engine_ends) (simp_all add: me_start_def)
  let ?p3 = "?p2\<lparr>pr_main := Exited 1\<rparr>"
  have 3: "me_reachable calm_env calm_env ?p0 ?p3"
    by (rule me_reachable.step [OF 2], rule exits) (simp_all add: me_start_def)
  have "server_times calm_env (pr_exchange ?p3)"
    by (simp add: me_start_def first_exchange_def start_exchange_def new_parser_def no_calls_def distinct_times_def)
  from both_threads_serve [OF 3 [unfolded first_exchange_def] _ calm_fair calm_accepts this [unfolded first_exchange_def]]
  have "pr_engine ?p3 = Ended" by simp
  with 3 show ?thesis by (intro exI [of _ ?p3]) simp
qed

section \<open>The snapshot process\<close>

text \<open>
  The queue between its threads is the end of the listener's that the writer has not taken; the
  writer may find any part of it.  An exception of the listening thread is logged in the thread and
  does not touch \<open>running\<close>; whatever ends the writing loop, the exit code is 0.
\<close>

record snapshot_process =
  sp_client :: snapshot_client
  sp_writer :: snapshot_writer
  sp_running :: bool
  sp_listener :: thread
  sp_main :: main_thread

definition fresh_snapshots :: "sock \<Rightarrow> system \<Rightarrow> snapshot_process" where
  "fresh_snapshots fd s = \<lparr>sp_client = new_snapshot_client, sp_writer = new_snapshot_writer fd s,
     sp_running = True, sp_listener = Looping, sp_main = Serving\<rparr>"

definition writer_turn :: "env \<Rightarrow> sorter \<Rightarrow> nat \<Rightarrow> snapshot_process \<Rightarrow> writing" where
  "writer_turn e srt n p = process_snapshot_writer e srt
     ((sp_writer p)\<lparr>sw_queue := sw_queue (sp_writer p) @ take n (sc_queue (sp_client p))\<rparr>)"

definition taken :: "nat \<Rightarrow> snapshot_process \<Rightarrow> snapshot_process" where
  "taken n p = p\<lparr>sp_client := (sp_client p)\<lparr>sc_queue := drop n (sc_queue (sp_client p))\<rparr>\<rparr>"

inductive snapshot_step ::
  "env \<Rightarrow> sorter \<Rightarrow> (nat \<Rightarrow> recv_answer) \<Rightarrow> snapshot_process \<Rightarrow> snapshot_process \<Rightarrow> bool" for e srt live where
  listens: "sp_listener p = Looping \<Longrightarrow> sp_running p \<Longrightarrow> process_snapshot_client live (sp_client p) = Some (Inr c) \<Longrightarrow>
    snapshot_step e srt live p (p\<lparr>sp_client := c\<rparr>)"
| listener_throws: "sp_listener p = Looping \<Longrightarrow> sp_running p \<Longrightarrow>
    process_snapshot_client live (sp_client p) = Some (Inl err) \<Longrightarrow>
    snapshot_step e srt live p (p\<lparr>sp_listener := Died\<rparr>)"
| listener_ends: "sp_listener p = Looping \<Longrightarrow> \<not> sp_running p \<Longrightarrow> snapshot_step e srt live p (p\<lparr>sp_listener := Ended\<rparr>)"
| writes: "sp_main p = Serving \<Longrightarrow> writer_turn e srt n p = Inr w \<Longrightarrow>
    snapshot_step e srt live p ((taken n p)\<lparr>sp_writer := w\<rparr>)"
| writer_throws: "sp_main p = Serving \<Longrightarrow> writer_turn e srt n p = Inl (err, w) \<Longrightarrow>
    snapshot_step e srt live p ((taken n p)\<lparr>sp_writer := w, sp_running := False, sp_main := Joining\<rparr>)"
| snapshots_exit: "sp_main p = Joining \<Longrightarrow> sp_listener p \<noteq> Looping \<Longrightarrow>
    snapshot_step e srt live p (p\<lparr>sp_main := Exited 0\<rparr>)"

inductive snapshot_reachable ::
  "env \<Rightarrow> sorter \<Rightarrow> (nat \<Rightarrow> recv_answer) \<Rightarrow> snapshot_process \<Rightarrow> snapshot_process \<Rightarrow> bool" for e srt live p0 where
  snapshot_begin: "snapshot_reachable e srt live p0 p0"
| snapshot_next: "snapshot_reachable e srt live p0 p \<Longrightarrow> snapshot_step e srt live p q \<Longrightarrow> snapshot_reachable e srt live p0 q"

text \<open>Once the listener has died, no payload is ever added to the queue while the writer goes on.\<close>

lemma dead_listener_step:
  assumes "snapshot_step e srt live p q" "sp_listener p = Died"
  shows "sp_listener q = Died \<and> suffix (sc_queue (sp_client q)) (sc_queue (sp_client p))"
  using assms by cases (auto simp: taken_def suffix_drop)

lemma dead_listener_stays:
  "snapshot_reachable e srt live p q \<Longrightarrow> sp_listener p = Died \<Longrightarrow>
   sp_listener q = Died \<and> suffix (sc_queue (sp_client q)) (sc_queue (sp_client p))"
  by (induction rule: snapshot_reachable.induct)
    (auto dest: dead_listener_step intro: suffix_order.trans)

lemma snapshot_exit_is_clean:
  "snapshot_reachable e srt live (fresh_snapshots fd s) p \<Longrightarrow>
   (sp_main p = Serving \<longrightarrow> sp_running p) \<and> (\<forall>code. sp_main p = Exited code \<longrightarrow> code = 0 \<and> sp_listener p \<noteq> Looping)"
proof (induction rule: snapshot_reachable.induct)
  case (snapshot_next p q)
  show ?case using snapshot_next.hyps(2) by cases (use snapshot_next.IH in \<open>auto simp: taken_def\<close>)
qed (simp add: fresh_snapshots_def)

end
