(* ===== verification/Terminal_Viewer.thy ===== *)
theory Terminal_Viewer imports
  Client_Follows
begin

text \<open>
  \<open>viewer/md_viewer.cpp\<close>: a terminal window with the best prices of symbols 1 and 2.  The drawing library
  is third-party code; the model has the document that the program hands to it.
\<close>

section \<open>The document\<close>

text \<open>A quantity at a price, with the side that gives its colour; a price of zero stands for no data.\<close>

datatype price_box = NoData | AtPrice u32 i32 bool

datatype document = NoSummary | Summary "(u32 \<times> price_box \<times> price_box) list"

definition qty_at_prc :: "u32 \<Rightarrow> bool \<Rightarrow> md_client \<Rightarrow> price_box" where
  "qty_at_prc y is_bid c =
    (let l = (if is_bid then client_best_bid y c else client_best_ask y c)
     in if opl_price l = I32 0 then NoData else AtPrice (opl_quantity l) (opl_price l) is_bid)"

definition summary :: "md_client \<Rightarrow> document" where
  "summary c = (if opl_price (client_best_bid 1 c) = I32 0 then NoSummary
     else Summary [(1, qty_at_prc 1 True c, qty_at_prc 1 False c), (2, qty_at_prc 2 True c, qty_at_prc 2 False c)])"

text \<open>One round reads a datagram and draws; an exception of the client ends the program.\<close>

definition viewer_round :: "md_env \<Rightarrow> md_client \<times> document list \<Rightarrow> (client_error + md_client \<times> document list) option" where
  "viewer_round e cd = map_option (map_sum id (\<lambda>c. (c, snd cd @ [summary c]))) (process_md e (fst cd))"

fun viewer_rounds :: "nat \<Rightarrow> md_env \<Rightarrow> md_client \<times> document list \<Rightarrow> (client_error + md_client \<times> document list) option" where
  "viewer_rounds 0 e cd = Some (Inr cd)"
| "viewer_rounds (Suc n) e cd = (case viewer_round e cd of
      None \<Rightarrow> None
    | Some (Inl err) \<Rightarrow> Some (Inl err)
    | Some (Inr cd) \<Rightarrow> viewer_rounds n e cd)"

definition md_viewer :: "nat \<Rightarrow> md_env \<Rightarrow> (client_error + md_client \<times> document list) option" where
  "md_viewer n e = (case wait_for_snapshot e (new_md_client False) of
      None \<Rightarrow> None
    | Some (Inl err) \<Rightarrow> Some (Inl err)
    | Some (Inr c) \<Rightarrow> viewer_rounds n e (c, []))"

section \<open>What it shows\<close>

definition box_of :: "bool \<Rightarrow> ob_price_level \<Rightarrow> price_box" where
  "box_of is_bid l = (if opl_price l = I32 0 then NoData else AtPrice (opl_quantity l) (opl_price l) is_bid)"

lemma client_best_of_book:
  "client_best_bid y c = get_best_bid (book_at y c)" "client_best_ask y c = get_best_ask (book_at y c)"
  by (auto simp: client_best_bid_def client_best_ask_def book_at_def get_best_bid_def get_best_ask_def
      empty_order_book_def split: option.split)

lemma client_shows_best:
  assumes "shows_client c v"
  shows "is_best v y BuyLevels (client_best_bid y c)" "is_best v y SellLevels (client_best_ask y c)"
  unfolding client_best_of_book using best_prices [OF client_shows_book [OF assms, of y]] by simp_all

text \<open>The boxes show the best levels of the feed, and one symbol without bids hides the other.\<close>

lemma summary_shows_best:
  assumes "shows_client c v"
  shows "\<exists>b a. (\<forall>y. is_best v y BuyLevels (b y) \<and> is_best v y SellLevels (a y)) \<and>
    summary c = (if opl_price (b 1) = I32 0 then NoSummary
      else Summary [(1, box_of True (b 1), box_of False (a 1)), (2, box_of True (b 2), box_of False (a 2))])"
  using client_shows_best [OF assms]
  by (intro exI [of _ "\<lambda>y. client_best_bid y c"] exI [of _ "\<lambda>y. client_best_ask y c"])
    (simp add: summary_def qty_at_prc_def box_of_def Let_def)

lemma missing_bid_hides_all:
  assumes "shows_client c v" "\<forall>p. level_total v 1 BuyLevels p = 0"
  shows "summary c = NoSummary"
  using client_shows_best(1) [OF assms(1), of 1] assms(2) by (simp add: is_best_def summary_def)

text \<open>Each round adds one document, that of the client's state after the datagram.\<close>

lemma viewer_round_draws:
  "viewer_round e (c, ds) = Some (Inr (c', ds')) \<longleftrightarrow> process_md e c = Some (Inr c') \<and> ds' = ds @ [summary c']"
  by (cases "process_md e c"; cases "the (process_md e c)") (auto simp: viewer_round_def)

text \<open>So the last document of a run is that of a client that has made as many polls.\<close>

lemma viewer_rounds_draw:
  "viewer_rounds n e (c, ds) = Some (Inr (c', ds')) \<Longrightarrow>
   process_times e n c = Some (Inr c') \<and> length ds' = length ds + n \<and> (0 < n \<longrightarrow> last ds' = summary c')"
proof (induction n arbitrary: c ds)
  case (Suc n)
  obtain c1 ds1 where one: "viewer_round e (c, ds) = Some (Inr (c1, ds1))" "viewer_rounds n e (c1, ds1) = Some (Inr (c', ds'))"
    using Suc.prems by (auto split: option.splits sum.splits)
  then have "process_md e c = Some (Inr c1)" "ds1 = ds @ [summary c1]" by (simp_all add: viewer_round_draws)
  with Suc.IH [OF one(2)] one(2) show ?case by (cases n) auto
qed simp

end
