(* ===== verification/Fill_Channels.thy ===== *)
theory Fill_Channels imports
  Clearing_Props
begin

text \<open>
  The two ways in which a fill leaves the engine: as a response to the order's client, and as a message
  of the clearing feed.
\<close>

section \<open>What a client is told\<close>

text \<open>The signed quantity that the fills among the responses tell a client for a symbol.\<close>

definition told_change :: "u32 \<Rightarrow> u32 \<Rightarrow> oe_payload list \<Rightarrow> u32" where
  "told_change c y rs = (\<Sum>r \<leftarrow> rs. if py_msg_type r = OE_FILL \<and> py_client_id r = c \<and> py_symbol r = y
     then signed_quantity (py_side r) (py_quantity r) else 0)"

lemma told_change_simps [simp]:
  "told_change c y [] = 0" "told_change c y (rs @ rs') = told_change c y rs + told_change c y rs'"
  by (simp_all add: told_change_def)

text \<open>A call of the ladder is booked as it is told.\<close>

lemma call_told:
  "told_change c y (response_of seq active ids d) = booked_in y (filter (\<lambda>x. fst x = c) (bookings active ids d))"
  by (cases d) (auto simp: told_change_def booked_in_def payload_def)

lemma calls_told:
  "told_change c y (concat (map (response_of seq active ids) cs))
    = booked_in y (filter (\<lambda>x. fst x = c) (all_bookings active ids cs))"
  by (induction cs) (simp_all add: call_told)

lemma payload_told:
  assumes "accepts e" "engine_ok b" "clearing_ready b" "proper_ladders b"
    "is_ladder_payload p" "acceptable p b" "proper_side (py_side p)"
  obtains b' rs xs where "process_payload e p b = Some (Inr b')" "bk_to_client b' = bk_to_client b @ rs"
    "clearing_datagrams b b' = clearing_datagrams b b @ fill_datagrams (clearing_seq b + 1) xs" "balanced xs"
    "\<And>c y. told_change c y rs = booked_in y (filter (\<lambda>x. fst x = c) xs)"
proof -
  obtain L L' b' xs where b': "bk_ladders b (py_symbol p) = Some L" "process_payload e p b = Some (Inr b')"
    "ladder_op p (L\<lparr>l_calls := []\<rparr>) = Some (Inr L')"
    "xs = all_bookings (py_client_id p) (bk_client_of (at_work p b)) (l_calls L')"
    "clearing_datagrams b b' = clearing_datagrams b b @ fill_datagrams (clearing_seq b + 1) xs" "balanced xs"
    by (rule payload_bookings [OF assms])
  obtain L1 L1' b1 where b1: "bk_ladders b (py_symbol p) = Some L1" "process_payload e p b = Some (Inr b1)"
    "ladder_op p (L1\<lparr>l_calls := []\<rparr>) = Some (Inr L1')"
    "bk_to_client b1 = bk_to_client b @ responses (at_work p b) (l_calls L1')"
    by (rule process_ladder_payload [OF assms(1,2,5,6)]) blast
  have same: "b1 = b'" "L1' = L'" using b' b1 by simp_all
  have "told_change c y (responses (at_work p b) (l_calls L')) = booked_in y (filter (\<lambda>x. fst x = c) xs)" for c y
    unfolding calls_told b'(4) by (simp add: at_work_def)
  with that b'(2,5,6) b1(4) show thesis unfolding same by blast
qed

text \<open>C35: clearing and the clients agree.  When the engine works off a payload, the fills that it reports to
  each client in its responses add up, in every symbol, to the change of the client's position at a
  clearing client that hears the datagrams of the same payload.\<close>

theorem clearing_agrees_with_clients:
  assumes "accepts e" "engine_ok b" "clearing_ready b" "proper_ladders b"
    "is_ladder_payload p" "acceptable p b" "proper_side (py_side p)" "cc_last_seq k = ucast (clearing_seq b)"
  shows "\<exists>b' rs ds. process_payload e p b = Some (Inr b') \<and> bk_to_client b' = bk_to_client b @ rs \<and>
    clearing_datagrams b b' = clearing_datagrams b b @ ds \<and>
    (unat (clearing_seq b) + length ds < 2 ^ 32 \<longrightarrow>
      (\<exists>buf' k'. hear_datagrams ds (buf, k) = Inr (buf', k') \<and>
        (\<forall>c y. position k' c y = position k c y + told_change c y rs)))"
proof -
  obtain b' rs xs where b': "process_payload e p b = Some (Inr b')" "bk_to_client b' = bk_to_client b @ rs"
    "clearing_datagrams b b' = clearing_datagrams b b @ fill_datagrams (clearing_seq b + 1) xs" "balanced xs"
    "\<And>c y. told_change c y rs = booked_in y (filter (\<lambda>x. fst x = c) xs)"
    by (rule payload_told [OF assms(1-7)]) blast
  have "\<exists>buf' k'. hear_datagrams (fill_datagrams (clearing_seq b + 1) xs) (buf, k) = Inr (buf', k') \<and>
      (\<forall>c y. position k' c y = position k c y + told_change c y rs)"
    if "unat (clearing_seq b) + length (fill_datagrams (clearing_seq b + 1) xs) < 2 ^ 32"
    using hear_fills [of xs k "clearing_seq b" buf] b'(4,5) assms(8) that
    by (auto simp: balanced_def books_into_def)
  with b'(1-3) show ?thesis by blast
qed

lemma clearing_agrees_with_clients_witness:
  "\<exists>b b' rs ds. process_payload calm_env sell_payload b = Some (Inr b') \<and> bk_to_client b' = bk_to_client b @ rs \<and>
    clearing_datagrams b b' = clearing_datagrams b b @ ds \<and> clearing_seq b = 0"
proof -
  obtain b1 L1 where b1: "engine_ok b1" "clearing_ready b1" "proper_ladders b1" "bk_ladders b1 1 = Some L1"
    "represents L1 ((\<lambda>bs. [])(BuyLevels := [(I32 100, [one_buy])]))" "clearing_seq b1 = 0"
    "bk_client_of b1 7 = Some 3" "l_symbol L1 = 1" by (rule one_buy_rests)
  have p: "is_ladder_payload sell_payload" "proper_side (py_side sell_payload)"
    by (simp_all add: is_ladder_payload_def proper_side_def)
  have seq: "cc_last_seq new_clearing_client = ucast (clearing_seq b1)" by (simp add: b1(6) new_clearing_client_def)
  from clearing_agrees_with_clients [OF calm_accepts b1(1-3) p(1) one_buy_sold(1) [OF b1(5,4,8)] p(2) seq, of "[]"] b1(6)
  show ?thesis by blast
qed

end
