(* ===== verification/Spec2Isabelle.thy ===== *)
theory Spec2Isabelle imports
  Prelude System Md_Protocol Order_Ladder Ladder_Spec Ladder_Book Ladder_Refine Ladder_Ops Ladder_Sim
  Ladder_Props Oe_Protocol Publishers Me_Broker Broker_Props Oe_Validator Stream_Parser Client_Handler
  Handler_Inv Oe_Server Handler_Props Exchange Feed_View Ladder_Feed Broker_Feed Bot_Order_Book Md_Client
  Client_Follows Client_Props Snapshot_Recovery Snapshot_Writer Snapshot_Orders Snapshot_Props
  Snapshot_Catchup Catchup_Props Clearing_Client Clearing_Props Oe_Client Oe_Client_Props
  Trading Stack_Manager Stack_Props Market_Makers Takers Maker_Props Bot_Runner Runner_Props Viewer Viewer_Props
  Web_Numbers Web_Page Web_Props Sockets Socket_Props Processes Terminal_Viewer Fill_Channels
begin

text \<open>
  NDFEX, an exchange simulator in C++: a model of its programs and what is proved of them.

  \<^bold>\<open>The program and its parts.\<close>  The exchange is one process (\<open>matching_engine/matching_engine.cpp\<close>)
  with two threads.  The server thread accepts connections and cuts their bytes into requests
  (\<open>order_entry/oe_server.cpp\<close>, \<open>oe_stream_parser.H\<close>), keeps the sessions and the ids of the clients'
  orders (\<open>oe_client_handler.cpp\<close>) and checks orders (\<open>oe_validator.cpp\<close>); it puts one payload per
  order request into a queue.  The engine's thread (\<open>me_broker.H\<close>) takes the payloads, works them off
  on one order ladder per symbol (\<open>order_ladder.H\<close>), and turns the ladders' calls into responses on a
  second queue, market data (\<open>md_mcast.cpp\<close>) and clearing messages (\<open>clearing_mcast.cpp\<close>), which are
  multicast.  The listeners are other processes: the snapshot process (\<open>market_data/\<close>) rebuilds the
  open orders from the live feed and sends snapshots for clients that come late; the bots (\<open>bots/\<close>)
  follow the feed in order books, and trade; the clearing client (\<open>web_data/clearing_client.cpp\<close>) keeps
  positions, and the web page (\<open>web_data/web_data.cpp\<close>) sends them to browsers.

  \<^bold>\<open>Theories and sources.\<close>  Every theory opens with the files it models.
  \<^item> \<^theory_text>\<open>Prelude\<close>: machine words, \<open>int32_t\<close> as the type \<open>i32\<close> with its instance of \<open>linorder\<close>, packed
    little-endian structs, \<open>std::map\<close> as a sorted association list with the locale \<open>key_order\<close>, and the
    shapes of results.  \<^theory_text>\<open>System\<close>: the clock of \<open>utils.cpp\<close> and the system calls; what the operating
    system answers is a parameter \<open>env\<close>, and what the program did is kept in \<open>system\<close>.
  \<^item> \<^theory_text>\<open>Order_Ladder\<close> models \<open>order_ladder.H\<close> pointer for pointer: a heap of orders, the pool, the doubly
    linked lists of the price levels, the index by id and the callbacks made.  \<^theory_text>\<open>Ladder_Spec\<close> is the
    book with price-time priority that it should be, with the modification that is intended beside the
    one that is coded; \<^theory_text>\<open>Ladder_Book\<close>, \<^theory_text>\<open>Ladder_Refine\<close>, \<^theory_text>\<open>Ladder_Ops\<close> and
    \<^theory_text>\<open>Ladder_Sim\<close> prove that each operation of the code performs the book's; \<^theory_text>\<open>Ladder_Props\<close> draws the
    consequences over all reachable ladders.
  \<^item> \<^theory_text>\<open>Md_Protocol\<close>, \<^theory_text>\<open>Oe_Protocol\<close>: the wire formats of \<open>md_protocol.H\<close> and \<open>oe_protocol.H\<close>, and the queue
    of \<open>spsc_oe_queue.H\<close>.  \<^theory_text>\<open>Publishers\<close>: \<open>md_mcast.cpp\<close> and \<open>clearing_mcast.cpp\<close>.  \<^theory_text>\<open>Me_Broker\<close>,
    \<^theory_text>\<open>Broker_Props\<close>: the engine's thread.
  \<^item> \<^theory_text>\<open>Oe_Validator\<close>, \<^theory_text>\<open>Stream_Parser\<close>, \<^theory_text>\<open>Client_Handler\<close>, \<^theory_text>\<open>Oe_Server\<close> with \<^theory_text>\<open>Handler_Inv\<close> and
    \<^theory_text>\<open>Handler_Props\<close>: the order entry side.  \<^theory_text>\<open>Exchange\<close> composes both threads as a step relation.
  \<^item> \<^theory_text>\<open>Feed_View\<close>: what a reader of the feed should know, and the locale \<open>feed_reader\<close>
    of those that get to know it, with the messages that they can read without harm.  \<^theory_text>\<open>Ladder_Feed\<close>
    and \<^theory_text>\<open>Broker_Feed\<close> show that the engine's messages keep this view equal to its ladders.
    \<^theory_text>\<open>Bot_Order_Book\<close>, \<^theory_text>\<open>Md_Client\<close>, \<^theory_text>\<open>Client_Follows\<close>, \<^theory_text>\<open>Client_Props\<close>: the bots' books and market data
    client.  \<^theory_text>\<open>Snapshot_Writer\<close>, \<^theory_text>\<open>Snapshot_Orders\<close>, \<^theory_text>\<open>Snapshot_Props\<close>: the snapshot process.
    \<^theory_text>\<open>Snapshot_Recovery\<close>, \<^theory_text>\<open>Snapshot_Catchup\<close>, \<^theory_text>\<open>Catchup_Props\<close>: a client's recovery from snapshots.
  \<^item> \<^theory_text>\<open>Clearing_Client\<close>, \<^theory_text>\<open>Clearing_Props\<close>: positions from the clearing feed.  \<^theory_text>\<open>Fill_Channels\<close>: that they are what the
    clients are told.
  \<^item> \<^theory_text>\<open>Oe_Client\<close>, \<^theory_text>\<open>Oe_Client_Props\<close>: the bots' order entry client.  \<^theory_text>\<open>Trading\<close>: what the bots share.
    \<^theory_text>\<open>Stack_Manager\<close>, \<^theory_text>\<open>Stack_Props\<close>: the stacking market maker (\<open>stack_manager.cpp\<close>,
    \<open>fair_value_stack_mm.cpp\<close>).  \<^theory_text>\<open>Market_Makers\<close>, \<^theory_text>\<open>Takers\<close>, \<^theory_text>\<open>Maker_Props\<close>: the market maker around a
    fair value, the takers and the resting orders.
  \<^item> \<^theory_text>\<open>Bot_Runner\<close>, \<^theory_text>\<open>Runner_Props\<close>: the programs that run the bots (\<open>bot_runner.cpp\<close>,
    \<open>stable_bot_runner.cpp\<close>, \<open>smarter_bots.cpp\<close>, \<open>reject_bot.cpp\<close>).
  \<^item> \<^theory_text>\<open>Viewer\<close>, \<^theory_text>\<open>Viewer_Props\<close>: the programs that print a capture (\<open>bbo_printer.cpp\<close>, \<open>pcap_printer.cpp\<close>)
    and the snapshot feed (\<open>print_snapshots.cpp\<close>).  \<^theory_text>\<open>Terminal_Viewer\<close>: the window of \<open>md_viewer.cpp\<close>.
  \<^item> \<^theory_text>\<open>Web_Numbers\<close>: how the web page computes profits in \<open>double\<close> and how an \<open>ostream\<close> writes them, with the
    numbers of JSON.  \<^theory_text>\<open>Web_Page\<close>, \<^theory_text>\<open>Web_Props\<close>: the web page's text and main loop (\<open>web_data.cpp\<close>), and
    JSON's grammar.
  \<^item> \<^theory_text>\<open>Sockets\<close>, \<^theory_text>\<open>Socket_Props\<close>: the system calls of all constructors with the kernel's table of descriptors,
    and the start of the exchange and of the snapshot process (\<open>matching_engine.cpp\<close>, \<open>md_snapshots.cpp\<close>).
    \<^theory_text>\<open>Processes\<close>: their threads, from the start to the exit.

  \<^bold>\<open>How the state corresponds.\<close>  A class is a record with the prefix of its name (\<open>l_\<close> for the ladder,
  \<open>bk_\<close> for the broker, \<open>ch_\<close> for the client handler, \<open>mc_\<close> and \<open>oc_\<close> for the bots' clients and so on)
  and a method a function over it, named as the method where HOL leaves the name free.  Callbacks are
  recorded in the order they are made and handed on as the code hands them on.  Integers have the
  width of the code's, and the places where they wrap are part of the theorems.  An exception is
  an \<open>Inl\<close>, a loop that may not end a \<open>partial_function (option)\<close>, whose \<open>None\<close> stands for not
  returning.  No definition has fuel: where the code does return, a theorem says so
  (\<open>reachable_operations_return\<close>, \<open>exchange_never_stops\<close> and the lemmas of each loop).

  \<^bold>\<open>The interfaces.\<close>  \<open>key_order\<close> is what \<open>std::map\<close> and \<open>std::set\<close> ask of a comparison; it is
  interpreted on the price order of both sides of a ladder, on the orders of the bots' books and on
  the stacks.  \<open>request_handler\<close> is what the parser and the server ask of the client handler, and is
  interpreted on it, once for its invariant and once with the clock.  \<open>feed_reader\<close> is what makes a
  process that applies market data a faithful reader, and is interpreted on the bots' client, on
  the snapshot writer, once for a feed of its two symbols and once for that of all, and on the capture
  printers.  \<open>book_relation\<close> is what a client's book may be to the feed, and has two interpretations: the
  book has the right orders, or also the right quantities at the prices.

  \<^bold>\<open>What the groups of theorems show.\<close>
  \<^item> The ladder is a book with price-time priority: refinement of all operations, an uncrossed book, no
    trade beyond a limit, conservation of quantity, nothing immediate-or-cancel at rest, termination;
    and where the code departs from what it announces (the numbers of a modified order that has
    fills, a side byte that is neither side, an id used twice).
  \<^item> The engine publishes each of the ladder's calls once and in order; the threads do not stop in a
    state reached under the conditions named below; a payload has exactly one client, sessions are unique, open orders lead back to
    their clients; and the ways in which a client gets another's responses.
  \<^item> The byte streams: the framing of streams however they are cut.
  \<^item> The feed end to end: after a payload that the feed can tell (\<open>shown_well\<close>), a client that hears its
    datagrams has the engine's orders, the snapshot process keeps the open orders of its two symbols, and
    a late client that starts from a snapshot arrives at the live orders; and when it does not.  The
    prices are right, too, until a trade uses up a whole order.
  \<^item> Clearing is zero-sum and agrees with the engine's fills and with what the clients are told, while all
    orders' sides are BUY or SELL and until a datagram is lost.
  \<^item> The bots: their requests arrive as sent, their positions are their fills, and what the makers and
    takers send is valid, on their side of the market, and never rests where it should not, under ids
    that no program uses twice.
  \<^item> The web page is JSON with the positions of all clients and profits to six digits, and every browser that
    is connected gets it.  The terminal window shows the best prices of the feed.
  \<^item> The sockets: what every set-up leaves behind, whichever call fails, and that the exchange comes up in
    its initial state on new and distinct sockets; while it serves clients, both threads work.

  \<^bold>\<open>Assumptions and bounds.\<close>  The clock is the environment's; where ids are taken from the clock,
  theorems that need them distinct say so (\<open>server_times\<close>); where a slow system would make a send give up,
  \<open>prompt\<close> bounds the time between two readings in a row.  \<open>accepts\<close> says that \<open>sendto\<close> takes the engine's
  datagrams, \<open>fair_iteration\<close> that an iteration over an unordered map meets every entry once.  \<open>std::sort\<close>
  is a parameter that promises a sorted permutation.  When a trade uses up a whole order,
  the bots' books read memory that was freed a moment before (\<open>order_book.cpp\<close>); what they find there is
  a parameter, of which no theorem assumes anything.  Undefined behaviour of C++ that the code can reach (indices out of range, overflow of
  signed integers, a division by zero) is either a branch of its own or named in the text of the
  definition.

  \<^bold>\<open>Not modelled.\<close>  Logging is left out, except for the clock reads inside of it.  The queue between the
  threads is third-party code and stands for a list; so are the libraries for web sockets, terminals
  and captures, whose answers are arguments.  The kernel's answers are arguments too, and what the
  theorems ask of them is named (\<open>honest_kernel\<close>, \<open>accepts\<close>).  The processor affinities
  are left out.  \<open>clearing_data.cpp\<close> is not
  built and calls a function that does not exist; \<open>trading_system.cpp\<close> is a sketch of empty classes.  The
  Python services, the scripts and the web application are in other languages.
\<close>

end
